(* ===== verification/TSVN_Prelude.thy ===== *)
theory TSVN_Prelude
  imports Main "HOL-Library.Word"
begin

text \<open>
  Shared vocabulary of the development: the machine integer types of the sources, the
  exception result type, and the generic lemmas on words and lists that several components
  use. The collections \<open>machine_simps\<close> (arithmetic of fixed-width integers) and
  \<open>list_simps\<close> (lists and list update) are extended by the components.
\<close>

unbundle bit_operations_syntax

named_theorems machine_simps \<open>fixed-width integer arithmetic\<close>
named_theorems list_simps \<open>list manipulation shared by the components\<close>

section \<open>Machine types\<close>

type_synonym byte = "8 word"
type_synonym dword = "32 word"
type_synonym qword = "64 word"

section \<open>Results of code that may raise\<close>

type_synonym ('e, 'a) result = "'e + 'a"

abbreviation Raise :: "'e \<Rightarrow> ('e, 'a) result" where
  "Raise \<equiv> Inl"

abbreviation Return :: "'a \<Rightarrow> ('e, 'a) result" where
  "Return \<equiv> Inr"

definition bind_result :: "('e, 'a) result \<Rightarrow> ('a \<Rightarrow> ('e, 'b) result) \<Rightarrow> ('e, 'b) result" where
  "bind_result m f = (case m of Inl e \<Rightarrow> Inl e | Inr a \<Rightarrow> f a)"

lemma bind_result_simps [simp]:
  "bind_result (Inl e) f = Inl e"
  "bind_result (Inr a) f = f a"
  by (simp_all add: bind_result_def)

lemma bind_result_Inr_iff:
  "bind_result m f = Inr b \<longleftrightarrow> (\<exists>a. m = Inr a \<and> f a = Inr b)"
  by (cases m) auto

section \<open>Words\<close>

lemma unat_drop_bit_div [machine_simps]: "unat (drop_bit n w) = unat w div 2 ^ n"
  for w :: "'a::len word"
  by (simp only: unat_drop_bit_eq) (rule drop_bit_eq_div)

lemma unat_take_bit_mod [machine_simps]: "unat (take_bit n w) = unat w mod 2 ^ n"
  for w :: "'a::len word"
  by (simp only: unsigned_take_bit_eq) (rule take_bit_eq_mod)

lemma unat_ucast_mod [machine_simps]:
  "unat (ucast (w :: 'a::len word) :: 'b::len word) = unat w mod 2 ^ LENGTH('b)"
  by (simp only: unsigned_ucast_eq) (rule take_bit_eq_mod)

lemma unat_push_bit_mod: "unat (push_bit n w) = unat w * 2 ^ n mod 2 ^ LENGTH('a)"
  for w :: "'a::len word"
  by (rule trans [OF unsigned_push_bit_eq]) (simp only: take_bit_eq_mod push_bit_eq_mult)

lemma unat_less_256 [simp]: "unat (b :: byte) < 256"
  using unsigned_less [of b] by simp

lemma unat_lt_2p32 [simp]: "unat (d :: dword) < 4294967296"
  using unsigned_less [of d] by simp

lemma word_nonzero: "x \<noteq> 0 \<longleftrightarrow> 0 < unat x" for x :: dword
  by (simp add: word_unat_eq_iff)

lemma unat_minus_wrap:
  "unat (a - b) = (if unat b \<le> unat a then unat a - unat b else 2 ^ 32 + unat a - unat b)" for a b :: dword
  by (auto simp: unat_sub_if_size word_size)

section \<open>Memory\<close>

text \<open>Writing bytes into a memory block; \<open>None\<close> is a write outside of it.\<close>

definition store :: "byte list \<Rightarrow> nat \<Rightarrow> byte list \<Rightarrow> byte list option" where
  "store mem at bs = (if at + length bs \<le> length mem then Some (take at mem @ bs @ drop (at + length bs) mem) else None)"

lemma store_ok:
  "at + length bs \<le> length mem \<Longrightarrow> store mem at bs = Some (take at mem @ bs @ drop (at + length bs) mem)"
  by (simp add: store_def)

end
