(* ===== verification/PackedStreams.thy ===== *)
theory PackedStreams
  imports TSVN_Prelude
begin

text \<open>
  The integer streams of the log cache (\<^verbatim>\<open>src/src/LogCache/Streams\<close>): the 7/8 code of
  \<^verbatim>\<open>CPackedDWORDOutStreamBase::InternalAdd\<close>, its run-length layer, the sign folding of
  \<^verbatim>\<open>CPackedIntegerOutStreamBase\<close>, the differential layer \<^verbatim>\<open>CDiffOutStreamBase\<close>, the
  64-bit time stamps and the vector operators \<^verbatim>\<open><<\<close> and \<^verbatim>\<open>>>\<close>, with their readers.
  A writer is a record holding the bytes produced so far, a reader a record holding the bytes
  not yet consumed; reading past the end is the exception of \<^verbatim>\<open>CBinaryInStreamBase::GetByte\<close>.
  The interface \<open>value_stream\<close> states what a reader/writer pair promises to
  the vector operators, and is interpreted on all four streams.
\<close>

section \<open>Byte level\<close>

datatype stream_error = UnexpectedEndOfStream

fun GetByte :: "byte list \<Rightarrow> (stream_error, byte \<times> byte list) result" where
  "GetByte [] = Raise UnexpectedEndOfStream"
| "GetByte (b # bs) = Return (b, bs)"

text \<open>\<^verbatim>\<open>InternalAdd\<close>: the bytes of one value in 7/8 code.\<close>

lemma drop_7_less: "\<not> v < 0x80 \<Longrightarrow> unat (drop_bit 7 v) < unat v" for v :: dword
proof -
  assume "\<not> v < 0x80"
  then have "0x80 \<le> unat v" by (simp add: word_less_nat_alt)
  then show ?thesis by (simp add: unat_drop_bit_div)
qed

function InternalAdd :: "dword \<Rightarrow> byte list" where
  "InternalAdd value =
     (if value < 0x80 then [ucast value]
      else (ucast (value AND 0x7f) + 0x80) # InternalAdd (drop_bit 7 value))"
  by pat_completeness auto
termination by (relation "measure unat") (simp_all add: drop_7_less)

declare InternalAdd.simps [simp del]

text \<open>
  \<^verbatim>\<open>InternalGetValue\<close>: the loop keeps the value read so far and the shift. The processor masks
  the shift count of a 32-bit shift to five bits, so that is what an overlong code does.
\<close>

fun InternalGetLoop :: "dword \<Rightarrow> nat \<Rightarrow> byte list \<Rightarrow> (stream_error, dword \<times> byte list) result" where
  "InternalGetLoop result shift [] = Raise UnexpectedEndOfStream"
| "InternalGetLoop result shift (b # bs) =
     (let c = ucast b :: dword in
      if c < 0x80 then Return (result + push_bit (shift mod 32) c, bs)
      else InternalGetLoop (result + push_bit (shift mod 32) (c - 0x80)) (shift + 7) bs)"

definition InternalGetValue :: "byte list \<Rightarrow> (stream_error, dword \<times> byte list) result" where
  "InternalGetValue bytes =
     bind_result (GetByte bytes) (\<lambda>(b, bs).
       let result = ucast b :: dword in
       if result < 0x80 then Return (result, bs)
       else InternalGetLoop (result - 0x80) 7 bs)"

lemma and_7f_eq: "v AND 0x7f = take_bit 7 v" for v :: dword
  by (simp add: take_bit_eq_mask mask_eq_exp_minus_1)

lemma unat_low_bits: "unat (take_bit 7 v) < 128" for v :: dword
  using take_bit_nat_less_exp [of 7 "unat v"] by (simp add: unsigned_take_bit_eq)

lemma unat_head_byte:
  "unat (ucast (take_bit 7 v) + 0x80 :: byte) = unat (take_bit 7 v) + 128" for v :: dword
  using unat_low_bits [of v]
  by (simp add: unat_word_ariths unat_ucast_mod)

lemma ucast_head_byte:
  "(ucast (ucast (take_bit 7 v) + 0x80 :: byte) :: dword) = take_bit 7 v + 0x80" for v :: dword
  using unat_low_bits [of v]
  by (intro word_unat_eq_iff [THEN iffD2])
     (simp add: unat_ucast_mod unat_head_byte unat_word_ariths)

lemma ucast_small_byte:
  "v < 0x80 \<Longrightarrow> (ucast (ucast v :: byte) :: dword) = v" for v :: dword
  by (intro word_unat_eq_iff [THEN iffD2])
     (simp add: unat_ucast_mod word_less_nat_alt)

lemma head_byte_not_small: "\<not> take_bit 7 v + 0x80 < (0x80 :: dword)" for v :: dword
  using unat_low_bits [of v] by (simp add: word_less_nat_alt unat_word_ariths)

lemma split_low_bits: "take_bit 7 v + push_bit 7 (drop_bit 7 v) = v" for v :: dword
  using bits_ident [of 7 v] by (simp add: add.commute)

text \<open>Reading back a coded value from the loop, with whatever follows it.\<close>

lemma InternalGetLoop_InternalAdd:
  assumes "unat v < 2 ^ (32 - shift)" and "shift < 32"
  shows "InternalGetLoop acc shift (InternalAdd v @ rest) = Return (acc + push_bit shift v, rest)"
  using assms
proof (induction v arbitrary: acc shift rule: InternalAdd.induct)
  case (1 v)
  show ?case
  proof (cases "v < 0x80")
    case True
    with 1 show ?thesis
      by (simp add: InternalAdd.simps [of v] ucast_small_byte)
  next
    case False
    then have big: "128 \<le> unat v" by (simp add: word_less_nat_alt)
    have "shift + 7 < 32"
    proof (rule ccontr)
      assume "\<not> shift + 7 < 32"
      then have "(2::nat) ^ (32 - shift) \<le> 2 ^ 7" by (intro power_increasing) auto
      with 1(2) big show False by simp
    qed
    moreover from this have eq: "32 - shift = (32 - (shift + 7)) + 7" by simp
    have "(2::nat) ^ (32 - shift) = 2 ^ (32 - (shift + 7)) * 2 ^ 7"
      by (subst eq) (rule power_add)
    with 1(2) have "unat (drop_bit 7 v) < 2 ^ (32 - (shift + 7))"
      by (simp add: unat_drop_bit_div less_mult_imp_div_less)
    ultimately have IH: "InternalGetLoop (acc + push_bit shift (take_bit 7 v)) (shift + 7)
        (InternalAdd (drop_bit 7 v) @ rest) =
        Return (acc + push_bit shift (take_bit 7 v) + push_bit (shift + 7) (drop_bit 7 v), rest)"
      using 1(1) [OF False] by simp
    have "push_bit shift (take_bit 7 v) + push_bit (shift + 7) (drop_bit 7 v) = push_bit shift v"
      by (metis split_low_bits push_bit_add push_bit_push_bit)
    with IH False 1(3) show ?thesis
      by (simp add: InternalAdd.simps [of v] and_7f_eq ucast_head_byte head_byte_not_small
          add.assoc)
  qed
qed

theorem InternalGetValue_InternalAdd:
  "InternalGetValue (InternalAdd v @ rest) = Return (v, rest)"
proof (cases "v < 0x80")
  case True
  then show ?thesis
    by (simp add: InternalGetValue_def InternalAdd.simps [of v] ucast_small_byte)
next
  case False
  have "unat (drop_bit 7 v) < 2 ^ (32 - 7)"
    using unat_lt_2p32 [of v] by (simp add: unat_drop_bit_div less_mult_imp_div_less)
  with False show ?thesis
    by (simp add: InternalGetValue_def InternalAdd.simps [of v] and_7f_eq ucast_head_byte
        head_byte_not_small InternalGetLoop_InternalAdd split_low_bits)
qed

text \<open>A successful read consumes at least one byte.\<close>

lemma GetByte_length: "GetByte bs = Return (b, bs') \<Longrightarrow> length bs' < length bs"
  by (cases bs) auto

lemma InternalGetLoop_length:
  "InternalGetLoop acc shift bs = Return (v, bs') \<Longrightarrow> length bs' < length bs"
  by (induction acc shift bs rule: InternalGetLoop.induct)
     (auto simp: Let_def less_SucI split: if_splits)

lemma InternalGetValue_length:
  "InternalGetValue bs = Return (v, bs') \<Longrightarrow> length bs' < length bs"
  by (cases bs)
     (auto simp: InternalGetValue_def Let_def less_SucI dest: InternalGetLoop_length
        split: if_splits)

section \<open>The run-length layer: \<^verbatim>\<open>CPackedDWORDOutStreamBase\<close>\<close>

record packed_out =
  po_data :: "byte list"
  po_lastValue :: dword
  po_count :: dword

record packed_in =
  pin_rest :: "byte list"
  pin_lastValue :: dword
  pin_count :: dword

definition new_packed_out :: packed_out where
  "new_packed_out = \<lparr>po_data = [], po_lastValue = 0, po_count = 0\<rparr>"

definition AutoOpen :: "byte list \<Rightarrow> packed_in" where
  "AutoOpen bs = \<lparr>pin_rest = bs, pin_lastValue = 0, pin_count = 0\<rparr>"

definition emit :: "dword \<Rightarrow> packed_out \<Rightarrow> packed_out" where
  "emit value s = s\<lparr>po_data := po_data s @ InternalAdd value\<rparr>"

definition FlushLastValue :: "packed_out \<Rightarrow> packed_out" where
  "FlushLastValue s =
     (if po_count s > 0
      then emit (po_lastValue s) (emit (po_count s) (emit 0 s))
      else s)"

definition Add :: "packed_out \<Rightarrow> dword \<Rightarrow> packed_out" where
  "Add s value =
     (if value = po_lastValue s then s\<lparr>po_count := po_count s + 1\<rparr>
      else
        (let s' =
           (if po_count s = 1 then emit (po_lastValue s + 1) s
            else if po_count s = 2 \<and> po_lastValue s < 0x80
              then (emit (po_lastValue s + 1) (emit (po_lastValue s + 1) s))\<lparr>po_count := 1\<rparr>
            else (FlushLastValue s)\<lparr>po_count := 1\<rparr>)
         in s'\<lparr>po_lastValue := value\<rparr>))"

definition AddSizeValue :: "packed_out \<Rightarrow> nat \<Rightarrow> packed_out" where
  "AddSizeValue s value = emit (of_nat value) s"

text \<open>\<^verbatim>\<open>FlushData\<close>, called when the stream is closed; the result is the stream's content.\<close>

definition FlushData :: "packed_out \<Rightarrow> byte list" where
  "FlushData s = po_data (FlushLastValue s)"

function GetValue :: "packed_in \<Rightarrow> (stream_error, dword \<times> packed_in) result" where
  "GetValue s =
     (if pin_count s \<noteq> 0
      then Return (pin_lastValue s, s\<lparr>pin_count := pin_count s - 1\<rparr>)
      else
        (case InternalGetValue (pin_rest s) of
          Inl e \<Rightarrow> Raise e
        | Inr (res, bs) \<Rightarrow>
            (if res \<noteq> 0 then Return (res - 1, s\<lparr>pin_rest := bs\<rparr>)
             else
               (case InternalGetValue bs of
                 Inl e \<Rightarrow> Raise e
               | Inr (c, bs1) \<Rightarrow>
                   (case InternalGetValue bs1 of
                     Inl e \<Rightarrow> Raise e
                   | Inr (v, bs2) \<Rightarrow>
                       GetValue (s\<lparr>pin_rest := bs2, pin_lastValue := v, pin_count := c\<rparr>))))))"
  by pat_completeness auto
termination
  by (relation "measure (length \<circ> pin_rest)")
     (auto dest!: InternalGetValue_length)

declare GetValue.simps [simp del]

definition GetSizeValue :: "packed_in \<Rightarrow> (stream_error, nat \<times> packed_in) result" where
  "GetSizeValue s =
     bind_result (InternalGetValue (pin_rest s)) (\<lambda>(v, bs). Return (unat v, s\<lparr>pin_rest := bs\<rparr>))"

text \<open>
  Abstract view of a stream's content: a list of tokens, each a literal or a run, as the
  header comment of \<^verbatim>\<open>PackedDWORDOutStream.h\<close> describes the encoding.
\<close>

datatype token = Lit dword | Run dword dword

fun token_bytes :: "token \<Rightarrow> byte list" where
  "token_bytes (Lit v) = InternalAdd (v + 1)"
| "token_bytes (Run c v) = InternalAdd 0 @ InternalAdd c @ InternalAdd v"

fun token_values :: "token \<Rightarrow> dword list" where
  "token_values (Lit v) = [v]"
| "token_values (Run c v) = replicate (unat c) v"

fun token_ok :: "token \<Rightarrow> bool" where
  "token_ok (Lit v) = (v \<noteq> - 1)"
| "token_ok (Run c v) = (c \<noteq> 0)"

abbreviation tokens_bytes :: "token list \<Rightarrow> byte list" where
  "tokens_bytes ts \<equiv> concat (map token_bytes ts)"

abbreviation tokens_values :: "token list \<Rightarrow> dword list" where
  "tokens_values ts \<equiv> concat (map token_values ts)"

definition writes :: "packed_out \<Rightarrow> byte list \<Rightarrow> dword list \<Rightarrow> bool" where
  "writes s pre vs \<longleftrightarrow>
     (\<exists>ts. list_all token_ok ts \<and> po_data s = pre @ tokens_bytes ts \<and>
           vs = tokens_values ts @ replicate (unat (po_count s)) (po_lastValue s))"

definition reads_to :: "byte list \<Rightarrow> packed_in \<Rightarrow> dword list \<Rightarrow> bool" where
  "reads_to rest s vs \<longleftrightarrow>
     (\<exists>ts. list_all token_ok ts \<and> pin_rest s = tokens_bytes ts @ rest \<and>
           vs = replicate (unat (pin_count s)) (pin_lastValue s) @ tokens_values ts)"

definition reads :: "packed_in \<Rightarrow> dword list \<Rightarrow> bool" where
  "reads s vs \<longleftrightarrow> (\<exists>rest. reads_to rest s vs)"

lemma dword_suc_count:
  "Suc (unat c) < 2 ^ 32 \<Longrightarrow> unat (c + 1) = Suc (unat c)" for c :: dword
  by (simp add: unat_word_ariths)

lemma replicate_pred:
  "c \<noteq> 0 \<Longrightarrow> replicate (unat c) v = v # replicate (unat (c - 1)) v" for c :: dword
  by (simp add: unat_minus_one unat_gt_0 flip: replicate_Suc)

lemma replicate_two: "replicate 2 v = [v, v]"
  by (simp add: numeral_2_eq_2)

lemma writes_new: "writes new_packed_out [] []"
  unfolding writes_def new_packed_out_def by (intro exI [of _ "[]"]) simp

lemma writes_AddSizeValue:
  assumes "po_count s = 0" and "po_data s = pre"
  shows "writes (AddSizeValue s n) (pre @ InternalAdd (of_nat n)) []"
  unfolding writes_def using assms
  by (intro exI [of _ "[]"]) (simp add: AddSizeValue_def emit_def)

lemma writes_Add:
  assumes "writes s pre vs" and "Suc (length vs) < 2 ^ 32" and "- 1 \<notin> set vs"
  shows "writes (Add s v) pre (vs @ [v])"
proof -
  let ?c = "po_count s" and ?l = "po_lastValue s"
  from assms(1) obtain ts where ts: "list_all token_ok ts"
    and data: "po_data s = pre @ tokens_bytes ts"
    and vs: "vs = tokens_values ts @ replicate (unat ?c) ?l"
    unfolding writes_def by blast
  have last_ok: "?c \<noteq> 0 \<Longrightarrow> ?l \<noteq> - 1"
    using assms(3) by (auto simp: vs unat_eq_0 in_set_replicate)
  have suc: "unat (?c + 1) = Suc (unat ?c)"
    using assms(2) by (intro dword_suc_count) (simp add: vs)
  show ?thesis
  proof (cases "v = ?l")
    case True
    then show ?thesis unfolding writes_def
      by (intro exI [of _ ts]) (simp add: Add_def ts data vs suc replicate_append_same)
  next
    case False
    consider (one) "?c = 1" | (two) "?c = 2" "?l < 0x80" | (none) "?c = 0"
      | (run) "?c \<noteq> 0" "?c \<noteq> 1" "?c = 2 \<longrightarrow> \<not> ?l < 0x80" by blast
    then show ?thesis
    proof cases
      case one
      with last_ok False show ?thesis unfolding writes_def
        by (intro exI [of _ "ts @ [Lit ?l]"]) (simp add: Add_def emit_def ts data vs)
    next
      case two
      with last_ok False show ?thesis unfolding writes_def
        by (intro exI [of _ "ts @ [Lit ?l, Lit ?l]"])
           (simp add: Add_def emit_def ts data vs replicate_two)
    next
      case none
      with False show ?thesis unfolding writes_def
        by (intro exI [of _ ts]) (simp add: Add_def FlushLastValue_def ts data vs)
    next
      case run
      with False show ?thesis unfolding writes_def
        by (intro exI [of _ "ts @ [Run ?c ?l]"])
           (auto simp: Add_def FlushLastValue_def emit_def ts data vs word_gt_0)
    qed
  qed
qed

lemma writes_foldl_Add:
  assumes "writes s pre ws" and "length (ws @ vs) < 2 ^ 32" and "- 1 \<notin> set (ws @ vs)"
  shows "writes (foldl Add s vs) pre (ws @ vs)"
  using assms
proof (induction vs arbitrary: s ws)
  case Nil
  then show ?case by simp
next
  case (Cons v vs)
  then have "writes (Add s v) pre (ws @ [v])" by (intro writes_Add) auto
  from Cons.IH [OF this] Cons.prems show ?case by simp
qed

lemma reads_FlushData:
  assumes "writes s pre vs" and "- 1 \<notin> set vs"
  shows "\<exists>bs. FlushData s = pre @ bs \<and> reads (AutoOpen bs) vs"
proof -
  let ?c = "po_count s" and ?l = "po_lastValue s"
  from assms(1) obtain ts where ts: "list_all token_ok ts"
    and data: "po_data s = pre @ tokens_bytes ts"
    and vs: "vs = tokens_values ts @ replicate (unat ?c) ?l"
    unfolding writes_def by blast
  define us where "us = (if ?c > 0 then ts @ [Run ?c ?l] else ts)"
  have "list_all token_ok us" "FlushData s = pre @ tokens_bytes us" "vs = tokens_values us"
    by (simp_all add: us_def ts vs data FlushData_def FlushLastValue_def emit_def word_gt_0)
  then show ?thesis
    unfolding reads_def reads_to_def AutoOpen_def by (intro exI [of _ "tokens_bytes us"]) auto
qed

lemma GetValue_reads_to:
  "reads_to rest s (v # vs) \<Longrightarrow> \<exists>s'. GetValue s = Return (v, s') \<and> reads_to rest s' vs"
proof (induction s rule: GetValue.induct)
  case (1 s)
  from "1.prems" obtain ts where ts: "list_all token_ok ts"
    and data: "pin_rest s = tokens_bytes ts @ rest"
    and vs: "v # vs = replicate (unat (pin_count s)) (pin_lastValue s) @ tokens_values ts"
    unfolding reads_to_def by blast
  show ?case
  proof (cases "pin_count s = 0")
    case False
    then have "v = pin_lastValue s"
      and "vs = replicate (unat (pin_count s - 1)) (pin_lastValue s) @ tokens_values ts"
      using vs by (simp_all add: replicate_pred)
    with False ts data show ?thesis
      by (intro exI [of _ "s\<lparr>pin_count := pin_count s - 1\<rparr>"])
         (auto simp: GetValue.simps [of s] reads_to_def)
  next
    case True
    with vs obtain t us where us: "ts = t # us" by (cases ts) auto
    show ?thesis
    proof (cases t)
      case (Lit w)
      with us ts vs True have "w = v" "tokens_values us = vs" "v + 1 \<noteq> 0"
        by (auto simp: eq_neg_iff_add_eq_0)
      with True ts us Lit show ?thesis
        by (intro exI [of _ "s\<lparr>pin_rest := tokens_bytes us @ rest\<rparr>"])
           (auto simp: GetValue.simps [of s] data InternalGetValue_InternalAdd reads_to_def)
    next
      case (Run c w)
      let ?s = "s\<lparr>pin_rest := tokens_bytes us @ rest, pin_lastValue := w, pin_count := c\<rparr>"
      have "reads_to rest ?s (v # vs)"
        using ts vs us Run True by (auto simp: reads_to_def)
      moreover have "GetValue s = GetValue ?s"
        using True by (subst GetValue.simps) (simp add: data us Run InternalGetValue_InternalAdd)
      ultimately show ?thesis
        using "1.IH" [OF _ _ refl] True
        by (simp add: data us Run InternalGetValue_InternalAdd)
    qed
  qed
qed

lemma GetValue_reads: "reads s (v # vs) \<Longrightarrow> \<exists>s'. GetValue s = Return (v, s') \<and> reads s' vs"
  unfolding reads_def using GetValue_reads_to by blast

section \<open>Vectors: operators \<^verbatim>\<open><<\<close> and \<^verbatim>\<open>>>\<close>\<close>

fun read_values ::
  "('r \<Rightarrow> (stream_error, 'v \<times> 'r) result) \<Rightarrow> nat \<Rightarrow> 'r \<Rightarrow> (stream_error, 'v list \<times> 'r) result"
where
  "read_values get 0 r = Return ([], r)"
| "read_values get (Suc n) r =
     bind_result (get r) (\<lambda>(v, r').
       bind_result (read_values get n r') (\<lambda>(vs, r''). Return (v # vs, r'')))"

definition write_vector ::
  "('s \<Rightarrow> nat \<Rightarrow> 's) \<Rightarrow> ('s \<Rightarrow> 'v \<Rightarrow> 's) \<Rightarrow> ('s \<Rightarrow> byte list) \<Rightarrow> 's \<Rightarrow> 'v list \<Rightarrow> byte list"
where
  "write_vector addSize add flush s data = flush (foldl add (addSize s (length data)) data)"

definition read_vector ::
  "('r \<Rightarrow> (stream_error, nat \<times> 'r) result) \<Rightarrow> ('r \<Rightarrow> (stream_error, 'v \<times> 'r) result) \<Rightarrow>
   'r \<Rightarrow> (stream_error, 'v list \<times> 'r) result"
where
  "read_vector getSize get r =
     bind_result (getSize r) (\<lambda>(count, r'). read_values get count r')"

text \<open>What a matching pair of streams promises to the vector operators.\<close>

locale value_stream =
  fixes new :: "'s"
    and addSize :: "'s \<Rightarrow> nat \<Rightarrow> 's"
    and add :: "'s \<Rightarrow> dword \<Rightarrow> 's"
    and flush :: "'s \<Rightarrow> byte list"
    and open_in :: "byte list \<Rightarrow> 'r"
    and getSize :: "'r \<Rightarrow> (stream_error, nat \<times> 'r) result"
    and get :: "'r \<Rightarrow> (stream_error, dword \<times> 'r) result"
    and storable :: "dword list \<Rightarrow> bool"
    and holds :: "'s \<Rightarrow> byte list \<Rightarrow> dword list \<Rightarrow> bool"
    and ready :: "'r \<Rightarrow> dword list \<Rightarrow> bool"
  assumes sizes: "holds (foldl addSize new ns) (concat (map (InternalAdd \<circ> of_nat) ns)) []"
    and add: "holds s pre vs \<Longrightarrow> storable (vs @ [v]) \<Longrightarrow> holds (add s v) pre (vs @ [v])"
    and flush: "holds s pre vs \<Longrightarrow> storable vs \<Longrightarrow>
      \<exists>bs. flush s = pre @ bs \<and> ready (open_in bs) vs"
    and get: "ready r (v # vs) \<Longrightarrow> \<exists>r'. get r = Return (v, r') \<and> ready r' vs"
    and getSize: "n < 2 ^ 32 \<Longrightarrow>
      getSize (open_in (InternalAdd (of_nat n) @ bs)) = Return (n, open_in bs)"
    and storable_prefix: "storable (vs @ ws) \<Longrightarrow> storable vs"
    and storable_length: "storable vs \<Longrightarrow> length vs < 2 ^ 32"
begin

lemma holds_foldl:
  "holds s pre ws \<Longrightarrow> storable (ws @ vs) \<Longrightarrow> holds (foldl add s vs) pre (ws @ vs)"
proof (induction vs arbitrary: s ws)
  case Nil
  then show ?case by simp
next
  case (Cons v vs)
  from Cons.prems(2) have "storable (ws @ [v])"
    using storable_prefix [of "ws @ [v]" vs] by simp
  with Cons.prems(1) have "holds (add s v) pre (ws @ [v])" by (rule add)
  from Cons.IH [OF this] Cons.prems(2) show ?case by simp
qed

lemma read_values_ready:
  "ready r vs \<Longrightarrow> \<exists>r'. read_values get (length vs) r = Return (vs, r')"
proof (induction vs arbitrary: r)
  case (Cons v vs)
  from get [OF Cons.prems] obtain r' where "get r = Return (v, r')" "ready r' vs" by blast
  with Cons.IH show ?case by fastforce
qed simp

lemma vector_after_sizes:
  assumes "storable vs"
  shows "\<exists>bs r. write_vector addSize add flush (foldl addSize new ns) vs =
      concat (map (InternalAdd \<circ> of_nat) ns) @ bs \<and>
    read_vector getSize get (open_in bs) = Return (vs, r)"
proof -
  let ?pre = "concat (map (InternalAdd \<circ> of_nat) (ns @ [length vs]))"
  have "holds (foldl addSize new (ns @ [length vs])) ?pre []" by (rule sizes)
  with assms have "holds (foldl add (foldl addSize new (ns @ [length vs])) vs) ?pre vs"
    using holds_foldl [of _ ?pre "[]" vs] by simp
  from flush [OF this assms] obtain bs where
    bs: "flush (foldl add (foldl addSize new (ns @ [length vs])) vs) = ?pre @ bs"
    and "ready (open_in bs) vs" by blast
  from read_values_ready [OF this(2)] obtain r
    where r: "read_values get (length vs) (open_in bs) = Return (vs, r)" by blast
  have "read_vector getSize get (open_in (InternalAdd (of_nat (length vs)) @ bs)) = Return (vs, r)"
    using storable_length [OF assms] by (simp add: read_vector_def getSize r)
  with bs show ?thesis
    by (intro exI [of _ "InternalAdd (of_nat (length vs)) @ bs"] exI [of _ r])
       (simp add: write_vector_def)
qed

lemma values_ready: "storable vs \<Longrightarrow> ready (open_in (flush (foldl add new vs))) vs"
  using sizes [of "[]"] holds_foldl [of new "[]" "[]" vs] flush [of "foldl add new vs" "[]" vs] by auto

lemma vector_roundtrip:
  assumes "storable vs"
  shows "\<exists>r. read_vector getSize get (open_in (write_vector addSize add flush new vs)) =
    Return (vs, r)"
  using vector_after_sizes [OF assms, of "[]"] by auto

end

definition dword_storable :: "dword list \<Rightarrow> bool" where
  "dword_storable vs \<longleftrightarrow> length vs < 2 ^ 32 \<and> - 1 \<notin> set vs"

lemma writes_sizes:
  "writes (foldl AddSizeValue new_packed_out ns) (concat (map (InternalAdd \<circ> of_nat) ns)) []"
proof -
  have "po_count (foldl AddSizeValue s ns) = po_count s \<and>
    po_lastValue (foldl AddSizeValue s ns) = po_lastValue s \<and>
    po_data (foldl AddSizeValue s ns) = po_data s @ concat (map (InternalAdd \<circ> of_nat) ns)" for s
    by (induction ns arbitrary: s) (auto simp: AddSizeValue_def emit_def)
  then show ?thesis
    unfolding writes_def new_packed_out_def by (intro exI [of _ "[]"]) simp
qed

lemma GetSizeValue_open:
  "n < 2 ^ 32 \<Longrightarrow> GetSizeValue (AutoOpen (InternalAdd (of_nat n) @ bs)) = Return (n, AutoOpen bs)"
  by (simp add: GetSizeValue_def AutoOpen_def InternalGetValue_InternalAdd unat_of_nat)

interpretation dword_stream: value_stream new_packed_out AddSizeValue Add FlushData
  AutoOpen GetSizeValue GetValue dword_storable writes reads
proof
  show "writes (Add s v) pre (vs @ [v])" if "writes s pre vs" "dword_storable (vs @ [v])"
    for s pre vs v
    using that by (intro writes_Add) (auto simp: dword_storable_def)
  show "\<exists>bs. FlushData s = pre @ bs \<and> reads (AutoOpen bs) vs"
    if "writes s pre vs" "dword_storable vs" for s pre vs
    using that by (intro reads_FlushData) (auto simp: dword_storable_def)
qed (auto simp: dword_storable_def writes_sizes GetSizeValue_open intro: GetValue_reads)

section \<open>Signed values: \<^verbatim>\<open>CPackedIntegerOutStreamBase\<close>\<close>

definition fold_sign :: "dword \<Rightarrow> dword" where
  "fold_sign value = (if 0 \<le>s value then 2 * value else 2 * (- value) + 1)"

definition unfold_sign :: "dword \<Rightarrow> dword" where
  "unfold_sign v = (if v AND 1 \<noteq> 0 then - (v div 2) else v div 2)"

definition Integer_Add :: "packed_out \<Rightarrow> dword \<Rightarrow> packed_out" where
  "Integer_Add s value = Add s (fold_sign value)"

definition Integer_GetValue :: "packed_in \<Rightarrow> (stream_error, dword \<times> packed_in) result" where
  "Integer_GetValue s = bind_result (GetValue s) (\<lambda>(v, s'). Return (unfold_sign v, s'))"

text \<open>The two values the header comment excludes: \<open>-0x7fffffff\<close> and \<open>-0x80000000\<close>.\<close>

definition int_value_ok :: "dword \<Rightarrow> bool" where
  "int_value_ok v \<longleftrightarrow> v \<noteq> - 0x7fffffff \<and> v \<noteq> - 0x80000000"

lemma even_quotient: "0 \<le> q \<Longrightarrow> q < 2 \<Longrightarrow> even q \<longleftrightarrow> q = 0" for q :: int
  by presburger

lemma sle_zero_iff: "0 \<le>s v \<longleftrightarrow> unat v < 2 ^ 31" for v :: dword
proof -
  have "0 \<le>s v \<longleftrightarrow> \<not> bit (uint v) 31"
    by (simp add: word_sle_eq sint_uint signed_take_bit_nonnegative_iff)
  also have "\<dots> \<longleftrightarrow> even (uint v div 2147483648)"
    by (simp add: bit_iff_odd)
  also have "\<dots> \<longleftrightarrow> uint v div 2147483648 = 0"
    using uint_lt2p [of v]
    by (intro even_quotient) (simp_all add: pos_imp_zdiv_nonneg_iff div_less_iff_less_mult)
  also have "\<dots> \<longleftrightarrow> int (unat v) < 2147483648"
    by (auto simp add: zdiv_eq_0_iff)
  finally show ?thesis by (simp only: of_nat_less_numeral_iff) simp
qed

lemma unat_neg: "v \<noteq> 0 \<Longrightarrow> unat (- v) = 2 ^ 32 - unat v" for v :: dword
  using unat_sub_if' [of 0 v] by (simp add: word_le_nat_alt unat_eq_0)

lemma unat_and_1: "unat (x AND 1) = unat x mod 2" for x :: dword
  by (simp only: and_one_eq) (simp add: unat_mod)

lemma unat_div_2: "unat (x div 2) = unat x div 2" for x :: dword
  by (simp add: unat_div)

lemma fold_sign_pos:
  assumes "unat v < 2 ^ 31"
  shows "unat (fold_sign v) = 2 * unat v"
  using assms by (simp add: fold_sign_def sle_zero_iff unat_word_ariths)

lemma fold_sign_neg:
  assumes "\<not> unat v < 2 ^ 31"
  shows "unat (fold_sign v) = (2 * (2 ^ 32 - unat v) + 1) mod 2 ^ 32"
proof -
  from assms have "v \<noteq> 0" by auto
  define w where "w = - v"
  have "fold_sign v = 2 * w + 1" using assms by (simp add: fold_sign_def sle_zero_iff w_def)
  moreover have "unat w = 2 ^ 32 - unat v" using \<open>v \<noteq> 0\<close> by (simp add: w_def unat_neg)
  ultimately show ?thesis by (simp add: unat_word_ariths mod_Suc_eq)
qed

lemma int_value_ok_unat:
  "int_value_ok v \<longleftrightarrow> unat v \<noteq> 2 ^ 31 \<and> unat v \<noteq> 2 ^ 31 + 1"
  by (simp only: int_value_ok_def word_unat_eq_iff) auto

lemma unfold_fold_sign:
  assumes "int_value_ok v"
  shows "unfold_sign (fold_sign v) = v"
proof (cases "unat v < 2 ^ 31")
  case True
  note eq = fold_sign_pos [OF True]
  have "fold_sign v AND 1 = 0" by (simp only: word_unat_eq_iff unat_and_1 eq) simp
  moreover have "fold_sign v div 2 = v" by (simp only: word_unat_eq_iff unat_div_2 eq)
  ultimately show ?thesis by (simp add: unfold_sign_def)
next
  case False
  with assms have "2 * (2 ^ 32 - unat v) + 1 < 2 ^ 32"
    using unat_lt_2p32 [of v] by (simp add: int_value_ok_unat) arith
  then have eq: "unat (fold_sign v) = 2 * (2 ^ 32 - unat v) + 1"
    by (simp only: fold_sign_neg [OF False]) simp
  have "v \<noteq> 0" using False by auto
  have "unat (fold_sign v AND 1) = 1" by (simp only: unat_and_1 eq) simp
  then have "fold_sign v AND 1 \<noteq> 0" by auto
  moreover have "fold_sign v div 2 = - v"
    by (simp only: word_unat_eq_iff unat_div_2 eq unat_neg [OF \<open>v \<noteq> 0\<close>])
  ultimately show ?thesis by (simp add: unfold_sign_def)
qed

lemma fold_sign_storable:
  assumes "int_value_ok v"
  shows "fold_sign v \<noteq> - 1"
proof
  assume "fold_sign v = - 1"
  then have minus1: "unat (fold_sign v) = 2 ^ 32 - 1"
    by (simp add: unsigned_minus_1_eq_mask mask_eq_exp_minus_1)
  show False
  proof (cases "unat v < 2 ^ 31")
    case True
    have "even (unat (fold_sign v))" using fold_sign_pos [OF True] by simp
    with minus1 show False by simp
  next
    case False
    with assms have "2 * (2 ^ 32 - unat v) + 1 < 2 ^ 32 - 1"
      using unat_lt_2p32 [of v] by (simp add: int_value_ok_unat) arith
    with minus1 show False using fold_sign_neg [OF False] by simp
  qed
qed

definition int_storable :: "dword list \<Rightarrow> bool" where
  "int_storable vs \<longleftrightarrow> length vs < 2 ^ 32 \<and> list_all int_value_ok vs"

lemma int_storable_dword: "int_storable vs \<Longrightarrow> dword_storable (map fold_sign vs)"
  by (auto simp: int_storable_def dword_storable_def list_all_iff dest: fold_sign_storable
      intro: sym)

interpretation int_stream: value_stream new_packed_out AddSizeValue Integer_Add FlushData
  AutoOpen GetSizeValue Integer_GetValue int_storable
  "\<lambda>s pre vs. writes s pre (map fold_sign vs)"
  "\<lambda>r vs. list_all int_value_ok vs \<and> reads r (map fold_sign vs)"
proof
  fix s pre vs v
  assume "writes s pre (map fold_sign vs)" "int_storable (vs @ [v])"
  then show "writes (Integer_Add s v) pre (map fold_sign (vs @ [v]))"
    using dword_stream.add int_storable_dword by (fastforce simp: Integer_Add_def)
next
  fix s pre vs
  assume "writes s pre (map fold_sign vs)" "int_storable vs"
  then show "\<exists>bs. FlushData s = pre @ bs \<and>
      (list_all int_value_ok vs \<and> reads (AutoOpen bs) (map fold_sign vs))"
    using dword_stream.flush [of s pre "map fold_sign vs"]
    by (auto simp: int_storable_dword) (auto simp: int_storable_def)
next
  fix r v vs
  assume "list_all int_value_ok (v # vs) \<and> reads r (map fold_sign (v # vs))"
  then show "\<exists>r'. Integer_GetValue r = Return (v, r') \<and>
      (list_all int_value_ok vs \<and> reads r' (map fold_sign vs))"
    using GetValue_reads [of r "fold_sign v" "map fold_sign vs"]
    by (auto simp: Integer_GetValue_def unfold_fold_sign)
qed (auto simp: int_storable_def writes_sizes GetSizeValue_open)

section \<open>Differential storage: \<^verbatim>\<open>CDiffOutStreamBase\<close> and \<^verbatim>\<open>CDiffInStreamBase\<close>\<close>

record 's diff_out =
  do_base :: 's
  do_lastValue :: dword

record 'r diff_in =
  di_base :: 'r
  di_lastValue :: dword

definition new_diff_out :: "'s \<Rightarrow> 's diff_out" where
  "new_diff_out base = \<lparr>do_base = base, do_lastValue = 0\<rparr>"

definition Diff_AddSizeValue :: "('s \<Rightarrow> nat \<Rightarrow> 's) \<Rightarrow> 's diff_out \<Rightarrow> nat \<Rightarrow> 's diff_out" where
  "Diff_AddSizeValue addSize s n = s\<lparr>do_base := addSize (do_base s) n\<rparr>"

definition Diff_Add :: "('s \<Rightarrow> dword \<Rightarrow> 's) \<Rightarrow> 's diff_out \<Rightarrow> dword \<Rightarrow> 's diff_out" where
  "Diff_Add add s value =
     s\<lparr>do_base := add (do_base s) (value - do_lastValue s), do_lastValue := value\<rparr>"

definition Diff_Flush :: "('s \<Rightarrow> byte list) \<Rightarrow> 's diff_out \<Rightarrow> byte list" where
  "Diff_Flush flush s = flush (do_base s)"

definition Diff_Open :: "(byte list \<Rightarrow> 'r) \<Rightarrow> byte list \<Rightarrow> 'r diff_in" where
  "Diff_Open open_in bs = \<lparr>di_base = open_in bs, di_lastValue = 0\<rparr>"

definition Diff_GetSizeValue ::
  "('r \<Rightarrow> (stream_error, nat \<times> 'r) result) \<Rightarrow> 'r diff_in \<Rightarrow> (stream_error, nat \<times> 'r diff_in) result"
where
  "Diff_GetSizeValue getSize r =
     bind_result (getSize (di_base r)) (\<lambda>(n, b). Return (n, r\<lparr>di_base := b\<rparr>))"

definition Diff_GetValue ::
  "('r \<Rightarrow> (stream_error, dword \<times> 'r) result) \<Rightarrow> 'r diff_in \<Rightarrow> (stream_error, dword \<times> 'r diff_in) result"
where
  "Diff_GetValue get r =
     bind_result (get (di_base r)) (\<lambda>(d, b).
       let v = di_lastValue r + d in Return (v, r\<lparr>di_base := b, di_lastValue := v\<rparr>))"

text \<open>The differences a differential stream hands to its base stream.\<close>

fun diffs :: "dword \<Rightarrow> dword list \<Rightarrow> dword list" where
  "diffs l [] = []"
| "diffs l (v # vs) = (v - l) # diffs v vs"

lemma diffs_snoc: "diffs l (vs @ [v]) = diffs l vs @ [v - (if vs = [] then l else last vs)]"
  by (induction vs arbitrary: l) auto

lemma diffs_append: "diffs l (vs @ ws) = diffs l vs @ diffs (if vs = [] then l else last vs) ws"
  by (induction vs arbitrary: l) auto

lemma length_diffs [simp]: "length (diffs l vs) = length vs"
  by (induction vs arbitrary: l) auto

context value_stream
begin

lemma diff_value_stream:
  "value_stream (new_diff_out new) (Diff_AddSizeValue addSize) (Diff_Add add) (Diff_Flush flush)
     (Diff_Open open_in) (Diff_GetSizeValue getSize) (Diff_GetValue get)
     (\<lambda>vs. storable (diffs 0 vs))
     (\<lambda>s pre vs. holds (do_base s) pre (diffs 0 vs) \<and>
        do_lastValue s = (if vs = [] then 0 else last vs))
     (\<lambda>r vs. ready (di_base r) (diffs (di_lastValue r) vs))"
proof
  fix ns
  have "foldl (Diff_AddSizeValue addSize) s ns = s\<lparr>do_base := foldl addSize (do_base s) ns\<rparr>"
    for s :: "'s diff_out"
    by (induction ns arbitrary: s) (simp_all add: Diff_AddSizeValue_def)
  then show "holds (do_base (foldl (Diff_AddSizeValue addSize) (new_diff_out new) ns))
       (concat (map (InternalAdd \<circ> word_of_nat) ns)) (diffs 0 []) \<and>
      do_lastValue (foldl (Diff_AddSizeValue addSize) (new_diff_out new) ns) =
       (if [] = [] then 0 else last [])"
    using sizes [of ns] by (simp add: new_diff_out_def)
next
  fix s :: "'s diff_out" and pre vs v
  assume "holds (do_base s) pre (diffs 0 vs) \<and> do_lastValue s = (if vs = [] then 0 else last vs)"
    and "storable (diffs 0 (vs @ [v]))"
  then show "holds (do_base (Diff_Add add s v)) pre (diffs 0 (vs @ [v])) \<and>
      do_lastValue (Diff_Add add s v) = (if vs @ [v] = [] then 0 else last (vs @ [v]))"
    using add [of "do_base s" pre "diffs 0 vs" "v - do_lastValue s"]
    by (simp add: Diff_Add_def diffs_snoc)
next
  fix s :: "'s diff_out" and pre vs
  assume "holds (do_base s) pre (diffs 0 vs) \<and> do_lastValue s = (if vs = [] then 0 else last vs)"
    and "storable (diffs 0 vs)"
  then show "\<exists>bs. Diff_Flush flush s = pre @ bs \<and>
      ready (di_base (Diff_Open open_in bs)) (diffs (di_lastValue (Diff_Open open_in bs)) vs)"
    using flush [of "do_base s" pre "diffs 0 vs"] by (simp add: Diff_Flush_def Diff_Open_def)
next
  fix r :: "'r diff_in" and v vs
  assume "ready (di_base r) (diffs (di_lastValue r) (v # vs))"
  then show "\<exists>r'. Diff_GetValue get r = Return (v, r') \<and>
      ready (di_base r') (diffs (di_lastValue r') vs)"
    using get [of "di_base r" "v - di_lastValue r" "diffs v vs"]
    by (auto simp: Diff_GetValue_def Let_def)
next
  fix n :: nat and bs
  assume "n < 2 ^ 32"
  then show "Diff_GetSizeValue getSize (Diff_Open open_in (InternalAdd (word_of_nat n) @ bs)) =
      Return (n, Diff_Open open_in bs)"
    by (simp add: Diff_GetSizeValue_def Diff_Open_def getSize)
next
  fix vs ws
  assume "storable (diffs 0 (vs @ ws))"
  then show "storable (diffs 0 vs)" by (simp add: diffs_append) (rule storable_prefix)
next
  fix vs
  assume "storable (diffs 0 vs)"
  then show "length vs < 2 ^ 32" using storable_length by fastforce
qed

end

interpretation diff_dword_stream: value_stream "new_diff_out new_packed_out"
  "Diff_AddSizeValue AddSizeValue" "Diff_Add Add" "Diff_Flush FlushData" "Diff_Open AutoOpen"
  "Diff_GetSizeValue GetSizeValue" "Diff_GetValue GetValue"
  "\<lambda>vs. dword_storable (diffs 0 vs)"
  "\<lambda>s pre vs. writes (do_base s) pre (diffs 0 vs) \<and>
     do_lastValue s = (if vs = [] then 0 else last vs)"
  "\<lambda>r vs. reads (di_base r) (diffs (di_lastValue r) vs)"
  by (rule dword_stream.diff_value_stream)

interpretation diff_int_stream: value_stream "new_diff_out new_packed_out"
  "Diff_AddSizeValue AddSizeValue" "Diff_Add Integer_Add" "Diff_Flush FlushData"
  "Diff_Open AutoOpen" "Diff_GetSizeValue GetSizeValue" "Diff_GetValue Integer_GetValue"
  "\<lambda>vs. int_storable (diffs 0 vs)"
  "\<lambda>s pre vs. writes (do_base s) pre (map fold_sign (diffs 0 vs)) \<and>
     do_lastValue s = (if vs = [] then 0 else last vs)"
  "\<lambda>r vs. list_all int_value_ok (diffs (di_lastValue r) vs) \<and>
     reads (di_base r) (map fold_sign (diffs (di_lastValue r) vs))"
  by (rule int_stream.diff_value_stream)

section \<open>Time stamps: \<^verbatim>\<open>CPackedTime64OutStreamBase\<close>\<close>

record time_out =
  to_data :: "byte list"
  to_lastValue :: qword

record time_in =
  ti_rest :: "byte list"
  ti_lastValue :: qword

text \<open>The bytes of a 64-bit variable in memory (little endian), and back.\<close>

fun le_bytes :: "nat \<Rightarrow> qword \<Rightarrow> byte list" where
  "le_bytes 0 w = []"
| "le_bytes (Suc n) w = ucast w # le_bytes n (drop_bit 8 w)"

fun le_value :: "byte list \<Rightarrow> qword" where
  "le_value [] = 0"
| "le_value (b # bs) = ucast b + push_bit 8 (le_value bs)"

text \<open>The loop \<^verbatim>\<open>while ((buf[size] == 0) && (size > 1)) --size\<close> on the bytes after the header.\<close>

fun trim_size :: "byte list \<Rightarrow> nat \<Rightarrow> nat" where
  "trim_size buf 0 = 0"
| "trim_size buf (Suc n) = (if buf ! n = 0 \<and> Suc n > 1 then trim_size buf n else Suc n)"

definition Time_Add :: "time_out \<Rightarrow> qword \<Rightarrow> time_out" where
  "Time_Add s value =
     (let diff = value - to_lastValue s;
          negative = diff <s 0;
          magnitude = (if negative then - diff else diff);
          head = (if negative then 0x80 else 0) + (ucast magnitude AND 0xf) :: byte;
          buf = le_bytes 8 (signed_drop_bit 4 magnitude);
          size = trim_size buf 8
      in \<lparr>to_data = to_data s @ (head + of_nat ((size - 1) * 0x10)) # take size buf,
          to_lastValue = value\<rparr>)"

fun GetBytes :: "nat \<Rightarrow> byte list \<Rightarrow> (stream_error, byte list \<times> byte list) result" where
  "GetBytes 0 bs = Return ([], bs)"
| "GetBytes (Suc n) bs =
     bind_result (GetByte bs) (\<lambda>(b, bs').
       bind_result (GetBytes n bs') (\<lambda>(c, bs''). Return (b # c, bs'')))"

definition Time_GetValue :: "time_in \<Rightarrow> (stream_error, qword \<times> time_in) result" where
  "Time_GetValue s =
     bind_result (GetByte (ti_rest s)) (\<lambda>(head, bs).
       let count = unat ((head div 0x10) AND 0x7) + 1 in
       bind_result (GetBytes count bs) (\<lambda>(read, bs').
         let buffer = read @ replicate (8 - count) 0;
             magnitude = le_value buffer * 0x10 + ucast (head AND 0xf);
             value = (if head \<ge> 0x80 then - magnitude else magnitude) + ti_lastValue s
         in Return (value, \<lparr>ti_rest = bs', ti_lastValue = value\<rparr>)))"

lemma le_value_bytes: "le_value (le_bytes n w) = take_bit (8 * n) w"
proof (induction n arbitrary: w)
  case (Suc n)
  have "take_bit (8 * Suc n) w = take_bit 8 w + push_bit 8 (take_bit (8 * n) (drop_bit 8 w))"
    by (rule bit_word_eqI) (auto simp: bit_simps disjunctive_add)
  moreover have "(ucast (ucast w :: byte) :: qword) = take_bit 8 w"
    by (rule bit_word_eqI) (auto simp: bit_simps)
  ultimately show ?case using Suc by simp
qed simp

lemma length_le_bytes [simp]: "length (le_bytes n w) = n"
  by (induction n arbitrary: w) auto

lemma le_value_zeros: "le_value (bs @ replicate k 0) = le_value bs"
proof (induction bs)
  case Nil
  show ?case by (induction k) auto
qed auto

lemma trim_size_bounds: "0 < n \<Longrightarrow> 0 < trim_size buf n \<and> trim_size buf n \<le> n"
  by (induction n) (auto simp: less_Suc_eq_0_disj)

lemma trim_size_zeros:
  "n \<le> length buf \<Longrightarrow> take n buf = take (trim_size buf n) buf @ replicate (n - trim_size buf n) 0"
proof (induction n)
  case (Suc n)
  show ?case
  proof (cases "buf ! n = 0 \<and> Suc n > 1")
    case True
    then have "trim_size buf n \<le> n" using trim_size_bounds [of n buf] by simp
    with True Suc show ?thesis
      by (simp add: take_Suc_conv_app_nth Suc_diff_le replicate_append_same)
  qed auto
qed simp

lemma GetBytes_append: "GetBytes (length bs) (bs @ rest) = Return (bs, rest)"
  by (induction bs) auto

lemma shift_four_split:
  "signed_drop_bit 4 m * 0x10 + ucast (ucast m AND 0xf :: byte) = m" for m :: qword
proof -
  have "signed_drop_bit 4 m * 0x10 = push_bit 4 (signed_drop_bit 4 m)"
    by (simp add: push_bit_eq_mult mult.commute)
  moreover have "(ucast (ucast m AND 0xf :: byte) :: qword) = take_bit 4 m"
  proof -
    have "ucast m AND 0xf = take_bit 4 (ucast m :: byte)"
      by (simp add: take_bit_eq_mask mask_eq_exp_minus_1)
    moreover have "ucast (take_bit 4 (ucast m :: byte)) = take_bit 4 m"
      by (rule bit_word_eqI) (auto simp: bit_simps)
    ultimately show ?thesis by simp
  qed
  moreover have "push_bit 4 (signed_drop_bit 4 m) + take_bit 4 m = m"
    by (subst disjunctive_add; (rule bit_word_eqI)?) (auto simp: bit_simps min_def)
  ultimately show ?thesis by simp
qed

text \<open>The fields of the header byte: sign, size and the low four bits.\<close>

lemma header_fields:
  fixes low :: byte and neg :: bool
  assumes "k < 8"
  defines "h \<equiv> (if neg then 0x80 else 0) + (low AND 0xf) + of_nat (k * 0x10) :: byte"
  shows "h AND 0xf = low AND 0xf" "unat ((h div 0x10) AND 0x7) = k" "(0x80 \<le> h) = neg"
proof -
  have mask4: "x AND 0xf = take_bit 4 x" for x :: byte
    by (simp add: take_bit_eq_mask mask_eq_exp_minus_1)
  have mask3: "x AND 0x7 = take_bit 3 x" for x :: byte
    by (simp add: take_bit_eq_mask mask_eq_exp_minus_1)
  have low: "unat (low AND 0xf) < 16"
    by (simp add: mask4 unat_take_bit_mod)
  have "unat (of_nat (k * 0x10) :: byte) = k * 16"
    using assms(1) by (simp add: unat_of_nat del: of_nat_mult)
  with low assms(1) have h: "unat h = (if neg then 128 else 0) + unat (low AND 0xf) + k * 16"
    by (simp add: h_def unat_word_ariths)
  from low h have "unat (h AND 0xf) = unat (low AND 0xf)"
    by (simp add: mask4 [of h] unat_take_bit_mod) presburger
  then show "h AND 0xf = low AND 0xf" by (simp add: word_unat_eq_iff)
  have "unat (h div 0x10) = (if neg then 8 else 0) + k"
  proof -
    have "unat h = ((if neg then 8 else 0) + k) * 16 + unat (low AND 0xf)"
      by (simp add: h)
    then have "unat h div 16 = (if neg then 8 else 0) + k"
      using low by (simp only: div_mult_self3)
    then show ?thesis by (simp add: unat_div)
  qed
  with assms(1) show "unat ((h div 0x10) AND 0x7) = k"
    by (simp add: mask3 unat_take_bit_mod)
  show "(0x80 \<le> h) = neg"
    using low h assms(1) by (simp add: word_le_nat_alt)
qed

lemma Time_GetValue_bytes:
  assumes "ti_rest r = h # bs"
    and "GetBytes (unat ((h div 0x10) AND 0x7) + 1) bs = Return (read, rest)"
    and "le_value (read @ replicate (8 - (unat ((h div 0x10) AND 0x7) + 1)) 0) * 0x10 +
      ucast (h AND 0xf) = m"
  shows "Time_GetValue r = Return (let value = (if 0x80 \<le> h then - m else m) + ti_lastValue r
      in (value, \<lparr>ti_rest = rest, ti_lastValue = value\<rparr>))"
  using assms by (simp add: Time_GetValue_def Let_def del: GetBytes.simps)

lemma Time_GetValue_Time_Add:
  assumes "ti_lastValue r = to_lastValue s"
    and "to_data (Time_Add s v) = to_data s @ bs" and "ti_rest r = bs @ rest"
  shows "Time_GetValue r = Return (v, \<lparr>ti_rest = rest, ti_lastValue = v\<rparr>)"
proof -
  define m where "m = (if v - to_lastValue s <s 0 then - (v - to_lastValue s) else v - to_lastValue s)"
  define buf where "buf = le_bytes 8 (signed_drop_bit 4 m)"
  define size where "size = trim_size buf 8"
  define h :: byte where "h = (if v - to_lastValue s <s 0 then 0x80 else 0) + (ucast m AND 0xf) +
    of_nat ((size - 1) * 0x10)"
  have size: "0 < size" "size \<le> 8" using trim_size_bounds [of 8 buf] by (auto simp: size_def)
  then have "size - 1 < 8" by simp
  note hf = header_fields [OF this, of "v - to_lastValue s <s 0" "ucast m", folded h_def]
  have bs: "bs = h # take size buf"
    using assms(2) by (simp add: Time_Add_def Let_def m_def buf_def size_def h_def)
  have buf8: "length buf = 8" by (simp add: buf_def)
  have "take size buf @ replicate (8 - size) 0 = buf"
    using trim_size_zeros [of 8 buf] buf8 by (simp add: size_def)
  moreover have "le_value buf = signed_drop_bit 4 m"
    by (simp add: buf_def le_value_bytes take_bit_word_eq_self del: le_bytes.simps)
  moreover have "GetBytes size (take size buf @ rest) = Return (take size buf, rest)"
    using GetBytes_append [of "take size buf" rest] size buf8 by simp
  moreover have cnt: "unat ((h div 0x10) AND 0x7) + 1 = size"
    using size hf(2) by simp
  moreover have "signed_drop_bit 4 m * 0x10 + ucast (h AND 0xf) = m"
    by (simp only: hf(1) shift_four_split)
  ultimately have "Time_GetValue r = Return (let value = (if 0x80 \<le> h then - m else m) + ti_lastValue r
      in (value, \<lparr>ti_rest = rest, ti_lastValue = value\<rparr>))"
    using assms(3) bs
    by (intro Time_GetValue_bytes [where bs = "take size buf @ rest" and read = "take size buf"])
       (simp_all only: cnt append_Cons)
  moreover have "(if 0x80 \<le> h then - m else m) + ti_lastValue r = v"
    using assms(1) hf(3) by (simp add: m_def)
  ultimately show ?thesis by (simp add: Let_def)
qed

section \<open>Properties\<close>

text \<open>
  C1. a vector written to a packed DWORD stream is read back unchanged, for every vector that
  avoids the one value the format cannot hold (the run-length layer, the 7/8 code, the entry
  count and the closing flush included).
\<close>
theorem packed_dword_vector_roundtrip:
  assumes "length vs < 2 ^ 32" and "- 1 \<notin> set vs"
  shows "\<exists>r. read_vector GetSizeValue GetValue
    (AutoOpen (write_vector AddSizeValue Add FlushData new_packed_out vs)) = Return (vs, r)"
  using assms by (intro dword_stream.vector_roundtrip) (simp add: dword_storable_def)

theorem packed_dword_vector_roundtrip_witness:
  "\<exists>r. read_vector GetSizeValue GetValue
    (AutoOpen (write_vector AddSizeValue Add FlushData new_packed_out [7, 7, 7, 300, 0, 0])) =
    Return ([7, 7, 7, 300, 0, 0], r)"
  by (rule packed_dword_vector_roundtrip) simp_all

text \<open>
  A vector of signed integers written to a differential integer stream is read back
  unchanged, provided no difference of neighbours (the first against 0) is one of the two
  values the header comment excludes.
\<close>
theorem diff_integer_vector_roundtrip:
  assumes "length vs < 2 ^ 32" and "list_all int_value_ok (diffs 0 vs)"
  shows "\<exists>r. read_vector (Diff_GetSizeValue GetSizeValue) (Diff_GetValue Integer_GetValue)
    (Diff_Open AutoOpen
      (write_vector (Diff_AddSizeValue AddSizeValue) (Diff_Add Integer_Add) (Diff_Flush FlushData)
        (new_diff_out new_packed_out) vs)) = Return (vs, r)"
  using assms by (intro diff_int_stream.vector_roundtrip) (simp add: int_storable_def)

theorem diff_integer_vector_roundtrip_witness:
  "\<exists>r. read_vector (Diff_GetSizeValue GetSizeValue) (Diff_GetValue Integer_GetValue)
    (Diff_Open AutoOpen
      (write_vector (Diff_AddSizeValue AddSizeValue) (Diff_Add Integer_Add) (Diff_Flush FlushData)
        (new_diff_out new_packed_out) [5, 3, - 1, 1000])) = Return ([5, 3, - 1, 1000], r)"
  by (rule diff_integer_vector_roundtrip) (simp_all add: int_value_ok_def)

text \<open>
  Every sequence of 64-bit time stamps written to a time stream is read back unchanged, with
  no restriction on the values (the most negative difference included).
\<close>
theorem time64_roundtrip:
  "\<exists>r. read_values Time_GetValue (length vs)
     \<lparr>ti_rest = to_data (foldl Time_Add \<lparr>to_data = [], to_lastValue = 0\<rparr> vs) @ rest,
      ti_lastValue = 0\<rparr> = Return (vs, r) \<and> ti_rest r = rest"
proof -
  have data: "\<exists>bs. to_data (foldl Time_Add s vs) = to_data s @ bs \<and>
     (\<forall>r. ti_rest r = bs @ rest \<and> ti_lastValue r = to_lastValue s \<longrightarrow>
       (\<exists>r'. read_values Time_GetValue (length vs) r = Return (vs, r') \<and> ti_rest r' = rest))"
    for s :: time_out and rest
  proof (induction vs arbitrary: s)
    case Nil
    show ?case by (auto intro: exI [of _ "[]"])
  next
    case (Cons v vs)
    obtain c where c: "to_data (Time_Add s v) = to_data s @ c"
      by (simp add: Time_Add_def Let_def)
    from Cons.IH [of "Time_Add s v"] obtain bs where
      bs: "to_data (foldl Time_Add (Time_Add s v) vs) = to_data (Time_Add s v) @ bs"
      and IH: "\<And>r. ti_rest r = bs @ rest \<Longrightarrow> ti_lastValue r = to_lastValue (Time_Add s v) \<Longrightarrow>
        \<exists>r'. read_values Time_GetValue (length vs) r = Return (vs, r') \<and> ti_rest r' = rest"
      by blast
    have last: "to_lastValue (Time_Add s v) = v" by (simp add: Time_Add_def Let_def)
    have "\<exists>r'. read_values Time_GetValue (length (v # vs)) r = Return (v # vs, r') \<and> ti_rest r' = rest"
      if "ti_rest r = (c @ bs) @ rest" "ti_lastValue r = to_lastValue s" for r
      using Time_GetValue_Time_Add [OF that(2) c, of "bs @ rest"] that(1)
        IH [of "\<lparr>ti_rest = bs @ rest, ti_lastValue = v\<rparr>"] last by fastforce
    with bs c show ?case by (intro exI [of _ "c @ bs"]) simp
  qed
  show ?thesis
    using data [of "\<lparr>to_data = [], to_lastValue = 0\<rparr>" rest] by fastforce
qed

end
