(* ===== verification/HuffmanCoder.thy ===== *)
theory HuffmanCoder
  imports PackedStreams "HOL-Library.Product_Lexorder"
begin

text \<open>
  The byte-wise prefix code of the log cache (\<^verbatim>\<open>src/src/LogCache/Streams/HuffmanBase.h\<close>,
  \<^verbatim>\<open>HuffmanBase.cpp\<close>, \<^verbatim>\<open>HuffmanEncoder.cpp\<close>, \<^verbatim>\<open>HuffmanDecoder.h\<close>, \<^verbatim>\<open>HuffmanDecoder.cpp\<close>) in the variant
  for 64-bit systems: blocks of 8 bytes in little-endian order. \<open>None\<close> is an access outside of a
  buffer, a shift by a negative amount or a recursion that does not end; exceptions are values.
  The contents of new memory are an argument. Assertions are not part of the model.
\<close>

type_synonym word16 = "16 word"

definition MAX_ENCODING_LENGTH :: nat where "MAX_ENCODING_LENGTH = 12"
definition BUCKET_COUNT :: nat where "BUCKET_COUNT = 256"
definition MAX_KEY_VALUE :: qword where "MAX_KEY_VALUE = 2 ^ MAX_ENCODING_LENGTH - 1"
definition MIN_HEADER_LENGTH :: nat where "MIN_HEADER_LENGTH = 9"

fun reverse_loop :: "word16 \<Rightarrow> word16 \<Rightarrow> nat \<Rightarrow> word16" where
  "reverse_loop result v 0 = result"
| "reverse_loop result v (Suc n) = reverse_loop (2 * result + (v AND 1)) (drop_bit 1 v) n"

definition ReverseBits :: "word16 \<Rightarrow> byte \<Rightarrow> word16" where
  "ReverseBits v len = reverse_loop 0 v (unat len)"

section \<open>The encoder\<close>

record huffman_encoder =
  hk_key :: "qword list"
  hk_keyLength :: "byte list"
  hk_count :: "dword list"
  hk_sorted :: "byte list"
  hk_sortedCount :: nat

definition new_huffman_encoder :: huffman_encoder where
  "new_huffman_encoder =
     \<lparr>hk_key = replicate BUCKET_COUNT 0, hk_keyLength = replicate BUCKET_COUNT 0, hk_count = replicate BUCKET_COUNT 0,
      hk_sorted = replicate BUCKET_COUNT 0, hk_sortedCount = 0\<rparr>"

subsection \<open>Counting\<close>

abbreviation increase :: "dword list \<Rightarrow> nat \<Rightarrow> dword \<Rightarrow> dword list" where
  "increase counts i n \<equiv> counts[i := counts ! i + n]"

text \<open>Byte \<open>j\<close> of a block that has been read from memory.\<close>

definition block_byte :: "qword \<Rightarrow> nat \<Rightarrow> nat" where
  "block_byte block j = unat (drop_bit (8 * j) block AND 0xff)"

definition count_block :: "dword list list \<Rightarrow> qword \<Rightarrow> dword list list" where
  "count_block localCount block =
     foldl (\<lambda>lc j. lc[j := increase (lc ! j) (block_byte block j) 2]) localCount [0..<8]"

fun count_blocks :: "dword list list \<Rightarrow> byte list \<Rightarrow> nat \<Rightarrow> dword list list" where
  "count_blocks localCount source 0 = localCount"
| "count_blocks localCount source (Suc n) =
     count_blocks (count_block localCount (le_value (take 8 source))) (drop 8 source) n"

definition fold_counts :: "dword list \<Rightarrow> dword list list \<Rightarrow> dword list" where
  "fold_counts counts localCount = foldl (\<lambda>counts lc. map2 (\<lambda>c l. c + l div 2) counts lc) counts localCount"

definition CountValues :: "huffman_encoder \<Rightarrow> byte list \<Rightarrow> huffman_encoder" where
  "CountValues enc source =
     (let counts = replicate BUCKET_COUNT 0;
          (counts, source) =
            (if 2 * length source > 8 * BUCKET_COUNT div 2
             then (fold_counts counts (count_blocks (replicate 8 (replicate BUCKET_COUNT 0)) source (length source div 8)),
                   drop (8 * (length source div 8)) source)
             else (counts, source))
      in enc\<lparr>hk_count := foldl (\<lambda>counts b. increase counts (unat b) 1) counts source\<rparr>)"

subsection \<open>Assigning the code\<close>

text \<open>The position in a range whose frequencies are close to a half on either side.\<close>

fun half_loop :: "dword list \<Rightarrow> dword \<Rightarrow> nat \<Rightarrow> dword \<Rightarrow> nat \<times> dword" where
  "half_loop [] half mid halfSum = (mid, halfSum)"
| "half_loop (f # fs) half mid halfSum =
     (if halfSum < half then half_loop fs half (mid + 1) (halfSum + f) else (mid, halfSum))"

definition frequency :: "huffman_encoder \<Rightarrow> nat \<Rightarrow> dword" where
  "frequency enc i = hk_count enc ! unat (hk_sorted enc ! i)"

definition split_position :: "huffman_encoder \<Rightarrow> nat \<Rightarrow> nat \<Rightarrow> nat option" where
  "split_position enc first behind =
     (let totalSum = foldl (+) 0 (map (frequency enc) [first..<behind]);
          (mid, halfSum) = half_loop (map (frequency enc) [first..<behind]) (totalSum div 2) first 0 in
      if mid = 0 then None
      else
        (let lowerHalfSum = halfSum - frequency enc (mid - 1) in
         Some (if totalSum - lowerHalfSum < halfSum then mid - 1 else mid)))"

partial_function (option) AssignEncoding ::
  "huffman_encoder \<Rightarrow> nat \<Rightarrow> nat \<Rightarrow> word16 \<Rightarrow> byte \<Rightarrow> huffman_encoder option"
where
  "AssignEncoding enc first behind encoding bitCount =
     (let distance = behind - first in
      if distance = 1
      then
        (let c = unat (hk_sorted enc ! first) in
         Some (enc\<lparr>hk_key := (hk_key enc)[c := ucast (ReverseBits encoding bitCount)],
                   hk_keyLength := (hk_keyLength enc)[c := bitCount]\<rparr>))
      else if unat bitCount \<ge> MAX_ENCODING_LENGTH then None
      else
        Option.bind
          (if 2 ^ (MAX_ENCODING_LENGTH - 1 - unat bitCount) < distance then Some (first + distance div 2)
           else split_position enc first behind)
          (\<lambda>mid.
             Option.bind (AssignEncoding enc first mid (2 * encoding) (bitCount + 1)) (\<lambda>enc.
               AssignEncoding enc mid behind (2 * encoding + 1) (bitCount + 1))))"

declare AssignEncoding.simps [code]

definition SortByFrequency :: "huffman_encoder \<Rightarrow> huffman_encoder option" where
  "SortByFrequency enc =
     (let pairs = sort [(hk_count enc ! i, of_nat i :: byte). i \<leftarrow> [0..<BUCKET_COUNT], hk_count enc ! i > 0];
          enc = enc\<lparr>hk_sortedCount := length pairs,
                    hk_sorted := map snd pairs @ drop (length pairs) (hk_sorted enc)\<rparr> in
      if pairs \<noteq> [] then AssignEncoding enc 0 (length pairs) 0 0 else Some enc)"

subsection \<open>Writing\<close>

definition CalculatePackedSize :: "huffman_encoder \<Rightarrow> dword" where
  "CalculatePackedSize enc =
     (let bitCount = foldl (\<lambda>n i. n + ucast (hk_count enc ! i * ucast (hk_keyLength enc ! i))) (0 :: qword) [0..<BUCKET_COUNT] in
      8 + of_nat (1 + (3 * hk_sortedCount enc + 1) div 2) + ucast (bitCount div 8 + 8))"

fun length_nibbles :: "huffman_encoder \<Rightarrow> nat \<Rightarrow> nat \<Rightarrow> byte list" where
  "length_nibbles enc i 0 = []"
| "length_nibbles enc i (Suc n) =
     (hk_keyLength enc ! unat (hk_sorted enc ! i) + hk_keyLength enc ! unat (hk_sorted enc ! (i + 1)) * 0x10) #
     length_nibbles enc (i + 2) n"

definition huffman_table :: "huffman_encoder \<Rightarrow> byte list" where
  "huffman_table enc =
     of_nat (hk_sortedCount enc) # map (\<lambda>i. hk_sorted enc ! i) [0..<hk_sortedCount enc] @
     length_nibbles enc 0 ((hk_sortedCount enc + 1) div 2)"

definition WriteHuffmanTable :: "huffman_encoder \<Rightarrow> byte list \<Rightarrow> nat \<Rightarrow> (byte list \<times> nat) option" where
  "WriteHuffmanTable enc mem dest =
     map_option (\<lambda>mem. (mem, dest + length (huffman_table enc))) (store mem dest (huffman_table enc))"

record bit_writer =
  cachedCode :: qword
  cachedBits :: byte
  bw_mem :: "byte list"
  bw_dest :: nat

definition encode_char :: "huffman_encoder \<Rightarrow> nat \<Rightarrow> bit_writer \<Rightarrow> bit_writer" where
  "encode_char enc c w =
     w\<lparr>cachedCode := cachedCode w + push_bit (unat (cachedBits w)) (hk_key enc ! c),
       cachedBits := cachedBits w + hk_keyLength enc ! c\<rparr>"

definition write_full_bytes :: "bit_writer \<Rightarrow> bit_writer option" where
  "write_full_bytes w =
     map_option (\<lambda>mem.
         \<lparr>cachedCode = drop_bit (unat (cachedBits w AND NOT 7)) (cachedCode w), cachedBits = cachedBits w AND 7,
          bw_mem = mem, bw_dest = bw_dest w + unat (cachedBits w div 8)\<rparr>)
       (store (bw_mem w) (bw_dest w) (le_bytes 8 (cachedCode w)))"

fun encode_blocks :: "huffman_encoder \<Rightarrow> byte list \<Rightarrow> nat \<Rightarrow> bit_writer \<Rightarrow> bit_writer option" where
  "encode_blocks enc source 0 w = Some w"
| "encode_blocks enc source (Suc n) w =
     (let data = le_value (take 4 source) in
      Option.bind
        (write_full_bytes
          (encode_char enc (block_byte data 3)
            (encode_char enc (block_byte data 2)
              (encode_char enc (block_byte data 1)
                (encode_char enc (block_byte data 0) w)))))
        (encode_blocks enc (drop 4 source) n))"

fun encode_chars :: "huffman_encoder \<Rightarrow> byte list \<Rightarrow> bit_writer \<Rightarrow> bit_writer option" where
  "encode_chars enc [] w = Some w"
| "encode_chars enc (c # source) w =
     Option.bind (write_full_bytes (encode_char enc (unat c) w)) (encode_chars enc source)"

definition WriteHuffmanEncoded :: "huffman_encoder \<Rightarrow> byte list \<Rightarrow> byte list \<Rightarrow> nat \<Rightarrow> byte list option" where
  "WriteHuffmanEncoded enc source mem dest =
     (let blocks = length source div 4 in
      Option.bind (encode_blocks enc source blocks \<lparr>cachedCode = 0, cachedBits = 0, bw_mem = mem, bw_dest = dest\<rparr>) (\<lambda>w.
        Option.bind (encode_chars enc (drop (4 * blocks) source) w) (\<lambda>w.
          store (bw_mem w) (bw_dest w) (le_bytes 8 (cachedCode w)))))"

definition dword_bytes :: "dword \<Rightarrow> byte list" where
  "dword_bytes d = le_bytes 4 (ucast d)"

definition Encode ::
  "(nat \<Rightarrow> byte) \<Rightarrow> huffman_encoder \<Rightarrow> byte list \<Rightarrow> (string, byte list \<times> huffman_encoder) result option"
where
  "Encode fresh enc source =
     (let byteCount = length source in
      if byteCount > 2 ^ 32 - 1 then Some (Raise ''BLOB to large for stream'')
      else
        Option.bind (SortByFrequency (CountValues enc source)) (\<lambda>enc.
          let targetSize = min (of_nat byteCount + of_nat MIN_HEADER_LENGTH) (CalculatePackedSize enc);
              buffer = map fresh [0..<unat targetSize] in
          Option.bind (store buffer 0 (dword_bytes (of_nat byteCount))) (\<lambda>buffer.
            Option.bind (store buffer 4 (dword_bytes targetSize)) (\<lambda>buffer.
              map_option (\<lambda>buffer. Return (buffer, enc))
                (if byteCount + MIN_HEADER_LENGTH = unat targetSize
                 then Option.bind (store buffer 8 [0]) (\<lambda>buffer. store buffer 9 source)
                 else Option.bind (WriteHuffmanTable enc buffer 8) (\<lambda>(buffer, dest).
                        WriteHuffmanEncoded enc source buffer dest))))))"

section \<open>The decoder\<close>

text \<open>
  The input: what the buffer class hands out, and the memory behind it, which a pointer into the
  buffer can reach as well.
\<close>

record input_buffer =
  ib_data :: "byte list"
  ib_behind :: "byte list"

definition GetData :: "nat \<Rightarrow> input_buffer \<Rightarrow> (string, byte list \<times> input_buffer) result" where
  "GetData len b =
     (if length (ib_data b) < len then Raise ''corrupted huffman stream''
      else Return (ib_data b @ ib_behind b, b\<lparr>ib_data := drop len (ib_data b)\<rparr>))"

definition hd_GetByte :: "input_buffer \<Rightarrow> (string, byte \<times> input_buffer) result" where
  "hd_GetByte b = bind_result (GetData 1 b) (\<lambda>(mem, b). Return (mem ! 0, b))"

definition PeekByte :: "input_buffer \<Rightarrow> (string, byte) result" where
  "PeekByte b = (if length (ib_data b) < 1 then Raise ''corrupted huffman stream'' else Return (ib_data b ! 0))"

definition GetDWORD :: "input_buffer \<Rightarrow> (string, dword \<times> input_buffer) result" where
  "GetDWORD b = bind_result (GetData 4 b) (\<lambda>(mem, b). Return (ucast (le_value (take 4 mem)), b))"

text \<open>The output buffer: how much room is left, and what has been written.\<close>

record output_buffer =
  ob_written :: "byte list"
  ob_remaining :: nat

definition put_data :: "byte list \<Rightarrow> output_buffer \<Rightarrow> (string, output_buffer) result" where
  "put_data bs t =
     (if ob_remaining t < length bs then Raise ''huffman buffer overflow''
      else Return \<lparr>ob_written = ob_written t @ bs, ob_remaining = ob_remaining t - length bs\<rparr>)"

record huffman_decoder =
  hd_value :: "byte list"
  hd_length :: "byte list"

definition new_huffman_decoder :: huffman_decoder where
  "new_huffman_decoder = \<lparr>hd_value = replicate (2 ^ MAX_ENCODING_LENGTH) 0, hd_length = replicate (2 ^ MAX_ENCODING_LENGTH) 0\<rparr>"

fun get_bytes :: "nat \<Rightarrow> input_buffer \<Rightarrow> (string, byte list \<times> input_buffer) result" where
  "get_bytes 0 b = Return ([], b)"
| "get_bytes (Suc n) b =
     bind_result (hd_GetByte b) (\<lambda>(x, b). bind_result (get_bytes n b) (\<lambda>(xs, b). Return (x # xs, b)))"

text \<open>The keys of all entries but the first, from the key and the length of the entry before.\<close>

fun next_keys :: "word16 \<Rightarrow> byte \<Rightarrow> byte list \<Rightarrow> word16 list" where
  "next_keys currentKey prevKeyLength [] = []"
| "next_keys currentKey prevKeyLength (thisKeyLength # lengths) =
     (let currentKey = currentKey + 1;
          currentKey =
            (if prevKeyLength < thisKeyLength then push_bit (unat (thisKeyLength - prevKeyLength)) currentKey
             else if prevKeyLength > thisKeyLength then drop_bit (unat (prevKeyLength - thisKeyLength)) currentKey
             else currentKey)
      in ReverseBits currentKey thisKeyLength # next_keys currentKey thisKeyLength lengths)"

function fill_table :: "nat \<Rightarrow> byte \<Rightarrow> byte \<Rightarrow> huffman_decoder \<Rightarrow> huffman_decoder" where
  "fill_table k v l d =
     (if k < 2 ^ MAX_ENCODING_LENGTH
      then fill_table (k + 2 ^ unat l) v l \<lparr>hd_value = (hd_value d)[k := v], hd_length = (hd_length d)[k := l]\<rparr>
      else d)"
  by pat_completeness auto
termination
  by (relation "measure (\<lambda>(k, v, l, d). 2 ^ MAX_ENCODING_LENGTH - k)") (auto intro!: diff_less_mono2)

declare fill_table.simps [simp del]

fun fill_tables :: "(word16 \<times> byte \<times> byte) list \<Rightarrow> huffman_decoder \<Rightarrow> huffman_decoder" where
  "fill_tables [] d = d"
| "fill_tables ((key, v, l) # entries) d = fill_tables entries (fill_table (unat key) v l d)"

definition nibbles :: "byte \<Rightarrow> byte list" where
  "nibbles b = [b AND 0x0f, b div 0x10]"

definition BuildDecodeTable ::
  "huffman_decoder \<Rightarrow> input_buffer \<Rightarrow> (string, huffman_decoder \<times> input_buffer) result"
where
  "BuildDecodeTable d source =
     bind_result (hd_GetByte source) (\<lambda>(n, source).
       let entryCount = (if n = 0 then BUCKET_COUNT else unat n) in
       bind_result (get_bytes entryCount source) (\<lambda>(values, source).
         bind_result (get_bytes ((entryCount + 1) div 2) source) (\<lambda>(packed, source).
           let keyLength = take entryCount (concat (map nibbles packed));
               key = 0 # next_keys 0 (keyLength ! 0) (tl keyLength) in
           Return (fill_tables (zip key (zip values keyLength)) d, source))))"

definition load8 :: "byte list \<Rightarrow> nat \<Rightarrow> qword option" where
  "load8 mem at = (if at + 8 \<le> length mem then Some (le_value (take 8 (drop at mem))) else None)"

record bit_reader =
  br_cachedCode :: qword
  br_cachedBits :: byte

definition decode_char :: "huffman_decoder \<Rightarrow> bit_reader \<Rightarrow> byte \<times> bit_reader" where
  "decode_char d r =
     (let i = unat (br_cachedCode r AND MAX_KEY_VALUE) in
      (hd_value d ! i,
       \<lparr>br_cachedCode = drop_bit (unat (hd_length d ! i)) (br_cachedCode r),
        br_cachedBits = br_cachedBits r - hd_length d ! i\<rparr>))"

fun decode_chars :: "huffman_decoder \<Rightarrow> nat \<Rightarrow> bit_reader \<Rightarrow> byte list \<times> bit_reader" where
  "decode_chars d 0 r = ([], r)"
| "decode_chars d (Suc n) r =
     (let (c, r) = decode_char d r; (cs, r) = decode_chars d n r in (c # cs, r))"

text \<open>The next block is put behind the bits in the cache; a shift by 64 or more is undefined.\<close>

definition fetch :: "qword \<Rightarrow> bit_reader \<Rightarrow> qword option" where
  "fetch nextCodes r =
     (if unat (br_cachedBits r) < 64 then Some (br_cachedCode r OR push_bit (unat (br_cachedBits r)) nextCodes) else None)"

text \<open>
  The main loop decodes four bytes per round. The pointer is advanced by the whole bytes that have
  been taken over into the cache, and the number of cached bits set accordingly, while the first
  byte is decoded; the next block is loaded after that.
\<close>

fun decode_blocks ::
  "huffman_decoder \<Rightarrow> byte list \<Rightarrow> nat \<Rightarrow> nat \<Rightarrow> qword \<Rightarrow> bit_reader \<Rightarrow> (byte list \<times> qword \<times> bit_reader) option"
where
  "decode_blocks d mem 0 first nextCodes r = Some ([], nextCodes, r)"
| "decode_blocks d mem (Suc n) first nextCodes r =
     Option.bind (fetch nextCodes r) (\<lambda>code.
       let first = first + (63 - unat (br_cachedBits r)) div 8;
           (cs, r) = decode_chars d 4 \<lparr>br_cachedCode = code, br_cachedBits = br_cachedBits r OR 56\<rparr> in
       Option.bind (load8 mem first) (\<lambda>nextCodes.
         map_option (\<lambda>(rest, s). (cs @ rest, s)) (decode_blocks d mem n first nextCodes r)))"

definition WriteDecodedStream :: "huffman_decoder \<Rightarrow> byte list \<Rightarrow> nat \<Rightarrow> byte list option" where
  "WriteDecodedStream d mem decodedSize =
     Option.bind (load8 mem 0) (\<lambda>nextCodes.
       Option.bind (decode_blocks d mem (decodedSize div 4) 0 nextCodes \<lparr>br_cachedCode = 0, br_cachedBits = 0\<rparr>)
         (\<lambda>(cs, nextCodes, r).
            map_option (\<lambda>code. cs @ fst (decode_chars d (decodedSize mod 4) (r\<lparr>br_cachedCode := code\<rparr>))) (fetch nextCodes r)))"

definition Decode ::
  "huffman_decoder \<Rightarrow> input_buffer \<Rightarrow> output_buffer \<Rightarrow>
   (string, huffman_decoder \<times> input_buffer \<times> output_buffer) result option"
where
  "Decode d source target =
     (let totalSourceLen = length (ib_data source) in
      case bind_result (GetDWORD source) (\<lambda>(decodedSize, source).
             bind_result (GetDWORD source) (\<lambda>(encodedSize, source). Return (unat decodedSize, unat encodedSize, source))) of
        Inl e \<Rightarrow> Some (Raise e)
      | Inr (decodedSize, encodedSize, source) \<Rightarrow>
          if decodedSize = 0 then Some (Return (d, source, target))
          else
            (case (if encodedSize = unat (of_nat (decodedSize + MIN_HEADER_LENGTH) :: dword)
                   then map_sum id (\<lambda>b. b = 0) (PeekByte source) else Return False) of
               Inl e \<Rightarrow> Some (Raise e)
             | Inr True \<Rightarrow>
                 Some (bind_result (hd_GetByte source) (\<lambda>(_, source).
                   if ob_remaining target < decodedSize then Raise ''huffman buffer overflow''
                   else
                     bind_result (GetData decodedSize source) (\<lambda>(mem, source).
                       bind_result (put_data (take decodedSize mem) target) (\<lambda>target. Return (d, source, target)))))
             | Inr False \<Rightarrow>
                 (case BuildDecodeTable d source of
                    Inl e \<Rightarrow> Some (Raise e)
                  | Inr (d, source) \<Rightarrow>
                      let headerLen = totalSourceLen - length (ib_data source);
                          len = (if headerLen \<le> encodedSize then encodedSize - headerLen else 2 ^ 64 + encodedSize - headerLen) in
                      (case GetData len source of
                         Inl e \<Rightarrow> Some (Raise e)
                       | Inr (localSource, source) \<Rightarrow>
                           if ob_remaining target < decodedSize then Some (Raise ''huffman buffer overflow'')
                           else
                             Option.bind (WriteDecodedStream d localSource decodedSize) (\<lambda>bs.
                               Some (map_sum id (\<lambda>target. (d, source, target)) (put_data bs target)))))))"

end
