(* ===== verification/HuffmanCode.thy ===== *)
theory HuffmanCode
  imports HuffmanCoder
begin

text \<open>
  The code that the encoder of the log cache assigns and the decoder rebuilds: bit reversal, the
  code words as adjacent intervals of 12-bit numbers, and the decoding tables.
\<close>

section \<open>Bit reversal\<close>

fun rbits :: "nat \<Rightarrow> nat \<Rightarrow> nat" where
  "rbits v 0 = 0"
| "rbits v (Suc n) = (v mod 2) * 2 ^ n + rbits (v div 2) n"

lemma rbits_less: "rbits v n < 2 ^ n"
proof (induction n arbitrary: v)
  case (Suc n)
  have "v mod 2 = 0 \<or> v mod 2 = 1" by auto
  with Suc [of "v div 2"] show ?case by auto
qed simp

lemma rbits_add: "rbits v (m + n) = rbits v m * 2 ^ n + rbits (v div 2 ^ m) n"
proof (induction m arbitrary: v)
  case (Suc m)
  have "v div 2 div 2 ^ m = v div (2 ^ Suc m)" by (simp add: div_mult2_eq)
  with Suc [of "v div 2"] show ?case by (simp add: algebra_simps power_add)
qed simp

lemma rbits_mod: "n \<le> m \<Longrightarrow> rbits (v mod 2 ^ m) n = rbits v n"
proof (induction n arbitrary: v m)
  case (Suc n)
  then obtain k where m: "m = Suc k" "n \<le> k" by (cases m) auto
  have "v mod 2 ^ m mod 2 = v mod 2" by (simp add: m(1) mod_mod_cancel)
  moreover have "v mod (2 * 2 ^ k) = 2 * (v div 2 mod 2 ^ k) + v mod 2" by (rule mod_mult2_eq)
  then have "v mod 2 ^ m div 2 = (v div 2) mod 2 ^ k" by (simp add: m(1))
  ultimately show ?case using Suc.IH [OF m(2), of "v div 2"] by simp
qed simp

lemma rbits_rbits: "rbits (rbits v n) n = v mod 2 ^ n"
proof (induction n arbitrary: v)
  case (Suc n)
  let ?w = "rbits (v div 2) n"
  have w: "rbits v (Suc n) = ?w + 2 ^ n * (v mod 2)" by simp
  have "rbits (rbits v (Suc n)) n = rbits (rbits v (Suc n) mod 2 ^ n) n" by (simp only: rbits_mod order_refl)
  also have "rbits v (Suc n) mod 2 ^ n = ?w" unfolding w by (simp add: rbits_less)
  also have "rbits ?w n = v div 2 mod 2 ^ n" by (rule Suc)
  finally have low: "rbits (rbits v (Suc n)) n = v div 2 mod 2 ^ n" .
  have high: "rbits v (Suc n) div 2 ^ n = v mod 2" unfolding w by (simp add: rbits_less)
  have "rbits (rbits v (Suc n)) (n + 1) = (v div 2 mod 2 ^ n) * 2 + v mod 2"
    unfolding rbits_add low high by simp
  also have "\<dots> = v mod 2 ^ Suc n" by (simp add: mod_mult2_eq)
  finally show ?case by simp
qed simp

lemma unat_reverse_loop:
  "unat r < 2 ^ k \<Longrightarrow> k + n \<le> 16 \<Longrightarrow> unat (reverse_loop r v n) = unat r * 2 ^ n + rbits (unat v) n"
proof (induction n arbitrary: r v k)
  case (Suc n)
  have "2 * unat r + 1 < 2 * 2 ^ k" using Suc.prems(1) by simp
  also have "2 * 2 ^ k \<le> (2 :: nat) ^ 16" using Suc.prems(2) power_increasing [of "Suc k" 16 "2 :: nat"] by simp
  finally have small: "2 * unat r + 1 < 2 ^ 16" .
  have bit: "unat (v AND 1) = unat v mod 2" by (simp add: and_one_eq unat_mod)
  have "unat (2 * r) = 2 * unat r" using small by (simp add: unat_word_ariths)
  moreover have "unat (2 * r + (v AND 1)) = unat (2 * r) + unat (v AND 1)"
    using small bit calculation by (simp add: unat_add_lem [THEN iffD1])
  ultimately have r: "unat (2 * r + (v AND 1)) = 2 * unat r + unat v mod 2" by (simp add: bit)
  then have "unat (2 * r + (v AND 1)) < 2 ^ Suc k" using Suc.prems(1) by simp
  moreover have "unat (drop_bit 1 v) = unat v div 2" using unat_drop_bit_div [of 1 v] by simp
  ultimately show ?case using Suc.IH [of "2 * r + (v AND 1)" "Suc k" "drop_bit 1 v"] Suc.prems(2) r
    by (simp add: algebra_simps)
qed simp

lemma unat_ReverseBits: "unat l \<le> 16 \<Longrightarrow> unat (ReverseBits v l) = rbits (unat v) (unat l)"
  unfolding ReverseBits_def using unat_reverse_loop [of 0 0 "unat l" v] by simp

text \<open>
  A key is found at the low end of a number exactly if its code word is found at the high end of the
  number read backwards.
\<close>

lemma key_matches:
  assumes "l \<le> 12" and "c < 2 ^ l"
  shows "k mod 2 ^ l = rbits c l \<longleftrightarrow> rbits k 12 div 2 ^ (12 - l) = c"
proof -
  have "rbits k 12 = rbits k l * 2 ^ (12 - l) + rbits (k div 2 ^ l) (12 - l)"
    using rbits_add [of k l "12 - l"] assms(1) by simp
  then have "rbits k 12 div 2 ^ (12 - l) = rbits k l" by (simp add: rbits_less)
  moreover have "k mod 2 ^ l = rbits c l \<longleftrightarrow> rbits k l = c"
  proof
    assume "k mod 2 ^ l = rbits c l"
    then have "rbits (k mod 2 ^ l) l = c" using assms(2) by (simp add: rbits_rbits)
    then show "rbits k l = c" by (simp add: rbits_mod)
  next
    assume "rbits k l = c"
    then show "k mod 2 ^ l = rbits c l" using rbits_rbits [of k l] by simp
  qed
  ultimately show ?thesis by simp
qed

section \<open>Codes as tilings\<close>

text \<open>
  A code word \<open>c\<close> of length \<open>l\<close> stands for the 12-bit numbers that begin with it. The words of a code
  in their order cover adjacent intervals.
\<close>

type_synonym code = "(nat \<times> nat) list"

fun tiled :: "nat \<Rightarrow> code \<Rightarrow> nat \<Rightarrow> bool" where
  "tiled p [] q \<longleftrightarrow> p = q"
| "tiled p ((c, l) # code) q \<longleftrightarrow> l \<le> 12 \<and> c < 2 ^ l \<and> p = c * 2 ^ (12 - l) \<and> tiled (p + 2 ^ (12 - l)) code q"

lemma tiled_append: "tiled p (a @ b) q \<longleftrightarrow> (\<exists>m. tiled p a m \<and> tiled m b q)"
  by (induction a arbitrary: p) auto

lemma tiled_nth: "tiled p code q \<Longrightarrow> i < length code \<Longrightarrow> snd (code ! i) \<le> 12 \<and> fst (code ! i) < 2 ^ snd (code ! i)"
proof (induction code arbitrary: p i)
  case (Cons e code)
  then show ?case by (cases e; cases i) auto
qed simp

lemma tiled_le: "tiled p code q \<Longrightarrow> p \<le> q"
proof (induction code arbitrary: p)
  case (Cons e code)
  then show ?case by (cases e) fastforce
qed simp

lemma nat_div_iff: "0 < d \<Longrightarrow> x div d = c \<longleftrightarrow> c * d \<le> x \<and> x < c * d + d" for x d c :: nat
proof -
  assume d: "0 < d"
  have "c * d \<le> x \<Longrightarrow> x < c * d + d \<Longrightarrow> x div d = c" by (rule div_nat_eqI) (simp_all add: mult.commute)
  moreover have "x div d * d \<le> x" "x < x div d * d + d"
    using dividend_less_div_times [OF d, of x] by (simp_all add: div_times_less_eq_dividend add.commute)
  ultimately show ?thesis by blast
qed

text \<open>Every point of the tiling lies in exactly one interval.\<close>

lemma tiled_point:
  "tiled p code q \<Longrightarrow> p \<le> x \<Longrightarrow> x < q \<Longrightarrow>
   \<exists>i < length code. (\<forall>j < length code. x div 2 ^ (12 - snd (code ! j)) = fst (code ! j) \<longleftrightarrow> j = i)"
proof (induction code arbitrary: p)
  case (Cons e code)
  obtain c l where e: "e = (c, l)" by fastforce
  let ?p = "p + 2 ^ (12 - l)"
  have p: "p = c * 2 ^ (12 - l)" and rest: "tiled ?p code q" using Cons.prems(1) unfolding e tiled.simps by blast+
  have here: "y div 2 ^ (12 - l) = c \<longleftrightarrow> p \<le> y \<and> y < ?p" for y
    unfolding p by (rule nat_div_iff) simp
  show ?case
  proof (cases "x < ?p")
    case True
    have "x div 2 ^ (12 - snd (code ! j)) \<noteq> fst (code ! j)" if "j < length code" for j
    proof -
      have "tiled a (drop j code) q \<Longrightarrow> ?p \<le> a \<Longrightarrow> x < a" for a using True by simp
      obtain m where m: "tiled ?p (take j code) m" "tiled m (drop j code) q"
        using rest tiled_append [of ?p "take j code" "drop j code" q] by auto
      then have "?p \<le> m" using tiled_le by blast
      moreover have "drop j code = code ! j # drop (Suc j) code" using that by (simp add: Cons_nth_drop_Suc)
      then have "m = fst (code ! j) * 2 ^ (12 - snd (code ! j))" using m(2) by (cases "code ! j") auto
      ultimately have "x < fst (code ! j) * 2 ^ (12 - snd (code ! j))" using True by simp
      then have "x div 2 ^ (12 - snd (code ! j)) < fst (code ! j)" by (simp add: div_less_iff_less_mult)
      then show ?thesis by simp
    qed
    with True Cons.prems(2) here [of x] show ?thesis
      by (intro exI [of _ 0]) (auto simp: e less_Suc_eq_0_disj)
  next
    case False
    with Cons.IH [OF rest] Cons.prems(3) obtain i where i: "i < length code"
      "\<forall>j < length code. x div 2 ^ (12 - snd (code ! j)) = fst (code ! j) \<longleftrightarrow> j = i" by auto
    with False here [of x] show ?thesis
      by (intro exI [of _ "Suc i"]) (auto simp: e less_Suc_eq_0_disj)
  qed
qed simp

section \<open>The decoder rebuilds the keys\<close>

definition key_of :: "nat \<times> nat \<Rightarrow> nat" where
  "key_of e = rbits (fst e) (snd e)"

lemma key_of_less: "key_of e < 2 ^ snd e"
  by (simp add: key_of_def rbits_less)

lemma unat_length_word [simp]: "l \<le> 12 \<Longrightarrow> unat (of_nat l :: byte) = l"
  by (simp add: unat_of_nat)

lemma unat_of_nat_small: "n < 2 ^ LENGTH('a) \<Longrightarrow> unat (of_nat n :: 'a::len word) = n"
  by (simp add: unat_of_nat)

lemma word_of_unat: "unat w = n \<Longrightarrow> w = of_nat n" for w :: "'a::len word"
  by auto

lemma power_le_4096: "l \<le> 12 \<Longrightarrow> (2 :: nat) ^ l \<le> 4096"
  using power_increasing [of l 12 "2 :: nat"] by simp

lemma ReverseBits_key: "l \<le> 12 \<Longrightarrow> c < 2 ^ l \<Longrightarrow> ReverseBits (of_nat c) (of_nat l) = of_nat (key_of (c, l))"
proof -
  assume l: "l \<le> 12" and c: "c < 2 ^ l"
  have "unat (of_nat c :: word16) = c" using c power_le_4096 [OF l] by (simp add: unat_of_nat)
  then have "unat (ReverseBits (of_nat c) (of_nat l)) = key_of (c, l)"
    using l by (simp add: unat_ReverseBits key_of_def)
  then show ?thesis by (rule word_of_unat)
qed

text \<open>One step: from the word after the last one to the word at the same place with the new length.\<close>

lemma next_key:
  assumes "(c + 1) * 2 ^ (12 - l) = c' * 2 ^ (12 - l')" and "l \<le> 12" and "l' \<le> 12" and "c < 2 ^ l"
  shows "(if of_nat l < (of_nat l' :: byte) then push_bit (unat (of_nat l' - of_nat l :: byte)) (of_nat c + 1)
     else if of_nat l > (of_nat l' :: byte) then drop_bit (unat (of_nat l - of_nat l' :: byte)) (of_nat c + 1)
     else of_nat c + 1) = (of_nat c' :: word16)"
proof -
  have cmp: "(of_nat a < (of_nat b :: byte)) = (a < b)" if "a \<le> 12" "b \<le> 12" for a b
    using that by (simp add: word_less_nat_alt)
  have diff: "unat (of_nat a - of_nat b :: byte) = a - b" if "a \<le> 12" "b \<le> a" for a b
  proof -
    have "(of_nat a - of_nat b :: byte) = of_nat (a - b)" using that by (simp add: of_nat_diff)
    with that show ?thesis by (simp only: unat_length_word [of "a - b"] le_trans [OF diff_le_self])
  qed
  have c1: "of_nat c + 1 = (of_nat (c + 1) :: word16)" by simp
  consider "l < l'" | "l = l'" | "l' < l" by linarith
  then show ?thesis
  proof cases
    case 1
    then have "(2 :: nat) ^ (12 - l) = 2 ^ (l' - l) * 2 ^ (12 - l')" using assms(3) by (simp flip: power_add)
    with assms(1) have "(c + 1) * 2 ^ (l' - l) * 2 ^ (12 - l') = c' * 2 ^ (12 - l')" by (simp only: mult.assoc)
    then have "c' = (c + 1) * 2 ^ (l' - l)" by (metis mult_right_cancel power_not_zero zero_neq_numeral)
    then have "push_bit (l' - l) (of_nat (c + 1)) = (of_nat c' :: word16)"
      by (simp add: push_bit_eq_mult algebra_simps)
    with 1 assms(2,3) show ?thesis unfolding c1 by (simp add: cmp diff)
  next
    case 2
    with assms(1) have "c' = c + 1" by (metis mult_right_cancel power_not_zero zero_neq_numeral)
    with 2 show ?thesis by simp
  next
    case 3
    then have "(2 :: nat) ^ (12 - l') = 2 ^ (l - l') * 2 ^ (12 - l)" using assms(2) by (simp flip: power_add)
    with assms(1) have "c' * 2 ^ (l - l') * 2 ^ (12 - l) = (c + 1) * 2 ^ (12 - l)" by (simp only: mult.assoc)
    then have "c' = (c + 1) div 2 ^ (l - l')" by (metis nonzero_mult_div_cancel_right power_not_zero mult_right_cancel zero_neq_numeral)
    moreover have "unat (of_nat (c + 1) :: word16) = c + 1"
      using assms(4) power_le_4096 [OF assms(2)] by (intro unat_of_nat_small) simp
    ultimately have "unat (drop_bit (l - l') (of_nat (c + 1) :: word16)) = c'" by (simp only: unat_drop_bit_div)
    then have "drop_bit (l - l') (of_nat (c + 1)) = (of_nat c' :: word16)" by (rule word_of_unat)
    with 3 assms(2,3) show ?thesis unfolding c1 by (simp add: cmp diff)
  qed
qed

lemma next_keys_tiled:
  "tiled p ((c, l) # code) q \<Longrightarrow>
   next_keys (of_nat c) (of_nat l) (map (\<lambda>e. of_nat (snd e)) code) = map (\<lambda>e. of_nat (key_of e)) code"
proof (induction code arbitrary: p c l)
  case (Cons e code)
  obtain c' l' where e: "e = (c', l')" by fastforce
  have t: "l \<le> 12" "c < 2 ^ l" "p = c * 2 ^ (12 - l)" "tiled (p + 2 ^ (12 - l)) (e # code) q"
    using Cons.prems unfolding tiled.simps by blast+
  then have t': "l' \<le> 12" "c' < 2 ^ l'" "p + 2 ^ (12 - l) = c' * 2 ^ (12 - l')" unfolding e tiled.simps by blast+
  have "(c + 1) * 2 ^ (12 - l) = c' * 2 ^ (12 - l')" using t(3) t'(3) by simp
  note step = next_key [OF this t(1) t'(1) t(2)]
  show ?case
    using Cons.IH [OF t(4) [unfolded e]] t' step by (simp add: e ReverseBits_key Let_def)
qed simp

section \<open>The decoding tables\<close>

definition tables_ok :: "huffman_decoder \<Rightarrow> bool" where
  "tables_ok d \<longleftrightarrow> length (hd_value d) = 4096 \<and> length (hd_length d) = 4096"

lemma fill_table_at:
  "tables_ok d \<Longrightarrow> x < 4096 \<Longrightarrow>
   tables_ok (fill_table k v l d) \<and>
   hd_value (fill_table k v l d) ! x = (if k \<le> x \<and> x mod 2 ^ unat l = k mod 2 ^ unat l then v else hd_value d ! x) \<and>
   hd_length (fill_table k v l d) ! x = (if k \<le> x \<and> x mod 2 ^ unat l = k mod 2 ^ unat l then l else hd_length d ! x)"
proof (induction k v l d rule: fill_table.induct)
  case (1 k v l d)
  show ?case
  proof (cases "k < 4096")
    case True
    let ?d = "\<lparr>hd_value = (hd_value d)[k := v], hd_length = (hd_length d)[k := l]\<rparr>"
    have ok: "tables_ok ?d" using "1.prems"(1) by (simp add: tables_ok_def)
    have run: "fill_table k v l d = fill_table (k + 2 ^ unat l) v l ?d"
      using True by (simp add: fill_table.simps [of k] MAX_ENCODING_LENGTH_def)
    have between: "x = k" if "k \<le> x" "x mod 2 ^ unat l = k mod 2 ^ unat l" "\<not> k + 2 ^ unat l \<le> x"
    proof -
      have "2 ^ unat l dvd x - k" using that(1,2) by (metis mod_eq_dvd_iff_nat)
      moreover have "x - k < 2 ^ unat l" using that(1,3) by linarith
      ultimately have "x - k = 0" by (meson dvd_imp_le not_le gr0I)
      with that(1) show ?thesis by simp
    qed
    have "k < 2 ^ MAX_ENCODING_LENGTH" using True by (simp add: MAX_ENCODING_LENGTH_def)
    note IH = "1.IH" [OF this ok "1.prems"(2)]
    show ?thesis
      unfolding run using IH between "1.prems" True by (auto simp: tables_ok_def nth_list_update)
  next
    case False
    with 1 show ?thesis by (simp add: fill_table.simps [of k] MAX_ENCODING_LENGTH_def)
  qed
qed

lemma tables_ok_fill: "tables_ok d \<Longrightarrow> tables_ok (fill_tables entries d)"
proof (induction entries d rule: fill_tables.induct)
  case (2 key v l entries d)
  then show ?case using fill_table_at [of d 0 "unat key" v l] by simp
qed simp

definition matches :: "nat \<Rightarrow> word16 \<times> byte \<times> byte \<Rightarrow> bool" where
  "matches x e \<longleftrightarrow> x mod 2 ^ unat (snd (snd e)) = unat (fst e)"

lemma fill_tables_at:
  assumes "x < 4096"
  shows "tables_ok d \<Longrightarrow> \<forall>e \<in> set entries. unat (fst e) < 2 ^ unat (snd (snd e)) \<Longrightarrow>
    tables_ok (fill_tables entries d) \<and>
    (if \<exists>e \<in> set entries. matches x e
     then \<exists>e \<in> set entries. matches x e \<and> hd_value (fill_tables entries d) ! x = fst (snd e) \<and>
            hd_length (fill_tables entries d) ! x = snd (snd e)
     else hd_value (fill_tables entries d) ! x = hd_value d ! x \<and> hd_length (fill_tables entries d) ! x = hd_length d ! x)"
proof (induction entries arbitrary: d)
  case (Cons e entries)
  obtain key v l where e: "e = (key, v, l)" by (cases e)
  have key: "unat key < 2 ^ unat l" using Cons.prems(2) by (simp add: e)
  let ?d = "fill_table (unat key) v l d"
  have here: "matches x e \<longleftrightarrow> unat key \<le> x \<and> x mod 2 ^ unat l = unat key mod 2 ^ unat l"
    using key by (auto simp: matches_def e) (metis mod_less_eq_dividend)
  have ok: "tables_ok ?d" using fill_table_at [OF Cons.prems(1) assms] by blast
  have "hd_value ?d ! x = (if matches x e then v else hd_value d ! x)"
    "hd_length ?d ! x = (if matches x e then l else hd_length d ! x)"
    using fill_table_at [OF Cons.prems(1) assms, of "unat key" v l] by (simp_all add: here)
  with Cons.IH [OF ok] Cons.prems(2) show ?case by (auto simp: e split: if_splits)
qed simp

text \<open>
  What the tables hold for a complete code: looked up with a number that ends in the key of an
  entry, they give the value and the length of this entry.
\<close>

lemma fill_tables_code:
  assumes "tables_ok d" and code: "tiled 0 code 4096" and len: "length vs = length code"
    and i: "i < length code" and x: "x < 4096" and ends: "x mod 2 ^ snd (code ! i) = key_of (code ! i)"
  defines "d' \<equiv> fill_tables (zip (map (\<lambda>e. of_nat (key_of e)) code) (zip vs (map (\<lambda>e. of_nat (snd e)) code))) d"
  shows "hd_value d' ! x = vs ! i \<and> hd_length d' ! x = of_nat (snd (code ! i))"
proof -
  let ?entries = "zip (map (\<lambda>e. of_nat (key_of e) :: word16) code) (zip vs (map (\<lambda>e. of_nat (snd e) :: byte) code))"
  have nth: "?entries ! j = (of_nat (key_of (code ! j)), vs ! j, of_nat (snd (code ! j)))" if "j < length code" for j
    using that len by simp
  have key: "unat (of_nat (key_of (code ! j)) :: word16) = key_of (code ! j)" if "j < length code" for j
  proof -
    have "key_of (code ! j) < 4096"
      using key_of_less [of "code ! j"] power_le_4096 tiled_nth [OF code that] by (meson less_le_trans)
    then show ?thesis by (simp add: unat_of_nat)
  qed
  have lens: "unat (of_nat (snd (code ! j)) :: byte) = snd (code ! j)" if "j < length code" for j
    using tiled_nth [OF code that] by simp
  have match: "matches x (?entries ! j) \<longleftrightarrow> rbits x 12 div 2 ^ (12 - snd (code ! j)) = fst (code ! j)"
    if "j < length code" for j
  proof -
    have "x mod 2 ^ snd (code ! j) = key_of (code ! j) \<longleftrightarrow> rbits x 12 div 2 ^ (12 - snd (code ! j)) = fst (code ! j)"
      unfolding key_of_def using tiled_nth [OF code that] by (intro key_matches) simp_all
    then show ?thesis by (simp only: matches_def nth that key lens fst_conv snd_conv)
  qed
  have "rbits x 12 < 4096" using rbits_less [of x 12] by simp
  then obtain m where m: "m < length code"
    "\<forall>j < length code. rbits x 12 div 2 ^ (12 - snd (code ! j)) = fst (code ! j) \<longleftrightarrow> j = m"
    using tiled_point [OF code, of "rbits x 12"] by auto
  have "matches x (?entries ! i)" using ends by (simp add: matches_def nth i key lens)
  with match [OF i] m(2) i have only: "matches x (?entries ! j) \<longleftrightarrow> j = i" if "j < length code" for j
    using match [OF that] that by auto
  have "\<forall>e \<in> set ?entries. unat (fst e) < 2 ^ unat (snd (snd e))"
  proof
    fix e assume "e \<in> set ?entries"
    then obtain j where "j < length code" "e = ?entries ! j" using len by (auto simp: in_set_conv_nth)
    then show "unat (fst e) < 2 ^ unat (snd (snd e))" using key_of_less by (simp add: nth key lens)
  qed
  note at = fill_tables_at [OF x assms(1) this]
  have "?entries ! i \<in> set ?entries" using i len by (intro nth_mem) simp
  with only [OF i] at obtain e where e: "e \<in> set ?entries" "matches x e"
    "hd_value d' ! x = fst (snd e)" "hd_length d' ! x = snd (snd e)"
    unfolding d'_def by (auto split: if_splits)
  then obtain j where "j < length code" "e = ?entries ! j" using len by (auto simp: in_set_conv_nth)
  with e only nth show ?thesis by simp
qed

end
