(* ===== verification/HuffmanAssign.thy ===== *)
theory HuffmanAssign
  imports HuffmanCode "HOL-Library.Multiset"
begin

text \<open>
  The encoder of the log cache side by side with the codes of \<open>HuffmanCode\<close>: counting, sorting and
  the recursive assignment of code words always succeed and give a complete code of words of at
  most 12 bits.
\<close>

section \<open>The encoder assigns a tiling\<close>

text \<open>A range of the array of symbols.\<close>

definition symbols :: "huffman_encoder \<Rightarrow> nat \<Rightarrow> nat \<Rightarrow> byte list" where
  "symbols enc a b = map (\<lambda>i. hk_sorted enc ! i) [a..<b]"

lemma symbols_append: "a \<le> m \<Longrightarrow> m \<le> b \<Longrightarrow> symbols enc a b = symbols enc a m @ symbols enc m b"
  using upt_add_eq_append [of a m "b - m"] by (simp add: symbols_def flip: map_append)

lemma length_symbols [simp]: "length (symbols enc a b) = b - a"
  by (simp add: symbols_def)

definition frequencies :: "huffman_encoder \<Rightarrow> nat \<Rightarrow> nat \<Rightarrow> nat list" where
  "frequencies enc a b = map (\<lambda>i. unat (frequency enc i)) [a..<b]"

lemma foldl_frequencies:
  "foldl (+) x (map (frequency enc) is) = x + of_nat (sum_list (map (\<lambda>i. unat (frequency enc i)) is))"
  by (induction "is" arbitrary: x) (simp_all add: algebra_simps)

lemma half_loop_result:
  assumes "sum_list (map unat fs) + unat halfSum < 2 ^ 32"
  shows "\<exists>j \<le> length fs. half_loop fs half mid halfSum = (mid + j, of_nat (unat halfSum + sum_list (map unat (take j fs)))) \<and>
    (j < length fs \<longrightarrow> unat half \<le> unat halfSum + sum_list (map unat (take j fs))) \<and>
    (\<forall>i < j. unat halfSum + sum_list (map unat (take i fs)) < unat half)"
  using assms
proof (induction fs arbitrary: mid halfSum)
  case (Cons f fs)
  show ?case
  proof (cases "halfSum < half")
    case True
    have sum: "unat (halfSum + f) = unat halfSum + unat f"
      using Cons.prems by (simp add: unat_word_ariths)
    obtain j where j: "j \<le> length fs"
      "half_loop fs half (mid + 1) (halfSum + f) = (mid + 1 + j, of_nat (unat (halfSum + f) + sum_list (map unat (take j fs))))"
      "j < length fs \<longrightarrow> unat half \<le> unat (halfSum + f) + sum_list (map unat (take j fs))"
      "\<forall>i < j. unat (halfSum + f) + sum_list (map unat (take i fs)) < unat half"
      using Cons.IH [of "halfSum + f" "mid + 1"] Cons.prems sum by auto
    have "unat halfSum + sum_list (map unat (take i (f # fs))) < unat half" if "i < Suc j" for i
      using that True j(4) sum by (cases i) (auto simp: word_less_nat_alt)
    with True j sum show ?thesis by (intro exI [of _ "Suc j"]) auto
  next
    case False
    then show ?thesis by (intro exI [of _ 0]) (auto simp: word_less_nat_alt)
  qed
qed simp

lemma sum_take_le: "sum_list (take j xs) \<le> sum_list xs" for xs :: "nat list"
  by (metis append_take_drop_id le_add1 sum_list_append)

lemma sum_take_Suc: "j < length xs \<Longrightarrow> sum_list (take (Suc j) xs) = sum_list (take j xs) + xs ! j" for xs :: "nat list"
  by (simp add: take_Suc_conv_app_nth)

lemma sum_frequencies: "foldl (+) 0 (map (frequency enc) [a..<b]) = of_nat (sum_list (frequencies enc a b))"
  by (simp add: foldl_frequencies frequencies_def)

lemma split_position_ok:
  assumes two: "first + 2 \<le> behind" and pos: "\<forall>f \<in> set (frequencies enc first behind). 0 < f"
    and small: "sum_list (frequencies enc first behind) < 2 ^ 32"
  shows "\<exists>mid. split_position enc first behind = Some mid \<and> first < mid \<and> mid < behind"
proof -
  let ?F = "frequencies enc first behind"
  define S where "S = sum_list ?F"
  define H where "H j = sum_list (take j ?F)" for j
  have F: "?F = map unat (map (frequency enc) [first..<behind])" by (simp add: frequencies_def)
  have len: "length ?F = behind - first" by (simp add: frequencies_def)
  have le: "H j \<le> S" for j by (simp add: H_def S_def sum_take_le)
  have step: "H (Suc j) = H j + ?F ! j" "0 < ?F ! j" if "j < behind - first" for j
    using that pos len by (simp_all add: H_def sum_take_Suc)
  have last: "H (behind - first) = S" by (simp add: H_def S_def len)
  have "0 < H 1" using step [of 0] two by (simp add: H_def)
  have "H 1 < H 2" using step [of 1] two by (simp add: numeral_2_eq_2)
  then have S2: "2 \<le> S" using \<open>0 < H 1\<close> le [of 2] by linarith
  have S: "unat (of_nat S :: dword) = S" using small by (simp add: unat_of_nat S_def)
  have half: "unat (of_nat S div 2 :: dword) = S div 2" by (simp add: unat_div S)
  obtain j where j: "j \<le> behind - first"
    "half_loop (map (frequency enc) [first..<behind]) (of_nat S div 2) first 0 = (first + j, of_nat (H j))"
    "j < behind - first \<longrightarrow> S div 2 \<le> H j" "\<forall>i < j. H i < S div 2"
    using half_loop_result [of "map (frequency enc) [first..<behind]" 0 "of_nat S div 2" first] small
    by (auto simp: half H_def F take_map)
  have "j \<noteq> 0" 
  proof
    assume "j = 0"
    with j(3) S2 two show False by (simp add: H_def)
  qed
  then obtain i where i: "j = Suc i" by (cases j) auto
  have f: "frequency enc (first + i) = of_nat (?F ! i)" using i j(1) by (simp add: frequencies_def)
  have split: "split_position enc first behind = Some (if S - H i < H j then first + i else first + j)"
  proof -
    have lower: "of_nat (H j) - frequency enc (first + i) = of_nat (H i)"
      using step(1) [of i] i j(1) by (simp add: f)
    have "unat (of_nat S - of_nat (H i) :: dword) = S - H i"
    proof -
      have "(of_nat S - of_nat (H i) :: dword) = of_nat (S - H i)" using le [of i] by (simp add: of_nat_diff)
      then show ?thesis using small by (simp add: unat_of_nat S_def)
    qed
    moreover have "unat (of_nat (H j) :: dword) = H j" using le [of j] small by (simp add: unat_of_nat S_def)
    ultimately have "of_nat S - of_nat (H i) < (of_nat (H j) :: dword) \<longleftrightarrow> S - H i < H j"
      by (simp add: word_less_nat_alt)
    then show ?thesis
      using i lower by (simp add: split_position_def Let_def sum_frequencies j(2) flip: S_def)
  qed
  show ?thesis
  proof (cases "S - H i < H j")
    case True
    have "i \<noteq> 0" using True le [of j] by (intro notI) (simp add: H_def)
    with True split i j(1) show ?thesis by auto
  next
    case False
    have "j \<noteq> behind - first"
    proof
      assume "j = behind - first"
      moreover have "0 < H i"
        using \<open>0 < H 1\<close> two i \<open>j = behind - first\<close> sum_take_le [of 1 "take i ?F"]
        by (cases i) (simp_all add: H_def)
      ultimately show False using False last S2 by simp
    qed
    with False split i j(1) show ?thesis by auto
  qed
qed

text \<open>What an assignment does to the encoder: the words of a code become the keys of some symbols.\<close>

definition encoder_ok :: "huffman_encoder \<Rightarrow> bool" where
  "encoder_ok enc \<longleftrightarrow> length (hk_key enc) = 256 \<and> length (hk_keyLength enc) = 256"

definition assigned :: "huffman_encoder \<Rightarrow> byte list \<Rightarrow> code \<Rightarrow> huffman_encoder \<Rightarrow> bool" where
  "assigned enc cs code enc' \<longleftrightarrow>
     encoder_ok enc' \<and> hk_count enc' = hk_count enc \<and> hk_sorted enc' = hk_sorted enc \<and>
     hk_sortedCount enc' = hk_sortedCount enc \<and>
     map (\<lambda>c. hk_key enc' ! unat c) cs = map (\<lambda>e. of_nat (key_of e)) code \<and>
     map (\<lambda>c. hk_keyLength enc' ! unat c) cs = map (\<lambda>e. of_nat (snd e)) code \<and>
     (\<forall>c. c \<notin> set cs \<longrightarrow> hk_key enc' ! unat c = hk_key enc ! unat c \<and> hk_keyLength enc' ! unat c = hk_keyLength enc ! unat c)"

lemma assigned_append:
  assumes "assigned enc a x enc1" and "assigned enc1 b y enc2" and "set a \<inter> set b = {}"
  shows "assigned enc (a @ b) (x @ y) enc2"
proof -
  have "hk_key enc2 ! unat c = hk_key enc1 ! unat c \<and> hk_keyLength enc2 ! unat c = hk_keyLength enc1 ! unat c" if "c \<in> set a" for c
    using that assms(2,3) unfolding assigned_def by blast
  with assms(1) have "map (\<lambda>c. hk_key enc2 ! unat c) a = map (\<lambda>e. of_nat (key_of e)) x"
    "map (\<lambda>c. hk_keyLength enc2 ! unat c) a = map (\<lambda>e. of_nat (snd e)) x"
    unfolding assigned_def by (metis (no_types, lifting) map_cong)+
  with assms(1,2) show ?thesis unfolding assigned_def by simp
qed

lemma assigned_frequencies: "assigned enc cs code enc' \<Longrightarrow> frequencies enc' = frequencies enc"
  by (intro ext) (simp add: assigned_def frequencies_def frequency_def)

lemma assigned_symbols: "assigned enc cs code enc' \<Longrightarrow> symbols enc' = symbols enc"
  by (intro ext) (simp add: assigned_def symbols_def)

lemma assigned_one:
  assumes "encoder_ok enc" and "l \<le> 12" and "c < 2 ^ l"
  shows "assigned enc [s] [(c, l)]
    (enc\<lparr>hk_key := (hk_key enc)[unat s := ucast (ReverseBits (of_nat c) (of_nat l))], hk_keyLength := (hk_keyLength enc)[unat s := of_nat l]\<rparr>)"
proof -
  have "key_of (c, l) < 4096" using key_of_less [of "(c, l)"] power_le_4096 [OF assms(2)] by simp
  then have "ucast (of_nat (key_of (c, l)) :: word16) = (of_nat (key_of (c, l)) :: qword)"
    by (simp add: word_unat_eq_iff machine_simps unat_of_nat)
  then show ?thesis
    using assms by (simp add: assigned_def encoder_ok_def ReverseBits_key nth_list_update flip: word_unat_eq_iff)
qed

lemma frequencies_append:
  "a \<le> m \<Longrightarrow> m \<le> b \<Longrightarrow> frequencies enc a b = frequencies enc a m @ frequencies enc m b"
  using upt_add_eq_append [of a m "b - m"] by (simp add: frequencies_def flip: map_append)

text \<open>The position at which a range is split, for either of the two rules.\<close>

lemma split_ok:
  assumes "encoder_ok enc" and bits: "bits < 12" and two: "first + 2 \<le> behind" and short: "behind - first \<le> 2 ^ (12 - bits)"
    and pos: "\<forall>f \<in> set (frequencies enc first behind). 0 < f" and small: "sum_list (frequencies enc first behind) < 2 ^ 32"
  shows "\<exists>mid. (if 2 ^ (MAX_ENCODING_LENGTH - 1 - bits) < behind - first then Some (first + (behind - first) div 2)
      else split_position enc first behind) = Some mid \<and> first < mid \<and> mid < behind \<and>
    mid - first \<le> 2 ^ (12 - Suc bits) \<and> behind - mid \<le> 2 ^ (12 - Suc bits)"
proof -
  have pow: "(2 :: nat) ^ (12 - bits) = 2 * 2 ^ (12 - Suc bits)"
    using bits by (metis Suc_diff_Suc power_Suc)
  have e: "MAX_ENCODING_LENGTH - 1 - bits = 12 - Suc bits" by (simp add: MAX_ENCODING_LENGTH_def)
  show ?thesis
  proof (cases "2 ^ (12 - Suc bits) < behind - first")
    case True
    with two short show ?thesis unfolding e pow by simp linarith
  next
    case False
    with split_position_ok [OF two pos small] show ?thesis unfolding e by auto
  qed
qed

lemma AssignEncoding_ok:
  assumes "encoder_ok enc" and "bits \<le> 12" and "c < 2 ^ bits" and "first < behind" and "behind - first \<le> 2 ^ (12 - bits)"
    and "distinct (symbols enc first behind)"
    and "\<forall>f \<in> set (frequencies enc first behind). 0 < f" and "sum_list (frequencies enc first behind) < 2 ^ 32"
  shows "\<exists>enc' code. AssignEncoding enc first behind (of_nat c) (of_nat bits) = Some enc' \<and>
    assigned enc (symbols enc first behind) code enc' \<and> tiled (c * 2 ^ (12 - bits)) code ((c + 1) * 2 ^ (12 - bits))"
  using assms
proof (induction "12 - bits" arbitrary: enc first behind c bits rule: less_induct)
  case less
  show ?case
  proof (cases "behind - first = 1")
    case True
    then have "symbols enc first behind = [hk_sorted enc ! first]" using less.prems(4) by (simp add: symbols_def upt_rec)
    moreover have "tiled (c * 2 ^ (12 - bits)) [(c, bits)] ((c + 1) * 2 ^ (12 - bits))" using less.prems(2,3) by simp
    moreover have "AssignEncoding enc first behind (of_nat c) (of_nat bits) =
        Some (enc\<lparr>hk_key := (hk_key enc)[unat (hk_sorted enc ! first) := ucast (ReverseBits (of_nat c) (of_nat bits))],
                  hk_keyLength := (hk_keyLength enc)[unat (hk_sorted enc ! first) := of_nat bits]\<rparr>)"
      using True by (subst AssignEncoding.simps) (simp add: Let_def)
    ultimately show ?thesis using assigned_one [OF less.prems(1-3)] by metis
  next
    case False
    then have two: "first + 2 \<le> behind" using less.prems(4) by linarith
    have bits: "bits < 12"
    proof (rule ccontr)
      assume "\<not> bits < 12"
      with less.prems(5) two show False by simp
    qed
    obtain mid where mid: "(if 2 ^ (MAX_ENCODING_LENGTH - 1 - bits) < behind - first then Some (first + (behind - first) div 2)
        else split_position enc first behind) = Some mid" "first < mid" "mid < behind"
      "mid - first \<le> 2 ^ (12 - Suc bits)" "behind - mid \<le> 2 ^ (12 - Suc bits)"
      using split_ok [OF less.prems(1) bits two less.prems(5,7,8)] by blast
    note parts = symbols_append [of first mid behind enc] frequencies_append [of first mid behind enc]
    have shorter: "12 - Suc bits < 12 - bits" using bits by simp
    obtain enc1 code1 where one: "AssignEncoding enc first mid (of_nat (2 * c)) (of_nat (Suc bits)) = Some enc1"
      "assigned enc (symbols enc first mid) code1 enc1"
      "tiled (2 * c * 2 ^ (12 - Suc bits)) code1 ((2 * c + 1) * 2 ^ (12 - Suc bits))"
      using less.hyps [OF shorter, of enc "2 * c" first mid] less.prems bits mid parts by auto
    have same: "symbols enc1 = symbols enc" "frequencies enc1 = frequencies enc" "encoder_ok enc1"
      using one(2) assigned_symbols assigned_frequencies by (auto simp: assigned_def)
    obtain enc2 code2 where second: "AssignEncoding enc1 mid behind (of_nat (2 * c + 1)) (of_nat (Suc bits)) = Some enc2"
      "assigned enc1 (symbols enc mid behind) code2 enc2"
      "tiled ((2 * c + 1) * 2 ^ (12 - Suc bits)) code2 ((2 * c + 1 + 1) * 2 ^ (12 - Suc bits))"
      using less.hyps [OF shorter same(3), of "2 * c + 1" mid behind] less.prems bits mid parts by (auto simp: same)
    have pow: "(2 :: nat) ^ (12 - bits) = 2 * 2 ^ (12 - Suc bits)"
      using bits by (metis Suc_diff_Suc power_Suc)
    have ends: "2 * c * 2 ^ (12 - Suc bits) = c * 2 ^ (12 - bits)" "(2 * c + 1 + 1) * 2 ^ (12 - Suc bits) = (c + 1) * 2 ^ (12 - bits)"
      unfolding pow by (simp_all add: algebra_simps)
    have "assigned enc (symbols enc first behind) (code1 @ code2) enc2"
      using assigned_append [OF one(2) second(2)] less.prems(6) parts(1) mid by simp
    moreover have "tiled (c * 2 ^ (12 - bits)) (code1 @ code2) ((c + 1) * 2 ^ (12 - bits))"
      using one(3) second(3) unfolding tiled_append ends by blast
    moreover have "AssignEncoding enc first behind (of_nat c) (of_nat bits) = Some enc2"
      using False bits mid(1) one(1) second(1)
      by (subst AssignEncoding.simps) (simp add: MAX_ENCODING_LENGTH_def add.commute)
    ultimately show ?thesis by blast
  qed
qed

end
