(* ===== verification/HuffmanCount.thy ===== *)
theory HuffmanCount
  imports HuffmanAssign
begin

text \<open>
  The first stages of the encoder of the log cache: bytes as numbers, the exact frequencies that
  the blockwise counting computes, and the sorting that hands them to the assignment of the code.
\<close>

section \<open>Blocks of bytes as numbers\<close>

fun le_nat :: "byte list \<Rightarrow> nat" where
  "le_nat [] = 0"
| "le_nat (b # bs) = unat b + 256 * le_nat bs"

lemma le_nat_less: "le_nat bs < 2 ^ (8 * length bs)"
proof (induction bs)
  case (Cons b bs)
  have "unat b + 256 * le_nat bs < 256 * (le_nat bs + 1)" by simp
  also have "\<dots> \<le> 256 * 2 ^ (8 * length bs)" using Cons by (intro mult_le_mono2) simp
  finally show ?case by (simp add: power_add)
qed simp

lemma le_nat_append: "le_nat (a @ b) = le_nat a + 2 ^ (8 * length a) * le_nat b"
  by (induction a) (simp_all add: power_add algebra_simps)

lemma unat_le_value_mod: "unat (le_value bs) = le_nat bs mod 2 ^ 64"
proof (induction bs)
  case (Cons b bs)
  have "unat (le_value (b # bs)) = (unat b + 256 * unat (le_value bs)) mod 2 ^ 64"
    by (simp add: push_bit_eq_mult unat_word_ariths machine_simps mod_simps mult.commute)
  also have "\<dots> = (unat b + 256 * le_nat bs) mod 2 ^ 64"
    unfolding Cons by (metis mod_add_right_eq mod_mult_right_eq)
  finally show ?case by simp
qed simp

lemma unat_le_value: "length bs \<le> 8 \<Longrightarrow> unat (le_value bs) = le_nat bs"
  unfolding unat_le_value_mod
  by (rule mod_less, rule less_le_trans [OF le_nat_less], rule power_increasing) simp_all

lemma le_nat_byte: "j < length bs \<Longrightarrow> le_nat bs div 2 ^ (8 * j) mod 256 = unat (bs ! j)"
proof (induction bs arbitrary: j)
  case (Cons b bs)
  show ?case
  proof (cases j)
    case (Suc i)
    have "(unat b + 256 * le_nat bs) div 256 = le_nat bs" by simp
    then have "le_nat (b # bs) div 2 ^ (8 * j) = le_nat bs div 2 ^ (8 * i)"
      using div_mult2_eq [of "le_nat (b # bs)" 256 "2 ^ (8 * i)"] by (simp add: Suc power_add)
    with Cons Suc show ?thesis by simp
  qed simp
qed simp

lemma block_byte_le_value: "length bs \<le> 8 \<Longrightarrow> j < length bs \<Longrightarrow> block_byte (le_value bs) j = unat (bs ! j)"
proof -
  assume l: "length bs \<le> 8" and j: "j < length bs"
  have "block_byte (le_value bs) j = unat (take_bit 8 (drop_bit (8 * j) (le_value bs)))"
    by (simp add: block_byte_def take_bit_eq_mask mask_eq_exp_minus_1)
  also have "\<dots> = unat (drop_bit (8 * j) (le_value bs)) mod 256" by (simp only: unat_take_bit_mod) simp
  finally show ?thesis by (simp only: unat_drop_bit_div unat_le_value [OF l] le_nat_byte [OF j])
qed

section \<open>Counting\<close>

definition occurrences :: "byte list \<Rightarrow> nat \<Rightarrow> nat" where
  "occurrences bs k = length (filter (\<lambda>b. unat b = k) bs)"

lemma occurrences_simps [simp]:
  "occurrences [] k = 0"
  "occurrences (b # bs) k = (if unat b = k then 1 else 0) + occurrences bs k"
  "occurrences (xs @ ys) k = occurrences xs k + occurrences ys k"
  by (simp_all add: occurrences_def)

lemma occurrences_le: "occurrences bs k \<le> length bs"
  by (simp add: occurrences_def)

lemma occurrences_pos: "0 < occurrences bs k \<longleftrightarrow> k \<in> unat ` set bs"
  by (auto simp: occurrences_def filter_empty_conv)

lemma sum_occurrences: "(\<Sum>k \<leftarrow> [0..<256]. occurrences bs k) = length bs"
proof (induction bs)
  case (Cons b bs)
  have "(\<Sum>k \<leftarrow> [0..<n]. if unat b = k then 1 else 0) = (if unat b < n then 1 else (0 :: nat))" for n
    by (induction n) auto
  with Cons show ?case by (simp only: occurrences_simps sum_list_addf) simp
qed (simp add: occurrences_def)

definition counts_ok :: "dword list \<Rightarrow> (nat \<Rightarrow> nat) \<Rightarrow> bool" where
  "counts_ok counts f \<longleftrightarrow> length counts = 256 \<and> (\<forall>k < 256. counts ! k = of_nat (f k))"

lemma counts_ok_zero: "counts_ok (replicate 256 0) (\<lambda>k. 0)"
  by (simp add: counts_ok_def)

lemma increase_ok:
  "counts_ok counts f \<Longrightarrow> n = of_nat m \<Longrightarrow> counts_ok (increase counts (unat b) n) (\<lambda>k. f k + (if unat b = k then m else 0))"
  for b :: byte
  by (auto simp: counts_ok_def nth_list_update add.commute)

lemma count_chars_ok:
  "counts_ok counts f \<Longrightarrow> counts_ok (foldl (\<lambda>counts b. increase counts (unat b) 1) counts bs) (\<lambda>k. f k + occurrences bs k)"
proof (induction bs arbitrary: counts f)
  case (Cons b bs)
  from Cons.IH [OF increase_ok [OF Cons.prems, of 1 1 b]] show ?case by (simp add: add.assoc)
qed simp

text \<open>How often a value is found at one of the eight positions of the blocks.\<close>

fun column :: "nat \<Rightarrow> byte list \<Rightarrow> nat \<Rightarrow> nat \<Rightarrow> nat" where
  "column 0 source j k = 0"
| "column (Suc n) source j k = (if unat (source ! j) = k then 1 else 0) + column n (drop 8 source) j k"

lemma column_le: "column n source j k \<le> n"
  by (induction n arbitrary: source) (auto intro: le_SucI)

lemma occurrences_index:
  "n \<le> length bs \<Longrightarrow> occurrences (take n bs) k = (\<Sum>j \<leftarrow> [0..<n]. if unat (bs ! j) = k then 1 else 0)"
  by (induction n) (simp_all add: take_Suc_conv_app_nth)

lemma sum_columns: "8 * n \<le> length source \<Longrightarrow> (\<Sum>j \<leftarrow> [0..<8]. column n source j k) = occurrences (take (8 * n) source) k"
proof (induction n arbitrary: source)
  case (Suc n)
  have "take (8 * Suc n) source = take 8 source @ take (8 * n) (drop 8 source)"
    by (simp add: take_add)
  moreover have "(\<Sum>j \<leftarrow> [0..<8]. column n (drop 8 source) j k) = occurrences (take (8 * n) (drop 8 source)) k"
    using Suc by simp
  moreover have "occurrences (take 8 source) k = (\<Sum>j \<leftarrow> [0..<8]. if unat (source ! j) = k then 1 else 0)"
    using Suc.prems by (intro occurrences_index) simp
  ultimately show ?case by (simp only: column.simps sum_list_addf occurrences_simps)
qed (simp add: occurrences_def)

definition local_ok :: "dword list list \<Rightarrow> (nat \<Rightarrow> nat \<Rightarrow> nat) \<Rightarrow> bool" where
  "local_ok lc f \<longleftrightarrow> length lc = 8 \<and> (\<forall>j < 8. counts_ok (lc ! j) (\<lambda>k. 2 * f j k))"

lemma count_block_ok:
  assumes "local_ok lc f" and "length bs = 8"
  shows "local_ok (count_block lc (le_value bs)) (\<lambda>j k. f j k + (if unat (bs ! j) = k then 1 else 0))"
proof -
  let ?step = "\<lambda>lc j. lc[j := increase (lc ! j) (block_byte (le_value bs) j) 2]"
  have "length (foldl ?step lc [0..<m]) = 8 \<and>
      (\<forall>j < 8. foldl ?step lc [0..<m] ! j = (if j < m then increase (lc ! j) (unat (bs ! j)) 2 else lc ! j))"
    if "m \<le> 8" for m
    using that assms by (induction m) (auto simp: local_ok_def block_byte_le_value nth_list_update less_Suc_eq)
  from this [of 8] have at: "length (count_block lc (le_value bs)) = 8"
    "\<forall>j < 8. count_block lc (le_value bs) ! j = increase (lc ! j) (unat (bs ! j)) 2"
    by (simp_all add: count_block_def)
  show ?thesis
    unfolding local_ok_def
  proof (intro conjI allI impI at(1))
    fix j :: nat assume j: "j < 8"
    then have "counts_ok (lc ! j) (\<lambda>k. 2 * f j k)" using assms(1) by (simp add: local_ok_def)
    from increase_ok [OF this, of 2 2 "bs ! j"] at(2) j
    show "counts_ok (count_block lc (le_value bs) ! j) (\<lambda>k. 2 * (f j k + (if unat (bs ! j) = k then 1 else 0)))"
      by (simp add: if_distrib cong: if_cong)
  qed
qed

lemma count_blocks_ok:
  "local_ok lc f \<Longrightarrow> 8 * n \<le> length source \<Longrightarrow>
   local_ok (count_blocks lc source n) (\<lambda>j k. f j k + column n source j k)"
proof (induction n arbitrary: lc f source)
  case (Suc n)
  have "length (take 8 source) = 8" using Suc.prems(2) by simp
  note count_block_ok [OF Suc.prems(1) this]
  from Suc.IH [OF this, of "drop 8 source"] Suc.prems(2) show ?case
    by (simp add: local_ok_def counts_ok_def add.assoc)
qed simp

lemma fold_counts_ok:
  "counts_ok counts f \<Longrightarrow> \<forall>j < length lcs. counts_ok (lcs ! j) (\<lambda>k. 2 * g j k) \<and> (\<forall>k. 2 * g j k < 2 ^ 32) \<Longrightarrow>
   counts_ok (fold_counts counts lcs) (\<lambda>k. f k + (\<Sum>j \<leftarrow> [0..<length lcs]. g j k))"
proof (induction lcs rule: rev_induct)
  case (snoc lc lcs)
  have each: "counts_ok ((lcs @ [lc]) ! j) (\<lambda>k. 2 * g j k) \<and> (\<forall>k. 2 * g j k < 2 ^ 32)" if "j \<le> length lcs" for j
    using snoc.prems(2) that unfolding length_append_singleton less_Suc_eq_le by blast
  have "counts_ok (lcs ! j) (\<lambda>k. 2 * g j k) \<and> (\<forall>k. 2 * g j k < 2 ^ 32)" if "j < length lcs" for j
    using each [of j] that by (simp add: nth_append)
  then have IH: "counts_ok (fold_counts counts lcs) (\<lambda>k. f k + (\<Sum>j \<leftarrow> [0..<length lcs]. g j k))"
    by (intro snoc.IH snoc.prems(1)) blast
  have lc: "counts_ok lc (\<lambda>k. 2 * g (length lcs) k)" "2 * g (length lcs) k < 2 ^ 32" for k
    using each [of "length lcs"] by simp_all
  have "of_nat (2 * g (length lcs) k) div (2 :: dword) = of_nat (g (length lcs) k)" for k
    using lc(2) [of k] by (simp only: word_unat_eq_iff unat_div unat_of_nat) simp
  then show ?case using IH lc(1) by (simp add: fold_counts_def counts_ok_def)
qed (simp add: fold_counts_def)

lemma CountValues_ok:
  assumes "length source < 2 ^ 32"
  shows "counts_ok (hk_count (CountValues enc source)) (occurrences source)"
proof (cases "2 * length source > 8 * BUCKET_COUNT div 2")
  case True
  let ?n = "length source div 8"
  have "local_ok (replicate 8 (replicate 256 0)) (\<lambda>j k. 0)"
    by (simp add: local_ok_def counts_ok_zero)
  from count_blocks_ok [OF this, of ?n source]
  have local: "local_ok (count_blocks (replicate 8 (replicate 256 0)) source ?n) (\<lambda>j k. column ?n source j k)" by simp
  have "2 * column ?n source j k < 2 ^ 32" for j k using column_le [of ?n source j k] assms by simp
  with local have "counts_ok (fold_counts (replicate 256 0) (count_blocks (replicate 8 (replicate 256 0)) source ?n))
      (\<lambda>k. 0 + (\<Sum>j \<leftarrow> [0..<8]. column ?n source j k))"
    using fold_counts_ok [OF counts_ok_zero, of "count_blocks (replicate 8 (replicate 256 0)) source ?n" "\<lambda>j k. column ?n source j k"]
    by (simp add: local_ok_def)
  from count_chars_ok [OF this, of "drop (8 * ?n) source"]
  have "counts_ok (hk_count (CountValues enc source)) (\<lambda>k. occurrences (take (8 * ?n) source) k + occurrences (drop (8 * ?n) source) k)"
    using True by (simp add: CountValues_def sum_columns BUCKET_COUNT_def)
  then show ?thesis by (simp flip: occurrences_simps)
next
  case False
  then show ?thesis
    using count_chars_ok [OF counts_ok_zero, of source] by (simp add: CountValues_def BUCKET_COUNT_def)
qed

section \<open>Sorting\<close>

lemma comprehension_filter: "concat (map (\<lambda>i. if P i then [g i] else []) xs) = map g (filter P xs)"
  by (induction xs) simp_all

definition frequency_pairs :: "huffman_encoder \<Rightarrow> (dword \<times> byte) list" where
  "frequency_pairs enc = map (\<lambda>i. (hk_count enc ! i, of_nat i)) (filter (\<lambda>i. hk_count enc ! i > 0) [0..<256])"

lemma SortByFrequency_pairs:
  "SortByFrequency enc =
     (let pairs = sort (frequency_pairs enc);
          enc = enc\<lparr>hk_sortedCount := length pairs, hk_sorted := map snd pairs @ drop (length pairs) (hk_sorted enc)\<rparr> in
      if pairs \<noteq> [] then AssignEncoding enc 0 (length pairs) 0 0 else Some enc)"
  by (simp only: SortByFrequency_def frequency_pairs_def BUCKET_COUNT_def comprehension_filter)

lemma distinct_pairs: "distinct (map snd (frequency_pairs enc))"
proof -
  have "inj_on (of_nat :: nat \<Rightarrow> byte) {0..<256}"
    by (rule inj_onI) (auto simp: word_unat_eq_iff unat_of_nat)
  then show ?thesis
    by (auto simp: frequency_pairs_def comp_def distinct_map intro: inj_on_subset)
qed

lemma set_pairs: "p \<in> set (frequency_pairs enc) \<longleftrightarrow> fst p = hk_count enc ! unat (snd p) \<and> 0 < fst p"
proof
  assume "p \<in> set (frequency_pairs enc)"
  then show "fst p = hk_count enc ! unat (snd p) \<and> 0 < fst p"
    by (auto simp: frequency_pairs_def unat_of_nat)
next
  assume "fst p = hk_count enc ! unat (snd p) \<and> 0 < fst p"
  then show "p \<in> set (frequency_pairs enc)"
    by (cases p) (auto simp: frequency_pairs_def image_iff intro!: exI [of _ "unat (snd p)"])
qed

definition coded :: "huffman_encoder \<Rightarrow> byte list \<Rightarrow> byte list \<Rightarrow> code \<Rightarrow> bool" where
  "coded enc source cs code \<longleftrightarrow>
     encoder_ok enc \<and> counts_ok (hk_count enc) (occurrences source) \<and> length (hk_sorted enc) = 256 \<and>
     length cs = hk_sortedCount enc \<and> hk_sortedCount enc \<le> 256 \<and> take (hk_sortedCount enc) (hk_sorted enc) = cs \<and>
     distinct cs \<and> set cs = set source \<and>
     map (\<lambda>c. hk_key enc ! unat c) cs = map (\<lambda>e. of_nat (key_of e)) code \<and>
     map (\<lambda>c. hk_keyLength enc ! unat c) cs = map (\<lambda>e. of_nat (snd e)) code \<and> tiled 0 code 4096"

lemma unat_count:
  assumes "length source < 2 ^ 32" and "counts_ok (hk_count enc) (occurrences source)" and "k < 256"
  shows "unat (hk_count enc ! k) = occurrences source k"
  using assms occurrences_le [of source k] by (simp add: counts_ok_def unat_of_nat)

lemma snd_pairs:
  assumes "length source < 2 ^ 32" and "counts_ok (hk_count enc) (occurrences source)"
  shows "snd ` set (frequency_pairs enc) = set source"
proof -
  have "b \<in> snd ` set (frequency_pairs enc) \<longleftrightarrow> 0 < hk_count enc ! unat b" for b
  proof
    assume "0 < hk_count enc ! unat b"
    then have "(hk_count enc ! unat b, b) \<in> set (frequency_pairs enc)" by (simp add: set_pairs)
    then show "b \<in> snd ` set (frequency_pairs enc)" by force
  qed (auto simp: set_pairs)
  moreover have "0 < hk_count enc ! unat b \<longleftrightarrow> b \<in> set source" for b :: byte
    using occurrences_pos [of source "unat b"] unat_count [OF assms, of "unat b"]
    by (auto simp: word_less_nat_alt simp flip: word_unat_eq_iff)
  ultimately show ?thesis by blast
qed

lemma sum_pairs:
  assumes "length source < 2 ^ 32" and "counts_ok (hk_count enc) (occurrences source)"
  shows "(\<Sum>p \<leftarrow> frequency_pairs enc. unat (fst p)) = length source"
proof -
  have "(\<Sum>i \<leftarrow> filter (\<lambda>i. hk_count enc ! i > 0) xs. unat (hk_count enc ! i)) = (\<Sum>i \<leftarrow> xs. unat (hk_count enc ! i))" for xs
    by (induction xs) (auto simp: word_less_nat_alt)
  then have "(\<Sum>p \<leftarrow> frequency_pairs enc. unat (fst p)) = (\<Sum>k \<leftarrow> [0..<256]. unat (hk_count enc ! k))"
    by (simp add: frequency_pairs_def comp_def)
  also have "\<dots> = (\<Sum>k \<leftarrow> [0..<256]. occurrences source k)"
    by (rule arg_cong [of _ _ sum_list], rule map_cong) (simp_all add: unat_count [OF assms])
  finally show ?thesis by (simp only: sum_occurrences)
qed

theorem SortByFrequency_ok:
  assumes "encoder_ok enc" and "length (hk_sorted enc) = 256" and small: "length source < 2 ^ 32" and "source \<noteq> []"
  shows "\<exists>enc' cs code. SortByFrequency (CountValues enc source) = Some enc' \<and> coded enc' source cs code"
proof -
  let ?E = "CountValues enc source"
  define pairs where "pairs = sort (frequency_pairs ?E)"
  define E where "E = ?E\<lparr>hk_sortedCount := length pairs, hk_sorted := map snd pairs @ drop (length pairs) (hk_sorted ?E)\<rparr>"
  have counts: "counts_ok (hk_count ?E) (occurrences source)" by (rule CountValues_ok [OF small])
  have shape: "encoder_ok ?E" "length (hk_sorted ?E) = 256"
    using assms(1,2) by (simp_all add: CountValues_def encoder_ok_def Let_def split: prod.split)
  have set: "snd ` set pairs = set source" using snd_pairs [OF small counts] by (simp add: pairs_def)
  have dist: "distinct (map snd pairs)"
    using distinct_pairs [of ?E] mset_eq_imp_distinct_iff [of "map snd pairs" "map snd (frequency_pairs ?E)"]
    by (simp add: pairs_def)
  have "(\<Sum>p \<leftarrow> pairs. unat (fst p)) = (\<Sum>p \<leftarrow> frequency_pairs ?E. unat (fst p))"
    unfolding pairs_def sum_mset_sum_list [symmetric] mset_map mset_sort ..
  then have sum: "(\<Sum>p \<leftarrow> pairs. unat (fst p)) = length source" by (simp only: sum_pairs [OF small counts])
  have each: "p \<in> set pairs \<longleftrightarrow> fst p = hk_count ?E ! unat (snd p) \<and> 0 < fst p" for p
    by (simp only: pairs_def set_sort set_pairs)
  have ne: "pairs \<noteq> []" using set assms(4) by auto
  have len: "length pairs \<le> 256"
  proof -
    have "length pairs = card (set (map snd pairs))" using distinct_card [OF dist] by simp
    also have "\<dots> \<le> card (UNIV :: byte set)" by (rule card_mono) simp_all
    finally show ?thesis by (simp add: card_word)
  qed
  have sorted: "hk_sorted E ! i = snd (pairs ! i)" if "i < length pairs" for i
    using that by (simp add: E_def nth_append)
  have symbols: "symbols E 0 (length pairs) = map snd pairs"
    by (rule nth_equalityI) (simp_all add: symbols_def sorted)
  have freqs: "frequencies E 0 (length pairs) = map (\<lambda>p. unat (fst p)) pairs"
  proof (rule nth_equalityI)
    fix i assume "i < length (frequencies E 0 (length pairs))"
    then have i: "i < length pairs" by (simp add: frequencies_def)
    then have "fst (pairs ! i) = hk_count ?E ! unat (snd (pairs ! i))" using each [of "pairs ! i"] nth_mem [OF i] by blast
    with i show "frequencies E 0 (length pairs) ! i = map (\<lambda>p. unat (fst p)) pairs ! i"
      by (simp add: frequencies_def frequency_def sorted) (simp add: E_def)
  qed (simp add: frequencies_def)
  have "\<exists>enc' code. AssignEncoding E 0 (length pairs) (of_nat 0) (of_nat 0) = Some enc' \<and>
      assigned E (symbols E 0 (length pairs)) code enc' \<and> tiled (0 * 2 ^ (12 - 0)) code ((0 + 1) * 2 ^ (12 - 0))"
  proof (rule AssignEncoding_ok)
    show "encoder_ok E" using shape(1) by (simp add: encoder_ok_def E_def)
    show "\<forall>f \<in> set (frequencies E 0 (length pairs)). 0 < f" using each by (auto simp: freqs word_less_nat_alt)
    show "sum_list (frequencies E 0 (length pairs)) < 2 ^ 32" using sum small by (simp add: freqs)
  qed (use len ne dist symbols in simp_all)
  then obtain enc' code where run: "AssignEncoding E 0 (length pairs) 0 0 = Some enc'"
    "assigned E (map snd pairs) code enc'" "tiled 0 code 4096" by (auto simp: symbols)
  have "coded enc' source (map snd pairs) code"
    using run(2,3) counts shape(2) len dist set unfolding coded_def assigned_def by (simp add: E_def)
  moreover have "SortByFrequency ?E = Some enc'"
    using run(1) ne by (simp add: SortByFrequency_pairs Let_def flip: pairs_def E_def)
  ultimately show ?thesis by blast
qed

end
