(* ===== verification/HuffmanTables.thy ===== *)
theory HuffmanTables
  imports HuffmanCount
begin

text \<open>
  The table of the packed stream: what the encoder of the log cache writes in front of the code
  words is enough for the decoder to rebuild its tables.
\<close>

section \<open>Reading bytes\<close>

lemma get_bytes_ok:
  "n \<le> length (ib_data b) \<Longrightarrow> get_bytes n b = Return (take n (ib_data b), b\<lparr>ib_data := drop n (ib_data b)\<rparr>)"
proof (induction n arbitrary: b)
  case (Suc n)
  obtain x xs where x: "ib_data b = x # xs" using Suc.prems by (cases "ib_data b") auto
  have "n \<le> length (ib_data (b\<lparr>ib_data := xs\<rparr>))" using Suc.prems x by simp
  from Suc.IH [OF this] show ?case by (simp add: hd_GetByte_def GetData_def x)
qed simp

lemma get_bytes_short: "length (ib_data b) < n \<Longrightarrow> get_bytes n b = Raise ''corrupted huffman stream''"
proof (induction n arbitrary: b)
  case (Suc n)
  show ?case
  proof (cases "ib_data b")
    case (Cons x xs)
    have "length (ib_data (b\<lparr>ib_data := xs\<rparr>)) < n" using Suc.prems Cons by simp
    from Suc.IH [OF this] show ?thesis by (simp add: hd_GetByte_def GetData_def Cons)
  qed (simp add: hd_GetByte_def GetData_def)
qed simp

section \<open>The lengths\<close>

lemma nibbles_pack:
  assumes "unat l < 16"
  shows "nibbles (l + h * 0x10) = [l, take_bit 4 h]"
proof -
  have "unat (h * 0x10) = 16 * (unat h mod 16)"
  proof -
    have "unat (h * 0x10) = unat h * 16 mod (16 * 16)" by (simp add: unat_word_ariths)
    then show ?thesis by (simp only: mult.commute [of "unat h"] mult_mod_right [symmetric])
  qed
  moreover have "unat (l + h * 0x10) = (unat l + unat (h * 0x10)) mod 256" by (simp add: unat_word_ariths)
  ultimately have s: "unat (l + h * 0x10) = unat l + 16 * (unat h mod 16)" using assms by simp
  have "unat ((l + h * 0x10) AND 0x0f) = unat (take_bit 4 (l + h * 0x10))"
    by (simp add: take_bit_eq_mask mask_eq_exp_minus_1)
  also have "\<dots> = unat l" using assms by (simp add: unat_take_bit_mod s)
  finally have "(l + h * 0x10) AND 0x0f = l" by (simp add: word_unat_eq_iff)
  moreover have "unat ((l + h * 0x10) div 0x10) = unat (take_bit 4 h)"
    using assms by (simp add: unat_div unat_take_bit_mod s)
  then have "(l + h * 0x10) div 0x10 = take_bit 4 h" by (simp add: word_unat_eq_iff)
  ultimately show ?thesis by (simp add: nibbles_def)
qed

lemma take_bit_nibble: "unat h < 16 \<Longrightarrow> take_bit 4 h = h" for h :: byte
  by (simp add: word_unat_eq_iff unat_take_bit_mod)

lemma length_length_nibbles [simp]: "length (length_nibbles enc i n) = n"
  by (induction enc i n rule: length_nibbles.induct) simp_all

lemma unpack_length_nibbles:
  "\<forall>j. i \<le> j \<and> j < i + m \<longrightarrow> unat (hk_keyLength enc ! unat (hk_sorted enc ! j)) < 16 \<Longrightarrow>
   take m (concat (map nibbles (length_nibbles enc i ((m + 1) div 2)))) =
   map (\<lambda>j. hk_keyLength enc ! unat (hk_sorted enc ! j)) [i..<i + m]"
proof (induction m arbitrary: i rule: induct_nat_012)
  case 1
  then show ?case by (simp add: nibbles_pack)
next
  case (ge2 m)
  have "take m (concat (map nibbles (length_nibbles enc (i + 2) ((m + 1) div 2)))) =
      map (\<lambda>j. hk_keyLength enc ! unat (hk_sorted enc ! j)) [i + 2..<i + 2 + m]"
    using ge2.prems by (intro ge2.IH) simp
  moreover have "[i..<i + Suc (Suc m)] = i # (i + 1) # [i + 2..<i + 2 + m]"
    by (simp add: upt_conv_Cons)
  moreover have "(Suc (Suc m) + 1) div 2 = Suc ((m + 1) div 2)" by simp
  ultimately show ?case using ge2.prems by (simp add: nibbles_pack take_bit_nibble)
qed simp

section \<open>The tables of the decoder\<close>

text \<open>The keys of an encoder are short, and the tables of a decoder fit to them, for a set of bytes.\<close>

abbreviation key_value :: "huffman_encoder \<Rightarrow> byte \<Rightarrow> nat" where
  "key_value enc c \<equiv> unat (hk_key enc ! unat c)"

abbreviation key_length :: "huffman_encoder \<Rightarrow> byte \<Rightarrow> nat" where
  "key_length enc c \<equiv> unat (hk_keyLength enc ! unat c)"

definition keys_ok :: "huffman_encoder \<Rightarrow> byte set \<Rightarrow> bool" where
  "keys_ok enc S \<longleftrightarrow> (\<forall>c \<in> S. key_length enc c \<le> 12 \<and> key_value enc c < 2 ^ key_length enc c)"

definition codec :: "huffman_encoder \<Rightarrow> huffman_decoder \<Rightarrow> byte set \<Rightarrow> bool" where
  "codec enc d S \<longleftrightarrow>
     (\<forall>c \<in> S. \<forall>x < 4096. x mod 2 ^ key_length enc c = key_value enc c \<longrightarrow>
        hd_value d ! x = c \<and> hd_length d ! x = hk_keyLength enc ! unat c)"

lemma coded_nth:
  assumes "coded enc source cs code" and "i < length cs"
  shows "unat (hk_keyLength enc ! unat (cs ! i)) = snd (code ! i)" and "unat (hk_key enc ! unat (cs ! i)) = key_of (code ! i)"
    and "snd (code ! i) \<le> 12" and "length code = length cs"
proof -
  have maps: "map (\<lambda>c. hk_key enc ! unat c) cs = map (\<lambda>e. of_nat (key_of e)) code"
    "map (\<lambda>c. hk_keyLength enc ! unat c) cs = map (\<lambda>e. of_nat (snd e)) code" and t: "tiled 0 code 4096"
    using assms(1) by (simp_all add: coded_def)
  show len: "length code = length cs" using arg_cong [OF maps(1), of length] by simp
  show l: "snd (code ! i) \<le> 12" using tiled_nth [OF t] assms(2) len by simp
  have at: "map f cs ! i = f (cs ! i)" for f :: "byte \<Rightarrow> 'a" by (simp add: assms(2))
  have at': "map f code ! i = f (code ! i)" for f :: "nat \<times> nat \<Rightarrow> 'a" by (simp add: assms(2) len)
  show "unat (hk_keyLength enc ! unat (cs ! i)) = snd (code ! i)"
    using arg_cong [OF maps(2), of "\<lambda>l. l ! i"] l assms(2) len by simp
  have "key_of (code ! i) < 4096"
    using key_of_less [of "code ! i"] power_le_4096 [OF l] by (rule less_le_trans)
  then show "unat (hk_key enc ! unat (cs ! i)) = key_of (code ! i)"
    using arg_cong [OF maps(1), of "\<lambda>l. l ! i"] assms(2) len by (simp add: unat_of_nat)
qed

lemma coded_keys_ok: "coded enc source cs code \<Longrightarrow> keys_ok enc (set source)"
  unfolding keys_ok_def
proof
  fix c assume coded: "coded enc source cs code" and "c \<in> set source"
  then obtain i where i: "i < length cs" "c = cs ! i" unfolding coded_def by (metis in_set_conv_nth)
  with coded_nth [OF coded i(1)] key_of_less [of "code ! i"]
  show "key_length enc c \<le> 12 \<and> key_value enc c < 2 ^ key_length enc c" by simp
qed

lemma keys_of_lengths:
  assumes "tiled 0 code q" and "code \<noteq> []"
  shows "0 # next_keys 0 (map (\<lambda>e. of_nat (snd e)) code ! 0) (tl (map (\<lambda>e. of_nat (snd e)) code)) = map (\<lambda>e. of_nat (key_of e)) code"
proof -
  obtain c l code' where code: "code = (c, l) # code'" using assms(2) by (cases code) auto
  with assms(1) have "c = 0" by simp
  moreover have "rbits 0 n = 0" for n by (induction n) simp_all
  ultimately show ?thesis using code next_keys_tiled [of 0 0 l code' q] assms(1) by (simp add: key_of_def)
qed

theorem BuildDecodeTable_ok:
  assumes coded: "coded enc source cs code" and "source \<noteq> []" and "tables_ok d" and b: "ib_data b = huffman_table enc @ rest"
  shows "\<exists>d'. BuildDecodeTable d b = Return (d', b\<lparr>ib_data := rest\<rparr>) \<and> codec enc d' (set source) \<and> tables_ok d'"
proof -
  let ?n = "hk_sortedCount enc" and ?m = "(hk_sortedCount enc + 1) div 2"
  define lens where "lens = map (\<lambda>e. of_nat (snd e) :: byte) code"
  define keys where "keys = map (\<lambda>e. of_nat (key_of e) :: word16) code"
  define d' where "d' = fill_tables (zip keys (zip cs lens)) d"
  have cs: "length cs = ?n" "?n \<le> 256" "take ?n (hk_sorted enc) = cs" "set cs = set source" "length (hk_sorted enc) = 256"
    and code: "tiled 0 code 4096"
    using coded by (simp_all add: coded_def)
  have ne: "0 < ?n" using cs(1,4) assms(2) by (cases cs) auto
  have code_ne: "code \<noteq> []" using coded_nth(4) [OF coded, of 0] cs(1) ne by auto
  have len: "length code = length cs" using coded_nth(4) [OF coded, of 0] cs(1) ne by simp
  have sorted: "map (\<lambda>i. hk_sorted enc ! i) [0..<?n] = cs"
    using cs(2,3,5) map_nth [of cs] by (metis cs(1) map_eq_conv nth_take atLeastLessThan_iff set_upt)
  have at: "hk_sorted enc ! j = cs ! j" if "j < ?n" for j using cs(3) that by (metis nth_take)
  have "take ?n (concat (map nibbles (length_nibbles enc 0 ?m))) = map (\<lambda>j. hk_keyLength enc ! unat (hk_sorted enc ! j)) [0..<0 + ?n]"
  proof (rule unpack_length_nibbles, intro allI impI)
    fix j assume "0 \<le> j \<and> j < 0 + ?n"
    with coded_nth(1,3) [OF coded, of j] cs(1) at [of j]
    show "unat (hk_keyLength enc ! unat (hk_sorted enc ! j)) < 16" by simp
  qed
  also have "\<dots> = map (\<lambda>c. hk_keyLength enc ! unat c) cs" by (simp flip: sorted)
  also have "\<dots> = lens" using coded by (simp add: coded_def lens_def)
  finally have unpacked: "take ?n (concat (map nibbles (length_nibbles enc 0 ?m))) = lens" .
  have keys: "0 # next_keys 0 (lens ! 0) (tl lens) = keys"
    unfolding lens_def keys_def by (rule keys_of_lengths [OF code code_ne])
  have count: "(if of_nat ?n = (0 :: byte) then BUCKET_COUNT else unat (of_nat ?n :: byte)) = ?n"
  proof (cases "?n = 256")
    case False
    with cs(2) ne have "unat (of_nat ?n :: byte) = ?n" by (simp add: unat_of_nat)
    with ne show ?thesis by (metis unat_0 less_irrefl)
  qed (simp add: BUCKET_COUNT_def)
  have "hd_GetByte b = Return (of_nat ?n, b\<lparr>ib_data := cs @ length_nibbles enc 0 ?m @ rest\<rparr>)"
    by (simp add: hd_GetByte_def GetData_def b huffman_table_def sorted)
  with unpacked keys count have "BuildDecodeTable d b = Return (d', b\<lparr>ib_data := rest\<rparr>)"
    unfolding BuildDecodeTable_def d'_def by (simp add: get_bytes_ok cs(1) Let_def)
  moreover have "codec enc d' (set source)"
    unfolding codec_def
  proof (intro ballI conjI allI impI)
    fix c assume "c \<in> set source"
    then obtain i where i: "i < length cs" "c = cs ! i" using cs(4) by (metis in_set_conv_nth)
    note nth = coded_nth [OF coded i(1), folded i(2)]
    fix x :: nat assume "x < 4096" "x mod 2 ^ unat (hk_keyLength enc ! unat c) = unat (hk_key enc ! unat c)"
    then have "hd_value d' ! x = cs ! i \<and> hd_length d' ! x = of_nat (snd (code ! i))"
      using fill_tables_code [OF assms(3) code, of cs i x] i(1) len nth unfolding d'_def keys_def lens_def by simp
    moreover have "of_nat (snd (code ! i)) = hk_keyLength enc ! unat c" using word_of_unat [OF nth(1)] by simp
    ultimately show "hd_value d' ! x = c" "hd_length d' ! x = hk_keyLength enc ! unat c" using i(2) by simp_all
  qed
  moreover have "tables_ok d'" unfolding d'_def by (rule tables_ok_fill [OF assms(3)])
  ultimately show ?thesis by blast
qed

end
