(* ===== verification/HuffmanStream.thy ===== *)
theory HuffmanStream
  imports HuffmanTables
begin

text \<open>
  The code words of a packed stream in the log cache as one long number: what the encoder writes
  block by block, and what the decoder reads with its look-ahead, is this number.
\<close>

section \<open>The number that a sequence of bytes is encoded to\<close>

fun bits_value :: "huffman_encoder \<Rightarrow> byte list \<Rightarrow> nat" where
  "bits_value enc [] = 0"
| "bits_value enc (c # cs) = key_value enc c + 2 ^ key_length enc c * bits_value enc cs"

definition bits_length :: "huffman_encoder \<Rightarrow> byte list \<Rightarrow> nat" where
  "bits_length enc cs = (\<Sum>c \<leftarrow> cs. key_length enc c)"

lemma bits_length_simps [simp]:
  "bits_length enc [] = 0"
  "bits_length enc (c # cs) = key_length enc c + bits_length enc cs"
  "bits_length enc (a @ b) = bits_length enc a + bits_length enc b"
  by (simp_all add: bits_length_def)

lemma bits_value_append: "bits_value enc (a @ b) = bits_value enc a + 2 ^ bits_length enc a * bits_value enc b"
  by (induction a) (simp_all add: power_add algebra_simps)

lemma bits_value_less: "keys_ok enc S \<Longrightarrow> set cs \<subseteq> S \<Longrightarrow> bits_value enc cs < 2 ^ bits_length enc cs"
proof (induction cs)
  case (Cons c cs)
  let ?k = "key_value enc c" and ?l = "key_length enc c"
  have "?k < 2 ^ ?l" using Cons.prems by (auto simp: keys_ok_def)
  then have "?k + 2 ^ ?l * bits_value enc cs < 2 ^ ?l * (bits_value enc cs + 1)" by simp
  also have "\<dots> \<le> 2 ^ ?l * 2 ^ bits_length enc cs" using Cons by (intro mult_le_mono2) simp
  finally show ?case by (simp add: power_add)
qed simp

lemma bits_length_le: "keys_ok enc S \<Longrightarrow> set cs \<subseteq> S \<Longrightarrow> bits_length enc cs \<le> 12 * length cs"
  by (induction cs) (auto simp: keys_ok_def)

section \<open>The encoder\<close>

subsection \<open>The cache\<close>

definition encode_list :: "huffman_encoder \<Rightarrow> byte list \<Rightarrow> bit_writer \<Rightarrow> bit_writer" where
  "encode_list enc cs w = foldl (\<lambda>w c. encode_char enc (unat c) w) w cs"

lemma encode_char_mem [simp]:
  "bw_mem (encode_char enc c w) = bw_mem w" "bw_dest (encode_char enc c w) = bw_dest w"
  by (simp_all add: encode_char_def)

lemma encode_list_mem [simp]:
  "bw_mem (encode_list enc cs w) = bw_mem w" "bw_dest (encode_list enc cs w) = bw_dest w"
  unfolding encode_list_def by (induction cs arbitrary: w) simp_all

lemma encode_char_ok:
  assumes "unat (cachedCode w) < 2 ^ unat (cachedBits w)" and "unat (cachedBits w) + key_length enc c < 64"
    and "key_value enc c < 2 ^ key_length enc c"
  shows "unat (cachedCode (encode_char enc (unat c) w)) = unat (cachedCode w) + 2 ^ unat (cachedBits w) * key_value enc c"
    and "unat (cachedBits (encode_char enc (unat c) w)) = unat (cachedBits w) + key_length enc c"
    and "unat (cachedCode (encode_char enc (unat c) w)) < 2 ^ unat (cachedBits (encode_char enc (unat c) w))"
proof -
  let ?q = "unat (cachedCode w)" and ?b = "unat (cachedBits w)" and ?k = "key_value enc c" and ?l = "key_length enc c"
  have "?q + 2 ^ ?b * ?k < 2 ^ ?b * (?k + 1)" using assms(1) by simp
  also have "\<dots> \<le> 2 ^ ?b * 2 ^ ?l" using assms(3) by (intro mult_le_mono2) simp
  finally have bound: "?q + 2 ^ ?b * ?k < 2 ^ (?b + ?l)" by (simp add: power_add)
  also have "\<dots> \<le> (2 :: nat) ^ 64" using assms(2) by (intro power_increasing) simp_all
  finally have small: "?q + 2 ^ ?b * ?k < 2 ^ 64" .
  have "unat (push_bit ?b (hk_key enc ! unat c)) = 2 ^ ?b * ?k mod 2 ^ 64"
    by (simp only: unat_push_bit_mod mult.commute) simp
  then have "unat (cachedCode (encode_char enc (unat c) w)) = (?q + 2 ^ ?b * ?k) mod 2 ^ 64"
    by (simp add: encode_char_def unat_word_ariths mod_add_right_eq)
  with small show one: "unat (cachedCode (encode_char enc (unat c) w)) = ?q + 2 ^ ?b * ?k" by simp
  show two: "unat (cachedBits (encode_char enc (unat c) w)) = ?b + ?l"
    using assms(2) by (simp add: encode_char_def unat_word_ariths)
  show "unat (cachedCode (encode_char enc (unat c) w)) < 2 ^ unat (cachedBits (encode_char enc (unat c) w))"
    unfolding one two by (rule bound)
qed

lemma encode_list_ok:
  assumes "keys_ok enc S"
  shows "set cs \<subseteq> S \<Longrightarrow> unat (cachedCode w) < 2 ^ unat (cachedBits w) \<Longrightarrow> unat (cachedBits w) + bits_length enc cs < 64 \<Longrightarrow>
    unat (cachedCode (encode_list enc cs w)) = unat (cachedCode w) + 2 ^ unat (cachedBits w) * bits_value enc cs \<and>
    unat (cachedBits (encode_list enc cs w)) = unat (cachedBits w) + bits_length enc cs \<and>
    unat (cachedCode (encode_list enc cs w)) < 2 ^ unat (cachedBits (encode_list enc cs w))"
proof (induction cs arbitrary: w)
  case (Cons c cs)
  have "key_value enc c < 2 ^ key_length enc c" using assms Cons.prems(1) by (auto simp: keys_ok_def)
  note step = encode_char_ok [OF Cons.prems(2) _ this]
  have e: "encode_list enc (c # cs) w = encode_list enc cs (encode_char enc (unat c) w)" by (simp add: encode_list_def)
  let ?w = "encode_char enc (unat c) w"
  have "unat (cachedBits w) + key_length enc c < 64" using Cons.prems(3) by simp
  note step = step [OF this]
  have "set cs \<subseteq> S" "unat (cachedBits ?w) + bits_length enc cs < 64"
    using Cons.prems(1,3) step(2) by simp_all
  note IH = Cons.IH [OF this(1) step(3) this(2)]
  note IH = IH [THEN conjunct1] IH [THEN conjunct2, THEN conjunct1] IH [THEN conjunct2, THEN conjunct2]
  from IH(1) step(1,2) have "unat (cachedCode (encode_list enc cs ?w)) =
      unat (cachedCode w) + 2 ^ unat (cachedBits w) * bits_value enc (c # cs)"
    by (simp only: bits_value.simps power_add distrib_left mult.assoc add.assoc)
  moreover have "unat (cachedBits (encode_list enc cs ?w)) = unat (cachedBits w) + bits_length enc (c # cs)"
    using IH(2) step(2) by simp
  ultimately show ?case using IH(3) unfolding e by blast
qed (simp add: encode_list_def)

subsection \<open>Full bytes go to memory\<close>

lemma unat_and_not_7: "unat (b AND NOT 7) = 8 * (unat b div 8)" for b :: byte
proof -
  have "b AND NOT 7 = push_bit 3 (drop_bit 3 b)"
  proof (rule bit_word_eqI)
    fix n assume "n < LENGTH(8)"
    moreover have "bit (7 :: byte) n \<longleftrightarrow> n < 3" if "n < 8"
      using bit_mask_iff [of 3 n, where 'a = byte] that by (simp add: mask_eq_exp_minus_1)
    ultimately show "bit (b AND NOT 7) n \<longleftrightarrow> bit (push_bit 3 (drop_bit 3 b)) n"
      by (auto simp: bit_simps)
  qed
  then have "unat (b AND NOT 7) = 8 * (unat b div 8) mod 256"
    by (simp only: unat_push_bit_mod unat_drop_bit_div mult.commute) simp
  moreover have "8 * (unat b div 8) \<le> unat b" by simp
  then have "8 * (unat b div 8) < 256" using unat_less_256 [of b] by linarith
  ultimately show ?thesis by simp
qed

lemma unat_and_7: "unat (b AND 7) = unat b mod 8" for b :: byte
proof -
  have "b AND 7 = take_bit 3 b" by (simp add: take_bit_eq_mask mask_eq_exp_minus_1)
  then show ?thesis by (simp only: unat_take_bit_mod) simp
qed

lemma le_nat_le_bytes: "le_nat (le_bytes n w) = unat w mod 2 ^ (8 * n)"
proof (induction n arbitrary: w)
  case (Suc n)
  have "unat w mod (256 * 2 ^ (8 * n)) = 256 * (unat w div 256 mod 2 ^ (8 * n)) + unat w mod 256" by (rule mod_mult2_eq)
  with Suc show ?case by (simp add: machine_simps power_add)
qed simp

lemma take_le_bytes: "m \<le> n \<Longrightarrow> take m (le_bytes n w) = le_bytes m w"
proof (induction m arbitrary: n w)
  case (Suc m)
  then show ?case by (cases n) auto
qed simp

text \<open>
  The state of the writer after a sequence of bytes: the memory holds the header and the lower part
  of the number, the cache the rest.
\<close>

definition encoding :: "huffman_encoder \<Rightarrow> byte list \<Rightarrow> byte list \<Rightarrow> nat \<Rightarrow> bit_writer \<Rightarrow> bool" where
  "encoding enc header cs n w \<longleftrightarrow>
     (\<exists>str. length (bw_mem w) = n \<and> bw_dest w = length header + length str \<and> take (bw_dest w) (bw_mem w) = header @ str \<and>
        unat (cachedBits w) < 8 \<and> 8 * length str + unat (cachedBits w) = bits_length enc cs \<and>
        le_nat str + 2 ^ (8 * length str) * unat (cachedCode w) = bits_value enc cs \<and>
        unat (cachedCode w) < 2 ^ unat (cachedBits w))"

lemma div_add_mult: "a < d \<Longrightarrow> (a + d * b) div d = b" for a b d :: nat
  by simp

lemma encoding_step:
  assumes keys: "keys_ok enc S" "set ds \<subseteq> S" and "encoding enc header cs n w" and "length ds \<le> 4"
    and room: "length header + bits_length enc cs div 8 + 8 \<le> n"
  shows "\<exists>w'. write_full_bytes (encode_list enc ds w) = Some w' \<and> encoding enc header (cs @ ds) n w'"
proof -
  obtain str where mem: "length (bw_mem w) = n" "bw_dest w = length header + length str"
    "take (bw_dest w) (bw_mem w) = header @ str" and bits: "unat (cachedBits w) < 8"
    "8 * length str + unat (cachedBits w) = bits_length enc cs"
    and val: "le_nat str + 2 ^ (8 * length str) * unat (cachedCode w) = bits_value enc cs"
    and small: "unat (cachedCode w) < 2 ^ unat (cachedBits w)"
    using assms(3) unfolding encoding_def by blast
  let ?v = "encode_list enc ds w"
  define q where "q = unat (cachedCode ?v)"
  define b where "b = unat (cachedBits ?v)"
  let ?m = "b div 8" and ?str = "str @ le_bytes (b div 8) (cachedCode ?v)"
  have len: "bits_length enc ds \<le> 48" using bits_length_le [OF keys] assms(4) by simp
  have v: "q = unat (cachedCode w) + 2 ^ unat (cachedBits w) * bits_value enc ds"
    "b = unat (cachedBits w) + bits_length enc ds" "q < 2 ^ b"
  proof -
    have "unat (cachedBits w) + bits_length enc ds < 64" using bits(1) len by simp
    note encode_list_ok [OF keys small this]
    then show "q = unat (cachedCode w) + 2 ^ unat (cachedBits w) * bits_value enc ds"
      "b = unat (cachedBits w) + bits_length enc ds" "q < 2 ^ b" unfolding q_def b_def by blast+
  qed
  then have b64: "b < 64" using bits(1) len by simp
  have "length str = bits_length enc cs div 8" using bits by linarith
  then have fits: "bw_dest ?v + 8 \<le> length (bw_mem ?v)" using room mem(1,2) by simp
  define mem' where "mem' = take (bw_dest w) (bw_mem w) @ le_bytes 8 (cachedCode ?v) @ drop (bw_dest w + 8) (bw_mem w)"
  define w' where "w' = \<lparr>cachedCode = drop_bit (unat (cachedBits ?v AND NOT 7)) (cachedCode ?v), cachedBits = cachedBits ?v AND 7,
      bw_mem = mem', bw_dest = bw_dest w + unat (cachedBits ?v div 8)\<rparr>"
  have run: "write_full_bytes ?v = Some w'"
    using fits by (simp add: write_full_bytes_def store_ok w'_def mem'_def)
  have w': "unat (cachedCode w') = q div 2 ^ (8 * ?m)" "unat (cachedBits w') = b mod 8" "bw_dest w' = bw_dest w + ?m"
    using unat_and_not_7 [of "cachedBits ?v"] by (simp_all add: w'_def q_def b_def unat_and_7 unat_drop_bit_div unat_div)
  have "take (bw_dest w') mem' = header @ ?str"
  proof -
    have "?m \<le> 8" using b64 by simp
    then show ?thesis using mem(2,3) w'(3) fits mem(1) by (simp add: mem'_def take_le_bytes)
  qed
  moreover have "length mem' = n" using fits mem(1) by (simp add: mem'_def)
  moreover have "8 * length ?str + unat (cachedBits w') = bits_length enc (cs @ ds)"
    using bits(2) v(2) w'(2) by simp
  moreover have "le_nat ?str + 2 ^ (8 * length ?str) * unat (cachedCode w') = bits_value enc (cs @ ds)"
  proof -
    have "le_nat ?str = le_nat str + 2 ^ (8 * length str) * (q mod 2 ^ (8 * ?m))"
      by (simp only: le_nat_append le_nat_le_bytes q_def)
    moreover have "(2 :: nat) ^ (8 * length ?str) = 2 ^ (8 * length str) * 2 ^ (8 * ?m)" by (simp flip: power_add)
    ultimately have "le_nat ?str + 2 ^ (8 * length ?str) * unat (cachedCode w') =
        le_nat str + 2 ^ (8 * length str) * (q mod 2 ^ (8 * ?m) + 2 ^ (8 * ?m) * (q div 2 ^ (8 * ?m)))"
      by (simp only: w'(1) distrib_left mult.assoc add.assoc)
    also have "\<dots> = le_nat str + 2 ^ (8 * length str) * q" by (simp only: mod_mult_div_eq)
    also have "\<dots> = bits_value enc (cs @ ds)"
      unfolding v(1) bits_value_append val [symmetric] bits(2) [symmetric] by (simp add: power_add algebra_simps)
    finally show ?thesis .
  qed
  moreover have "unat (cachedCode w') < 2 ^ unat (cachedBits w')"
  proof -
    have "(2 :: nat) ^ b = 2 ^ (b mod 8) * 2 ^ (8 * ?m)" by (simp flip: power_add)
    with v(3) show ?thesis by (simp add: w' div_less_iff_less_mult)
  qed
  moreover have "unat (cachedBits w') < 8" by (simp add: w'(2))
  ultimately have "encoding enc header (cs @ ds) n w'"
    unfolding encoding_def by (intro exI [of _ ?str]) (simp add: w'(3) mem(2), simp add: w'_def)
  with run show ?thesis by blast
qed

subsection \<open>The stream\<close>

lemma encode_block:
  assumes "length bs = 4"
  shows "encode_char enc (block_byte (le_value bs) 3) (encode_char enc (block_byte (le_value bs) 2)
      (encode_char enc (block_byte (le_value bs) 1) (encode_char enc (block_byte (le_value bs) 0) w))) = encode_list enc bs w"
proof -
  obtain a b c d where "bs = [a, b, c, d]"
    using assms by (auto simp: numeral_eq_Suc length_Suc_conv)
  then show ?thesis by (simp add: encode_list_def block_byte_le_value del: le_value.simps)
qed

lemma encode_blocks_ok:
  assumes keys: "keys_ok enc S"
  shows "set source \<subseteq> S \<Longrightarrow> 4 * k \<le> length source \<Longrightarrow> encoding enc header cs n w \<Longrightarrow>
    length header + bits_length enc (cs @ source) div 8 + 8 \<le> n \<Longrightarrow>
    \<exists>w'. encode_blocks enc source k w = Some w' \<and> encoding enc header (cs @ take (4 * k) source) n w'"
proof (induction k arbitrary: source cs w)
  case (Suc k)
  let ?bs = "take 4 source"
  have len: "length ?bs = 4" using Suc.prems(2) by simp
  have split: "source = ?bs @ drop 4 source" by simp
  have sub: "set ?bs \<subseteq> S" "set (drop 4 source) \<subseteq> S" using Suc.prems(1) set_take_subset set_drop_subset by fast+
  have "bits_length enc cs div 8 \<le> bits_length enc (cs @ source) div 8" by (simp add: div_le_mono)
  then have "length header + bits_length enc cs div 8 + 8 \<le> n" using Suc.prems(4) by linarith
  then obtain w1 where w1: "write_full_bytes (encode_list enc ?bs w) = Some w1" "encoding enc header (cs @ ?bs) n w1"
    using encoding_step [OF keys sub(1) Suc.prems(3)] len by auto
  have "\<exists>w'. encode_blocks enc (drop 4 source) k w1 = Some w' \<and> encoding enc header ((cs @ ?bs) @ take (4 * k) (drop 4 source)) n w'"
    using Suc.prems(2,4) by (intro Suc.IH [OF sub(2) _ w1(2)]) simp_all
  moreover have "(cs @ ?bs) @ take (4 * k) (drop 4 source) = cs @ take (4 * Suc k) source" by (simp add: take_add)
  ultimately show ?case by (simp only: encode_blocks.simps Let_def encode_block [OF len] w1(1) bind.bind_lunit)
qed simp

lemma encode_chars_ok:
  assumes keys: "keys_ok enc S"
  shows "set source \<subseteq> S \<Longrightarrow> encoding enc header cs n w \<Longrightarrow>
    length header + bits_length enc (cs @ source) div 8 + 8 \<le> n \<Longrightarrow>
    \<exists>w'. encode_chars enc source w = Some w' \<and> encoding enc header (cs @ source) n w'"
proof (induction source arbitrary: cs w)
  case (Cons c source)
  have "bits_length enc cs div 8 \<le> bits_length enc (cs @ c # source) div 8" by (simp add: div_le_mono)
  then have "length header + bits_length enc cs div 8 + 8 \<le> n" using Cons.prems(3) by linarith
  then obtain w1 where w1: "write_full_bytes (encode_list enc [c] w) = Some w1" "encoding enc header (cs @ [c]) n w1"
    using encoding_step [OF keys _ Cons.prems(2), of "[c]"] Cons.prems(1) by auto
  have "\<exists>w'. encode_chars enc source w1 = Some w' \<and> encoding enc header ((cs @ [c]) @ source) n w'"
    using Cons.prems(1,3) by (intro Cons.IH [OF _ w1(2)]) simp_all
  then show ?case using w1(1) by (simp add: encode_list_def)
qed simp

theorem WriteHuffmanEncoded_ok:
  assumes keys: "keys_ok enc (set source)" and mem: "take (length header) mem = header"
    and len: "length mem = length header + bits_length enc source div 8 + 8"
  shows "\<exists>str. WriteHuffmanEncoded enc source mem (length header) = Some (header @ str) \<and>
    length str = bits_length enc source div 8 + 8 \<and> le_nat str = bits_value enc source"
proof -
  let ?w = "\<lparr>cachedCode = 0, cachedBits = 0, bw_mem = mem, bw_dest = length header\<rparr>" and ?k = "length source div 4"
  have start: "encoding enc header [] (length mem) ?w" using mem by (simp add: encoding_def)
  obtain w1 where w1: "encode_blocks enc source ?k ?w = Some w1" "encoding enc header (take (4 * ?k) source) (length mem) w1"
    using encode_blocks_ok [OF keys subset_refl _ start, of ?k] len by auto
  have sub: "set (drop (4 * ?k) source) \<subseteq> set source" by (rule set_drop_subset)
  obtain w2 where w2: "encode_chars enc (drop (4 * ?k) source) w1 = Some w2" "encoding enc header source (length mem) w2"
    using encode_chars_ok [OF keys sub w1(2)] len by (auto simp del: bits_length_simps)
  then obtain str where str: "length (bw_mem w2) = length mem" "bw_dest w2 = length header + length str"
    "take (bw_dest w2) (bw_mem w2) = header @ str" "unat (cachedBits w2) < 8"
    "8 * length str + unat (cachedBits w2) = bits_length enc source"
    "le_nat str + 2 ^ (8 * length str) * unat (cachedCode w2) = bits_value enc source"
    unfolding encoding_def by blast
  have n: "length str = bits_length enc source div 8" using str(4,5) by linarith
  have "store (bw_mem w2) (bw_dest w2) (le_bytes 8 (cachedCode w2)) = Some (header @ (str @ le_bytes 8 (cachedCode w2)))"
    using str(1,2,3) n len by (simp add: store_ok)
  then have "WriteHuffmanEncoded enc source mem (length header) = Some (header @ (str @ le_bytes 8 (cachedCode w2)))"
    by (simp add: WriteHuffmanEncoded_def Let_def w1(1) w2(1))
  moreover have "unat (cachedCode w2) < 2 ^ 64" using unsigned_less [of "cachedCode w2"] by simp
  then have "unat (cachedCode w2) mod 2 ^ 64 = unat (cachedCode w2)" by simp
  then have "le_nat (str @ le_bytes 8 (cachedCode w2)) = bits_value enc source"
    using str(6) by (simp only: le_nat_append le_nat_le_bytes) simp
  ultimately show ?thesis using n by auto
qed

end
