(* ===== verification/HuffmanDecode.thy ===== *)
theory HuffmanDecode
  imports HuffmanStream
begin

text \<open>
  The decoding loop of the log cache reads the bytes that were encoded. The reader is behind the
  position in the number by the bits it has cached, and ahead of the cache by the bits it has loaded
  but not counted yet; they are put into the cache twice, with the same value.
\<close>

section \<open>Looking at the number\<close>

lemma le_nat_drop: "le_nat (drop n bs) = drop_bit (8 * n) (le_nat bs)"
proof (induction n arbitrary: bs)
  case (Suc n)
  show ?case
  proof (cases bs)
    case (Cons b bs')
    have "drop_bit (8 * Suc n) (le_nat bs) = drop_bit (8 * n) (drop_bit 8 (le_nat bs))" by (simp add: add.commute)
    also have "drop_bit 8 (le_nat bs) = le_nat bs'" using unat_less_256 [of b] by (simp add: Cons drop_bit_eq_div)
    finally show ?thesis using Suc [of bs'] by (simp add: Cons)
  qed simp
qed simp

lemma load8_ok: "at + 8 \<le> length mem \<Longrightarrow> load8 mem at = Some (of_nat (drop_bit (8 * at) (le_nat mem)))"
proof -
  assume at: "at + 8 \<le> length mem"
  define d where "d = drop at mem"
  have "le_nat d = le_nat (take 8 d) + 2 ^ 64 * le_nat (drop 8 d)"
    using le_nat_append [of "take 8 d" "drop 8 d"] at by (simp only: append_take_drop_id) (simp add: d_def min_absorb2)
  then have "le_nat d mod 2 ^ 64 = le_nat (take 8 d) mod 2 ^ 64" by simp
  then have "le_value (take 8 d) = of_nat (le_nat d)"
    by (simp add: word_unat_eq_iff unat_le_value_mod unat_of_nat)
  with at show ?thesis by (simp add: load8_def le_nat_drop d_def)
qed

lemma merge_codes:
  assumes "b \<le> m"
  shows "take_bit m (of_nat (drop_bit p N)) OR push_bit b (of_nat (drop_bit (p + b) N)) = (of_nat (drop_bit p N) :: qword)"
proof (rule bit_word_eqI)
  fix n assume "n < LENGTH(64)"
  with assms show "bit (take_bit m (of_nat (drop_bit p N)) OR push_bit b (of_nat (drop_bit (p + b) N)) :: qword) n \<longleftrightarrow>
      bit (of_nat (drop_bit p N) :: qword) n"
    by (auto simp: bit_simps)
qed

lemma drop_code: "drop_bit t (of_nat (drop_bit p N) :: qword) = take_bit (64 - t) (of_nat (drop_bit (p + t) N))"
proof (rule bit_word_eqI)
  fix n assume "n < LENGTH(64)"
  then show "bit (drop_bit t (of_nat (drop_bit p N) :: qword)) n \<longleftrightarrow> bit (take_bit (64 - t) (of_nat (drop_bit (p + t) N) :: qword)) n"
    by (auto simp: bit_simps ac_simps)
qed

section \<open>Single bytes\<close>

lemma unat_and_max_key: "unat (code AND MAX_KEY_VALUE) = unat code mod 4096"
proof -
  have "code AND MAX_KEY_VALUE = take_bit 12 code"
    by (simp add: MAX_KEY_VALUE_def MAX_ENCODING_LENGTH_def take_bit_eq_mask mask_eq_exp_minus_1)
  then show ?thesis by (simp only: unat_take_bit_mod) simp
qed

lemma decode_char_ok:
  assumes "codec enc d S" and "keys_ok enc S" and "c \<in> S" and "unat (br_cachedCode r) mod 2 ^ key_length enc c = key_value enc c"
  shows "decode_char d r =
    (c, \<lparr>br_cachedCode = drop_bit (key_length enc c) (br_cachedCode r), br_cachedBits = br_cachedBits r - hk_keyLength enc ! unat c\<rparr>)"
proof -
  let ?i = "unat (br_cachedCode r) mod 4096"
  have "key_length enc c \<le> 12" using assms(2,3) by (simp add: keys_ok_def)
  then have "(2 :: nat) ^ key_length enc c dvd 2 ^ 12" by (rule le_imp_power_dvd)
  then have "?i mod 2 ^ key_length enc c = key_value enc c" using assms(4) by (simp add: mod_mod_cancel)
  moreover have "?i < 4096" by simp
  ultimately have "hd_value d ! ?i = c \<and> hd_length d ! ?i = hk_keyLength enc ! unat c"
    using assms(1,3) unfolding codec_def by blast
  then show ?thesis by (simp add: decode_char_def unat_and_max_key Let_def)
qed

lemma decode_chars_ok:
  assumes "codec enc d S" and "keys_ok enc S"
  shows "set cs \<subseteq> S \<Longrightarrow> unat (br_cachedCode r) mod 2 ^ bits_length enc cs = bits_value enc cs \<Longrightarrow>
    decode_chars d (length cs) r =
    (cs, \<lparr>br_cachedCode = drop_bit (bits_length enc cs) (br_cachedCode r), br_cachedBits = br_cachedBits r - of_nat (bits_length enc cs)\<rparr>)"
proof (induction cs arbitrary: r)
  case (Cons c cs)
  let ?x = "unat (br_cachedCode r)" and ?k = "key_value enc c" and ?l = "key_length enc c" and ?n = "bits_length enc cs"
  have c: "c \<in> S" "?k < 2 ^ ?l" using Cons.prems(1) assms(2) by (auto simp: keys_ok_def)
  have x: "?x mod (2 ^ ?l * 2 ^ ?n) = ?k + 2 ^ ?l * bits_value enc cs"
    using Cons.prems(2) by (simp add: power_add)
  have "?x mod (2 ^ ?l * 2 ^ ?n) mod 2 ^ ?l = ?x mod 2 ^ ?l" by (simp add: mod_mod_cancel)
  then have "?x mod 2 ^ ?l = ?k" using c(2) unfolding x by simp
  note one = decode_char_ok [OF assms c(1) this]
  let ?r = "\<lparr>br_cachedCode = drop_bit ?l (br_cachedCode r), br_cachedBits = br_cachedBits r - hk_keyLength enc ! unat c\<rparr>"
  have "?x mod (2 ^ ?l * 2 ^ ?n) = 2 ^ ?l * (?x div 2 ^ ?l mod 2 ^ ?n) + ?x mod 2 ^ ?l" by (rule mod_mult2_eq)
  then have "?x div 2 ^ ?l mod 2 ^ ?n = bits_value enc cs"
    unfolding x \<open>?x mod 2 ^ ?l = ?k\<close> by simp
  then have "unat (br_cachedCode ?r) mod 2 ^ ?n = bits_value enc cs" by (simp add: unat_drop_bit_div)
  then have "decode_chars d (length cs) ?r =
      (cs, \<lparr>br_cachedCode = drop_bit ?n (drop_bit ?l (br_cachedCode r)), br_cachedBits = br_cachedBits r - hk_keyLength enc ! unat c - of_nat ?n\<rparr>)"
    using Cons.IH [of ?r] Cons.prems(1) by simp
  moreover have "drop_bit ?n (drop_bit ?l (br_cachedCode r)) = drop_bit (bits_length enc (c # cs)) (br_cachedCode r)"
    by (simp add: add.commute)
  ultimately show ?case by (simp add: one Let_def diff_diff_eq)
qed simp

section \<open>The stream\<close>

lemma unat_or_56: "unat b < 64 \<Longrightarrow> unat (b OR 56) = 56 + unat b mod 8" for b :: byte
proof -
  assume b: "unat b < 64"
  then have six: "take_bit 6 b = b" by (simp add: word_unat_eq_iff unat_take_bit_mod)
  have bit56: "bit (56 :: byte) n \<longleftrightarrow> 3 \<le> n \<and> n < 6" if "n < 8" for n
  proof -
    have fiftysix: "(56 :: byte) = push_bit 3 (mask 3)" by (simp add: mask_eq_exp_minus_1 push_bit_eq_mult)
    show ?thesis unfolding fiftysix bit_push_bit_iff bit_mask_iff using that by auto
  qed
  have "b OR 56 = take_bit 3 b OR 56"
  proof (rule bit_word_eqI)
    fix n assume "n < LENGTH(8)"
    then have "bit (56 :: byte) n \<longleftrightarrow> 3 \<le> n \<and> n < 6" by (intro bit56) simp
    moreover have "bit b n \<Longrightarrow> n < 6" using six by (metis bit_take_bit_iff)
    ultimately show "bit (b OR 56) n \<longleftrightarrow> bit (take_bit 3 b OR 56) n" by (auto simp: bit_simps)
  qed
  also have "\<dots> = take_bit 3 b + 56"
  proof (rule disjunctive_add_eq_or [symmetric], rule bit_word_eqI)
    fix n assume "n < LENGTH(8)"
    then have "bit (56 :: byte) n \<longleftrightarrow> 3 \<le> n \<and> n < 6" by (intro bit56) simp
    then show "bit (take_bit 3 b AND 56) n \<longleftrightarrow> bit (0 :: byte) n" by (auto simp: bit_simps)
  qed
  finally show ?thesis by (simp add: unat_word_ariths unat_take_bit_mod)
qed

definition reading :: "byte list \<Rightarrow> nat \<Rightarrow> nat \<Rightarrow> qword \<Rightarrow> bit_reader \<Rightarrow> bool" where
  "reading M p first nextCodes r \<longleftrightarrow>
     8 * first = p + unat (br_cachedBits r) \<and> unat (br_cachedBits r) < 64 \<and>
     nextCodes = of_nat (drop_bit (8 * first) (le_nat M)) \<and>
     (\<exists>m \<ge> unat (br_cachedBits r). br_cachedCode r = take_bit m (of_nat (drop_bit p (le_nat M))))"

lemma fetch_ok:
  "reading M p first nextCodes r \<Longrightarrow> fetch nextCodes r = Some (of_nat (drop_bit p (le_nat M)))"
  unfolding reading_def fetch_def using merge_codes [of "unat (br_cachedBits r)" _ p "le_nat M"] by auto

text \<open>What is left of the number is the number of what is left.\<close>

definition stands_for :: "huffman_encoder \<Rightarrow> byte list \<Rightarrow> nat \<Rightarrow> bool" where
  "stands_for enc cs x \<longleftrightarrow> x mod 2 ^ bits_length enc cs = bits_value enc cs"

lemma stands_for_append:
  assumes "keys_ok enc S" and "set (a @ b) \<subseteq> S" and "stands_for enc (a @ b) x"
  shows "stands_for enc a x" and "stands_for enc b (drop_bit (bits_length enc a) x)"
proof -
  let ?A = "2 ^ bits_length enc a :: nat" and ?B = "2 ^ bits_length enc b :: nat"
  have less: "bits_value enc a < ?A" using assms(1,2) by (intro bits_value_less) auto
  have x: "x mod (?A * ?B) = bits_value enc a + ?A * bits_value enc b"
    using assms(3) by (simp add: stands_for_def power_add bits_value_append)
  have "x mod (?A * ?B) mod ?A = x mod ?A" by (simp add: mod_mod_cancel)
  then have low: "x mod ?A = bits_value enc a" using less unfolding x by simp
  then show "stands_for enc a x" by (simp add: stands_for_def)
  have "x mod (?A * ?B) = ?A * (x div ?A mod ?B) + x mod ?A" by (rule mod_mult2_eq)
  then have "x div ?A mod ?B = bits_value enc b" unfolding x low by simp
  then show "stands_for enc b (drop_bit (bits_length enc a) x)" by (simp add: stands_for_def drop_bit_eq_div)
qed

lemma stands_for_code:
  assumes "stands_for enc cs x" and "bits_length enc cs \<le> 64"
  shows "unat (of_nat x :: qword) mod 2 ^ bits_length enc cs = bits_value enc cs"
proof -
  have "(2 :: nat) ^ bits_length enc cs dvd 2 ^ 64" using assms(2) by (rule le_imp_power_dvd)
  then show ?thesis using assms(1) by (simp add: stands_for_def unat_of_nat mod_mod_cancel)
qed

lemma decode_block_ok:
  assumes tables: "codec enc d S" "keys_ok enc S" and cs: "set cs \<subseteq> S" "length cs = 4" "stands_for enc cs (drop_bit p (le_nat M))"
    and reading: "reading M p first nextCodes r" and room: "p div 8 + 16 \<le> length M"
  defines "first' \<equiv> first + (63 - unat (br_cachedBits r)) div 8"
  shows "\<exists>r' nextCodes'.
    decode_chars d 4 \<lparr>br_cachedCode = of_nat (drop_bit p (le_nat M)), br_cachedBits = br_cachedBits r OR 56\<rparr> = (cs, r') \<and>
    load8 M first' = Some nextCodes' \<and> reading M (p + bits_length enc cs) first' nextCodes' r'"
proof -
  let ?N = "le_nat M" and ?b = "unat (br_cachedBits r)" and ?t = "bits_length enc cs"
  let ?r = "\<lparr>br_cachedCode = of_nat (drop_bit p ?N), br_cachedBits = br_cachedBits r OR 56\<rparr>"
  have t: "?t \<le> 48" using bits_length_le [OF tables(2) cs(1)] cs(2) by simp
  have b: "?b < 64" "8 * first = p + ?b" using reading by (simp_all add: reading_def)
  have "?b div 8 + (63 - ?b) div 8 = 7" using b(1) by linarith
  moreover have "8 * (?b div 8) + ?b mod 8 = ?b" by simp
  ultimately have first': "8 * first' = p + (56 + ?b mod 8)" using b(2) unfolding first'_def distrib_left by linarith
  let ?r' = "\<lparr>br_cachedCode = drop_bit ?t (of_nat (drop_bit p ?N)), br_cachedBits = (br_cachedBits r OR 56) - of_nat ?t\<rparr>"
  have "unat (br_cachedCode ?r) mod 2 ^ ?t = bits_value enc cs"
    using stands_for_code [OF cs(3)] t by simp
  from decode_chars_ok [OF tables cs(1) this] cs(2) have chars: "decode_chars d 4 ?r = (cs, ?r')" by simp
  have load: "load8 M first' = Some (of_nat (drop_bit (8 * first') ?N))"
    using first' room by (intro load8_ok) linarith
  have t_byte: "unat (of_nat ?t :: byte) = ?t" using t by (simp add: unat_of_nat)
  have "unat ((br_cachedBits r OR 56) - of_nat ?t) = unat (br_cachedBits r OR 56) - ?t"
    using unat_or_56 [OF b(1)] t t_byte by (simp add: unat_sub_if_size)
  then have bits: "unat (br_cachedBits ?r') = 56 + ?b mod 8 - ?t" using unat_or_56 [OF b(1)] by simp
  have "reading M (p + ?t) first' (of_nat (drop_bit (8 * first') ?N)) ?r'"
    unfolding reading_def
  proof (intro conjI exI)
    show "8 * first' = p + ?t + unat (br_cachedBits ?r')" using first' bits t by linarith
    show "unat (br_cachedBits ?r') < 64" using bits by linarith
    show "unat (br_cachedBits ?r') \<le> 64 - ?t" using bits t by linarith
    show "br_cachedCode ?r' = take_bit (64 - ?t) (of_nat (drop_bit (p + ?t) ?N))" by (simp add: drop_code)
  qed simp
  with chars load show ?thesis by blast
qed

lemma decode_blocks_ok:
  assumes tables: "codec enc d S" "keys_ok enc S"
  shows "set source \<subseteq> S \<Longrightarrow> 4 * k \<le> length source \<Longrightarrow> stands_for enc source (drop_bit p (le_nat M)) \<Longrightarrow>
    reading M p first nextCodes r \<Longrightarrow> (p + bits_length enc source) div 8 + 16 \<le> length M \<Longrightarrow>
    \<exists>first' nextCodes' r'. decode_blocks d M k first nextCodes r = Some (take (4 * k) source, nextCodes', r') \<and>
      reading M (p + bits_length enc (take (4 * k) source)) first' nextCodes' r'"
proof (induction k arbitrary: source p first nextCodes r)
  case (Suc k)
  let ?N = "le_nat M" and ?cs = "take 4 source" and ?rest = "drop 4 source"
  have split: "?cs @ ?rest = source" by simp
  have len: "length ?cs = 4" using Suc.prems(2) by simp
  have sub: "set ?cs \<subseteq> S" "set ?rest \<subseteq> S" "set (?cs @ ?rest) \<subseteq> S" using Suc.prems(1) set_take_subset set_drop_subset by fastforce+
  note stands = stands_for_append [OF tables(2) sub(3), unfolded split, OF Suc.prems(3)]
  have bits: "bits_length enc source = bits_length enc ?cs + bits_length enc ?rest"
    using bits_length_simps(3) [of enc ?cs ?rest] by simp
  have "p div 8 \<le> (p + bits_length enc source) div 8" by (simp add: div_le_mono)
  then have "p div 8 + 16 \<le> length M" using Suc.prems(5) by linarith
  from decode_block_ok [OF tables sub(1) len stands(1) Suc.prems(4) this]
  obtain r1 next1 where block: "decode_chars d 4 \<lparr>br_cachedCode = of_nat (drop_bit p ?N), br_cachedBits = br_cachedBits r OR 56\<rparr> = (?cs, r1)"
    "load8 M (first + (63 - unat (br_cachedBits r)) div 8) = Some next1"
    "reading M (p + bits_length enc ?cs) (first + (63 - unat (br_cachedBits r)) div 8) next1 r1" by blast
  have "stands_for enc ?rest (drop_bit (p + bits_length enc ?cs) ?N)" using stands(2) by (simp add: add.commute)
  moreover have "4 * k \<le> length ?rest" using Suc.prems(2) by simp
  moreover have "(p + bits_length enc ?cs + bits_length enc ?rest) div 8 + 16 \<le> length M"
    using Suc.prems(5) unfolding bits by (simp only: add.assoc)
  ultimately obtain first' next' r' where rest:
    "decode_blocks d M k (first + (63 - unat (br_cachedBits r)) div 8) next1 r1 = Some (take (4 * k) ?rest, next', r')"
    "reading M (p + bits_length enc ?cs + bits_length enc (take (4 * k) ?rest)) first' next' r'"
    using Suc.IH [OF sub(2) _ _ block(3)] by blast
  have all: "take (4 * Suc k) source = ?cs @ take (4 * k) ?rest" by (simp add: take_add)
  have "decode_blocks d M (Suc k) first nextCodes r = Some (take (4 * Suc k) source, next', r')"
    unfolding all by (simp only: decode_blocks.simps fetch_ok [OF Suc.prems(4)] bind.bind_lunit Let_def block(1,2) rest(1)
        prod.case option.map)
  moreover have "reading M (p + bits_length enc (take (4 * Suc k) source)) first' next' r'"
    using rest(2) unfolding all by (simp add: add.assoc)
  ultimately show ?case by blast
qed auto

theorem WriteDecodedStream_ok:
  assumes tables: "codec enc d (set source)" "keys_ok enc (set source)"
    and stream: "le_nat str = bits_value enc source" "length str = bits_length enc source div 8 + 8" and behind: "8 \<le> length behind"
  shows "WriteDecodedStream d (str @ behind) (length source) = Some source"
proof -
  let ?M = "str @ behind" and ?k = "length source div 4" and ?r = "\<lparr>br_cachedCode = 0, br_cachedBits = 0\<rparr>"
  let ?a = "take (4 * (length source div 4)) source" and ?b = "drop (4 * (length source div 4)) source"
  let ?n = "bits_length enc source"
  have split: "?a @ ?b = source" by simp
  have sub: "set (?a @ ?b) \<subseteq> set source" "set ?b \<subseteq> set source" unfolding split by (simp_all add: set_drop_subset)
  have "?n \<le> 8 * length str" using stream(2) by simp
  then have "(2 :: nat) ^ ?n dvd 2 ^ (8 * length str)" by (rule le_imp_power_dvd)
  then have "le_nat ?M mod 2 ^ ?n = bits_value enc source mod 2 ^ ?n"
    unfolding le_nat_append stream(1) by (metis dvd_mult2 mod_add_right_eq dvd_imp_mod_0 add_0_right)
  also have "\<dots> = bits_value enc source" using bits_value_less [OF tables(2) subset_refl] by simp
  finally have stands: "stands_for enc source (drop_bit 0 (le_nat ?M))" by (simp add: stands_for_def)
  have load: "load8 ?M 0 = Some (of_nat (le_nat ?M))" using load8_ok [of 0 ?M] stream(2) by simp
  have start: "reading ?M 0 0 (of_nat (le_nat ?M)) ?r" by (auto simp: reading_def intro: exI [of _ 0])
  have "4 * ?k \<le> length source" "(0 + ?n) div 8 + 16 \<le> length ?M" using stream(2) behind by simp_all
  from decode_blocks_ok [OF tables subset_refl this(1) stands start this(2)]
  obtain first' next' r' where blocks: "decode_blocks d ?M ?k 0 (of_nat (le_nat ?M)) ?r = Some (?a, next', r')"
    "reading ?M (bits_length enc ?a) first' next' r'" by auto
  let ?code = "of_nat (drop_bit (bits_length enc ?a) (le_nat ?M)) :: qword"
  note code = fetch_ok [OF blocks(2)]
  have "stands_for enc ?b (drop_bit (bits_length enc ?a) (le_nat ?M))"
    using stands_for_append(2) [OF tables(2) sub(1)] stands unfolding split by simp
  moreover have "bits_length enc ?b \<le> 64"
  proof -
    have "length ?b < 4" by simp
    then show ?thesis using bits_length_le [OF tables(2) sub(2)] by linarith
  qed
  ultimately have "unat ?code mod 2 ^ bits_length enc ?b = bits_value enc ?b" by (rule stands_for_code)
  then have "decode_chars d (length ?b) (r'\<lparr>br_cachedCode := ?code\<rparr>) = (?b, \<lparr>br_cachedCode = drop_bit (bits_length enc ?b) ?code,
      br_cachedBits = br_cachedBits r' - of_nat (bits_length enc ?b)\<rparr>)"
    using decode_chars_ok [OF tables sub(2), of "r'\<lparr>br_cachedCode := ?code\<rparr>"] by simp
  moreover have "length ?b = length source mod 4" by (simp add: modulo_nat_def mult.commute)
  ultimately have rest: "fst (decode_chars d (length source mod 4) (r'\<lparr>br_cachedCode := ?code\<rparr>)) = ?b" by simp
  show ?thesis
    unfolding WriteDecodedStream_def load bind.bind_lunit blocks(1) prod.case code option.map rest split ..
qed

end
