(* ===== verification/Huffman.thy ===== *)
theory Huffman
  imports HuffmanDecode
begin

text \<open>
  The packed streams of the log cache as a whole: the size that the encoder computes in advance is
  the size it fills, and the decoder returns what was encoded, provided that the memory behind the
  stream can be read.
\<close>

section \<open>The size of the packed stream\<close>

lemma sum_lengths:
  "(\<Sum>k \<leftarrow> [0..<256]. occurrences cs k * unat (hk_keyLength enc ! k)) = bits_length enc cs"
proof (induction cs)
  case (Cons c cs)
  have "(\<Sum>k \<leftarrow> [0..<n]. (if unat c = k then 1 else 0) * unat (hk_keyLength enc ! k)) =
      (if unat c < n then key_length enc c else 0)" for n
    by (induction n) (auto simp: less_Suc_eq)
  with Cons show ?case by (simp only: occurrences_simps distrib_right sum_list_addf bits_length_simps) simp
qed (simp add: occurrences_def)

definition packed_size :: "huffman_encoder \<Rightarrow> byte list \<Rightarrow> nat" where
  "packed_size enc source = 8 + (1 + (3 * hk_sortedCount enc + 1) div 2) + (bits_length enc source div 8 + 8)"

lemma CalculatePackedSize_ok:
  assumes coded: "coded enc source cs code" and small: "12 * length source < 2 ^ 32"
  shows "unat (CalculatePackedSize enc) = packed_size enc source"
proof -
  have counts: "counts_ok (hk_count enc) (occurrences source)" and n: "hk_sortedCount enc \<le> 256"
    using coded by (simp_all add: coded_def)
  have keys: "keys_ok enc (set source)" by (rule coded_keys_ok [OF coded])
  let ?l = "\<lambda>k. unat (hk_keyLength enc ! k)"
  have product: "ucast (hk_count enc ! k * ucast (hk_keyLength enc ! k)) = (of_nat (occurrences source k * ?l k) :: qword)"
    if k: "k < 256" for k
  proof -
    have le: "occurrences source k * ?l k \<le> 12 * length source"
    proof (cases "occurrences source k = 0")
      case False
      then obtain c where "c \<in> set source" "unat c = k" using occurrences_pos [of source k] by auto
      then have "?l k \<le> 12" using keys by (auto simp: keys_ok_def)
      then have "occurrences source k * ?l k \<le> length source * 12" by (intro mult_le_mono occurrences_le)
      then show ?thesis by (simp add: mult.commute)
    qed simp
    have c: "hk_count enc ! k = of_nat (occurrences source k)" using counts k by (simp add: counts_ok_def)
    have "ucast (hk_keyLength enc ! k) = (of_nat (?l k) :: dword)" by (simp add: word_unat_eq_iff machine_simps unat_of_nat)
    then have "hk_count enc ! k * ucast (hk_keyLength enc ! k) = of_nat (occurrences source k * ?l k)"
      unfolding c by (simp only: of_nat_mult)
    moreover have "occurrences source k * ?l k < 2 ^ 32" using le small by linarith
    ultimately show ?thesis by (simp add: word_unat_eq_iff machine_simps unat_of_nat del: of_nat_mult)
  qed
  have "foldl (\<lambda>n i. n + ucast (hk_count enc ! i * ucast (hk_keyLength enc ! i))) (of_nat x :: qword) is =
      of_nat (x + (\<Sum>k \<leftarrow> is. occurrences source k * ?l k))" if "\<forall>k \<in> set is. k < 256" for "is" x
    using that
  proof (induction "is" arbitrary: x)
    case (Cons k "is")
    from Cons.IH [of "x + occurrences source k * ?l k"] Cons.prems show ?case
      by (simp only: foldl_Cons product list.set_intros flip: of_nat_add) (simp add: add.assoc)
  qed simp
  from this [of "[0..<256]" 0] have sum: "foldl (\<lambda>n i. n + ucast (hk_count enc ! i * ucast (hk_keyLength enc ! i))) (0 :: qword) [0..<256] =
      of_nat (bits_length enc source)" by (simp add: sum_lengths del: upt_Suc)
  have bits: "bits_length enc source < 2 ^ 32"
    using bits_length_le [OF keys subset_refl] small by linarith
  then have "ucast ((of_nat (bits_length enc source) :: qword) div 8 + 8) = (of_nat (bits_length enc source div 8 + 8) :: dword)"
    by (simp add: word_unat_eq_iff machine_simps unat_word_ariths unat_div unat_of_nat)
  then have size: "CalculatePackedSize enc = of_nat (packed_size enc source)"
    by (simp add: CalculatePackedSize_def BUCKET_COUNT_def sum packed_size_def del: upt_Suc)
  have "packed_size enc source < 2 ^ 32"
    using bits_length_le [OF keys subset_refl] small n unfolding packed_size_def by simp
  then show ?thesis unfolding size by (simp add: unat_of_nat)
qed

section \<open>The encoder\<close>

lemma length_dword_bytes [simp]: "length (dword_bytes x) = 4"
  by (simp add: dword_bytes_def)

lemma length_huffman_table: "length (huffman_table enc) = 1 + (3 * hk_sortedCount enc + 1) div 2"
  by (simp add: huffman_table_def)

text \<open>What follows the two sizes: the bytes as they are, or the table and the number.\<close>

definition packed_body :: "huffman_encoder \<Rightarrow> byte list \<Rightarrow> byte list \<Rightarrow> bool" where
  "packed_body enc source body \<longleftrightarrow>
     (\<exists>str. body = huffman_table enc @ str \<and> length str = bits_length enc source div 8 + 8 \<and> le_nat str = bits_value enc source)"

lemma encode_body:
  fixes sizes buffer source enc
  defines "n \<equiv> min (length source + 9) (packed_size enc source)"
  assumes keys: "keys_ok enc (set source)" and sizes: "length sizes = 8" and buffer: "length buffer = n"
  shows "\<exists>body. (if length source + MIN_HEADER_LENGTH = n
       then Option.bind (store (sizes @ drop 8 buffer) 8 [0]) (\<lambda>buffer. store buffer 9 source)
       else Option.bind (WriteHuffmanTable enc (sizes @ drop 8 buffer) 8) (\<lambda>(buffer, dest). WriteHuffmanEncoded enc source buffer dest)) =
         Some (sizes @ body) \<and> 8 + length body = n \<and>
       (body = 0 # source \<or> length body < length source + 1 \<and> packed_body enc source body)"
proof (cases "length source + 9 \<le> packed_size enc source")
  case True
  then have n: "n = length source + 9" by (simp add: n_def)
  have "store (sizes @ drop 8 buffer) 8 [0] = Some (sizes @ [0] @ drop 9 buffer)"
    using n sizes buffer by (simp add: store_ok)
  moreover have "store (sizes @ [0] @ drop 9 buffer) 9 source = Some (sizes @ 0 # source)"
    using n sizes buffer by (simp add: store_ok)
  ultimately show ?thesis using n by (intro exI [of _ "0 # source"]) (simp add: MIN_HEADER_LENGTH_def)
next
  case False
  then have n: "n = packed_size enc source" "n < length source + 9" by (simp_all add: n_def)
  let ?T = "huffman_table enc"
  have len: "8 + length ?T + (bits_length enc source div 8 + 8) = n"
    unfolding n(1) packed_size_def length_huffman_table by simp
  define mem where "mem = sizes @ ?T @ drop (length ?T) (drop 8 buffer)"
  have table: "WriteHuffmanTable enc (sizes @ drop 8 buffer) 8 = Some (mem, length (sizes @ ?T))"
    using len sizes buffer by (simp add: WriteHuffmanTable_def store_ok mem_def add.commute)
  have "take (length (sizes @ ?T)) mem = sizes @ ?T" by (simp add: mem_def)
  moreover have "length mem = length (sizes @ ?T) + bits_length enc source div 8 + 8"
    using len sizes buffer by (simp add: mem_def)
  ultimately obtain str where str: "WriteHuffmanEncoded enc source mem (length (sizes @ ?T)) = Some ((sizes @ ?T) @ str)"
    "length str = bits_length enc source div 8 + 8" "le_nat str = bits_value enc source"
    using WriteHuffmanEncoded_ok [OF keys] by blast
  have "packed_body enc source (?T @ str)" using str(2,3) by (auto simp: packed_body_def)
  moreover have "8 + length (?T @ str) = n" using str(2) len by simp
  moreover have "length source + MIN_HEADER_LENGTH \<noteq> n" using n(2) by (simp add: MIN_HEADER_LENGTH_def)
  ultimately show ?thesis
    using table str(1) n(2) by (intro exI [of _ "?T @ str"]) (simp del: length_append)
qed

theorem Encode_ok:
  assumes shape: "encoder_ok enc" "length (hk_sorted enc) = 256" and small: "12 * length source < 2 ^ 32" and ne: "source \<noteq> []"
  shows "\<exists>enc' cs code body. coded enc' source cs code \<and>
    Encode fresh enc source =
      Some (Return (dword_bytes (of_nat (length source)) @ dword_bytes (of_nat (8 + length body)) @ body, enc')) \<and>
    8 + length body = min (length source + 9) (packed_size enc' source) \<and>
    (body = 0 # source \<or> length body < length source + 1 \<and> packed_body enc' source body)"
proof -
  have l32: "length source < 2 ^ 32" "length source + 9 < 2 ^ 32" using small by simp_all
  obtain enc' cs code where sort: "SortByFrequency (CountValues enc source) = Some enc'" and coded: "coded enc' source cs code"
    using SortByFrequency_ok [OF shape l32(1) ne] by blast
  let ?P = "packed_size enc' source" and ?L = "length source"
  define n where "n = min (?L + 9) ?P"
  have "unat (of_nat ?L + of_nat MIN_HEADER_LENGTH :: dword) = ?L + 9"
    using l32(2) unat_of_nat_small [of "?L + 9", where 'a = 32] by (simp add: MIN_HEADER_LENGTH_def)
  then have target: "unat (min (of_nat ?L + of_nat MIN_HEADER_LENGTH) (CalculatePackedSize enc')) = n"
    using CalculatePackedSize_ok [OF coded small] by (simp add: n_def min_def word_le_nat_alt)
  define buffer where "buffer = map fresh [0..<n]"
  let ?sizes = "dword_bytes (of_nat ?L) @ dword_bytes (of_nat n)"
  have n8: "8 \<le> n" by (simp add: n_def packed_size_def)
  have size: "min (of_nat ?L + of_nat MIN_HEADER_LENGTH) (CalculatePackedSize enc') = (of_nat n :: dword)"
    using target by (rule word_of_unat)
  have n_small: "unat (of_nat n :: dword) = n" using target size by simp
  have stores: "store buffer 0 (dword_bytes (of_nat ?L)) = Some (dword_bytes (of_nat ?L) @ drop 4 buffer)"
    "store (dword_bytes (of_nat ?L) @ drop 4 buffer) 4 (dword_bytes (of_nat n)) = Some (?sizes @ drop 8 buffer)"
    using n8 by (simp_all add: store_ok buffer_def)
  obtain body where body: "(if ?L + MIN_HEADER_LENGTH = n
       then Option.bind (store (?sizes @ drop 8 buffer) 8 [0]) (\<lambda>buffer. store buffer 9 source)
       else Option.bind (WriteHuffmanTable enc' (?sizes @ drop 8 buffer) 8) (\<lambda>(buffer, dest). WriteHuffmanEncoded enc' source buffer dest)) =
         Some (?sizes @ body)" "8 + length body = n"
    "body = 0 # source \<or> length body < ?L + 1 \<and> packed_body enc' source body"
    using encode_body [OF coded_keys_ok [OF coded], of ?sizes buffer] unfolding buffer_def n_def by auto
  have "Encode fresh enc source = Some (Return (?sizes @ body, enc'))"
    unfolding Encode_def Let_def sort bind.bind_lunit size n_small buffer_def [symmetric] stores body(1) option.map
    using l32(1) by simp
  then have "Encode fresh enc source = Some (Return (dword_bytes (of_nat ?L) @ dword_bytes (of_nat (8 + length body)) @ body, enc'))"
    unfolding body(2) by simp
  with body(2,3) coded show ?thesis unfolding n_def by blast
qed

section \<open>The decoder\<close>

lemma GetDWORD_ok:
  assumes "ib_data b = dword_bytes x @ xs"
  shows "GetDWORD b = Return (x, b\<lparr>ib_data := xs\<rparr>)"
proof -
  have "ucast (le_value (le_bytes 4 (ucast x))) = x"
  proof (rule bit_word_eqI)
    fix n assume "n < LENGTH(32)"
    then show "bit (ucast (le_value (le_bytes 4 (ucast x))) :: dword) n \<longleftrightarrow> bit x n"
      by (auto simp: le_value_bytes bit_simps simp del: le_bytes.simps)
  qed
  then show ?thesis by (simp add: GetDWORD_def GetData_def assms dword_bytes_def del: le_bytes.simps)
qed

lemma Decode_stored:
  assumes "source \<noteq> []" and "length source + 9 < 2 ^ 32" and "length source \<le> ob_remaining target"
  shows "Decode d \<lparr>ib_data = dword_bytes (of_nat (length source)) @ dword_bytes (of_nat (length source + 9)) @ (0 # source) @ rest,
                    ib_behind = behind\<rparr> target =
    Some (Return (d, \<lparr>ib_data = rest, ib_behind = behind\<rparr>,
      \<lparr>ob_written = ob_written target @ source, ob_remaining = ob_remaining target - length source\<rparr>))"
proof -
  have sizes: "unat (of_nat (length source) :: dword) = length source" "unat (of_nat (length source + 9) :: dword) = length source + 9"
    using assms(2) by (intro unat_of_nat_small; simp)+
  then show ?thesis
    unfolding Decode_def
    using assms
    by (simp add: GetDWORD_ok MIN_HEADER_LENGTH_def PeekByte_def hd_GetByte_def GetData_def put_data_def Let_def del: of_nat_add of_nat_Suc)
qed

lemma Decode_packed:
  assumes coded: "coded enc source cs code" and "source \<noteq> []" and body: "packed_body enc source body" "length body < length source + 1"
    and "length source + 9 < 2 ^ 32" and "length source \<le> ob_remaining target" and "tables_ok d" and "8 \<le> length (rest @ behind)"
  shows "\<exists>d'. tables_ok d' \<and> Decode d \<lparr>ib_data = dword_bytes (of_nat (length source)) @ dword_bytes (of_nat (8 + length body)) @ body @ rest,
                    ib_behind = behind\<rparr> target =
    Some (Return (d', \<lparr>ib_data = rest, ib_behind = behind\<rparr>,
      \<lparr>ob_written = ob_written target @ source, ob_remaining = ob_remaining target - length source\<rparr>))"
proof -
  let ?T = "huffman_table enc"
  obtain str where str: "body = ?T @ str" "length str = bits_length enc source div 8 + 8" "le_nat str = bits_value enc source"
    using body(1) by (auto simp: packed_body_def)
  have sizes: "unat (of_nat (length source) :: dword) = length source" "unat (of_nat (length source + 9) :: dword) = length source + 9"
    "unat (of_nat (8 + length body) :: dword) = 8 + length body"
    using assms(5) body(2) by (intro unat_of_nat_small; simp)+
  obtain d' where table: "BuildDecodeTable d \<lparr>ib_data = ?T @ str @ rest, ib_behind = behind\<rparr> =
      Return (d', \<lparr>ib_data = str @ rest, ib_behind = behind\<rparr>)" "codec enc d' (set source)" "tables_ok d'"
    using BuildDecodeTable_ok [OF coded assms(2) assms(7), of "\<lparr>ib_data = ?T @ str @ rest, ib_behind = behind\<rparr>" "str @ rest"] by auto
  have decoded: "WriteDecodedStream d' (str @ rest @ behind) (length source) = Some source"
    using WriteDecodedStream_ok [OF table(2) coded_keys_ok [OF coded] str(3,2), of "rest @ behind"] assms(8) by simp
  have "8 + length body \<noteq> length source + 9" using body(2) by simp
  with sizes assms(2,6) table(1,3) decoded show ?thesis
    unfolding Decode_def str(1)
    by (simp add: GetDWORD_ok MIN_HEADER_LENGTH_def GetData_def put_data_def Let_def del: of_nat_add of_nat_Suc)
qed

text \<open>A stream that every decoder unpacks to some bytes, whatever follows it.\<close>

definition packs :: "byte list \<Rightarrow> byte list \<Rightarrow> bool" where
  "packs stream source \<longleftrightarrow>
     (\<forall>d target rest behind. tables_ok d \<longrightarrow> length source \<le> ob_remaining target \<longrightarrow> 8 \<le> length (rest @ behind) \<longrightarrow>
        (\<exists>d'. tables_ok d' \<and> Decode d \<lparr>ib_data = stream @ rest, ib_behind = behind\<rparr> target =
           Some (Return (d', \<lparr>ib_data = rest, ib_behind = behind\<rparr>,
             \<lparr>ob_written = ob_written target @ source, ob_remaining = ob_remaining target - length source\<rparr>))))"

lemma Encode_packs:
  assumes "encoder_ok enc" and "length (hk_sorted enc) = 256" and "source \<noteq> []" and "12 * length source < 2 ^ 32"
  shows "\<exists>stream enc'. Encode fresh enc source = Some (Return (stream, enc')) \<and> length stream \<le> length source + 9 \<and> packs stream source"
proof -
  have small: "length source + 9 < 2 ^ 32" using assms(4) by simp
  obtain enc' cs code body where enc: "coded enc' source cs code"
    "Encode fresh enc source =
      Some (Return (dword_bytes (of_nat (length source)) @ dword_bytes (of_nat (8 + length body)) @ body, enc'))"
    "8 + length body = min (length source + 9) (packed_size enc' source)" "body = 0 # source \<or> length body < length source + 1 \<and> packed_body enc' source body"
    using Encode_ok [OF assms(1,2,4,3)] by blast
  let ?stream = "dword_bytes (of_nat (length source)) @ dword_bytes (of_nat (8 + length body)) @ body"
  have "packs ?stream source"
  proof (cases "body = 0 # source")
    case True
    then show ?thesis using Decode_stored [OF assms(3) small] by (auto simp: packs_def add.commute)
  next
    case False
    with enc(4) have "packed_body enc' source body" "length body < length source + 1" by simp_all
    from Decode_packed [OF enc(1) assms(3) this small] show ?thesis by (simp add: packs_def)
  qed
  moreover have "length ?stream \<le> length source + 9" using enc(3) by simp
  ultimately show ?thesis using enc(2) by blast
qed

text \<open>C3. The packed streams of the log cache round-trip: for any non-empty buffer of up to 357,913,941
  bytes and any contents of new memory, the encoder succeeds with a stream that is at most 9 bytes
  longer, and the decoder, with whatever follows the stream, returns exactly the buffer and stops
  exactly behind the stream, provided that at least 8 more bytes of memory can be read.\<close>

theorem huffman_roundtrip:
  assumes "encoder_ok enc" and "length (hk_sorted enc) = 256" and "tables_ok d"
    and "source \<noteq> []" and "12 * length source < 2 ^ 32" and "length source \<le> ob_remaining target" and "8 \<le> length (rest @ behind)"
  shows "\<exists>stream enc' d'. Encode fresh enc source = Some (Return (stream, enc')) \<and> length stream \<le> length source + 9 \<and>
    Decode d \<lparr>ib_data = stream @ rest, ib_behind = behind\<rparr> target =
      Some (Return (d', \<lparr>ib_data = rest, ib_behind = behind\<rparr>,
        \<lparr>ob_written = ob_written target @ source, ob_remaining = ob_remaining target - length source\<rparr>))"
  using Encode_packs [OF assms(1,2,4,5), of fresh] assms(3,6,7) unfolding packs_def by blast

lemma new_coders_ok: "encoder_ok new_huffman_encoder" "length (hk_sorted new_huffman_encoder) = 256" "tables_ok new_huffman_decoder"
  by (simp_all add: encoder_ok_def new_huffman_encoder_def tables_ok_def new_huffman_decoder_def BUCKET_COUNT_def MAX_ENCODING_LENGTH_def)

theorem huffman_roundtrip_witness:
  "\<exists>stream enc' d'. Encode (\<lambda>i. 0xcd) new_huffman_encoder (replicate 100 65 @ replicate 20 66 @ [67]) = Some (Return (stream, enc')) \<and>
    length stream \<le> 130 \<and>
    Decode new_huffman_decoder \<lparr>ib_data = stream @ [1, 2], ib_behind = replicate 6 3\<rparr> \<lparr>ob_written = [], ob_remaining = 200\<rparr> =
      Some (Return (d', \<lparr>ib_data = [1, 2], ib_behind = replicate 6 3\<rparr>,
        \<lparr>ob_written = replicate 100 65 @ replicate 20 66 @ [67], ob_remaining = 79\<rparr>))"
  using huffman_roundtrip [OF new_coders_ok, of "replicate 100 65 @ replicate 20 66 @ [67]"
      "\<lparr>ob_written = [], ob_remaining = 200\<rparr>" "[1, 2]" "replicate 6 3" "\<lambda>i. 0xcd"]
  by (simp del: replicate.simps)

section \<open>The stages of the encoder\<close>

text \<open>Counting eight bytes at a time, with two per byte in eight local tables that are folded at
  the end, gives the same counts as going through the bytes one by one, for any buffer whose length
  fits into 32 bits; no local counter wraps.\<close>

theorem huffman_counting:
  assumes "length source < 2 ^ 32"
  shows "CountValues enc source = enc\<lparr>hk_count := foldl (\<lambda>counts b. increase counts (unat b) 1) (replicate 256 0) source\<rparr>"
proof -
  have "hk_count (CountValues enc source) = foldl (\<lambda>counts b. increase counts (unat b) 1) (replicate 256 0) source"
    using CountValues_ok [OF assms, of enc] count_chars_ok [OF counts_ok_zero, of source]
    by (auto simp: counts_ok_def intro: nth_equalityI)
  moreover have "CountValues enc source = enc\<lparr>hk_count := hk_count (CountValues enc source)\<rparr>"
    by (simp add: CountValues_def Let_def split: prod.split)
  ultimately show ?thesis by simp
qed

theorem huffman_counting_witness:
  "hk_count (CountValues new_huffman_encoder (replicate 600 7 @ [8])) =
     foldl (\<lambda>counts b. increase counts (unat b) 1) (replicate 256 0) (replicate 600 7 @ [8 :: byte])"
  using huffman_counting [of "replicate 600 7 @ [8]" new_huffman_encoder] by (simp del: replicate.simps foldl_append)

text \<open>C4. The recursive assignment of code words always succeeds, whatever the frequencies: no range is
  split into an empty part, no access leaves the array of symbols and no word is longer than 12 bits.
  The result is a complete prefix code: every 12-bit number ends in the key of exactly one of the
  bytes that occur.\<close>

theorem huffman_code_complete:
  assumes "encoder_ok enc" and "length (hk_sorted enc) = 256" and "length source < 2 ^ 32" and "source \<noteq> []"
  shows "\<exists>enc'. SortByFrequency (CountValues enc source) = Some enc' \<and>
    (\<forall>c. c \<in> set source \<longrightarrow> key_length enc' c \<le> 12) \<and>
    (\<forall>x < 4096. \<exists>!c. c \<in> set source \<and> x mod 2 ^ key_length enc' c = key_value enc' c)"
proof -
  obtain enc' cs code where run: "SortByFrequency (CountValues enc source) = Some enc'" and coded: "coded enc' source cs code"
    using SortByFrequency_ok [OF assms] by blast
  have cs: "set cs = set source" "distinct cs" and tiled: "tiled 0 code 4096" using coded by (simp_all add: coded_def)
  have "\<exists>!c. c \<in> set source \<and> x mod 2 ^ key_length enc' c = key_value enc' c" if "x < 4096" for x
  proof -
    have len: "length code = length cs" using coded_nth(4) [OF coded] assms(4) cs(1) by (cases cs) fastforce+
    have here: "x mod 2 ^ key_length enc' (cs ! j) = key_value enc' (cs ! j) \<longleftrightarrow> rbits x 12 div 2 ^ (12 - snd (code ! j)) = fst (code ! j)"
      if "j < length cs" for j
      using coded_nth [OF coded that] key_matches [of "snd (code ! j)" "fst (code ! j)" x] tiled_nth [OF tiled, of j] that len
      by (simp add: key_of_def)
    obtain i where i: "i < length cs" "\<forall>j < length cs. rbits x 12 div 2 ^ (12 - snd (code ! j)) = fst (code ! j) \<longleftrightarrow> j = i"
      using tiled_point [OF tiled, of "rbits x 12"] rbits_less [of x 12] len by auto
    show ?thesis
    proof (rule ex1I [of _ "cs ! i"])
      show "cs ! i \<in> set source \<and> x mod 2 ^ key_length enc' (cs ! i) = key_value enc' (cs ! i)"
        using here [OF i(1)] i cs(1) nth_mem by blast
      fix c assume c: "c \<in> set source \<and> x mod 2 ^ key_length enc' c = key_value enc' c"
      then obtain j where "j < length cs" "c = cs ! j" using cs(1) by (metis in_set_conv_nth)
      with c here i(2) show "c = cs ! i" by blast
    qed
  qed
  with run coded_keys_ok [OF coded] show ?thesis unfolding keys_ok_def by blast
qed

theorem huffman_code_complete_witness:
  "\<exists>enc'. SortByFrequency (CountValues new_huffman_encoder [1, 2, 2, 3]) = Some enc' \<and>
    (\<forall>x < 4096. \<exists>!c. c \<in> {1, 2, 3} \<and> x mod 2 ^ key_length enc' c = key_value enc' c)"
  using huffman_code_complete [OF new_coders_ok(1,2), of "[1, 2, 2, 3]"] by auto

section \<open>The ends of the format\<close>

lemma no_pairs: "frequency_pairs (CountValues enc []) = []"
proof -
  have "hk_count (CountValues enc []) ! i = 0" if "i < 256" for i
    using CountValues_ok [of "[]" enc] that by (simp add: counts_ok_def)
  then show ?thesis by (simp add: frequency_pairs_def filter_empty_conv)
qed

text \<open>For no bytes at all, the decoder leaves the last one of the bytes of the stream behind.\<close>

theorem huffman_empty:
  "\<exists>enc'. Encode fresh enc [] = Some (Return ([0, 0, 0, 0, 9, 0, 0, 0, 0], enc')) \<and>
     Decode d \<lparr>ib_data = [0, 0, 0, 0, 9, 0, 0, 0, 0] @ rest, ib_behind = behind\<rparr> target =
       Some (Return (d, \<lparr>ib_data = 0 # rest, ib_behind = behind\<rparr>, target))"
proof -
  let ?enc = "(CountValues enc [])\<lparr>hk_sortedCount := 0\<rparr>"
  have sort: "SortByFrequency (CountValues enc []) = Some ?enc"
    by (simp add: SortByFrequency_pairs no_pairs)
  have counts: "hk_count ?enc = replicate 256 0" by (simp add: CountValues_def BUCKET_COUNT_def)
  have "foldl (\<lambda>n i. n + ucast (hk_count ?enc ! i * ucast (hk_keyLength ?enc ! i))) (0 :: qword) is = 0"
    if "\<forall>i \<in> set is. i < 256" for "is"
    using that by (induction "is" rule: rev_induct) (simp_all add: counts)
  then have "CalculatePackedSize ?enc = 17" by (simp add: CalculatePackedSize_def BUCKET_COUNT_def del: upt_Suc)
  then have target: "min (of_nat 0 + of_nat MIN_HEADER_LENGTH) (CalculatePackedSize ?enc) = 9"
    by (simp add: MIN_HEADER_LENGTH_def min_def)
  define buffer where "buffer = map fresh [0..<9]"
  have bytes: "dword_bytes 0 = [0, 0, 0, 0]" "dword_bytes 9 = [9, 0, 0, 0]"
    by code_simp+
  have stores: "store buffer 0 (dword_bytes 0) = Some (dword_bytes 0 @ drop 4 buffer)"
    "store (dword_bytes 0 @ drop 4 buffer) 4 (dword_bytes 9) = Some (dword_bytes 0 @ dword_bytes 9 @ drop 8 buffer)"
    "store (dword_bytes 0 @ dword_bytes 9 @ drop 8 buffer) 8 [0] = Some (dword_bytes 0 @ dword_bytes 9 @ [0])"
    "store (dword_bytes 0 @ dword_bytes 9 @ [0]) 9 [] = Some (dword_bytes 0 @ dword_bytes 9 @ [0])"
    by (simp_all add: store_ok buffer_def)
  have "Encode fresh enc [] = Some (Return (dword_bytes 0 @ dword_bytes 9 @ [0], ?enc))"
    unfolding Encode_def Let_def sort bind.bind_lunit list.size(3) target
    by (simp add: MIN_HEADER_LENGTH_def buffer_def [symmetric] stores del: upt_Suc)
  then have "Encode fresh enc [] = Some (Return ([0, 0, 0, 0, 9, 0, 0, 0, 0], ?enc))" by (simp add: bytes)
  moreover have "Decode d \<lparr>ib_data = [0, 0, 0, 0, 9, 0, 0, 0, 0] @ rest, ib_behind = behind\<rparr> target =
       Some (Return (d, \<lparr>ib_data = 0 # rest, ib_behind = behind\<rparr>, target))"
    by (simp add: Decode_def GetDWORD_def GetData_def numeral_eq_Suc)
  ultimately show ?thesis by blast
qed

text \<open>The first round of the main loop has loaded 15 bytes, whatever the length of the data.\<close>

lemma WriteDecodedStream_short:
  assumes "4 \<le> decodedSize" and "length mem < 15"
  shows "WriteDecodedStream d mem decodedSize = None"
proof -
  obtain k where k: "decodedSize div 4 = Suc k" using assms(1) by (cases "decodedSize div 4") auto
  have "load8 mem 7 = None" using assms(2) by (simp add: load8_def)
  then show ?thesis
    by (cases "load8 mem 0") (simp_all add: WriteDecodedStream_def k fetch_def Let_def)
qed

lemma coded_one_symbol:
  assumes "coded enc source cs code" and "set source = {c}"
  shows "hk_sortedCount enc = 1" and "bits_length enc source = 0"
proof -
  have dist: "distinct cs" "set cs = {c}" using assms unfolding coded_def by blast+
  have "length cs = 1" using distinct_card [OF dist(1)] unfolding dist(2) by simp
  then obtain x where "cs = [x]" by (cases cs) auto
  with dist(2) have "cs = [c]" by simp
  then show "hk_sortedCount enc = 1" using assms(1) by (simp add: coded_def)
  have len: "length code = 1" using coded_nth(4) [OF assms(1), of 0] \<open>cs = [c]\<close> by simp
  then obtain k l where code: "code = [(k, l)]" by (cases code) auto
  then have t: "k = 0" "l \<le> 12" "(2 :: nat) ^ (12 - l) = 2 ^ 12" using assms(1) by (auto simp: coded_def)
  then have "l = 0" using power_inject_exp [of "2 :: nat" "12 - l" 12] by simp
  then have "key_length enc c = 0" using coded_nth(1) [OF assms(1), of 0] \<open>cs = [c]\<close> code by simp
  moreover have "set s \<subseteq> {c} \<Longrightarrow> key_length enc c = 0 \<Longrightarrow> bits_length enc s = 0" for s
    by (induction s) auto
  ultimately show "bits_length enc source = 0" using assms(2) by blast
qed

text \<open>C5. The decoder reads up to 8 bytes behind the data that its input buffer has checked, also for the
  streams of its own encoder: a run of 11 or more equal bytes is packed into 19 bytes, 8 of which hold
  the (empty) code words, and the first round of the main loop has loaded 15. If nothing can be read
  behind the stream, the access fails.\<close>

theorem huffman_reads_behind:
  assumes "encoder_ok enc" and "length (hk_sorted enc) = 256" and "tables_ok d"
    and "11 \<le> n" and "12 * n < 2 ^ 32" and "n \<le> ob_remaining target"
  shows "\<exists>stream enc'. Encode fresh enc (replicate n c) = Some (Return (stream, enc')) \<and> length stream = 19 \<and>
    Decode d \<lparr>ib_data = stream, ib_behind = []\<rparr> target = None"
proof -
  let ?source = "replicate n c"
  have set: "set ?source = {c}" and ne: "?source \<noteq> []" using assms(4) by auto
  obtain enc' cs code body where coded: "coded enc' ?source cs code"
    and run: "Encode fresh enc ?source = Some (Return (dword_bytes (of_nat n) @ dword_bytes (of_nat (8 + length body)) @ body, enc'))"
    and len: "8 + length body = min (n + 9) (packed_size enc' ?source)"
    and body: "body = 0 # ?source \<or> length body < n + 1 \<and> packed_body enc' ?source body"
    using Encode_ok [OF assms(1,2) _ ne] assms(5) by fastforce
  note one = coded_one_symbol [OF coded set]
  have b11: "length body = 11" using len assms(4) by (simp add: packed_size_def one)
  with body assms(4) have "packed_body enc' ?source body" by auto
  then obtain str where str: "body = huffman_table enc' @ str" "length str = 8"
    unfolding packed_body_def one by auto
  have sizes: "unat (of_nat n :: dword) = n" "unat (of_nat (n + 9) :: dword) = n + 9" "unat (of_nat (8 + length body) :: dword) = 8 + length body"
    using assms(5) b11 by (intro unat_of_nat_small; simp)+
  obtain d' where table: "BuildDecodeTable d \<lparr>ib_data = huffman_table enc' @ str, ib_behind = []\<rparr> = Return (d', \<lparr>ib_data = str, ib_behind = []\<rparr>)"
    using BuildDecodeTable_ok [OF coded ne assms(3), of "\<lparr>ib_data = huffman_table enc' @ str, ib_behind = []\<rparr>" str] by auto
  have "WriteDecodedStream d' str n = None" using str(2) assms(4) by (intro WriteDecodedStream_short) simp_all
  moreover have "8 + length body \<noteq> n + 9" using b11 assms(4) by simp
  ultimately have "Decode d \<lparr>ib_data = dword_bytes (of_nat n) @ dword_bytes (of_nat (8 + length body)) @ body, ib_behind = []\<rparr> target = None"
    using sizes table assms(4,6) unfolding Decode_def str(1)
    by (simp add: GetDWORD_ok MIN_HEADER_LENGTH_def GetData_def Let_def del: of_nat_add of_nat_Suc)
  with run b11 show ?thesis by (intro exI) auto
qed

theorem huffman_reads_behind_witness:
  "\<exists>stream enc'. Encode (\<lambda>i. 0) new_huffman_encoder (replicate 11 65) = Some (Return (stream, enc')) \<and> length stream = 19 \<and>
    Decode new_huffman_decoder \<lparr>ib_data = stream, ib_behind = []\<rparr> \<lparr>ob_written = [], ob_remaining = 11\<rparr> = None"
  by (rule huffman_reads_behind [OF new_coders_ok]) simp_all

end
