(* ===== verification/CacheFile.thy ===== *)
theory CacheFile
  imports Huffman
begin

text \<open>
  The file buffers of the log cache (\<^verbatim>\<open>src/src/LogCache/Streams/BufferedOutFile.cpp\<close>,
  \<^verbatim>\<open>CacheFileOutBuffer.cpp\<close>, \<^verbatim>\<open>CacheFileInBuffer.cpp\<close>): buffered writing, the directory of streams at the end
  of the file and its evaluation. Writing to the disk succeeds. \<open>None\<close> is an access outside of a
  buffer, or a loop that does not end; exceptions are values. Stream indices and identifiers, which
  are of type \<^verbatim>\<open>int\<close>, are 32-bit words.
\<close>

section \<open>Buffered output\<close>

definition BUFFER_SIZE :: nat where "BUFFER_SIZE = 1024 * 1024"

record out_file =
  on_disk :: "byte list"
  buffered :: "byte list"
  file_size :: nat

definition new_out_file :: out_file where
  "new_out_file = \<lparr>on_disk = [], buffered = [], file_size = 0\<rparr>"

definition file_Flush :: "out_file \<Rightarrow> out_file" where
  "file_Flush f = f\<lparr>on_disk := on_disk f @ buffered f, buffered := []\<rparr>"

text \<open>The sum in the overflow test is one of 32-bit integers.\<close>

definition file_Add :: "byte list \<Rightarrow> out_file \<Rightarrow> out_file option" where
  "file_Add data f =
     (let bytes = of_nat (length data) :: dword;
          overflow = of_nat (length (buffered f)) + bytes > of_nat BUFFER_SIZE;
          f = (if overflow then file_Flush f else f) in
      if overflow \<and> bytes \<ge> of_nat BUFFER_SIZE
      then Some (f\<lparr>on_disk := on_disk f @ data, file_size := file_size f + length data\<rparr>)
      else if length (buffered f) + length data > BUFFER_SIZE then None
      else Some (f\<lparr>buffered := buffered f @ data, file_size := file_size f + length data\<rparr>))"

definition file_Add_value :: "dword \<Rightarrow> out_file \<Rightarrow> out_file option" where
  "file_Add_value value = file_Add (dword_bytes value)"

definition file_contents :: "out_file \<Rightarrow> byte list" where
  "file_contents f = on_disk f @ buffered f"

section \<open>The output buffer of the cache file\<close>

type_synonym stream_index = dword

definition OUR_LOG_CACHE_FILE_VERSION :: dword where "OUR_LOG_CACHE_FILE_VERSION = 0x20100515"
definition MIN_LOG_CACHE_FILE_VERSION :: dword where "MIN_LOG_CACHE_FILE_VERSION = 0x20100515"

record cache_out =
  co_file :: out_file
  streamOffsets :: "nat list"
  streamIsOpen :: bool

definition new_cache_out :: "cache_out option" where
  "new_cache_out =
     map_option (\<lambda>f. \<lparr>co_file = f, streamOffsets = [], streamIsOpen = False\<rparr>)
       (Option.bind (file_Add_value OUR_LOG_CACHE_FILE_VERSION new_out_file) (file_Add_value MIN_LOG_CACHE_FILE_VERSION))"

definition OpenStream :: "cache_out \<Rightarrow> cache_out \<times> stream_index" where
  "OpenStream b =
     (let offsets = streamOffsets b @ [file_size (co_file b)] in
      (b\<lparr>streamIsOpen := True, streamOffsets := offsets\<rparr>, of_nat (length offsets) - 1))"

definition CloseStream :: "cache_out \<Rightarrow> cache_out" where
  "CloseStream b = b\<lparr>streamIsOpen := False\<rparr>"

definition co_Add :: "byte list \<Rightarrow> cache_out \<Rightarrow> cache_out option" where
  "co_Add data b = map_option (\<lambda>f. b\<lparr>co_file := f\<rparr>) (file_Add data (co_file b))"

definition co_Add_value :: "dword \<Rightarrow> cache_out \<Rightarrow> cache_out option" where
  "co_Add_value value b = map_option (\<lambda>f. b\<lparr>co_file := f\<rparr>) (file_Add_value value (co_file b))"

text \<open>
  The destructor writes the sizes of the streams. A stream that is too large makes it remove the
  file: the inner \<open>None\<close>.
\<close>

fun write_sizes :: "nat \<Rightarrow> nat list \<Rightarrow> out_file \<Rightarrow> out_file option option" where
  "write_sizes lastOffset [] f = Some (Some f)"
| "write_sizes lastOffset (offset # offsets) f =
     (let size = offset - lastOffset in
      if size \<ge> 2 ^ 32 - 1 then Some None
      else Option.bind (file_Add_value (of_nat size) f) (write_sizes offset offsets))"

definition close_cache_out :: "cache_out \<Rightarrow> byte list option option" where
  "close_cache_out b =
     (let offsets = streamOffsets b @ [file_size (co_file b)] in
      Option.bind (write_sizes (offsets ! 0) (tl offsets) (co_file b)) (\<lambda>r.
        case r of None \<Rightarrow> Some None
        | Some f \<Rightarrow>
            map_option (\<lambda>f. Some (on_disk (file_Flush f))) (file_Add_value (of_nat (length offsets - 1)) f)))"

section \<open>The input buffer of the cache file\<close>

definition OLDEST_LOG_CACHE_FILE_VERSION :: dword where "OLDEST_LOG_CACHE_FILE_VERSION = 0x20070607"
definition NEWEST_LOG_CACHE_FILE_VERSION :: dword where "NEWEST_LOG_CACHE_FILE_VERSION = 0x20100515"

record cache_in =
  ci_bytes :: "byte list"
  streamContents :: "nat list"

definition dword_at :: "byte list \<Rightarrow> nat \<Rightarrow> dword option" where
  "dword_at mem offset = (if offset + 4 \<le> length mem then Some (ucast (le_value (take 4 (drop offset mem)))) else None)"

fun read_sizes :: "byte list \<Rightarrow> nat \<Rightarrow> nat \<Rightarrow> nat \<Rightarrow> nat list option" where
  "read_sizes mem at 0 lastStream = Some []"
| "read_sizes mem at (Suc n) lastStream =
     Option.bind (dword_at mem at) (\<lambda>size.
       let lastStream = lastStream + unat size in
       map_option ((#) lastStream) (read_sizes mem (at + 4) n lastStream))"

definition ReadStreamOffsets :: "byte list \<Rightarrow> (string, nat list) result option" where
  "ReadStreamOffsets mem =
     (if length mem < 3 * 4 then Some (Raise ''log cache file too small'')
      else
        Option.bind (dword_at mem 0) (\<lambda>creatorVersion. Option.bind (dword_at mem 4) (\<lambda>requiredVersion.
          if creatorVersion < OLDEST_LOG_CACHE_FILE_VERSION then Some (Raise ''log cache file format too old'')
          else if requiredVersion > NEWEST_LOG_CACHE_FILE_VERSION then Some (Raise ''log cache file format too new'')
          else
            Option.bind (dword_at mem (length mem - 4)) (\<lambda>streamCount.
              if length mem < unat (3 + streamCount) * 4 then Some (Raise ''log cache file too small to hold stream directory'')
              else
                (let directory = unat (streamCount + 1) * 4;
                     contentEnd = (if directory \<le> length mem then length mem - directory else 2 ^ 64 + length mem - directory) in
                 Option.bind (read_sizes mem contentEnd (unat streamCount) (2 * 4)) (\<lambda>offsets.
                   if last (2 * 4 # offsets) \<noteq> contentEnd then Some (Raise ''stream directory corrupted'')
                   else Some (Return (2 * 4 # offsets))))))))"

definition new_cache_in :: "byte list \<Rightarrow> (string, cache_in) result option" where
  "new_cache_in mem = map_option (map_sum id (\<lambda>offsets. \<lparr>ci_bytes = mem, streamContents = offsets\<rparr>)) (ReadStreamOffsets mem)"

definition GetLastStream :: "cache_in \<Rightarrow> stream_index" where
  "GetLastStream b = of_nat (length (streamContents b)) - 2"

definition GetStreamBuffer :: "stream_index \<Rightarrow> cache_in \<Rightarrow> (string, nat \<times> nat) result" where
  "GetStreamBuffer index b =
     (if index <s 0 \<or> unat index \<ge> length (streamContents b) - 1 then Raise ''invalid stream index''
      else Return (streamContents b ! unat index, streamContents b ! (unat index + 1)))"

section \<open>Writing\<close>

definition file_ok :: "out_file \<Rightarrow> bool" where
  "file_ok f \<longleftrightarrow> length (buffered f) \<le> BUFFER_SIZE \<and> file_size f = length (file_contents f)"

lemma file_Add_ok:
  assumes "file_ok f" and "length data + BUFFER_SIZE < 2 ^ 32"
  shows "\<exists>f'. file_Add data f = Some f' \<and> file_ok f' \<and> file_contents f' = file_contents f @ data"
proof -
  have b: "length (buffered f) \<le> 2 ^ 20" "length data < 2 ^ 32 - 2 ^ 20" "BUFFER_SIZE = 2 ^ 20"
    using assms by (simp_all add: file_ok_def BUFFER_SIZE_def)
  then have "unat (of_nat (length (buffered f)) + of_nat (length data) :: dword) = length (buffered f) + length data"
    using unat_of_nat_small [of "length (buffered f) + length data", where 'a = 32] by simp
  then have overflow: "of_nat (length (buffered f)) + of_nat (length data) > (of_nat BUFFER_SIZE :: dword) \<longleftrightarrow>
      length (buffered f) + length data > BUFFER_SIZE"
    by (simp add: word_less_nat_alt BUFFER_SIZE_def)
  have bytes: "of_nat (length data) \<ge> (of_nat BUFFER_SIZE :: dword) \<longleftrightarrow> length data \<ge> BUFFER_SIZE"
    using b(2) by (simp add: word_le_nat_alt unat_of_nat BUFFER_SIZE_def)
  show ?thesis
    using assms(1) by (simp add: file_Add_def overflow bytes file_Flush_def file_ok_def file_contents_def Let_def)
qed

lemma file_Add_value_ok:
  assumes "file_ok f"
  shows "\<exists>f'. file_Add_value v f = Some f' \<and> file_ok f' \<and> file_contents f' = file_contents f @ dword_bytes v"
  unfolding file_Add_value_def by (rule file_Add_ok [OF assms]) (simp add: BUFFER_SIZE_def)

text \<open>The streams that have been written, the last of which may be open.\<close>

fun positions :: "nat \<Rightarrow> byte list list \<Rightarrow> nat list" where
  "positions p [] = []"
| "positions p (s # ss) = p # positions (p + length s) ss"

lemma positions_append: "positions p (a @ b) = positions p a @ positions (p + length (concat a)) b"
  by (induction a arbitrary: p) (simp_all add: add.assoc)

lemma length_positions [simp]: "length (positions p segs) = length segs"
  by (induction segs arbitrary: p) simp_all

definition versions :: "byte list" where
  "versions = dword_bytes OUR_LOG_CACHE_FILE_VERSION @ dword_bytes MIN_LOG_CACHE_FILE_VERSION"

lemma length_versions [simp]: "length versions = 8"
  by (simp add: versions_def)

definition cache_out_ok :: "cache_out \<Rightarrow> byte list list \<Rightarrow> bool" where
  "cache_out_ok b segs \<longleftrightarrow> file_ok (co_file b) \<and> file_contents (co_file b) = versions @ concat segs \<and> streamOffsets b = positions 8 segs"

lemma new_cache_out_ok: "\<exists>b. new_cache_out = Some b \<and> cache_out_ok b []"
proof -
  have "file_ok new_out_file" by (simp add: file_ok_def new_out_file_def file_contents_def)
  then obtain f where f: "file_Add_value OUR_LOG_CACHE_FILE_VERSION new_out_file = Some f" "file_ok f"
    "file_contents f = file_contents new_out_file @ dword_bytes OUR_LOG_CACHE_FILE_VERSION"
    using file_Add_value_ok by blast
  obtain g where "file_Add_value MIN_LOG_CACHE_FILE_VERSION f = Some g" "file_ok g"
    "file_contents g = file_contents f @ dword_bytes MIN_LOG_CACHE_FILE_VERSION"
    using file_Add_value_ok [OF f(2)] by blast
  with f show ?thesis
    by (simp add: new_cache_out_def cache_out_ok_def versions_def) (simp add: file_contents_def new_out_file_def)
qed

lemma OpenStream_ok:
  "cache_out_ok b segs \<Longrightarrow> \<exists>b'. OpenStream b = (b', of_nat (length segs)) \<and> cache_out_ok b' (segs @ [[]])"
  by (simp add: OpenStream_def cache_out_ok_def file_ok_def positions_append)

lemma CloseStream_ok: "cache_out_ok b segs \<Longrightarrow> cache_out_ok (CloseStream b) segs"
  by (simp add: CloseStream_def cache_out_ok_def)

lemma co_Add_ok:
  assumes "cache_out_ok b (segs @ [seg])" and "length data + BUFFER_SIZE < 2 ^ 32"
  shows "\<exists>b'. co_Add data b = Some b' \<and> cache_out_ok b' (segs @ [seg @ data])"
proof -
  obtain f where "file_Add data (co_file b) = Some f" "file_ok f" "file_contents f = file_contents (co_file b) @ data"
    using file_Add_ok [OF _ assms(2)] assms(1) unfolding cache_out_ok_def by blast
  with assms(1) show ?thesis by (simp add: co_Add_def cache_out_ok_def positions_append)
qed

lemma co_Add_value_ok:
  assumes "cache_out_ok b (segs @ [seg])"
  shows "\<exists>b'. co_Add_value v b = Some b' \<and> cache_out_ok b' (segs @ [seg @ dword_bytes v])"
  using co_Add_ok [OF assms, of "dword_bytes v"] by (simp add: co_Add_def co_Add_value_def file_Add_value_def BUFFER_SIZE_def)

definition size_bytes :: "byte list list \<Rightarrow> byte list" where
  "size_bytes segs = concat (map (\<lambda>s. dword_bytes (of_nat (length s))) segs)"

lemma length_size_bytes [simp]: "length (size_bytes segs) = 4 * length segs"
  by (induction segs) (simp_all add: size_bytes_def)

lemma write_sizes_ok:
  "file_ok f \<Longrightarrow> \<forall>s \<in> set segs. length s < 2 ^ 32 - 1 \<Longrightarrow>
   \<exists>f'. write_sizes p (tl (positions p segs @ [p + length (concat segs)])) f = Some (Some f') \<and> file_ok f' \<and>
     file_contents f' = file_contents f @ size_bytes segs"
proof (induction segs arbitrary: p f)
  case (Cons s segs)
  obtain g where g: "file_Add_value (of_nat (length s)) f = Some g" "file_ok g" "file_contents g = file_contents f @ dword_bytes (of_nat (length s))"
    using file_Add_value_ok [OF Cons.prems(1)] by blast
  have rest: "tl (positions p (s # segs) @ [p + length (concat (s # segs))]) =
      (p + length s) # tl (positions (p + length s) segs @ [p + length s + length (concat segs)])"
    by (cases segs) (simp_all add: add.assoc)
  obtain f' where "write_sizes (p + length s) (tl (positions (p + length s) segs @ [p + length s + length (concat segs)])) g = Some (Some f')"
    "file_ok f'" "file_contents f' = file_contents g @ size_bytes segs"
    using Cons.IH [OF g(2), of "p + length s"] Cons.prems(2) by auto
  with g Cons.prems(2) show ?case unfolding rest by (auto simp: size_bytes_def)
qed (simp add: size_bytes_def)

definition file_bytes :: "byte list list \<Rightarrow> byte list" where
  "file_bytes segs = versions @ concat segs @ size_bytes segs @ dword_bytes (of_nat (length segs))"

lemma close_cache_out_ok:
  assumes "cache_out_ok b segs" and "\<forall>s \<in> set segs. length s < 2 ^ 32 - 1"
  shows "close_cache_out b = Some (Some (file_bytes segs))"
proof -
  let ?f = "co_file b" and ?offsets = "positions 8 segs @ [8 + length (concat segs)]"
  have f: "file_ok ?f" "file_contents ?f = versions @ concat segs" "streamOffsets b @ [file_size ?f] = ?offsets"
    using assms(1) by (simp_all add: cache_out_ok_def file_ok_def)
  obtain g where g: "write_sizes 8 (tl ?offsets) ?f = Some (Some g)" "file_ok g" "file_contents g = file_contents ?f @ size_bytes segs"
    using write_sizes_ok [OF f(1) assms(2)] by blast
  have zero: "?offsets ! 0 = 8" by (cases segs) simp_all
  obtain h where h: "file_Add_value (of_nat (length segs)) g = Some h" "file_contents h = file_contents g @ dword_bytes (of_nat (length segs))"
    using file_Add_value_ok [OF g(2)] by blast
  have "on_disk (file_Flush h) = file_contents h" by (simp add: file_Flush_def file_contents_def)
  then have bytes: "on_disk (file_Flush h) = file_bytes segs" using h(2) g(3) f(2) by (simp add: file_bytes_def)
  show ?thesis
    unfolding close_cache_out_def Let_def f(3) zero g(1) bind.bind_lunit option.case
    using h(1) bytes by simp
qed

lemma write_sizes_large:
  "file_ok f \<Longrightarrow> \<exists>s \<in> set segs. 2 ^ 32 - 1 \<le> length s \<Longrightarrow>
   write_sizes p (tl (positions p segs @ [p + length (concat segs)])) f = Some None"
proof (induction segs arbitrary: p f)
  case (Cons s segs)
  obtain g where g: "file_Add_value (of_nat (length s)) f = Some g" "file_ok g"
    using file_Add_value_ok [OF Cons.prems(1)] by blast
  have rest: "tl (positions p (s # segs) @ [p + length (concat (s # segs))]) =
      (p + length s) # tl (positions (p + length s) segs @ [p + length s + length (concat segs)])"
    by (cases segs) (simp_all add: add.assoc)
  show ?case
  proof (cases "2 ^ 32 - 1 \<le> length s")
    case True
    then show ?thesis unfolding rest by (simp add: Let_def)
  next
    case False
    then have "write_sizes (p + length s) (tl (positions (p + length s) segs @ [p + length s + length (concat segs)])) g = Some None"
      using Cons by (intro Cons.IH g) auto
    with False g(1) show ?thesis unfolding rest by (simp add: Let_def)
  qed
qed simp

section \<open>Reading\<close>

lemma dword_at_bytes: "drop offset mem = dword_bytes v @ rest \<Longrightarrow> dword_at mem offset = Some v"
proof -
  assume d: "drop offset mem = dword_bytes v @ rest"
  have "length (drop offset mem) = 4 + length rest" by (simp only: d length_append length_dword_bytes)
  then have "offset + 4 \<le> length mem" by (simp only: length_drop)
  moreover have "GetDWORD \<lparr>ib_data = dword_bytes v @ rest, ib_behind = []\<rparr> = Return (v, \<lparr>ib_data = rest, ib_behind = []\<rparr>)"
    using GetDWORD_ok [of "\<lparr>ib_data = dword_bytes v @ rest, ib_behind = []\<rparr>" v rest] by simp
  then have "ucast (le_value (take 4 (dword_bytes v @ rest))) = v" by (simp add: GetDWORD_def GetData_def)
  ultimately show ?thesis by (simp add: dword_at_def d)
qed

lemma read_sizes_ok:
  "drop at mem = size_bytes segs @ rest \<Longrightarrow> \<forall>s \<in> set segs. length s < 2 ^ 32 \<Longrightarrow>
   read_sizes mem at (length segs) p = Some (tl (positions p segs @ [p + length (concat segs)]))"
proof (induction segs arbitrary: p at)
  case (Cons s segs)
  have d: "drop at mem = dword_bytes (of_nat (length s)) @ size_bytes segs @ rest" using Cons.prems(1) by (simp add: size_bytes_def)
  then have "drop (at + 4) mem = size_bytes segs @ rest" by (metis add.commute append_eq_conv_conj drop_drop length_dword_bytes)
  then have "read_sizes mem (at + 4) (length segs) (p + length s) =
      Some (tl (positions (p + length s) segs @ [p + length s + length (concat segs)]))"
    using Cons.prems(2) by (intro Cons.IH) simp_all
  moreover have "unat (of_nat (length s) :: dword) = length s" using Cons.prems(2) by (simp add: unat_of_nat)
  moreover have "(p + length s) # tl (positions (p + length s) segs @ [p + length s + length (concat segs)]) =
      tl (positions p (s # segs) @ [p + length (concat (s # segs))])"
    by (cases segs) (simp_all add: add.assoc)
  ultimately show ?case using dword_at_bytes [OF d] by (simp add: Let_def)
qed simp

lemma last_positions: "last (positions p segs @ [q]) = q"
  by simp

lemma positions_from: "positions p segs @ [p + length (concat segs)] = p # tl (positions p segs @ [p + length (concat segs)])"
  by (cases segs) simp_all

theorem ReadStreamOffsets_ok:
  assumes "length segs + 3 < 2 ^ 32" and "\<forall>s \<in> set segs. length s < 2 ^ 32"
  shows "ReadStreamOffsets (file_bytes segs) = Some (Return (positions 8 segs @ [8 + length (concat segs)]))"
proof -
  let ?mem = "file_bytes segs" and ?n = "length segs"
  have len: "length ?mem = 8 + length (concat segs) + 4 * ?n + 4" by (simp add: file_bytes_def)
  have "drop 0 ?mem = dword_bytes OUR_LOG_CACHE_FILE_VERSION @ drop 4 ?mem" by (simp add: file_bytes_def versions_def)
  note creator = dword_at_bytes [OF this]
  have "drop 4 ?mem = dword_bytes MIN_LOG_CACHE_FILE_VERSION @ drop 8 ?mem" by (simp add: file_bytes_def versions_def)
  note required = dword_at_bytes [OF this]
  have "drop (length ?mem - 4) ?mem = dword_bytes (of_nat ?n) @ []" by (simp add: file_bytes_def)
  note streamCount = dword_at_bytes [OF this]
  have unat: "unat (3 + of_nat ?n :: dword) = 3 + ?n" "unat (of_nat ?n + 1 :: dword) = ?n + 1" "unat (of_nat ?n :: dword) = ?n"
  proof -
    have "(3 + of_nat ?n :: dword) = of_nat (3 + ?n)" "(of_nat ?n + 1 :: dword) = of_nat (?n + 1)" by simp_all
    then show "unat (3 + of_nat ?n :: dword) = 3 + ?n" "unat (of_nat ?n + 1 :: dword) = ?n + 1" "unat (of_nat ?n :: dword) = ?n"
      using assms(1) by (simp_all only: unat_of_nat_small len_num1) (intro unat_of_nat_small; simp)+
  qed
  have "drop (8 + length (concat segs)) ?mem = size_bytes segs @ dword_bytes (of_nat ?n)" by (simp add: file_bytes_def)
  from read_sizes_ok [OF this assms(2), of 8]
  have sizes: "read_sizes ?mem (8 + length (concat segs)) ?n 8 = Some (tl (positions 8 segs @ [8 + length (concat segs)]))" .
  have contentEnd: "length ?mem - (?n + 1) * 4 = 8 + length (concat segs)" "(?n + 1) * 4 \<le> length ?mem" using len by simp_all
  have version: "\<not> OUR_LOG_CACHE_FILE_VERSION < OLDEST_LOG_CACHE_FILE_VERSION" "\<not> NEWEST_LOG_CACHE_FILE_VERSION < MIN_LOG_CACHE_FILE_VERSION"
    by (simp_all add: OUR_LOG_CACHE_FILE_VERSION_def OLDEST_LOG_CACHE_FILE_VERSION_def NEWEST_LOG_CACHE_FILE_VERSION_def MIN_LOG_CACHE_FILE_VERSION_def)
  have small: "\<not> length ?mem < 3 * 4" "\<not> length ?mem < (3 + ?n) * 4" using len by simp_all
  have eight: "2 * 4 = (8 :: nat)" by simp
  show ?thesis
    unfolding ReadStreamOffsets_def creator required streamCount bind.bind_lunit Let_def unat contentEnd(1) eight
    using small contentEnd(2) version
    by (simp only: if_False if_True refl not_True_eq_False sizes last_positions bind.bind_lunit positions_from [of 8 segs, symmetric])
qed

text \<open>The bytes between two offsets.\<close>

definition slice :: "byte list \<Rightarrow> nat \<Rightarrow> nat \<Rightarrow> byte list" where
  "slice mem from to = take (to - from) (drop from mem)"

lemma GetStreamBuffer_ok:
  assumes "k < length segs" and "length segs < 2 ^ 31"
  shows "\<exists>from to. GetStreamBuffer (of_nat k) \<lparr>ci_bytes = file_bytes segs, streamContents = positions 8 segs @ [8 + length (concat segs)]\<rparr> =
      Return (from, to) \<and> 8 \<le> from \<and>
    to = from + length (segs ! k) \<and> to + 4 * length segs + 4 \<le> length (file_bytes segs) \<and> slice (file_bytes segs) from to = segs ! k"
proof -
  let ?first = "8 + length (concat (take k segs))" and ?last = "8 + length (concat (take k segs)) + length (segs ! k)"
  have split: "segs = take k segs @ segs ! k # drop (Suc k) segs" using assms(1) by (simp add: id_take_nth_drop)
  let ?P = "positions 8 segs @ [8 + length (concat segs)]"
  have "?P = positions 8 (take k segs @ segs ! k # drop (Suc k) segs) @ [8 + length (concat (take k segs @ segs ! k # drop (Suc k) segs))]"
    by (simp only: split [symmetric])
  then have P: "?P = positions 8 (take k segs) @ ?first # positions ?last (drop (Suc k) segs) @ [?last + length (concat (drop (Suc k) segs))]"
    by (simp only: positions_append) simp
  have len: "length (positions 8 (take k segs)) = k" using assms(1) by simp
  have nth: "?P ! k = ?first" unfolding P using len by (metis nth_append_length)
  have nth': "?P ! (k + 1) = ?last"
    unfolding P using len by (cases "drop (Suc k) segs") (simp_all add: nth_append)
  have idx: "unat (of_nat k :: dword) = k" using assms by (simp add: unat_of_nat)
  have "\<not> of_nat k <s (0 :: dword)"
    using assms by (simp add: word_sless_alt sint_uint unat_of_nat uint_nat signed_take_bit_int_eq_self_iff bit_iff_odd)
  then have "GetStreamBuffer (of_nat k) \<lparr>ci_bytes = file_bytes segs, streamContents = ?P\<rparr> = Return (?first, ?last)"
    using assms(1) nth nth' by (simp add: GetStreamBuffer_def idx)
  moreover have "length (file_bytes segs) = 8 + length (concat (take k segs)) + length (segs ! k) + length (concat (drop (Suc k) segs)) + 4 * length segs + 4"
    using arg_cong [OF split, of "\<lambda>s. length (concat s)"] by (simp add: file_bytes_def)
  moreover have "concat segs = concat (take k segs) @ segs ! k @ concat (drop (Suc k) segs)"
    by (subst split) simp
  then have "slice (file_bytes segs) ?first ?last = segs ! k" by (simp add: slice_def file_bytes_def)
  ultimately show ?thesis by (intro exI [of _ ?first] exI [of _ ?last]) simp
qed

section \<open>Damaged files\<close>

lemma read_sizes_inside:
  "at + 4 * n \<le> length mem \<Longrightarrow> \<exists>offsets. read_sizes mem at n p = Some offsets \<and> length offsets = n \<and> sorted (p # offsets)"
proof (induction n arbitrary: at p)
  case (Suc n)
  then obtain w where w: "dword_at mem at = Some w" by (auto simp: dword_at_def)
  obtain offsets where "read_sizes mem (at + 4) n (p + unat w) = Some offsets" "length offsets = n" "sorted ((p + unat w) # offsets)"
    using Suc.IH [of "at + 4" "p + unat w"] Suc.prems by auto
  with w show ?case by (auto simp: Let_def)
qed simp

text \<open>The number of streams that a file claims to have, and whether its versions are accepted.\<close>

definition claimed_count :: "byte list \<Rightarrow> nat" where
  "claimed_count mem = unat (ucast (le_value (take 4 (drop (length mem - 4) mem))) :: dword)"

definition version_accepted :: "byte list \<Rightarrow> bool" where
  "version_accepted mem \<longleftrightarrow> (case (dword_at mem 0, dword_at mem 4) of
     (Some creator, Some required) \<Rightarrow> OLDEST_LOG_CACHE_FILE_VERSION \<le> creator \<and> required \<le> NEWEST_LOG_CACHE_FILE_VERSION
   | _ \<Rightarrow> False)"

lemma ReadStreamOffsets_accepted:
  assumes "12 \<le> length mem" and "version_accepted mem"
  shows "ReadStreamOffsets mem =
    (let count = of_nat (claimed_count mem) :: dword in
     if length mem < unat (3 + count) * 4 then Some (Raise ''log cache file too small to hold stream directory'')
     else
       (let directory = unat (count + 1) * 4;
            contentEnd = (if directory \<le> length mem then length mem - directory else 2 ^ 64 + length mem - directory) in
        Option.bind (read_sizes mem contentEnd (claimed_count mem) 8) (\<lambda>offsets.
          if last (8 # offsets) \<noteq> contentEnd then Some (Raise ''stream directory corrupted'') else Some (Return (8 # offsets)))))"
proof -
  obtain creator required where v: "dword_at mem 0 = Some creator" "dword_at mem 4 = Some required"
    "\<not> creator < OLDEST_LOG_CACHE_FILE_VERSION" "\<not> NEWEST_LOG_CACHE_FILE_VERSION < required"
    using assms(2) unfolding version_accepted_def by (auto split: option.splits)
  define count :: dword where "count = of_nat (claimed_count mem)"
  have "count = ucast (le_value (take 4 (drop (length mem - 4) mem)))"
    by (simp add: count_def claimed_count_def)
  then have c: "dword_at mem (length mem - 4) = Some count" "unat count = claimed_count mem"
    using assms(1) by (simp_all add: dword_at_def claimed_count_def)
  have eight: "2 * 4 = (8 :: nat)" by simp
  show ?thesis
    unfolding ReadStreamOffsets_def v(1,2) bind.bind_lunit c count_def [symmetric] eight using assms(1) v(3,4) by (simp only: Let_def) simp
qed

lemma claimed_count_less: "claimed_count mem < 2 ^ 32"
  using unat_lt_2p32 by (simp add: claimed_count_def)

lemma ReadStreamOffsets_wraps:
  assumes "12 \<le> length mem" and "version_accepted mem" and "length mem < 2 ^ 33" and n: "2 ^ 32 - 3 \<le> claimed_count mem"
  shows "ReadStreamOffsets mem = None"
proof -
  define count :: dword where "count = of_nat (claimed_count mem)"
  define n where "n = claimed_count mem"
  have c: "unat count = n" using claimed_count_less by (simp add: count_def n_def unat_of_nat)
  have b: "2 ^ 32 - 3 \<le> n" "n < 2 ^ 32" using n claimed_count_less by (simp_all add: n_def)
  have three: "unat (3 + count) \<le> 2"
  proof -
    have "unat (3 + count) = (3 + n) mod 2 ^ 32" by (simp add: unat_word_ariths c)
    also have "\<dots> = 3 + n - 2 ^ 32" using b by (subst mod_if) auto
    finally show ?thesis using b by simp
  qed
  have one: "unat (count + 1) = (if n = 2 ^ 32 - 1 then 0 else n + 1)"
    using b by (auto simp: unat_word_ariths c)
  let ?dir = "unat (count + 1) * 4"
  let ?stop = "if ?dir \<le> length mem then length mem - ?dir else 2 ^ 64 + length mem - ?dir"
  have "length mem \<le> ?stop"
  proof (cases "n = 2 ^ 32 - 1")
    case False
    then have "?dir = (n + 1) * 4" using one by simp
    then have "2 ^ 33 < ?dir" "?dir \<le> 2 ^ 64" using b by simp_all
    then show ?thesis using assms(3) by simp
  qed (use one in simp)
  then have "dword_at mem ?stop = None" by (simp add: dword_at_def)
  moreover obtain m where "n = Suc m" using b by (cases n) auto
  ultimately have none: "read_sizes mem ?stop (claimed_count mem) 8 = None" unfolding n_def [symmetric] by simp
  have "\<not> length mem < unat (3 + count) * 4" using three assms(1) by simp
  then show ?thesis
    unfolding ReadStreamOffsets_accepted [OF assms(1,2)] count_def [symmetric] Let_def none by simp
qed

lemma ReadStreamOffsets_inside:
  assumes "12 \<le> length mem" and "version_accepted mem" and n: "claimed_count mem < 2 ^ 32 - 3"
  shows "\<exists>r. ReadStreamOffsets mem = Some r \<and>
    (\<forall>offsets. r = Return offsets \<longrightarrow> length offsets = claimed_count mem + 1 \<and> sorted offsets \<and> hd offsets = 8 \<and> last offsets \<le> length mem)"
proof -
  let ?n = "claimed_count mem"
  define count :: dword where "count = of_nat ?n"
  have "3 + count = of_nat (3 + ?n)" "count + 1 = of_nat (?n + 1)" by (simp_all add: count_def)
  then have u: "unat (3 + count) = 3 + ?n" "unat (count + 1) = ?n + 1"
    using n by (simp_all only:) (intro unat_of_nat_small; simp)+
  show ?thesis
  proof (cases "length mem < (3 + ?n) * 4")
    case True
    then show ?thesis unfolding ReadStreamOffsets_accepted [OF assms(1,2)] count_def [symmetric] Let_def u by simp
  next
    case False
    then have dir: "(?n + 1) * 4 \<le> length mem" by simp
    have "length mem - (?n + 1) * 4 + 4 * ?n \<le> length mem" using dir by simp
    then obtain offsets where "read_sizes mem (length mem - (?n + 1) * 4) ?n 8 = Some offsets" "length offsets = ?n" "sorted (8 # offsets)"
      using read_sizes_inside by blast
    with False dir show ?thesis
      unfolding ReadStreamOffsets_accepted [OF assms(1,2)] count_def [symmetric] Let_def u
      by (auto simp: algebra_simps)
  qed
qed

lemma ReadStreamOffsets_refused:
  assumes "\<not> (12 \<le> length mem \<and> version_accepted mem)"
  shows "\<exists>e. ReadStreamOffsets mem = Some (Raise e)"
proof (cases "12 \<le> length mem")
  case True
  then obtain creator required where v: "dword_at mem 0 = Some creator" "dword_at mem 4 = Some required"
    by (auto simp: dword_at_def)
  then have "creator < OLDEST_LOG_CACHE_FILE_VERSION \<or> NEWEST_LOG_CACHE_FILE_VERSION < required"
    using assms True by (auto simp: version_accepted_def)
  then show ?thesis
    unfolding ReadStreamOffsets_def v bind.bind_lunit using True by auto
qed (simp add: ReadStreamOffsets_def)

text \<open>C6. Whatever bytes a file consists of, the directory of streams is evaluated without an access
  outside of the file and gives, if it is accepted, ascending offsets inside the file, one more than
  there are streams - except if the file claims at least 2^32 - 3 streams: then the 32-bit sum of the
  size check wraps, the check passes for every file, and the directory is read outside of the file.\<close>

theorem cache_directory_safe:
  assumes "length mem < 2 ^ 33"
  shows "(ReadStreamOffsets mem = None \<longleftrightarrow> 12 \<le> length mem \<and> version_accepted mem \<and> 2 ^ 32 - 3 \<le> claimed_count mem) \<and>
    (\<forall>offsets. ReadStreamOffsets mem = Some (Return offsets) \<longrightarrow>
      length offsets = claimed_count mem + 1 \<and> sorted offsets \<and> hd offsets = 8 \<and> last offsets \<le> length mem)"
proof (cases "12 \<le> length mem \<and> version_accepted mem")
  case True
  show ?thesis
  proof (cases "2 ^ 32 - 3 \<le> claimed_count mem")
    case wraps: True
    then show ?thesis using ReadStreamOffsets_wraps [OF _ _ assms] True by auto
  next
    case False
    then show ?thesis using ReadStreamOffsets_inside [of mem] True by auto
  qed
next
  case False
  then show ?thesis using ReadStreamOffsets_refused [of mem] by auto
qed

theorem cache_directory_safe_witness: "ReadStreamOffsets (versions @ dword_bytes (-1)) = None"
proof -
  let ?mem = "versions @ dword_bytes (-1)"
  have "drop 0 ?mem = dword_bytes OUR_LOG_CACHE_FILE_VERSION @ drop 4 ?mem" by (simp add: versions_def)
  note creator = dword_at_bytes [OF this]
  have "drop 4 ?mem = dword_bytes MIN_LOG_CACHE_FILE_VERSION @ drop 8 ?mem" by (simp add: versions_def)
  note required = dword_at_bytes [OF this]
  have "drop (length ?mem - 4) ?mem = dword_bytes (-1) @ []" by simp
  note claimed = dword_at_bytes [OF this]
  have "version_accepted ?mem"
    unfolding version_accepted_def creator required
    by (simp add: OUR_LOG_CACHE_FILE_VERSION_def OLDEST_LOG_CACHE_FILE_VERSION_def NEWEST_LOG_CACHE_FILE_VERSION_def MIN_LOG_CACHE_FILE_VERSION_def)
  moreover have "claimed_count ?mem = unat (-1 :: dword)"
    using claimed by (simp add: dword_at_def claimed_count_def)
  then have "2 ^ 32 - 3 \<le> claimed_count ?mem" by (simp add: unsigned_minus_1_eq_mask mask_eq_exp_minus_1)
  ultimately show ?thesis using cache_directory_safe [of ?mem] by simp
qed

end
