(* ===== verification/StreamTree.thy ===== *)
theory StreamTree
  imports CacheFile
begin

text \<open>
  The tree of streams of the log cache (\<^verbatim>\<open>HierachicalOutStreamBase.cpp\<close>, \<^verbatim>\<open>BinaryOutStream.h\<close>,
  \<^verbatim>\<open>RootOutStream.cpp\<close>, \<^verbatim>\<open>HierachicalInStreamBase.cpp\<close>, \<^verbatim>\<open>BinaryInStream.h\<close>, \<^verbatim>\<open>RootInStream.cpp\<close>) in the
  file of \<open>CacheFile\<close>. The objects of the writing side are a tree of values; a client holds pointers
  to them, here paths of child positions, which stay valid because children are only appended.
\<close>

section \<open>Types of streams\<close>

definition ROOT_STREAM_TYPE_ID :: dword where "ROOT_STREAM_TYPE_ID = 0"
definition COMPOSITE_STREAM_TYPE_ID :: dword where "COMPOSITE_STREAM_TYPE_ID = 0x10"
definition BLOB_STREAM_TYPE_ID :: dword where "BLOB_STREAM_TYPE_ID = 0x20"
definition BINARY_STREAM_TYPE_ID :: dword where "BINARY_STREAM_TYPE_ID = 0x30"
definition PACKED_DWORD_STREAM_TYPE_ID :: dword where "PACKED_DWORD_STREAM_TYPE_ID = 0x31"
definition PACKED_INTEGER_STREAM_TYPE_ID :: dword where "PACKED_INTEGER_STREAM_TYPE_ID = 0x32"
definition DIFF_INTEGER_STREAM_TYPE_ID :: dword where "DIFF_INTEGER_STREAM_TYPE_ID = 0x33"
definition DIFF_DWORD_STREAM_TYPE_ID :: dword where "DIFF_DWORD_STREAM_TYPE_ID = 0x34"
definition PACKED_TIME64_STREAM_TYPE_ID :: dword where "PACKED_TIME64_STREAM_TYPE_ID = 0x35"

text \<open>The stream types with a factory.\<close>

definition factories :: "dword list" where
  "factories =
     [COMPOSITE_STREAM_TYPE_ID, BLOB_STREAM_TYPE_ID, BINARY_STREAM_TYPE_ID, PACKED_DWORD_STREAM_TYPE_ID,
      PACKED_INTEGER_STREAM_TYPE_ID, DIFF_INTEGER_STREAM_TYPE_ID, DIFF_DWORD_STREAM_TYPE_ID, PACKED_TIME64_STREAM_TYPE_ID]"

definition GetFactory :: "dword \<Rightarrow> (string, dword) result" where
  "GetFactory type = (if List.member factories type then Return type else Raise ''No factory for that stream type'')"

section \<open>Writing\<close>

definition CHUNK_SIZE :: nat where "CHUNK_SIZE = 128 * 1024"

datatype out_stream =
  OutStream (os_id: dword) (os_type: dword) (os_index: stream_index) (os_open: bool) (os_decoded: nat)
    (os_data: "byte list") (os_subs: "out_stream list")

definition new_out_stream :: "dword \<Rightarrow> dword \<Rightarrow> out_stream" where
  "new_out_stream sid type = OutStream sid type (-1) False 0 [] []"

type_synonym 'a streaming = "cache_out \<Rightarrow> (string, 'a \<times> cache_out) result option"

definition and_do :: "(string, 'a \<times> cache_out) result option \<Rightarrow> ('a \<Rightarrow> 'b streaming) \<Rightarrow> (string, 'b \<times> cache_out) result option" where
  "and_do m f = Option.bind m (\<lambda>r. case r of Inl e \<Rightarrow> Some (Raise e) | Inr (a, b) \<Rightarrow> f a b)"

definition add_value :: "dword \<Rightarrow> unit streaming" where
  "add_value v b = map_option (\<lambda>b. Return ((), b)) (co_Add_value v b)"

definition add_bytes :: "byte list \<Rightarrow> unit streaming" where
  "add_bytes bs b = map_option (\<lambda>b. Return ((), b)) (co_Add bs b)"

text \<open>The list of sub-streams, each of which is closed while its index is asked for.\<close>

fun write_entries :: "(out_stream \<Rightarrow> out_stream streaming) \<Rightarrow> out_stream list \<Rightarrow> out_stream list streaming" where
  "write_entries close [] b = Some (Return ([], b))"
| "write_entries close (s # subs) b =
     and_do (close s b) (\<lambda>s b. and_do (add_value (os_index s) b) (\<lambda>_ b. and_do (add_value (os_id s) b) (\<lambda>_ b.
       and_do (add_value (os_type s) b) (\<lambda>_ b. and_do (write_entries close subs b) (\<lambda>subs b. Some (Return (s # subs, b)))))))"

definition WriteSubStreamList :: "(out_stream \<Rightarrow> out_stream streaming) \<Rightarrow> out_stream list \<Rightarrow> out_stream list streaming" where
  "WriteSubStreamList close subs b = and_do (add_value (of_nat (length subs)) b) (\<lambda>_ b. write_entries close subs b)"

definition CloseLatestSubStream :: "(out_stream \<Rightarrow> out_stream streaming) \<Rightarrow> out_stream list \<Rightarrow> out_stream list streaming" where
  "CloseLatestSubStream close subs b =
     (if subs = [] then Some (Return ([], b)) else and_do (close (last subs) b) (\<lambda>s b. Some (Return (butlast subs @ [s], b))))"

fun out_AutoOpen :: "(out_stream \<Rightarrow> out_stream streaming) \<Rightarrow> out_stream \<Rightarrow> out_stream streaming" where
  "out_AutoOpen close (OutStream sid type index isOpen decoded data subs) b =
     (if isOpen then Some (Return (OutStream sid type index isOpen decoded data subs, b))
      else
        and_do (CloseLatestSubStream close subs b) (\<lambda>subs b.
          let (b, index) = OpenStream b in
          and_do (WriteSubStreamList close subs b) (\<lambda>subs b. Some (Return (OutStream sid type index True decoded data subs, b)))))"

text \<open>The contents of the memory that the encoder allocates are a parameter.\<close>

definition WriteThisStream :: "(nat \<Rightarrow> byte) \<Rightarrow> (out_stream \<Rightarrow> out_stream streaming) \<Rightarrow> out_stream \<Rightarrow> out_stream streaming" where
  "WriteThisStream fresh close s b =
     and_do (out_AutoOpen close s b) (\<lambda>s b.
       Option.bind (Encode fresh new_huffman_encoder (os_data s)) (\<lambda>r. case r of
         Inl e \<Rightarrow> Some (Raise e)
       | Inr (packedData, _) \<Rightarrow>
           and_do (add_bytes packedData b) (\<lambda>_ b.
             Some (Return (case s of OutStream sid type index isOpen decoded data subs \<Rightarrow>
               OutStream sid type index isOpen (decoded + length data) data subs, b)))))"

text \<open>
  The virtual \<^verbatim>\<open>FlushData\<close>, with which \<^verbatim>\<open>Close\<close> begins, does nothing for plain binary streams; for the
  packed ones it adds the last run, which counts here as data that the client has added.
\<close>

definition out_Close :: "(nat \<Rightarrow> byte) \<Rightarrow> (out_stream \<Rightarrow> out_stream streaming) \<Rightarrow> out_stream \<Rightarrow> out_stream streaming" where
  "out_Close fresh close s b =
     and_do (WriteThisStream fresh close s b) (\<lambda>s b.
       and_do (add_value (of_nat (os_decoded s)) b) (\<lambda>_ b.
         Some (Return (case s of OutStream sid type index isOpen decoded data subs \<Rightarrow>
           OutStream sid type index False decoded [] subs, CloseStream b))))"

text \<open>\<^verbatim>\<open>AutoClose\<close> calls itself for the sub-streams; the depth of the calls is bounded by the fuel.\<close>

fun auto_close :: "(nat \<Rightarrow> byte) \<Rightarrow> nat \<Rightarrow> out_stream \<Rightarrow> out_stream streaming" where
  "auto_close fresh 0 s b = None"
| "auto_close fresh (Suc fuel) s b =
     (if os_open s \<or> os_index s = -1 then out_Close fresh (auto_close fresh fuel) s b else Some (Return (s, b)))"

definition out_AutoClose :: "(nat \<Rightarrow> byte) \<Rightarrow> out_stream \<Rightarrow> out_stream streaming" where
  "out_AutoClose fresh s = auto_close fresh (size s + 1) s"

definition OpenSubStream :: "(nat \<Rightarrow> byte) \<Rightarrow> dword \<Rightarrow> dword \<Rightarrow> out_stream \<Rightarrow> out_stream streaming" where
  "OpenSubStream fresh subStreamID type s b =
     and_do (CloseLatestSubStream (out_AutoClose fresh) (os_subs s) b) (\<lambda>subs b.
       case GetFactory type of
         Inl e \<Rightarrow> Some (Raise e)
       | Inr type \<Rightarrow>
           Some (Return (case s of OutStream sid ty index isOpen decoded data _ \<Rightarrow>
             OutStream sid ty index isOpen decoded data (subs @ [new_out_stream subStreamID type]), b)))"

definition binary_Flush :: "(nat \<Rightarrow> byte) \<Rightarrow> out_stream \<Rightarrow> out_stream streaming" where
  "binary_Flush fresh s b =
     and_do (WriteThisStream fresh (out_AutoClose fresh) s b) (\<lambda>s b.
       Some (Return (case s of OutStream sid type index isOpen decoded data subs \<Rightarrow>
         OutStream sid type index isOpen decoded [] subs, b)))"

text \<open>
  Bytes go to the buffer of the stream, which is flushed while there is no room for them. A stream that
  has been closed has given its buffer back: there is never room in it, so the loop does not end.
\<close>

partial_function (option) binary_Add ::
  "(nat \<Rightarrow> byte) \<Rightarrow> byte list \<Rightarrow> out_stream \<Rightarrow> cache_out \<Rightarrow> (string, out_stream \<times> cache_out) result option"
where
  "binary_Add fresh bs s b =
     (if \<not> os_open s \<and> os_index s \<noteq> -1 \<and> bs \<noteq> [] then None
      else if length (os_data s) + length bs > CHUNK_SIZE
      then Option.bind (binary_Flush fresh s b) (\<lambda>r. case r of Inl e \<Rightarrow> Some (Raise e) | Inr (s, b) \<Rightarrow> binary_Add fresh bs s b)
      else Some (Return (case s of OutStream sid type index isOpen decoded data subs \<Rightarrow>
        OutStream sid type index isOpen decoded (data @ bs) subs, b)))"

declare binary_Add.simps [code]

text \<open>A single byte is added if the buffer is full or not, so also to a stream that has been closed: at the
  null pointer, which is \<open>None\<close>.\<close>

definition binary_Add_byte :: "(nat \<Rightarrow> byte) \<Rightarrow> byte \<Rightarrow> out_stream \<Rightarrow> out_stream streaming" where
  "binary_Add_byte fresh c s b =
     (if \<not> os_open s \<and> os_index s \<noteq> -1 then None
      else
        and_do (if length (os_data s) = CHUNK_SIZE then binary_Flush fresh s b else Some (Return (s, b))) (\<lambda>s b.
          Some (Return (case s of OutStream sid type index isOpen decoded data subs \<Rightarrow>
            OutStream sid type index isOpen decoded (data @ [c]) subs, b))))"

text \<open>The stream at a path.\<close>

fun at_path :: "nat list \<Rightarrow> (out_stream \<Rightarrow> out_stream streaming) \<Rightarrow> out_stream \<Rightarrow> out_stream streaming" where
  "at_path [] f s b = f s b"
| "at_path (i # path) f (OutStream sid type index isOpen decoded data subs) b =
     (if i < length subs
      then and_do (at_path path f (subs ! i) b) (\<lambda>s b. Some (Return (OutStream sid type index isOpen decoded data (subs[i := s]), b)))
      else None)"

datatype client_call = OpenSub "nat list" dword dword | AddData "nat list" "byte list"

fun do_call :: "(nat \<Rightarrow> byte) \<Rightarrow> client_call \<Rightarrow> out_stream \<Rightarrow> out_stream streaming" where
  "do_call fresh (OpenSub path sid type) = at_path path (OpenSubStream fresh sid type)"
| "do_call fresh (AddData path bs) = at_path path (binary_Add fresh bs)"

fun do_calls :: "(nat \<Rightarrow> byte) \<Rightarrow> client_call list \<Rightarrow> out_stream \<Rightarrow> out_stream streaming" where
  "do_calls fresh [] s b = Some (Return (s, b))"
| "do_calls fresh (c # cs) s b = and_do (do_call fresh c s b) (do_calls fresh cs)"

definition ROOT_STREAM_ID :: dword where "ROOT_STREAM_ID = 0"

text \<open>
  Constructing the root stream, the calls of a client and the destructors. The result is the file,
  or \<open>None\<close> inside if it has been removed.
\<close>

definition write_cache_file :: "(nat \<Rightarrow> byte) \<Rightarrow> client_call list \<Rightarrow> (string, byte list option) result option" where
  "write_cache_file fresh calls =
     Option.bind new_cache_out (\<lambda>b.
       Option.bind (and_do (do_calls fresh calls (new_out_stream ROOT_STREAM_ID ROOT_STREAM_TYPE_ID) b) (out_AutoClose fresh)) (\<lambda>r.
         case r of Inl e \<Rightarrow> Some (Raise e) | Inr (_, b) \<Rightarrow> map_option Return (close_cache_out b)))"

section \<open>Reading\<close>

text \<open>A stream that has been read: its type, the range of its packed contents in the file and its sub-streams.\<close>

datatype in_stream = InStream (is_type: dword) (is_first: nat) (is_last: nat) (is_subs: "(dword \<times> in_stream) list")

text \<open>\<^verbatim>\<open>std::map::emplace\<close>: an entry that is there already stays.\<close>

definition emplace_stream :: "dword \<Rightarrow> in_stream \<Rightarrow> (dword \<times> in_stream) list \<Rightarrow> (dword \<times> in_stream) list" where
  "emplace_stream sid s subs = (if List.member (map fst subs) sid then subs else subs @ [(sid, s)])"

text \<open>
  \<^verbatim>\<open>ReadSubStreams\<close> for the entries from \<open>source\<close> on, added to the sub-streams read so far. Each of them
  is constructed, and its own sub-streams read, before the next.
\<close>

definition stream_header :: "cache_in \<Rightarrow> stream_index \<Rightarrow> (string, nat \<times> nat \<times> dword) result option" where
  "stream_header buffer index =
     (case GetStreamBuffer index buffer of
        Inl e \<Rightarrow> Some (Raise e)
      | Inr (first, behind) \<Rightarrow>
          if 4 > behind - first then Some (Raise ''stream too short'')
          else
            Option.bind (dword_at (ci_bytes buffer) first) (\<lambda>subStreamCount.
              if unat (subStreamCount + 1) * 4 > behind - first then Some (Raise ''stream too short for sub-stream list'')
              else Some (Return (first, behind, subStreamCount))))"

partial_function (option) read_entries ::
  "cache_in \<Rightarrow> nat \<Rightarrow> nat \<Rightarrow> (dword \<times> in_stream) list \<Rightarrow> (string, (dword \<times> in_stream) list) result option"
where
  "read_entries buffer source n subs =
     (if n = 0 then Some (Return subs)
      else
        Option.bind (dword_at (ci_bytes buffer) source) (\<lambda>index.
        Option.bind (dword_at (ci_bytes buffer) (source + 4)) (\<lambda>sid.
        Option.bind (dword_at (ci_bytes buffer) (source + 8)) (\<lambda>type.
          case GetFactory type of
            Inl e \<Rightarrow> Some (Raise e)
          | Inr type \<Rightarrow>
              Option.bind (stream_header buffer index) (\<lambda>r. case r of
                Inl e \<Rightarrow> Some (Raise e)
              | Inr (first, behind, subCount) \<Rightarrow>
                  Option.bind (read_entries buffer (first + 4) (unat subCount) []) (\<lambda>r. case r of
                    Inl e \<Rightarrow> Some (Raise e)
                  | Inr inner \<Rightarrow>
                      read_entries buffer (source + 12) (n - 1)
                        (emplace_stream sid (InStream type (first + unat (subCount + 1) * 4) behind inner) subs)))))))"

declare read_entries.simps [code]

definition ReadSubStreams :: "cache_in \<Rightarrow> stream_index \<Rightarrow> dword \<Rightarrow> (string, in_stream) result option" where
  "ReadSubStreams buffer index type =
     Option.bind (stream_header buffer index) (\<lambda>r. case r of
       Inl e \<Rightarrow> Some (Raise e)
     | Inr (first, behind, subCount) \<Rightarrow>
         map_option (map_sum id (InStream type (first + unat (subCount + 1) * 4) behind))
           (read_entries buffer (first + 4) (unat subCount) []))"

text \<open>The chunks of a stream are decoded until the target buffer is full.\<close>

partial_function (option) decode_loop ::
  "huffman_decoder \<Rightarrow> input_buffer \<Rightarrow> output_buffer \<Rightarrow> (string, byte list) result option"
where
  "decode_loop decoder source target =
     (if ob_remaining target > 0
      then Option.bind (Decode decoder source target) (\<lambda>r. case r of
        Inl e \<Rightarrow> Some (Raise e)
      | Inr (decoder, source, target) \<Rightarrow> decode_loop decoder source target)
      else Some (Return (ob_written target)))"

declare decode_loop.simps [code]

definition DecodeThisStream :: "cache_in \<Rightarrow> in_stream \<Rightarrow> (string, byte list) result option" where
  "DecodeThisStream buffer s =
     Option.bind (dword_at (ci_bytes buffer) (is_last s - 4)) (\<lambda>decodedSize.
       decode_loop new_huffman_decoder
         \<lparr>ib_data = slice (ci_bytes buffer) (is_first s) (is_last s), ib_behind = drop (is_last s) (ci_bytes buffer)\<rparr>
         \<lparr>ob_written = [], ob_remaining = unat decodedSize\<rparr>)"

definition open_root :: "byte list \<Rightarrow> (string, cache_in \<times> in_stream) result option" where
  "open_root mem =
     Option.bind (new_cache_in mem) (\<lambda>r. case r of
       Inl e \<Rightarrow> Some (Raise e)
     | Inr buffer \<Rightarrow>
         Option.bind (ReadSubStreams buffer (GetLastStream buffer) ROOT_STREAM_TYPE_ID) (\<lambda>r. case r of
           Inl e \<Rightarrow> Some (Raise e)
         | Inr root \<Rightarrow> map_option (map_sum id (\<lambda>_. (buffer, root))) (DecodeThisStream buffer root)))"

definition GetSubStream :: "cache_in \<Rightarrow> dword \<Rightarrow> bool \<Rightarrow> in_stream \<Rightarrow> (string, in_stream) result option" where
  "GetSubStream buffer sid autoOpen s =
     (case map_of (is_subs s) sid of
        None \<Rightarrow> Some (Raise ''no such sub-stream'')
      | Some sub \<Rightarrow>
          if autoOpen then map_option (map_sum id (\<lambda>_. sub)) (DecodeThisStream buffer sub) else Some (Return sub))"

text \<open>Following identifiers from a stream, with each stream opened, and the contents of the last.\<close>

fun read_path :: "cache_in \<Rightarrow> in_stream \<Rightarrow> dword list \<Rightarrow> (string, byte list) result option" where
  "read_path buffer s [] = DecodeThisStream buffer s"
| "read_path buffer s (sid # ids) =
     Option.bind (GetSubStream buffer sid True s) (\<lambda>r. case r of Inl e \<Rightarrow> Some (Raise e) | Inr sub \<Rightarrow> read_path buffer sub ids)"

end
