(* ===== verification/StreamWriting.thy ===== *)
theory StreamWriting
  imports StreamTree
begin

text \<open>
  What the writing side of the tree of streams leaves in the cache file, as long as its clients work
  on the latest stream only: streams off the path to it are closed and complete in the file, the
  streams on the path have not been written at all, except for the full chunks of the last one.
\<close>

section \<open>Contents\<close>

datatype stream_content =
  Content (content_id: dword) (content_type: dword) (content_bytes: "byte list") (content_subs: "stream_content list")

fun modify_at :: "nat list \<Rightarrow> (stream_content \<Rightarrow> stream_content) \<Rightarrow> stream_content \<Rightarrow> stream_content" where
  "modify_at [] g t = g t"
| "modify_at (i # path) g (Content sid type bs ts) = Content sid type bs (ts[i := modify_at path g (ts ! i)])"

fun append_sub :: "dword \<Rightarrow> dword \<Rightarrow> stream_content \<Rightarrow> stream_content" where
  "append_sub sid type (Content sid' type' bs ts) = Content sid' type' bs (ts @ [Content sid type [] []])"

fun append_bytes :: "byte list \<Rightarrow> stream_content \<Rightarrow> stream_content" where
  "append_bytes bs' (Content sid type bs ts) = Content sid type (bs @ bs') ts"

fun spec_call :: "client_call \<Rightarrow> stream_content \<Rightarrow> stream_content" where
  "spec_call (OpenSub path sid type) = modify_at path (append_sub sid type)"
| "spec_call (AddData path bs) = modify_at path (append_bytes bs)"

definition spec_calls :: "client_call list \<Rightarrow> stream_content \<Rightarrow> stream_content" where
  "spec_calls calls t = foldl (\<lambda>t c. spec_call c t) t calls"

definition empty_root :: stream_content where
  "empty_root = Content ROOT_STREAM_ID ROOT_STREAM_TYPE_ID [] []"

text \<open>
  Legal calls: they go to the latest stream or to one of its parents; data are added to streams
  without sub-streams and sub-streams to streams without data, under a new identifier.
\<close>

fun latest_at :: "nat list \<Rightarrow> (stream_content \<Rightarrow> bool) \<Rightarrow> stream_content \<Rightarrow> bool" where
  "latest_at [] P t = P t"
| "latest_at (i # path) P (Content sid type bs ts) = (ts \<noteq> [] \<and> i = length ts - 1 \<and> latest_at path P (last ts))"

definition can_open :: "dword \<Rightarrow> dword \<Rightarrow> stream_content \<Rightarrow> bool" where
  "can_open sid type t \<longleftrightarrow>
     content_bytes t = [] \<and> sid \<notin> content_id ` set (content_subs t) \<and> type \<in> set factories \<and> 12 * (length (content_subs t) + 1) + 33 < 2 ^ 32"

definition can_add :: "byte list \<Rightarrow> stream_content \<Rightarrow> bool" where
  "can_add bs t \<longleftrightarrow>
     content_subs t = [] \<and> content_type t \<notin> {COMPOSITE_STREAM_TYPE_ID, BLOB_STREAM_TYPE_ID} \<and>
     length bs \<le> CHUNK_SIZE \<and> 10 * (length (content_bytes t) + length bs) + 33 < 2 ^ 32"

fun legal_call :: "client_call \<Rightarrow> stream_content \<Rightarrow> bool" where
  "legal_call (OpenSub path sid type) t = latest_at path (can_open sid type) t"
| "legal_call (AddData path bs) t = (path \<noteq> [] \<and> latest_at path (can_add bs) t)"

fun legal_calls :: "client_call list \<Rightarrow> stream_content \<Rightarrow> bool" where
  "legal_calls [] t = True"
| "legal_calls (c # cs) t = (legal_call c t \<and> legal_calls cs (spec_call c t))"

section \<open>Streams in the file\<close>

definition packed :: "byte list \<Rightarrow> byte list \<Rightarrow> bool" where
  "packed body bs \<longleftrightarrow>
     (\<exists>ps cs. list_all2 packs ps cs \<and> [] \<notin> set cs \<and> body = concat ps \<and> bs = concat cs) \<and> length body \<le> 10 * length bs"

lemma packed_Nil: "packed [] []"
  unfolding packed_def by (rule conjI, rule exI [of _ "[]"], rule exI [of _ "[]"]) simp_all

lemma packed_append:
  assumes "packed body bs" and "packs p c" and "c \<noteq> []" and "length p \<le> length c + 9"
  shows "packed (body @ p) (bs @ c)"
proof -
  obtain ps cs where ps: "list_all2 packs ps cs" "[] \<notin> set cs" "body = concat ps" "bs = concat cs"
    using assms(1) unfolding packed_def by blast
  have "list_all2 packs (ps @ [p]) (cs @ [c])" using ps(1) assms(2) by (intro list_all2_appendI) simp_all
  moreover have "length (body @ p) \<le> 10 * length (bs @ c)"
    using assms(1,4) assms(3) by (cases c) (auto simp: packed_def)
  ultimately show ?thesis
    unfolding packed_def using ps(2-4) assms(3) by (intro conjI exI [of _ "ps @ [p]"] exI [of _ "cs @ [c]"]) auto
qed

definition entry_bytes :: "out_stream \<Rightarrow> byte list" where
  "entry_bytes s = dword_bytes (os_index s) @ dword_bytes (os_id s) @ dword_bytes (os_type s)"

definition list_bytes :: "out_stream list \<Rightarrow> byte list" where
  "list_bytes subs = dword_bytes (of_nat (length subs)) @ concat (map entry_bytes subs)"

definition stream_bytes :: "out_stream list \<Rightarrow> byte list \<Rightarrow> byte list \<Rightarrow> bool" where
  "stream_bytes subs bs seg \<longleftrightarrow>
     (\<exists>body junk. packed body bs \<and> length junk \<le> 9 \<and> seg = list_bytes subs @ body @ junk @ dword_bytes (of_nat (length bs)))"

lemma length_entries: "length (concat (map entry_bytes subs)) = 12 * length subs"
  by (induction subs) (simp_all add: entry_bytes_def)

lemma length_stream_bytes: "stream_bytes subs bs seg \<Longrightarrow> length seg \<le> 10 * length bs + 12 * length subs + 17"
  by (auto simp: stream_bytes_def list_bytes_def packed_def length_entries)

text \<open>A closed stream: it and all streams below it are complete in the file.\<close>

inductive closed_ok :: "byte list list \<Rightarrow> out_stream \<Rightarrow> stream_content \<Rightarrow> bool" for segs where
  "list_all2 (\<lambda>s t. closed_ok segs s t \<and> os_index s < index) subs ts \<Longrightarrow> unat index < length segs \<Longrightarrow>
   stream_bytes subs bs (segs ! unat index) \<Longrightarrow>
   closed_ok segs (OutStream sid type index False decoded [] subs) (Content sid type bs ts)"
monos list_all2_mono

inductive_cases closed_okE: "closed_ok segs s t"

lemma closed_ok_mono: "closed_ok segs s t \<Longrightarrow> closed_ok (segs @ more_segs) s t"
proof (induction rule: closed_ok.induct)
  case (1 index subs ts bs sid type decoded)
  show ?case
  proof (rule closed_ok.intros)
    show "list_all2 (\<lambda>s t. closed_ok (segs @ more_segs) s t \<and> os_index s < index) subs ts"
      by (rule list_all2_mono [OF 1(1)]) blast
  qed (use 1(2,3) in \<open>simp_all add: nth_append\<close>)
qed

lemma closed_ok_shape: "closed_ok segs s t \<Longrightarrow> \<not> os_open s \<and> unat (os_index s) < length segs \<and> os_id s = content_id t \<and> os_type s = content_type t"
  by (erule closed_okE) simp

text \<open>The streams on the path to the latest one, their number, and the bytes that the latest one has in the
  file if it is open.\<close>

inductive live :: "byte list list \<Rightarrow> byte list option \<Rightarrow> nat \<Rightarrow> out_stream \<Rightarrow> stream_content \<Rightarrow> bool" for segs where
  live_new: "length data \<le> CHUNK_SIZE \<Longrightarrow> live segs None 1 (OutStream sid type (-1) False 0 data []) (Content sid type data [])"
| live_flushed: "packed body bs \<Longrightarrow> bs \<noteq> [] \<Longrightarrow> length data \<le> CHUNK_SIZE \<Longrightarrow>
    live segs (Some (list_bytes [] @ body)) 1 (OutStream sid type (of_nat (length segs)) True (length bs) data []) (Content sid type (bs @ data) [])"
| live_inner: "list_all2 (closed_ok segs) subs ts \<Longrightarrow> live segs opened n s t \<Longrightarrow>
    live segs opened (Suc n) (OutStream sid type (-1) False 0 [] (subs @ [s])) (Content sid type [] (ts @ [t]))"

definition all_segs :: "byte list list \<Rightarrow> byte list option \<Rightarrow> byte list list" where
  "all_segs segs opened = segs @ (case opened of None \<Rightarrow> [] | Some seg \<Rightarrow> [seg])"

lemma all_segs_simps [simp]: "all_segs segs None = segs" "all_segs segs (Some seg) = segs @ [seg]"
  by (simp_all add: all_segs_def)

section \<open>Closing\<close>

lemma and_do_simps [simp]:
  "and_do (Some (Inr (a, b))) f = f a b"
  "and_do (Some (Inl e)) f = Some (Inl e)"
  by (simp_all add: and_do_def)

lemma add_value_ok:
  "cache_out_ok b (segs @ [seg]) \<Longrightarrow> \<exists>b'. add_value v b = Some (Return ((), b')) \<and> cache_out_ok b' (segs @ [seg @ dword_bytes v])"
  using co_Add_value_ok [of b segs seg v] by (auto simp: add_value_def)

lemma add_bytes_ok:
  "cache_out_ok b (segs @ [seg]) \<Longrightarrow> length bs + BUFFER_SIZE < 2 ^ 32 \<Longrightarrow>
   \<exists>b'. add_bytes bs b = Some (Return ((), b')) \<and> cache_out_ok b' (segs @ [seg @ bs])"
  using co_Add_ok [of b segs seg bs] by (auto simp: add_bytes_def)

lemma Encode_chunk:
  assumes "length data \<le> CHUNK_SIZE"
  shows "\<exists>p enc. Encode fresh new_huffman_encoder data = Some (Return (p, enc)) \<and> length p \<le> length data + 9 \<and> (data \<noteq> [] \<longrightarrow> packs p data)"
proof (cases "data = []")
  case True
  obtain enc where "Encode fresh new_huffman_encoder [] = Some (Return ([0, 0, 0, 0, 9, 0, 0, 0, 0], enc))"
    using huffman_empty by blast
  with True show ?thesis by auto
next
  case False
  have "12 * length data < 2 ^ 32" using assms by (simp add: CHUNK_SIZE_def)
  from Encode_packs [OF new_coders_ok(1,2) False this, of fresh] show ?thesis by blast
qed

text \<open>Closed sub-streams are left alone by another closing.\<close>

lemma auto_close_closed: "closed_ok segs s t \<Longrightarrow> length segs < 2 ^ 31 \<Longrightarrow> auto_close fresh (Suc fuel) s b = Some (Return (s, b))"
proof -
  assume "closed_ok segs s t" and "length segs < 2 ^ 31"
  then have "\<not> os_open s" "unat (os_index s) < 2 ^ 31" using closed_ok_shape [of segs s t] by auto
  moreover from this have "os_index s \<noteq> -1" by (auto simp: unsigned_minus_1_eq_mask mask_eq_exp_minus_1)
  ultimately show ?thesis by simp
qed

lemma write_entries_ok:
  "\<forall>s \<in> set subs. \<forall>b. close s b = Some (Return (s, b)) \<Longrightarrow> cache_out_ok b (segs @ [seg]) \<Longrightarrow>
   \<exists>b'. write_entries close subs b = Some (Return (subs, b')) \<and> cache_out_ok b' (segs @ [seg @ concat (map entry_bytes subs)])"
proof (induction subs arbitrary: b seg)
  case (Cons s subs)
  obtain b1 where b1: "add_value (os_index s) b = Some (Return ((), b1))" "cache_out_ok b1 (segs @ [seg @ dword_bytes (os_index s)])"
    using add_value_ok [OF Cons.prems(2)] by blast
  obtain b2 where b2: "add_value (os_id s) b1 = Some (Return ((), b2))"
    "cache_out_ok b2 (segs @ [(seg @ dword_bytes (os_index s)) @ dword_bytes (os_id s)])"
    using add_value_ok [OF b1(2)] by blast
  obtain b3 where b3: "add_value (os_type s) b2 = Some (Return ((), b3))"
    "cache_out_ok b3 (segs @ [((seg @ dword_bytes (os_index s)) @ dword_bytes (os_id s)) @ dword_bytes (os_type s)])"
    using add_value_ok [OF b2(2)] by blast
  obtain b4 where b4: "write_entries close subs b3 = Some (Return (subs, b4))"
    "cache_out_ok b4 (segs @ [(((seg @ dword_bytes (os_index s)) @ dword_bytes (os_id s)) @ dword_bytes (os_type s)) @ concat (map entry_bytes subs)])"
    using Cons.IH [OF _ b3(2)] Cons.prems(1) by auto
  with b1(1) b2(1) b3(1) Cons.prems(1) show ?case by (simp add: entry_bytes_def [of s])
qed simp

lemma WriteSubStreamList_ok:
  assumes "\<forall>s \<in> set subs. \<forall>b. close s b = Some (Return (s, b))" and "cache_out_ok b (segs @ [[]])"
  shows "\<exists>b'. WriteSubStreamList close subs b = Some (Return (subs, b')) \<and> cache_out_ok b' (segs @ [list_bytes subs])"
proof -
  obtain b1 where b1: "add_value (of_nat (length subs)) b = Some (Return ((), b1))" "cache_out_ok b1 (segs @ [dword_bytes (of_nat (length subs))])"
    using add_value_ok [OF assms(2)] by auto
  with write_entries_ok [OF assms(1) b1(2)] show ?thesis by (auto simp: WriteSubStreamList_def list_bytes_def)
qed

lemma WriteThisStream_ok:
  assumes "out_AutoOpen close s b = Some (Return (OutStream sid type index isOpen decoded data subs, b1))"
    and "cache_out_ok b1 (segs @ [seg])" and data: "length data \<le> CHUNK_SIZE"
  shows "\<exists>p b2. WriteThisStream fresh close s b = Some (Return (OutStream sid type index isOpen (decoded + length data) data subs, b2)) \<and>
    cache_out_ok b2 (segs @ [seg @ p]) \<and> length p \<le> length data + 9 \<and> (data \<noteq> [] \<longrightarrow> packs p data)"
proof -
  obtain p enc where p: "Encode fresh new_huffman_encoder data = Some (Return (p, enc))" "length p \<le> length data + 9" "data \<noteq> [] \<longrightarrow> packs p data"
    using Encode_chunk [OF data] by blast
  have "length p + BUFFER_SIZE < 2 ^ 32" using p(2) data by (simp add: CHUNK_SIZE_def BUFFER_SIZE_def)
  then obtain b2 where "add_bytes p b1 = Some (Return ((), b2))" "cache_out_ok b2 (segs @ [seg @ p])"
    using add_bytes_ok [OF assms(2)] by blast
  with p assms(1) show ?thesis by (auto simp: WriteThisStream_def)
qed

text \<open>Closing an open stream, or one that has just been opened.\<close>

lemma out_Close_ok:
  assumes opened: "out_AutoOpen close s b = Some (Return (OutStream sid type index True (length bs) data subs, b1))"
    and b1: "cache_out_ok b1 (segs @ [list_bytes subs @ body])" and data: "length data \<le> CHUNK_SIZE" and body: "packed body bs"
  shows "\<exists>b2 seg. out_Close fresh close s b = Some (Return (OutStream sid type index False (length (bs @ data)) [] subs, b2)) \<and>
    cache_out_ok b2 (segs @ [seg]) \<and> stream_bytes subs (bs @ data) seg"
proof -
  obtain p b2 where w: "WriteThisStream fresh close s b = Some (Return (OutStream sid type index True (length bs + length data) data subs, b2))"
    "cache_out_ok b2 (segs @ [(list_bytes subs @ body) @ p])" "length p \<le> length data + 9" "data \<noteq> [] \<longrightarrow> packs p data"
    using WriteThisStream_ok [OF opened b1 data] by blast
  obtain b3 where b3: "add_value (of_nat (length bs + length data)) b2 = Some (Return ((), b3))"
    "cache_out_ok b3 (segs @ [((list_bytes subs @ body) @ p) @ dword_bytes (of_nat (length bs + length data))])"
    using add_value_ok [OF w(2)] by blast
  let ?seg = "((list_bytes subs @ body) @ p) @ dword_bytes (of_nat (length bs + length data))"
  have "stream_bytes subs (bs @ data) ?seg"
  proof (cases "data = []")
    case True
    with w(3) body show ?thesis unfolding stream_bytes_def by (intro exI [of _ body] exI [of _ p]) simp
  next
    case False
    with w(3,4) body show ?thesis
      unfolding stream_bytes_def by (intro exI [of _ "body @ p"] exI [of _ "[]"]) (simp add: packed_append)
  qed
  moreover have "out_Close fresh close s b = Some (Return (OutStream sid type index False (length (bs @ data)) [] subs, CloseStream b3))"
    using w(1) b3(1) by (simp add: out_Close_def)
  ultimately show ?thesis using CloseStream_ok [OF b3(2)] by blast
qed

fun small :: "stream_content \<Rightarrow> bool" where
  "small (Content sid type bs ts) \<longleftrightarrow> 10 * length bs + 12 * length ts + 33 < 2 ^ 32 \<and> (\<forall>t \<in> set ts. small t)"

lemma live_shape: "live segs opened n s t \<Longrightarrow> 0 < n \<and> os_id s = content_id t \<and> os_type s = content_type t"
  by (induction rule: live.induct) simp_all

lemma size_last_sub: "size s < size (OutStream sid type index isOpen decoded data (subs @ [s]))"
  by (simp add: size_list_append)

lemma closed_streams:
  assumes subs: "list_all2 (closed_ok segs) subs ts" and n: "length segs < 2 ^ 31" and seg: "stream_bytes subs bs seg"
  shows "closed_ok (segs @ [seg]) (OutStream sid type (of_nat (length segs)) False decoded [] subs) (Content sid type bs ts)"
proof (rule closed_ok.intros)
  have index: "unat (of_nat (length segs) :: dword) = length segs" using n by (simp add: unat_of_nat)
  show "list_all2 (\<lambda>s t. closed_ok (segs @ [seg]) s t \<and> os_index s < of_nat (length segs)) subs ts"
  proof (rule list_all2_mono [OF subs])
    fix s t assume "closed_ok segs s t"
    then show "closed_ok (segs @ [seg]) s t \<and> os_index s < of_nat (length segs)"
      using closed_ok_mono closed_ok_shape by (auto simp: word_less_nat_alt index)
  qed
  show "unat (of_nat (length segs) :: dword) < length (segs @ [seg])" by (simp add: index)
  show "stream_bytes subs bs ((segs @ [seg]) ! unat (of_nat (length segs) :: dword))" using seg by (simp add: index)
qed

lemma auto_close_ok:
  "live segs opened n s t \<Longrightarrow> cache_out_ok b (all_segs segs opened) \<Longrightarrow> size s < fuel \<Longrightarrow> length segs + n < 2 ^ 31 \<Longrightarrow> small t \<Longrightarrow>
   \<exists>s' b' new. auto_close fresh fuel s b = Some (Return (s', b')) \<and> cache_out_ok b' (segs @ new) \<and> closed_ok (segs @ new) s' t \<and>
     length new = n \<and> os_index s' = of_nat (length (segs @ new) - 1) \<and> (\<forall>seg \<in> set new. length seg < 2 ^ 32 - 1)"
proof (induction arbitrary: b fuel rule: live.induct)
  case (live_new data sid type)
  let ?s = "OutStream sid type (-1) False 0 data []"
  obtain k where fuel: "fuel = Suc k" using live_new.prems(2) by (cases fuel) auto
  obtain b1 where b1: "OpenStream b = (b1, of_nat (length segs))" "cache_out_ok b1 (segs @ [[]])"
    using OpenStream_ok live_new.prems(1) by fastforce
  obtain b2 where b2: "WriteSubStreamList (auto_close fresh k) [] b1 = Some (Return ([], b2))" "cache_out_ok b2 (segs @ [list_bytes [] @ []])"
    using WriteSubStreamList_ok [OF _ b1(2), of "[]" "auto_close fresh k"] by auto
  have "out_AutoOpen (auto_close fresh k) ?s b = Some (Return (OutStream sid type (of_nat (length segs)) True (length []) data [], b2))"
    using b1(1) b2(1) by (simp add: CloseLatestSubStream_def)
  from out_Close_ok [OF this b2(2) live_new.hyps packed_Nil, of fresh] obtain b3 seg where
    close: "out_Close fresh (auto_close fresh k) ?s b = Some (Return (OutStream sid type (of_nat (length segs)) False (length data) [] [], b3))"
    "cache_out_ok b3 (segs @ [seg])" "stream_bytes [] data seg" by auto
  have "closed_ok (segs @ [seg]) (OutStream sid type (of_nat (length segs)) False (length data) [] []) (Content sid type data [])"
    using live_new.prems(3) close(3) by (intro closed_streams) simp_all
  moreover have "length seg < 2 ^ 32 - 1" using length_stream_bytes [OF close(3)] live_new.prems(4) by simp
  ultimately show ?case using close(1,2) 
    by (intro exI [of _ "OutStream sid type (of_nat (length segs)) False (length data) [] []"] exI [of _ b3] exI [of _ "[seg]"]) (simp add: fuel)
next
  case (live_flushed body bs data sid type)
  let ?s = "OutStream sid type (of_nat (length segs)) True (length bs) data []"
  obtain k where fuel: "fuel = Suc k" using live_flushed.prems(2) by (cases fuel) auto
  have "out_AutoOpen (auto_close fresh k) ?s b = Some (Return (?s, b))" by simp
  from out_Close_ok [OF this _ live_flushed.hyps(3,1), of segs fresh] live_flushed.prems(1) obtain b3 seg where
    close: "out_Close fresh (auto_close fresh k) ?s b = Some (Return (OutStream sid type (of_nat (length segs)) False (length (bs @ data)) [] [], b3))"
    "cache_out_ok b3 (segs @ [seg])" "stream_bytes [] (bs @ data) seg" by auto
  have "closed_ok (segs @ [seg]) (OutStream sid type (of_nat (length segs)) False (length (bs @ data)) [] []) (Content sid type (bs @ data) [])"
    using live_flushed.prems(3) close(3) by (intro closed_streams) simp_all
  moreover have "length seg < 2 ^ 32 - 1" using length_stream_bytes [OF close(3)] live_flushed.prems(4) by simp
  ultimately show ?case using close(1,2) 
    by (intro exI [of _ "OutStream sid type (of_nat (length segs)) False (length (bs @ data)) [] []"] exI [of _ b3] exI [of _ "[seg]"]) (simp add: fuel)
next
  case (live_inner subs ts opened n s t sid type)
  let ?s = "OutStream sid type (-1) False 0 [] (subs @ [s])"
  obtain k where fuel: "fuel = Suc k" using live_inner.prems(2) by (cases fuel) auto
  have k: "size s < k" using live_inner.prems(2) size_last_sub [of s sid type "-1" False 0 "[]" subs] fuel by linarith
  obtain s' b1 new where sub: "auto_close fresh k s b = Some (Return (s', b1))" "cache_out_ok b1 (segs @ new)" "closed_ok (segs @ new) s' t"
    "length new = n" "\<forall>seg \<in> set new. length seg < 2 ^ 32 - 1"
    using live_inner.IH [of b k] live_inner.prems k by auto
  let ?segs = "segs @ new" and ?subs = "subs @ [s']"
  have n: "length ?segs < 2 ^ 31" using live_inner.prems(3) sub(4) by simp
  have closed: "list_all2 (closed_ok ?segs) ?subs (ts @ [t])"
    using list_all2_mono [OF live_inner.hyps(1) closed_ok_mono] sub(3) by (intro list_all2_appendI) simp_all
  have noop: "\<forall>x \<in> set ?subs. \<forall>b. auto_close fresh k x b = Some (Return (x, b))"
  proof (intro ballI allI)
    fix x b assume "x \<in> set ?subs"
    then obtain y where "closed_ok ?segs x y" using closed by (metis in_set_conv_nth list_all2_conv_all_nth)
    then show "auto_close fresh k x b = Some (Return (x, b))" using auto_close_closed [of ?segs x y] n k by (cases k) auto
  qed
  obtain b2 where b2: "OpenStream b1 = (b2, of_nat (length ?segs))" "cache_out_ok b2 (?segs @ [[]])"
    using OpenStream_ok [OF sub(2)] by auto
  obtain b3 where b3: "WriteSubStreamList (auto_close fresh k) ?subs b2 = Some (Return (?subs, b3))" "cache_out_ok b3 (?segs @ [list_bytes ?subs @ []])"
    using WriteSubStreamList_ok [OF noop b2(2)] by auto
  have "out_AutoOpen (auto_close fresh k) ?s b = Some (Return (OutStream sid type (of_nat (length ?segs)) True (length []) [] ?subs, b3))"
    using sub(1) b2(1) b3(1) by (simp add: CloseLatestSubStream_def)
  from out_Close_ok [OF this b3(2) _ packed_Nil, of fresh] obtain b4 seg where
    close: "out_Close fresh (auto_close fresh k) ?s b = Some (Return (OutStream sid type (of_nat (length ?segs)) False 0 [] ?subs, b4))"
    "cache_out_ok b4 (?segs @ [seg])" "stream_bytes ?subs [] seg" by auto
  have "closed_ok (?segs @ [seg]) (OutStream sid type (of_nat (length ?segs)) False 0 [] ?subs) (Content sid type [] (ts @ [t]))"
    using closed n close(3) by (intro closed_streams)
  moreover have "length seg < 2 ^ 32 - 1"
    using length_stream_bytes [OF close(3)] live_inner.prems(4) list_all2_lengthD [OF live_inner.hyps(1)] by simp
  ultimately show ?case using close(1,2) sub(4,5) 
    by (intro exI [of _ "OutStream sid type (of_nat (length ?segs)) False 0 [] ?subs"] exI [of _ b4] exI [of _ "new @ [seg]"]) (simp add: fuel)
qed

section \<open>The calls of a client\<close>

text \<open>What a call does to a stream on the path, and with it to all streams above.\<close>

definition live_step :: "(out_stream \<Rightarrow> out_stream streaming) \<Rightarrow> (stream_content \<Rightarrow> stream_content) \<Rightarrow> stream_content \<Rightarrow> bool" where
  "live_step f g t \<longleftrightarrow>
     (\<forall>segs opened n s b. live segs opened n s t \<longrightarrow> cache_out_ok b (all_segs segs opened) \<longrightarrow> length segs + n < 2 ^ 31 \<longrightarrow> small t \<longrightarrow>
        (\<exists>s' b' new opened' n'. f s b = Some (Return (s', b')) \<and> live (segs @ new) opened' n' s' (g t) \<and>
           cache_out_ok b' (all_segs (segs @ new) opened') \<and> length new + n' \<le> n + 1 \<and> (\<forall>seg \<in> set new. length seg < 2 ^ 32 - 1)))"

lemma live_stepD:
  assumes "live_step f g t" and "live segs opened n s t" and "cache_out_ok b (all_segs segs opened)" and "length segs + n < 2 ^ 31" and "small t"
  obtains s' b' new opened' n' where "f s b = Some (Return (s', b'))" "live (segs @ new) opened' n' s' (g t)"
    "cache_out_ok b' (all_segs (segs @ new) opened')" "length new + n' \<le> n + 1" "\<forall>seg \<in> set new. length seg < 2 ^ 32 - 1"
  using assms unfolding live_step_def by blast

lemma live_step_at_path:
  assumes "\<And>t. P t \<Longrightarrow> live_step f g t"
  shows "latest_at path P t \<Longrightarrow> live_step (at_path path f) (modify_at path g) t"
proof (induction path arbitrary: t)
  case (Cons i path)
  obtain sid type bs ts where t: "t = Content sid type bs ts" by (cases t)
  have ts: "ts \<noteq> []" "i = length ts - 1" "latest_at path P (last ts)" using Cons.prems by (simp_all add: t)
  note IH = Cons.IH [OF ts(3)]
  show ?case
    unfolding live_step_def
  proof (intro allI impI)
    fix segs opened n s b
    assume live: "live segs opened n s t" and b: "cache_out_ok b (all_segs segs opened)" and n: "length segs + n < 2 ^ 31" and small: "small t"
    from live t ts(1) obtain subs ts' s1 t1 m where
      inner: "s = OutStream sid type (-1) False 0 [] (subs @ [s1])" "ts = ts' @ [t1]" "bs = []" "n = Suc m"
      "list_all2 (closed_ok segs) subs ts'" "live segs opened m s1 t1"
      by (cases rule: live.cases) auto
    have "small t1" "length segs + m < 2 ^ 31" using small n by (simp_all add: t inner(2,4))
    with IH inner(2,6) b obtain s' b' new opened' n' where
      step: "at_path path f s1 b = Some (Return (s', b'))" "live (segs @ new) opened' n' s' (modify_at path g t1)"
      "cache_out_ok b' (all_segs (segs @ new) opened')" "length new + n' \<le> m + 1" "\<forall>seg \<in> set new. length seg < 2 ^ 32 - 1"
      by (auto elim: live_stepD)
    have len: "length subs = length ts'" using inner(5) by (rule list_all2_lengthD)
    have "list_all2 (closed_ok (segs @ new)) subs ts'" using inner(5) closed_ok_mono by (rule list_all2_mono)
    from live_inner [OF this step(2)] have "live (segs @ new) opened' (Suc n') (OutStream sid type (-1) False 0 [] (subs @ [s'])) (modify_at (i # path) g t)"
      using ts(2) inner(2,3) by (simp add: t)
    moreover have "at_path (i # path) f s b = Some (Return (OutStream sid type (-1) False 0 [] (subs @ [s']), b'))"
      using step(1) ts(2) unfolding inner(1,2) by (simp add: len [symmetric])
    ultimately show "\<exists>s' b' new opened' n'. at_path (i # path) f s b = Some (Return (s', b')) \<and> live (segs @ new) opened' n' s' (modify_at (i # path) g t) \<and>
        cache_out_ok b' (all_segs (segs @ new) opened') \<and> length new + n' \<le> n + 1 \<and> (\<forall>seg \<in> set new. length seg < 2 ^ 32 - 1)"
      using step(3,4,5) inner(4) by (intro exI conjI) (assumption | simp)+
  qed
qed (use assms in \<open>simp add: live_step_def\<close>)

subsection \<open>Opening a sub-stream\<close>

lemma GetFactory_ok: "type \<in> set factories \<Longrightarrow> GetFactory type = Return type"
  by (simp add: GetFactory_def)

lemma OpenSubStream_step: "can_open sid type t \<Longrightarrow> live_step (OpenSubStream fresh sid type) (append_sub sid type) t"
  unfolding live_step_def
proof (intro allI impI)
  fix segs opened n s b
  assume can: "can_open sid type t" and live: "live segs opened n s t" and b: "cache_out_ok b (all_segs segs opened)"
    and n: "length segs + n < 2 ^ 31" and small: "small t"
  have type: "GetFactory type = Return type" and bytes: "content_bytes t = []" using can by (simp_all add: can_open_def GetFactory_ok)
  have new: "live segs' None 1 (new_out_stream sid type) (Content sid type [] [])" for segs'
    unfolding new_out_stream_def by (rule live_new) simp
  from live show "\<exists>s' b' new opened' n'. OpenSubStream fresh sid type s b = Some (Return (s', b')) \<and> live (segs @ new) opened' n' s' (append_sub sid type t) \<and>
        cache_out_ok b' (all_segs (segs @ new) opened') \<and> length new + n' \<le> n + 1 \<and> (\<forall>seg \<in> set new. length seg < 2 ^ 32 - 1)"
  proof (cases rule: live.cases)
    case (live_new data sid' type')
    with bytes have data: "data = []" by simp
    have "live segs None (Suc 1) (OutStream sid' type' (-1) False 0 [] ([] @ [new_out_stream sid type])) (Content sid' type' [] ([] @ [Content sid type [] []]))"
      by (rule live_inner [OF _ new]) simp
    then show ?thesis
      using live_new data b type
      by (intro exI [of _ "OutStream sid' type' (-1) False 0 [] [new_out_stream sid type]"] exI [of _ b] exI [of _ "[]"] exI [of _ None] exI [of _ "Suc 1"])
         (simp add: OpenSubStream_def CloseLatestSubStream_def)
  next
    case (live_flushed body bs data sid' type')
    with bytes show ?thesis by simp
  next
    case (live_inner subs ts m s1 t1 sid' type')
    have "small t1" "length segs + m < 2 ^ 31" using small n live_inner by simp_all
    with auto_close_ok [OF live_inner(5) b, of "size s1 + 1" fresh] obtain s2 b2 more_segs where
      close: "out_AutoClose fresh s1 b = Some (Return (s2, b2))" "cache_out_ok b2 (segs @ more_segs)" "closed_ok (segs @ more_segs) s2 t1"
      "length more_segs = m" "\<forall>seg \<in> set more_segs. length seg < 2 ^ 32 - 1"
      unfolding out_AutoClose_def by auto
    have "list_all2 (closed_ok (segs @ more_segs)) (subs @ [s2]) (ts @ [t1])"
      using list_all2_mono [OF live_inner(4) closed_ok_mono] close(3) by (intro list_all2_appendI) simp_all
    from live.live_inner [OF this new]
    have "live (segs @ more_segs) None (Suc 1) (OutStream sid' type' (-1) False 0 [] ((subs @ [s2]) @ [new_out_stream sid type]))
        (Content sid' type' [] ((ts @ [t1]) @ [Content sid type [] []]))" .
    then show ?thesis
      using live_inner close type
      by (intro exI [of _ "OutStream sid' type' (-1) False 0 [] ((subs @ [s2]) @ [new_out_stream sid type])"] exI [of _ b2] exI [of _ more_segs] exI [of _ None] exI [of _ "Suc 1"])
         (simp add: OpenSubStream_def CloseLatestSubStream_def)
  qed
qed

subsection \<open>Adding data\<close>

lemma binary_Flush_new:
  assumes "cache_out_ok b segs" and "length data \<le> CHUNK_SIZE" and "data \<noteq> []"
  shows "\<exists>p b'. binary_Flush fresh (OutStream sid type (-1) False 0 data []) b = Some (Return (OutStream sid type (of_nat (length segs)) True (length data) [] [], b')) \<and>
    cache_out_ok b' (segs @ [list_bytes [] @ p]) \<and> packed p data"
proof -
  let ?s = "OutStream sid type (-1) False 0 data []"
  obtain b1 where b1: "OpenStream b = (b1, of_nat (length segs))" "cache_out_ok b1 (segs @ [[]])"
    using OpenStream_ok [OF assms(1)] by auto
  obtain b2 where b2: "WriteSubStreamList (out_AutoClose fresh) [] b1 = Some (Return ([], b2))" "cache_out_ok b2 (segs @ [list_bytes []])"
    using WriteSubStreamList_ok [OF _ b1(2), of "[]" "out_AutoClose fresh"] by auto
  have "out_AutoOpen (out_AutoClose fresh) ?s b = Some (Return (OutStream sid type (of_nat (length segs)) True 0 data [], b2))"
    using b1(1) b2(1) by (simp add: CloseLatestSubStream_def)
  from WriteThisStream_ok [OF this b2(2) assms(2), of fresh] obtain p b3 where
    w: "WriteThisStream fresh (out_AutoClose fresh) ?s b = Some (Return (OutStream sid type (of_nat (length segs)) True (length data) data [], b3))"
    "cache_out_ok b3 (segs @ [list_bytes [] @ p])" "length p \<le> length data + 9" "data \<noteq> [] \<longrightarrow> packs p data" by auto
  have "packed ([] @ p) ([] @ data)" using w(3,4) assms(3) by (intro packed_append packed_Nil) simp_all
  with w show ?thesis by (auto simp: binary_Flush_def)
qed

lemma binary_Flush_open:
  assumes "cache_out_ok b (segs @ [list_bytes [] @ body])" and "length data \<le> CHUNK_SIZE" and "data \<noteq> []" and "packed body bs"
  shows "\<exists>p b'. binary_Flush fresh (OutStream sid type (of_nat (length segs)) True (length bs) data []) b =
      Some (Return (OutStream sid type (of_nat (length segs)) True (length (bs @ data)) [] [], b')) \<and>
    cache_out_ok b' (segs @ [list_bytes [] @ p]) \<and> packed p (bs @ data)"
proof -
  let ?s = "OutStream sid type (of_nat (length segs)) True (length bs) data []"
  have "out_AutoOpen (out_AutoClose fresh) ?s b = Some (Return (?s, b))" by simp
  from WriteThisStream_ok [OF this assms(1,2), of fresh] obtain p b3 where
    w: "WriteThisStream fresh (out_AutoClose fresh) ?s b = Some (Return (OutStream sid type (of_nat (length segs)) True (length bs + length data) data [], b3))"
    "cache_out_ok b3 (segs @ [(list_bytes [] @ body) @ p])" "length p \<le> length data + 9" "data \<noteq> [] \<longrightarrow> packs p data" by auto
  have "packed (body @ p) (bs @ data)" using w(3,4) assms(3,4) by (intro packed_append) simp_all
  with w(1,2) show ?thesis by (auto simp: binary_Flush_def)
qed

lemma binary_Add_step: "can_add bs t \<Longrightarrow> live_step (binary_Add fresh bs) (append_bytes bs) t"
  unfolding live_step_def
proof (intro allI impI)
  fix segs opened n s b
  assume can: "can_add bs t" and live: "live segs opened n s t" and b: "cache_out_ok b (all_segs segs opened)"
  have bs: "length bs \<le> CHUNK_SIZE" and ts: "content_subs t = []" using can by (simp_all add: can_add_def)
  let ?goal = "\<exists>s' b' new opened' n'. binary_Add fresh bs s b = Some (Return (s', b')) \<and> live (segs @ new) opened' n' s' (append_bytes bs t) \<and>
        cache_out_ok b' (all_segs (segs @ new) opened') \<and> length new + n' \<le> n + 1 \<and> (\<forall>seg \<in> set new. length seg < 2 ^ 32 - 1)"
  from live show ?goal
  proof (cases rule: live.cases)
    case (live_new data sid type)
    show ?thesis
    proof (cases "length data + length bs > CHUNK_SIZE")
      case False
      have "live segs None 1 (OutStream sid type (-1) False 0 (data @ bs) []) (Content sid type (data @ bs) [])"
        using False by (intro live.live_new) simp
      with False live_new b show ?thesis
        by (intro exI [of _ "OutStream sid type (-1) False 0 (data @ bs) []"] exI [of _ b] exI [of _ "[]"] exI [of _ None] exI [of _ 1])
           (simp add: binary_Add.simps)
    next
      case True
      with bs have data: "data \<noteq> []" by auto
      obtain p b' where flush: "binary_Flush fresh (OutStream sid type (-1) False 0 data []) b = Some (Return (OutStream sid type (of_nat (length segs)) True (length data) [] [], b'))"
        "cache_out_ok b' (segs @ [list_bytes [] @ p])" "packed p data"
        using binary_Flush_new [of b segs data fresh sid type] b live_new data by auto
      have "live segs (Some (list_bytes [] @ p)) 1 (OutStream sid type (of_nat (length segs)) True (length data) bs []) (Content sid type (data @ bs) [])"
        by (rule live_flushed [OF flush(3) data bs])
      with True flush(1,2) live_new bs show ?thesis
        by (intro exI [of _ "OutStream sid type (of_nat (length segs)) True (length data) bs []"] exI [of _ b'] exI [of _ "[]"] exI [of _ "Some (list_bytes [] @ p)"] exI [of _ 1])
           (simp add: binary_Add.simps [of fresh bs "OutStream _ _ _ _ _ _ _"])
    qed
  next
    case (live_flushed body bs0 data sid type)
    show ?thesis
    proof (cases "length data + length bs > CHUNK_SIZE")
      case False
      have "live segs (Some (list_bytes [] @ body)) 1 (OutStream sid type (of_nat (length segs)) True (length bs0) (data @ bs) []) (Content sid type (bs0 @ data @ bs) [])"
        using False live_flushed by (intro live.live_flushed) simp_all
      with False live_flushed b show ?thesis
        by (intro exI [of _ "OutStream sid type (of_nat (length segs)) True (length bs0) (data @ bs) []"] exI [of _ b] exI [of _ "[]"]
              exI [of _ "Some (list_bytes [] @ body)"] exI [of _ 1])
           (simp add: binary_Add.simps)
    next
      case True
      with bs have data: "data \<noteq> []" by auto
      obtain p b' where flush: "binary_Flush fresh (OutStream sid type (of_nat (length segs)) True (length bs0) data []) b =
          Some (Return (OutStream sid type (of_nat (length segs)) True (length (bs0 @ data)) [] [], b'))"
        "cache_out_ok b' (segs @ [list_bytes [] @ p])" "packed p (bs0 @ data)"
        using binary_Flush_open [of b segs body data bs0 fresh sid type] b live_flushed data by auto
      have "live segs (Some (list_bytes [] @ p)) 1 (OutStream sid type (of_nat (length segs)) True (length (bs0 @ data)) bs []) (Content sid type ((bs0 @ data) @ bs) [])"
        using data by (intro live.live_flushed [OF flush(3) _ bs]) simp
      with True flush(1,2) live_flushed bs show ?thesis
        by (intro exI [of _ "OutStream sid type (of_nat (length segs)) True (length (bs0 @ data)) bs []"] exI [of _ b'] exI [of _ "[]"]
              exI [of _ "Some (list_bytes [] @ p)"] exI [of _ 1])
           (simp add: binary_Add.simps [of fresh bs "OutStream _ _ _ _ _ _ _"])
    qed
  next
    case (live_inner subs ts m s1 t1 sid type)
    with ts show ?thesis by simp
  qed
qed

text \<open>Adding one byte is adding a list of one byte, except to a stream that has been closed, where both fail.\<close>

lemma and_do_Return: "and_do m f = Some (Inr r) \<longleftrightarrow> (\<exists>a b. m = Some (Inr (a, b)) \<and> f a b = Some (Inr r))"
proof (cases m)
  case (Some x)
  then show ?thesis by (cases x) (auto simp: and_do_def)
qed (simp add: and_do_def)

lemma out_AutoOpen_opens: "out_AutoOpen close s b = Some (Return (s', b')) \<Longrightarrow> os_open s'"
  by (cases s) (auto simp: and_do_Return OpenStream_def Let_def split: if_splits)

lemma WriteThisStream_opens:
  assumes "WriteThisStream fresh close s b = Some (Return (s', b'))"
  shows "os_open s'"
proof -
  obtain s1 b1 where s1: "out_AutoOpen close s b = Some (Return (s1, b1))"
    and w: "Option.bind (Encode fresh new_huffman_encoder (os_data s1)) (\<lambda>r. case r of
         Inl e \<Rightarrow> Some (Raise e)
       | Inr (packedData, _) \<Rightarrow>
           and_do (add_bytes packedData b1) (\<lambda>_ b.
             Some (Return (case s1 of OutStream sid type index isOpen decoded data subs \<Rightarrow>
               OutStream sid type index isOpen (decoded + length data) data subs, b)))) = Some (Return (s', b'))"
    using assms by (auto simp: WriteThisStream_def and_do_Return)
  have "os_open s' = os_open s1"
    using w by (cases "Encode fresh new_huffman_encoder (os_data s1)"; cases s1) (auto simp: and_do_Return split: sum.split_asm)
  with out_AutoOpen_opens [OF s1] show ?thesis by simp
qed

lemma binary_Flush_opens: "binary_Flush fresh s b = Some (Return (s', b')) \<Longrightarrow> os_open s' \<and> os_data s' = []"
  by (auto simp: binary_Flush_def and_do_Return dest!: WriteThisStream_opens split: out_stream.split)

lemma binary_Add_byte_eq:
  assumes "length (os_data s) \<le> CHUNK_SIZE"
  shows "binary_Add_byte fresh c s b = binary_Add fresh [c] s b"
proof (cases "\<not> os_open s \<and> os_index s \<noteq> -1 \<or> length (os_data s) \<noteq> CHUNK_SIZE")
  case True
  then show ?thesis using assms by (auto simp: binary_Add_byte_def binary_Add.simps)
next
  case False
  show ?thesis
  proof (cases "binary_Flush fresh s b")
    case (Some r)
    show ?thesis
    proof (cases r)
      case (Inr sb)
      obtain s' b' where "sb = (s', b')" by fastforce
      with Some Inr False binary_Flush_opens [of fresh s b s' b'] show ?thesis
        by (auto simp: binary_Add_byte_def binary_Add.simps CHUNK_SIZE_def)
    qed (use Some False in \<open>auto simp: binary_Add_byte_def binary_Add.simps [of fresh "[c]" s]\<close>)
  qed (use False in \<open>auto simp: binary_Add_byte_def and_do_def binary_Add.simps [of fresh "[c]" s]\<close>)
qed

text \<open>The loop of \<^verbatim>\<open>Add\<close>, as far as the first \<open>n\<close> flushes.\<close>

fun flushes :: "(nat \<Rightarrow> byte) \<Rightarrow> nat \<Rightarrow> out_stream \<Rightarrow> out_stream streaming" where
  "flushes fresh 0 s b = Some (Return (s, b))"
| "flushes fresh (Suc n) s b = and_do (binary_Flush fresh s b) (flushes fresh n)"

text \<open>The stream has been opened and is the last one of the file.\<close>

definition flushable :: "byte list list \<Rightarrow> out_stream \<Rightarrow> cache_out \<Rightarrow> bool" where
  "flushable segs s b \<longleftrightarrow> os_open s \<and> length (os_data s) \<le> CHUNK_SIZE \<and> (\<exists>seg. cache_out_ok b (segs @ [seg]))"

lemma Flush_flushable:
  assumes "flushable segs s b"
  shows "\<exists>s' b'. binary_Flush fresh s b = Some (Return (s', b')) \<and> flushable segs s' b'"
proof -
  obtain sid type index decoded data subs where s: "s = OutStream sid type index True decoded data subs"
    using assms by (cases s) (auto simp: flushable_def)
  obtain seg where b: "cache_out_ok b (segs @ [seg])" "length data \<le> CHUNK_SIZE" using assms by (auto simp: flushable_def s)
  have "out_AutoOpen (out_AutoClose fresh) s b = Some (Return (OutStream sid type index True decoded data subs, b))" by (simp add: s)
  from WriteThisStream_ok [OF this b, of fresh] show ?thesis by (auto simp: binary_Flush_def flushable_def s)
qed

lemma live_flushable:
  assumes "live segs opened 1 s t" and "cache_out_ok b (all_segs segs opened)"
  shows "\<exists>s' b'. binary_Flush fresh s b = Some (Return (s', b')) \<and> flushable segs s' b' \<and> (os_open s \<or> os_index s = -1)"
  using assms(1)
proof (cases rule: live.cases)
  case (live_new data sid type)
  obtain b1 where b1: "OpenStream b = (b1, of_nat (length segs))" "cache_out_ok b1 (segs @ [[]])"
    using OpenStream_ok assms(2) by (fastforce simp: live_new)
  obtain b2 where b2: "WriteSubStreamList (out_AutoClose fresh) [] b1 = Some (Return ([], b2))" "cache_out_ok b2 (segs @ [list_bytes []])"
    using WriteSubStreamList_ok [OF _ b1(2), of "[]" "out_AutoClose fresh"] by auto
  have "out_AutoOpen (out_AutoClose fresh) s b = Some (Return (OutStream sid type (of_nat (length segs)) True 0 data [], b2))"
    using b1(1) b2(1) by (simp add: live_new CloseLatestSubStream_def)
  from WriteThisStream_ok [OF this b2(2), of fresh] live_new show ?thesis by (auto simp: binary_Flush_def flushable_def)
next
  case (live_flushed body bs data sid type)
  with assms(2) have "flushable segs s b" by (auto simp: flushable_def)
  with Flush_flushable [OF this, of fresh] show ?thesis by (auto simp: flushable_def)
next
  case live_inner
  with live_shape show ?thesis by fastforce
qed

lemma flushes_flushable: "flushable segs s b \<Longrightarrow> \<exists>s' b'. flushes fresh n s b = Some (Return (s', b')) \<and> flushable segs s' b'"
proof (induction n arbitrary: s b)
  case (Suc n)
  from Flush_flushable [OF Suc.prems, of fresh] Suc.IH show ?case by fastforce
qed simp

lemma binary_Add_endless:
  assumes "flushable segs s b" and "CHUNK_SIZE < length bs"
  shows "binary_Add fresh bs s b = None"
proof -
  have "\<not> (flushable segs s b \<and> CHUNK_SIZE < length bs)" if "binary_Add fresh bs s b = Some y" for y
  proof (rule binary_Add.raw_induct [OF _ that, where P = "\<lambda>fresh bs s b y. \<not> (flushable segs s b \<and> CHUNK_SIZE < length bs)"])
    fix add fresh bs s b y
    assume IH: "\<And>fresh bs s b y. add fresh bs s b = Some y \<Longrightarrow> \<not> (flushable segs s b \<and> CHUNK_SIZE < length bs)"
      and run: "(if \<not> os_open s \<and> os_index s \<noteq> -1 \<and> bs \<noteq> [] then None
        else if length (os_data s) + length bs > CHUNK_SIZE
        then Option.bind (binary_Flush fresh s b) (\<lambda>r. case r of Inl e \<Rightarrow> Some (Raise e) | Inr (s, b) \<Rightarrow> add fresh bs s b)
        else Some (Return (case s of OutStream sid type index isOpen decoded data subs \<Rightarrow>
          OutStream sid type index isOpen decoded (data @ bs) subs, b))) = Some y"
    show "\<not> (flushable segs s b \<and> CHUNK_SIZE < length bs)"
    proof
      assume flushable: "flushable segs s b \<and> CHUNK_SIZE < length bs"
      obtain s' b' where flush: "binary_Flush fresh s b = Some (Return (s', b'))" "flushable segs s' b'"
        using Flush_flushable flushable by blast
      have "add fresh bs s' b' = Some y" using run flush(1) flushable by (simp add: flushable_def)
      with IH flush(2) flushable show False by blast
    qed
  qed
  with assms show ?thesis by (cases "binary_Add fresh bs s b") auto
qed

text \<open>C7. Data that are larger than the buffer of 128 KB can never be added to a binary stream. On any stream to
  which a client can add data the loop that flushes the buffer until there is room does not come to an
  end: however often it has gone round, each flush succeeds, writes to the file, raises nothing, and leaves
  a buffer that still has no room for the data, so that \<^verbatim>\<open>Add\<close> does not return.\<close>

theorem binary_add_oversize:
  assumes "live segs opened 1 s t" and "cache_out_ok b (all_segs segs opened)" and "CHUNK_SIZE < length bs"
  shows "(\<forall>n. \<exists>s' b'. flushes fresh n s b = Some (Return (s', b')) \<and> CHUNK_SIZE < length (os_data s') + length bs) \<and>
    binary_Add fresh bs s b = None"
proof -
  obtain s1 b1 where 1: "binary_Flush fresh s b = Some (Return (s1, b1))" "flushable segs s1 b1" "os_open s \<or> os_index s = -1"
    using live_flushable [OF assms(1,2)] by blast
  have "\<exists>s' b'. flushes fresh n s b = Some (Return (s', b')) \<and> CHUNK_SIZE < length (os_data s') + length bs" for n
  proof (cases n)
    case 0
    with assms(3) show ?thesis by simp
  next
    case (Suc m)
    with flushes_flushable [OF 1(2), of fresh m] 1(1) assms(3) show ?thesis by fastforce
  qed
  moreover have "binary_Add fresh bs s b = binary_Add fresh bs s1 b1"
    using 1(1,3) assms(3) by (subst binary_Add.simps) auto
  then have "binary_Add fresh bs s b = None" using binary_Add_endless [OF 1(2) assms(3)] by simp
  ultimately show ?thesis by blast
qed

theorem binary_add_oversize_witness:
  "\<exists>b. new_cache_out = Some b \<and> binary_Add (\<lambda>i. 0) (replicate (CHUNK_SIZE + 1) 7) (new_out_stream 1 BINARY_STREAM_TYPE_ID) b = None"
proof -
  obtain b where b: "new_cache_out = Some b" "cache_out_ok b (all_segs [] None)" using new_cache_out_ok by auto
  have "live [] None 1 (new_out_stream 1 BINARY_STREAM_TYPE_ID) (Content 1 BINARY_STREAM_TYPE_ID [] [])"
    unfolding new_out_stream_def by (rule live_new) simp
  from binary_add_oversize [OF this b(2), of "replicate (CHUNK_SIZE + 1) 7" "\<lambda>i. 0"]
  have "binary_Add (\<lambda>i. 0) (replicate (CHUNK_SIZE + 1) 7) (new_out_stream 1 BINARY_STREAM_TYPE_ID) b = None"
    by (simp del: replicate.simps add: replicate_add [symmetric])
  with b(1) show ?thesis by blast
qed

end
