(* ===== verification/StreamReading.thy ===== *)
theory StreamReading
  imports StreamWriting
begin

text \<open>
  Reading the tree of streams back: every closed stream is found under its index with its sub-streams,
  and its chunks decode to its contents. Together with \<open>StreamWriting\<close>: a client that writes streams one
  after the other finds them all in the file.
\<close>

section \<open>Contents that can be read back\<close>

fun readable :: "stream_content \<Rightarrow> bool" where
  "readable (Content sid type bs ts) \<longleftrightarrow>
     10 * length bs + 12 * length ts + 33 < 2 ^ 32 \<and> (bs = [] \<or> ts = []) \<and> distinct (map content_id ts) \<and>
     content_type ` set ts \<subseteq> set factories \<and> (\<forall>t \<in> set ts. readable t)"

lemma readable_small: "readable t \<Longrightarrow> small t"
  by (induction t rule: small.induct) simp

lemma content_modify_at:
  "latest_at path P t \<Longrightarrow> (\<And>t. content_id (g t) = content_id t \<and> content_type (g t) = content_type t) \<Longrightarrow>
   content_id (modify_at path g t) = content_id t \<and> content_type (modify_at path g t) = content_type t"
  by (cases path; cases t) simp_all

lemma readable_modify_at:
  assumes g: "\<And>t. content_id (g t) = content_id t \<and> content_type (g t) = content_type t" and step: "\<And>t. P t \<Longrightarrow> readable t \<Longrightarrow> readable (g t)"
  shows "latest_at path P t \<Longrightarrow> readable t \<Longrightarrow> readable (modify_at path g t)"
proof (induction path arbitrary: t)
  case (Cons i path)
  obtain sid type bs ts where t: "t = Content sid type bs ts" by (cases t)
  have ts: "ts \<noteq> []" "i = length ts - 1" "latest_at path P (last ts)" using Cons.prems(1) by (simp_all add: t)
  define us where "us = butlast ts"
  have split: "ts = us @ [last ts]" "length us = i" using ts by (simp_all add: us_def)
  have "readable (last ts)" using Cons.prems(2) ts(1) by (simp add: t)
  note sub = Cons.IH [OF ts(3) this] content_modify_at [OF ts(3) g]
  have "ts[i := modify_at path g (ts ! i)] = us @ [modify_at path g (last ts)]"
    using split by (metis list_update_length nth_append_length)
  moreover have "readable (Content sid type bs (us @ [last ts]))" using Cons.prems(2) split by (simp only: t)
  ultimately show ?case using sub by (simp add: t)
qed (use step in simp)

lemma readable_spec_call: "legal_call c t \<Longrightarrow> readable t \<Longrightarrow> readable (spec_call c t)"
proof (cases c)
  case (OpenSub path sid type)
  assume "legal_call c t" and "readable t"
  have "content_id (append_sub sid type t) = content_id t \<and> content_type (append_sub sid type t) = content_type t" for t
    by (cases t) simp
  moreover have "readable (append_sub sid type t)" if "can_open sid type t" "readable t" for t
    using that by (cases t) (auto simp: can_open_def)
  ultimately show ?thesis
    using readable_modify_at [of "append_sub sid type" "can_open sid type" path t] \<open>legal_call c t\<close> \<open>readable t\<close> by (simp add: OpenSub)
next
  case (AddData path bs)
  assume "legal_call c t" and "readable t"
  have "content_id (append_bytes bs t) = content_id t \<and> content_type (append_bytes bs t) = content_type t" for t
    by (cases t) simp
  moreover have "readable (append_bytes bs t)" if "can_add bs t" "readable t" for t
    using that by (cases t) (auto simp: can_add_def)
  ultimately show ?thesis
    using readable_modify_at [of "append_bytes bs" "can_add bs" path t] \<open>legal_call c t\<close> \<open>readable t\<close> by (simp add: AddData)
qed

lemma root_type_kept: "legal_calls cs t \<Longrightarrow> content_type (spec_calls cs t) = content_type t"
proof (induction cs arbitrary: t)
  case (Cons c cs)
  have "content_type (spec_call c t) = content_type t"
  proof (cases c)
    case (OpenSub path sid type)
    have "content_id (append_sub sid type t) = content_id t \<and> content_type (append_sub sid type t) = content_type t" for t
      by (cases t) simp
    then show ?thesis using Cons.prems content_modify_at [of path "can_open sid type" t "append_sub sid type"] by (simp add: OpenSub)
  next
    case (AddData path bs)
    have "content_id (append_bytes bs t) = content_id t \<and> content_type (append_bytes bs t) = content_type t" for t
      by (cases t) simp
    then show ?thesis using Cons.prems content_modify_at [of path "can_add bs" t "append_bytes bs"] by (simp add: AddData)
  qed
  with Cons show ?case by (simp add: spec_calls_def)
qed (simp add: spec_calls_def)

section \<open>The calls of a client, as a whole\<close>

lemma do_call_step: "legal_call c t \<Longrightarrow> live_step (do_call fresh c) (spec_call c) t"
proof (cases c)
  case (OpenSub path sid type)
  assume "legal_call c t"
  then show ?thesis using live_step_at_path [where P = "can_open sid type" and path = path and t = t, OF OpenSubStream_step] by (simp add: OpenSub)
next
  case (AddData path bs)
  assume "legal_call c t"
  then show ?thesis using live_step_at_path [where P = "can_add bs" and path = path and t = t, OF binary_Add_step] by (simp add: AddData)
qed

lemma do_calls_ok:
  "legal_calls cs t \<Longrightarrow> readable t \<Longrightarrow> live segs opened n s t \<Longrightarrow> cache_out_ok b (all_segs segs opened) \<Longrightarrow>
   length segs + n + length cs < 2 ^ 31 \<Longrightarrow> \<forall>seg \<in> set segs. length seg < 2 ^ 32 - 1 \<Longrightarrow>
   \<exists>s' b' segs' opened' n'. do_calls fresh cs s b = Some (Return (s', b')) \<and> live segs' opened' n' s' (spec_calls cs t) \<and>
     cache_out_ok b' (all_segs segs' opened') \<and> length segs' + n' < 2 ^ 31 \<and> (\<forall>seg \<in> set segs'. length seg < 2 ^ 32 - 1) \<and> readable (spec_calls cs t)"
proof (induction cs arbitrary: t segs opened n s b)
  case Nil
  then show ?case by (simp add: spec_calls_def) blast
next
  case (Cons c cs)
  have "live_step (do_call fresh c) (spec_call c) t" using Cons.prems(1) by (intro do_call_step) simp
  from live_stepD [OF this Cons.prems(3,4) _ readable_small [OF Cons.prems(2)]] Cons.prems(5) obtain s' b' new opened' n' where
    step: "do_call fresh c s b = Some (Return (s', b'))" "live (segs @ new) opened' n' s' (spec_call c t)"
      "cache_out_ok b' (all_segs (segs @ new) opened')" "length new + n' \<le> n + 1" "\<forall>seg \<in> set new. length seg < 2 ^ 32 - 1"
    by (metis add_lessD1)
  have legal: "legal_calls cs (spec_call c t)" "readable (spec_call c t)"
    using Cons.prems(1,2) readable_spec_call by simp_all
  have "length (segs @ new) + n' + length cs < 2 ^ 31" "\<forall>seg \<in> set (segs @ new). length seg < 2 ^ 32 - 1"
    using step(4,5) Cons.prems(5,6) by auto
  from Cons.IH [OF legal step(2,3) this] step(1) show ?case by (simp add: spec_calls_def)
qed

lemma empty_root_ok: "readable empty_root" "live [] None 1 (new_out_stream ROOT_STREAM_ID ROOT_STREAM_TYPE_ID) empty_root"
  by (simp_all add: empty_root_def new_out_stream_def live_new [of "[]", unfolded One_nat_def])

text \<open>The file that is left at the end.\<close>

lemma write_cache_file_ok:
  assumes "legal_calls cs empty_root" and "length cs < 2 ^ 31 - 1"
  shows "\<exists>segs s. write_cache_file fresh cs = Some (Return (Some (file_bytes segs))) \<and> closed_ok segs s (spec_calls cs empty_root) \<and>
    segs \<noteq> [] \<and> os_index s = of_nat (length segs - 1) \<and> length segs < 2 ^ 31 \<and> (\<forall>seg \<in> set segs. length seg < 2 ^ 32 - 1) \<and>
    readable (spec_calls cs empty_root)"
proof -
  obtain b0 where b0: "new_cache_out = Some b0" "cache_out_ok b0 []" using new_cache_out_ok by blast
  have "length ([] :: byte list list) + 1 + length cs < 2 ^ 31" "cache_out_ok b0 (all_segs [] None)" using assms(2) b0(2) by simp_all
  then obtain s b segs opened n where
    calls: "do_calls fresh cs (new_out_stream ROOT_STREAM_ID ROOT_STREAM_TYPE_ID) b0 = Some (Return (s, b))"
      "live segs opened n s (spec_calls cs empty_root)" "cache_out_ok b (all_segs segs opened)" "length segs + n < 2 ^ 31"
      "\<forall>seg \<in> set segs. length seg < 2 ^ 32 - 1" "readable (spec_calls cs empty_root)"
    using do_calls_ok [OF assms(1) empty_root_ok, of b0 fresh] by auto
  obtain s' b' new where
    close: "out_AutoClose fresh s b = Some (Return (s', b'))" "cache_out_ok b' (segs @ new)" "closed_ok (segs @ new) s' (spec_calls cs empty_root)"
      "length new = n" "os_index s' = of_nat (length (segs @ new) - 1)" "\<forall>seg \<in> set new. length seg < 2 ^ 32 - 1"
    using auto_close_ok [OF calls(2,3) _ calls(4) readable_small [OF calls(6)], of "size s + 1" fresh] unfolding out_AutoClose_def by auto
  have ne: "segs @ new \<noteq> []" using close(4) live_shape [OF calls(2)] by auto
  have all: "\<forall>seg \<in> set (segs @ new). length seg < 2 ^ 32 - 1" using calls(5) close(6) by auto
  have "close_cache_out b' = Some (Some (file_bytes (segs @ new)))"
    by (rule close_cache_out_ok [OF close(2)]) (use all ne in auto)
  then have "write_cache_file fresh cs = Some (Return (Some (file_bytes (segs @ new))))"
    unfolding write_cache_file_def b0(1) calls(1) bind.bind_lunit and_do_simps close(1) by simp
  with close(3,4,5) ne all calls(4,6) show ?thesis by (intro exI [of _ "segs @ new"] exI [of _ s']) simp
qed

section \<open>Finding the streams\<close>

definition cache_buffer :: "byte list list \<Rightarrow> cache_in" where
  "cache_buffer segs = \<lparr>ci_bytes = file_bytes segs, streamContents = positions 8 segs @ [8 + length (concat segs)]\<rparr>"

lemma cache_buffer_bytes [simp]: "ci_bytes (cache_buffer segs) = file_bytes segs"
  by (simp add: cache_buffer_def)

lemma stream_at:
  assumes "k < length segs" and "length segs < 2 ^ 31"
  obtains first behind where "GetStreamBuffer (of_nat k) (cache_buffer segs) = Return (first, behind)" "behind = first + length (segs ! k)"
    "drop first (file_bytes segs) = segs ! k @ drop behind (file_bytes segs)" "8 \<le> length (drop behind (file_bytes segs))"
proof -
  obtain first behind where at: "GetStreamBuffer (of_nat k) (cache_buffer segs) = Return (first, behind)"
    "behind = first + length (segs ! k)" "behind + 4 * length segs + 4 \<le> length (file_bytes segs)" "slice (file_bytes segs) first behind = segs ! k"
    using GetStreamBuffer_ok [OF assms] unfolding cache_buffer_def by blast
  have "drop first (file_bytes segs) = take (behind - first) (drop first (file_bytes segs)) @ drop (behind - first) (drop first (file_bytes segs))"
    by (simp only: append_take_drop_id)
  then have "drop first (file_bytes segs) = segs ! k @ drop behind (file_bytes segs)"
    using at(2,4) by (simp add: slice_def add.commute)
  moreover have "8 \<le> length (drop behind (file_bytes segs))" using at(3) assms(1) by simp
  ultimately show ?thesis using at(1,2) that by blast
qed

lemma stream_header_ok:
  assumes "GetStreamBuffer index buffer = Return (first, behind)" and "behind = first + length (list_bytes subs @ contents)"
    and "drop first (ci_bytes buffer) = (list_bytes subs @ contents) @ rest" and "12 * length subs + 33 < 2 ^ 32"
  shows "stream_header buffer index = Some (Return (first, behind, of_nat (length subs)))"
proof -
  let ?count = "of_nat (length subs) :: dword"
  have "drop first (ci_bytes buffer) = dword_bytes ?count @ concat (map entry_bytes subs) @ contents @ rest"
    using assms(3) by (simp add: list_bytes_def)
  note count = dword_at_bytes [OF this]
  have "?count + 1 = of_nat (length subs + 1)" by simp
  then have "unat (?count + 1) = length subs + 1" using assms(4) by (simp only:) (intro unat_of_nat_small; simp)
  moreover have "behind - first = 4 + 12 * length subs + length contents" using assms(2) by (simp add: list_bytes_def length_entries)
  ultimately show ?thesis by (simp add: stream_header_def assms(1) count)
qed

text \<open>A stream as it has been read shows the contents that were written.\<close>

inductive shows_content :: "cache_in \<Rightarrow> in_stream \<Rightarrow> stream_content \<Rightarrow> bool" for buffer where
  "DecodeThisStream buffer (InStream type first behind subs) = Some (Return bs) \<Longrightarrow>
   list_all2 (\<lambda>r t. fst r = content_id t \<and> shows_content buffer (snd r) t) subs ts \<Longrightarrow>
   shows_content buffer (InStream type first behind subs) (Content sid type bs ts)"
monos list_all2_mono

lemma map_sum_Inr: "map_sum id f z = Inr r \<longleftrightarrow> (\<exists>x. z = Inr x \<and> r = f x)"
  by (cases z) auto

lemma read_entries_step:
  assumes "drop source (ci_bytes buffer) = entry_bytes s @ rest" and "os_type s \<in> set factories"
    and "ReadSubStreams buffer (os_index s) (os_type s) = Some (Return r)"
  shows "read_entries buffer source (Suc n) subs = read_entries buffer (source + 12) n (emplace_stream (os_id s) r subs)"
    and "drop (source + 12) (ci_bytes buffer) = rest"
proof -
  let ?mem = "ci_bytes buffer"
  have d0: "drop source ?mem = dword_bytes (os_index s) @ dword_bytes (os_id s) @ dword_bytes (os_type s) @ rest"
    using assms(1) by (simp add: entry_bytes_def)
  have d4: "drop (source + 4) ?mem = dword_bytes (os_id s) @ dword_bytes (os_type s) @ rest"
    using arg_cong [OF d0, of "drop 4"] by (simp add: add.commute)
  have d8: "drop (source + 8) ?mem = dword_bytes (os_type s) @ rest"
    using arg_cong [OF d0, of "drop 8"] by (simp add: add.commute)
  show "drop (source + 12) ?mem = rest"
    using arg_cong [OF d0, of "drop 12"] by (simp add: add.commute)
  note fields = dword_at_bytes [OF d0] dword_at_bytes [OF d4] dword_at_bytes [OF d8]
  obtain first behind count inner where
    r: "stream_header buffer (os_index s) = Some (Return (first, behind, count))"
      "read_entries buffer (first + 4) (unat count) [] = Some (Return inner)" "r = InStream (os_type s) (first + unat (count + 1) * 4) behind inner"
    using assms(3) unfolding ReadSubStreams_def
    by (cases "stream_header buffer (os_index s)") (auto simp: map_sum_Inr split: sum.split_asm)
  show "read_entries buffer source (Suc n) subs = read_entries buffer (source + 12) n (emplace_stream (os_id s) r subs)"
    using fields r assms(2) by (subst read_entries.simps) (simp add: GetFactory_ok)
qed

lemma read_entries_ok:
  "list_all2 (\<lambda>s t. os_id s = content_id t \<and> os_type s \<in> set factories \<and>
      (\<exists>r. ReadSubStreams buffer (os_index s) (os_type s) = Some (Return r) \<and> shows_content buffer r t)) subs ts \<Longrightarrow>
   drop source (ci_bytes buffer) = concat (map entry_bytes subs) @ rest \<Longrightarrow> distinct (map fst acc @ map content_id ts) \<Longrightarrow>
   \<exists>rs. read_entries buffer source (length subs) acc = Some (Return (acc @ rs)) \<and>
     list_all2 (\<lambda>r t. fst r = content_id t \<and> shows_content buffer (snd r) t) rs ts"
proof (induction subs ts arbitrary: source acc rule: list_all2_induct)
  case Nil
  then show ?case by (simp add: read_entries.simps)
next
  case (Cons s subs t ts)
  obtain r where r: "ReadSubStreams buffer (os_index s) (os_type s) = Some (Return r)" "shows_content buffer r t" using Cons.hyps(1) by blast
  have s: "os_type s \<in> set factories" "os_id s = content_id t" using Cons.hyps(1) by blast+
  have "drop source (ci_bytes buffer) = entry_bytes s @ concat (map entry_bytes subs) @ rest" using Cons.prems(1) by simp
  note step = read_entries_step [OF this s(1) r(1)]
  have new: "emplace_stream (os_id s) r acc = acc @ [(content_id t, r)]"
    using Cons.prems(2) s(2) by (auto simp: emplace_stream_def)
  have "distinct (map fst (acc @ [(content_id t, r)]) @ map content_id ts)" using Cons.prems(2) by simp
  from Cons.IH [OF step(2) this] obtain rs where
    rs: "read_entries buffer (source + 12) (length subs) (acc @ [(content_id t, r)]) = Some (Return ((acc @ [(content_id t, r)]) @ rs))"
      "list_all2 (\<lambda>r t. fst r = content_id t \<and> shows_content buffer (snd r) t) rs ts" by blast
  with step(1) [of "length subs" acc] new r(2) show ?case
    by (intro exI [of _ "(content_id t, r) # rs"]) simp
qed

section \<open>Decoding\<close>

lemma decode_loop_ok:
  "list_all2 packs ps cs \<Longrightarrow> [] \<notin> set cs \<Longrightarrow> tables_ok d \<Longrightarrow> 8 \<le> length (rest @ behind) \<Longrightarrow>
   decode_loop d \<lparr>ib_data = concat ps @ rest, ib_behind = behind\<rparr> \<lparr>ob_written = w, ob_remaining = length (concat cs)\<rparr> = Some (Return (w @ concat cs))"
proof (induction ps cs arbitrary: d w rule: list_all2_induct)
  case Nil
  then show ?case by (simp add: decode_loop.simps)
next
  case (Cons p ps c cs)
  let ?target = "\<lparr>ob_written = w, ob_remaining = length (concat (c # cs))\<rparr>"
  have "8 \<le> length ((concat ps @ rest) @ behind)" using Cons.prems(3) by simp
  then obtain d' where d': "tables_ok d'" "Decode d \<lparr>ib_data = p @ concat ps @ rest, ib_behind = behind\<rparr> ?target =
      Some (Return (d', \<lparr>ib_data = concat ps @ rest, ib_behind = behind\<rparr>, \<lparr>ob_written = w @ c, ob_remaining = length (concat cs)\<rparr>))"
    using Cons.hyps(1) Cons.prems(2) unfolding packs_def by (metis (no_types, lifting) add_diff_cancel_left' concat.simps(2) le_add1 length_append output_buffer.select_convs(1,2))
  have "c \<noteq> []" using Cons.prems(1) by auto
  with Cons.IH [OF _ d'(1) Cons.prems(3), of "w @ c"] Cons.prems(1) d'(2) show ?case
    by (subst decode_loop.simps) simp
qed

lemma DecodeThisStream_ok:
  assumes "drop first (ci_bytes buffer) = (list_bytes subs @ body @ junk @ dword_bytes (of_nat (length bs))) @ rest"
    and "behind = first + length (list_bytes subs @ body @ junk @ dword_bytes (of_nat (length bs)))" and "8 \<le> length rest"
    and "packed body bs" and "bs = [] \<or> subs = []" and "length bs < 2 ^ 32" and "12 * length subs + 33 < 2 ^ 32"
  shows "DecodeThisStream buffer (InStream type (first + unat (of_nat (length subs) + 1 :: dword) * 4) behind inner) = Some (Return bs)"
proof -
  let ?mem = "ci_bytes buffer" and ?size = "dword_bytes (of_nat (length bs))"
  let ?seg = "list_bytes subs @ body @ junk @ ?size"
  have "drop (length (list_bytes subs @ body @ junk)) (drop first ?mem) = ?size @ rest" unfolding assms(1) by simp
  moreover have "behind - 4 = first + length (list_bytes subs @ body @ junk)" using assms(2) by simp
  ultimately have "drop (behind - 4) ?mem = ?size @ rest" by (simp add: add.commute)
  note decodedSize = dword_at_bytes [OF this]
  have size: "unat (of_nat (length bs) :: dword) = length bs" using assms(6) by (simp add: unat_of_nat)
  show ?thesis
  proof (cases "bs = []")
    case True
    then show ?thesis using decodedSize by (simp add: DecodeThisStream_def decode_loop.simps)
  next
    case False
    with assms(5) have subs: "subs = []" by simp
    have "drop 4 (drop first ?mem) = (body @ junk @ ?size) @ rest" unfolding assms(1) subs by (simp add: list_bytes_def)
    then have first: "drop (first + 4) ?mem = (body @ junk @ ?size) @ rest" by (simp add: add.commute)
    have "behind = length (body @ junk @ ?size) + (first + 4)" using assms(2) by (simp add: subs list_bytes_def)
    then have "drop behind ?mem = drop (length (body @ junk @ ?size)) (drop (first + 4) ?mem)"
      and len: "behind - (first + 4) = length (body @ junk @ ?size)" by (simp_all only: drop_drop add_diff_cancel_right')
    then have data: "slice ?mem (first + 4) behind = body @ junk @ ?size" "drop behind ?mem = rest"
      unfolding slice_def len first by simp_all
    obtain ps cs where ps: "list_all2 packs ps cs" "[] \<notin> set cs" "body = concat ps" "bs = concat cs"
      using assms(4) by (auto simp: packed_def)
    have "8 \<le> length ((junk @ ?size) @ rest)" using assms(3) by simp
    from decode_loop_ok [OF ps(1,2) new_coders_ok(3) this, of "[]"] show ?thesis
      using decodedSize data size ps(3,4) by (simp add: DecodeThisStream_def subs)
  qed
qed

section \<open>The round trip\<close>

lemma ReadSubStreams_ok:
  assumes at: "GetStreamBuffer index buffer = Return (first, behind)" "behind = first + length seg" "drop first (ci_bytes buffer) = seg @ rest" "8 \<le> length rest"
    and seg: "stream_bytes subs bs seg" and t: "readable (Content sid type bs ts)"
    and subs: "list_all2 (\<lambda>s t. os_id s = content_id t \<and> os_type s \<in> set factories \<and>
      (\<exists>r. ReadSubStreams buffer (os_index s) (os_type s) = Some (Return r) \<and> shows_content buffer r t)) subs ts"
  shows "\<exists>r. ReadSubStreams buffer index type = Some (Return r) \<and> shows_content buffer r (Content sid type bs ts)"
proof -
  obtain body junk where body: "packed body bs" "seg = list_bytes subs @ body @ junk @ dword_bytes (of_nat (length bs))"
    using seg by (auto simp: stream_bytes_def)
  have len: "length subs = length ts" using subs by (rule list_all2_lengthD)
  have small: "12 * length subs + 33 < 2 ^ 32" "length bs < 2 ^ 32" "bs = [] \<or> subs = []" "distinct (map content_id ts)"
    using t len by auto
  note header = stream_header_ok [OF at(1) at(2) [unfolded body(2)] at(3) [unfolded body(2)] small(1)]
  have count: "unat (of_nat (length subs) :: dword) = length subs" using small(1) by (simp add: unat_of_nat)
  have "drop 4 (drop first (ci_bytes buffer)) = concat (map entry_bytes subs) @ body @ junk @ dword_bytes (of_nat (length bs)) @ rest"
    unfolding at(3) body(2) by (simp add: list_bytes_def)
  then have entries: "drop (first + 4) (ci_bytes buffer) = concat (map entry_bytes subs) @ body @ junk @ dword_bytes (of_nat (length bs)) @ rest"
    by (simp add: add.commute)
  obtain rs where rs: "read_entries buffer (first + 4) (length subs) [] = Some (Return rs)"
    "list_all2 (\<lambda>r t. fst r = content_id t \<and> shows_content buffer (snd r) t) rs ts"
    using read_entries_ok [OF subs entries, of "[]"] small(4) by auto
  have "shows_content buffer (InStream type (first + unat (of_nat (length subs) + 1 :: dword) * 4) behind rs) (Content sid type bs ts)"
    using DecodeThisStream_ok [OF at(3) [unfolded body(2)] at(2) [unfolded body(2)] at(4) body(1) small(3,2,1)] rs(2)
    by (rule shows_content.intros)
  with header count rs(1) show ?thesis by (simp add: ReadSubStreams_def)
qed

lemma closed_stream_read:
  "closed_ok segs s t \<Longrightarrow> length segs < 2 ^ 31 \<Longrightarrow> readable t \<Longrightarrow>
   \<exists>r. ReadSubStreams (cache_buffer segs) (os_index s) (os_type s) = Some (Return r) \<and> shows_content (cache_buffer segs) r t"
proof (induction rule: closed_ok.induct)
  case (1 index subs ts bs sid type decoded)
  let ?b = "cache_buffer segs"
  obtain first behind where at: "GetStreamBuffer index ?b = Return (first, behind)" "behind = first + length (segs ! unat index)"
    "drop first (ci_bytes ?b) = segs ! unat index @ drop behind (file_bytes segs)" "8 \<le> length (drop behind (file_bytes segs))"
    using stream_at [OF 1(2) 1(4)] by auto
  have "list_all2 (\<lambda>s t. os_id s = content_id t \<and> os_type s \<in> set factories \<and>
      (\<exists>r. ReadSubStreams ?b (os_index s) (os_type s) = Some (Return r) \<and> shows_content ?b r t)) subs ts"
    unfolding list_all2_conv_all_nth
  proof (intro conjI allI impI)
    show len: "length subs = length ts" using 1(1) by (rule list_all2_lengthD)
    fix i assume i: "i < length subs"
    then have sub: "closed_ok segs (subs ! i) (ts ! i)" "readable (ts ! i)" "content_type (ts ! i) \<in> set factories"
      using list_all2_nthD [OF 1(1) i] 1(5) len by auto
    then show "os_id (subs ! i) = content_id (ts ! i)" "os_type (subs ! i) \<in> set factories" using closed_ok_shape [OF sub(1)] by auto
    show "\<exists>r. ReadSubStreams ?b (os_index (subs ! i)) (os_type (subs ! i)) = Some (Return r) \<and> shows_content ?b r (ts ! i)"
      using list_all2_nthD [OF 1(1) i] 1(4) sub(2) by blast
  qed
  from ReadSubStreams_ok [OF at 1(3) 1(5) this] show ?case by simp
qed

text \<open>The contents at the end of a path of identifiers.\<close>

fun content_at :: "dword list \<Rightarrow> stream_content \<Rightarrow> byte list option" where
  "content_at [] (Content sid type bs ts) = Some bs"
| "content_at (sub # ids) (Content sid type bs ts) =
     Option.bind (map_of (map (\<lambda>t. (content_id t, t)) ts) sub) (content_at ids)"

lemma map_of_shows:
  "list_all2 (\<lambda>r t. fst r = content_id t \<and> P (snd r) t) rs ts \<Longrightarrow>
   (case map_of rs k of None \<Rightarrow> map_of (map (\<lambda>t. (content_id t, t)) ts) k = None
    | Some r \<Rightarrow> \<exists>t. map_of (map (\<lambda>t. (content_id t, t)) ts) k = Some t \<and> P r t)"
  by (induction rule: list_all2_induct) (auto split: option.splits)

lemma read_path_ok:
  "shows_content buffer r t \<Longrightarrow>
   read_path buffer r ids = Some (case content_at ids t of Some bs \<Rightarrow> Return bs | None \<Rightarrow> Raise ''no such sub-stream'')"
proof (induction ids arbitrary: r t)
  case Nil
  then show ?case by (cases rule: shows_content.cases) simp
next
  case (Cons sub ids)
  from Cons.prems obtain type first behind subs bs ts sid where
    r: "r = InStream type first behind subs" "t = Content sid type bs ts"
      "list_all2 (\<lambda>r t. fst r = content_id t \<and> shows_content buffer (snd r) t) subs ts"
    by (cases rule: shows_content.cases) auto
  show ?case
  proof (cases "map_of subs sub")
    case None
    with map_of_shows [OF r(3), of sub] show ?thesis by (simp add: r(1,2) GetSubStream_def)
  next
    case (Some r')
    with map_of_shows [OF r(3), of sub] obtain t' where "map_of (map (\<lambda>t. (content_id t, t)) ts) sub = Some t'" "shows_content buffer r' t'" by auto
    moreover from this(2) obtain bs' where "DecodeThisStream buffer r' = Some (Return bs')" by (cases rule: shows_content.cases) auto
    ultimately show ?thesis using Some Cons.IH [of r' t'] by (simp add: r(1,2) GetSubStream_def)
  qed
qed

text \<open>C2. A cache file gives back what was written to it. Whatever sub-streams a client opens and
  whatever data it adds, as long as it works on the latest stream or on the parents of it, does not mix data and
  sub-streams in one stream, does not use an identifier twice in one stream, opens streams of types that have a
  factory, adds data to streams for binary data and at most 128 KB at once, and keeps below 2^32 bytes in a
  stream: the file is written, it opens, and following any identifiers from the root finds exactly the data added to the stream
  with these identifiers, or reports that there is no such stream.\<close>

theorem cache_file_roundtrip:
  assumes "legal_calls calls empty_root" and "length calls < 2 ^ 31 - 1"
  shows "\<exists>mem buffer root. write_cache_file fresh calls = Some (Return (Some mem)) \<and> open_root mem = Some (Return (buffer, root)) \<and>
    (\<forall>ids. read_path buffer root ids =
      Some (case content_at ids (spec_calls calls empty_root) of Some bs \<Rightarrow> Return bs | None \<Rightarrow> Raise ''no such sub-stream''))"
proof -
  let ?t = "spec_calls calls empty_root"
  obtain segs s where w: "write_cache_file fresh calls = Some (Return (Some (file_bytes segs)))" "closed_ok segs s ?t"
    "segs \<noteq> []" "os_index s = of_nat (length segs - 1)" "length segs < 2 ^ 31" "\<forall>seg \<in> set segs. length seg < 2 ^ 32 - 1" "readable ?t"
    using write_cache_file_ok [OF assms] by blast
  let ?b = "cache_buffer segs"
  have "new_cache_in (file_bytes segs) = Some (Return ?b)"
    using ReadStreamOffsets_ok [of segs] w(5,6) by (force simp: new_cache_in_def cache_buffer_def)
  moreover obtain r where r: "ReadSubStreams ?b (os_index s) (os_type s) = Some (Return r)" "shows_content ?b r ?t"
    using closed_stream_read [OF w(2,5,7)] by blast
  moreover have "GetLastStream ?b = os_index s"
    using w(3,4) by (cases segs) (simp_all add: GetLastStream_def cache_buffer_def)
  moreover have "os_type s = ROOT_STREAM_TYPE_ID"
    using closed_ok_shape [OF w(2)] root_type_kept [of calls empty_root] assms(1) by (simp add: empty_root_def)
  moreover obtain bs where "DecodeThisStream ?b r = Some (Return bs)" using r(2) by (cases rule: shows_content.cases) auto
  ultimately have "open_root (file_bytes segs) = Some (Return (?b, r))" by (simp add: open_root_def)
  with w(1) read_path_ok [OF r(2)] show ?thesis by blast
qed

text \<open>A client that writes a stream with two sub-streams.\<close>

definition example_calls :: "client_call list" where
  "example_calls =
     [OpenSub [] 1 COMPOSITE_STREAM_TYPE_ID, OpenSub [0] 7 BINARY_STREAM_TYPE_ID, AddData [0, 0] [1, 2, 3],
      AddData [0, 0] [4], OpenSub [0] 8 PACKED_DWORD_STREAM_TYPE_ID, AddData [0, 1] (replicate 100 5)]"

theorem cache_file_roundtrip_witness:
  "\<exists>mem buffer root. write_cache_file (\<lambda>i. 0xcd) example_calls = Some (Return (Some mem)) \<and>
    open_root mem = Some (Return (buffer, root)) \<and> read_path buffer root [1, 7] = Some (Return [1, 2, 3, 4]) \<and>
    read_path buffer root [1, 8] = Some (Return (replicate 100 5)) \<and> read_path buffer root [2] = Some (Raise ''no such sub-stream'')"
proof -
  have legal: "legal_calls example_calls empty_root"
    by (simp add: example_calls_def empty_root_def can_open_def can_add_def factories_def CHUNK_SIZE_def COMPOSITE_STREAM_TYPE_ID_def
        BLOB_STREAM_TYPE_ID_def BINARY_STREAM_TYPE_ID_def PACKED_DWORD_STREAM_TYPE_ID_def del: replicate.simps)
  have contents: "content_at [1, 7] (spec_calls example_calls empty_root) = Some [1, 2, 3, 4]"
    "content_at [1, 8] (spec_calls example_calls empty_root) = Some (replicate 100 5)"
    "content_at [2] (spec_calls example_calls empty_root) = None"
    by (simp_all add: example_calls_def empty_root_def spec_calls_def del: replicate.simps)
  have "length example_calls < 2 ^ 31 - 1" by (simp add: example_calls_def)
  from cache_file_roundtrip [OF legal this, of "\<lambda>i. 0xcd"] obtain mem buffer root where
    f: "write_cache_file (\<lambda>i. 0xcd) example_calls = Some (Return (Some mem))" "open_root mem = Some (Return (buffer, root))"
      "\<forall>ids. read_path buffer root ids = Some (case content_at ids (spec_calls example_calls empty_root) of
        Some bs \<Rightarrow> Return bs | None \<Rightarrow> Raise ''no such sub-stream'')" by blast
  show ?thesis
    by (intro exI [of _ mem] exI [of _ buffer] exI [of _ root] conjI f(1,2); unfold f(3) [rule_format] contents option.case) (rule refl)+
qed

end
