(* ===== verification/QuickHash.thy ===== *)
theory QuickHash
  imports TSVN_Prelude
begin

text \<open>
  The hash index of \<^verbatim>\<open>src/src/Utils/QuickHash.h\<close>: an open-addressing table of 32-bit
  indices with a prime capacity and a fixed probe stride. The values themselves live in the
  client (a dictionary), which hands a hash function record to every operation, as the C++
  template is given its functor. Loops that probe for a bucket get the capacity as fuel:
  \<open>None\<close> is a probe that has visited the capacity many buckets and would run forever. The
  theorems show that it never happens, because the stride is coprime to the capacity and one
  bucket is always left empty. Sizes (\<^verbatim>\<open>size_t\<close>) are natural numbers.
\<close>

section \<open>Hash functions and the prime grower\<close>

definition NO_INDEX :: dword where "NO_INDEX = - 1"

record 'v hash_function =
  hf_hash :: "'v \<Rightarrow> nat"
  hf_value :: "dword \<Rightarrow> 'v"
  hf_equal :: "'v \<Rightarrow> dword \<Rightarrow> bool"

definition primes :: "nat list" where
  "primes =
    [1, 3, 7, 17,
     31, 67, 127, 257,
     509, 1021, 2053, 4099,
     8191, 16381, 32771, 65537,
     131071, 262147, 524287, 1048573,
     2097143, 4194301, 8388617, 16777213,
     33554467, 67108859, 134217757, 268435459,
     536870909, 1073741827]"

record prime_grower =
  capacity :: nat
  used :: nat
  collisions :: nat
  max_path :: nat
  collision_path_sum :: nat
  gr_index :: nat
  nextStride :: nat

definition new_prime_grower :: prime_grower where
  "new_prime_grower =
     \<lparr>capacity = primes ! 0, used = 0, collisions = 0, max_path = 1, collision_path_sum = 0,
      gr_index = 0, nextStride = 1\<rparr>"

definition inserted_cleanly :: "prime_grower \<Rightarrow> prime_grower" where
  "inserted_cleanly g = g\<lparr>used := used g + 1\<rparr>"

definition inserted_collision :: "nat \<Rightarrow> prime_grower \<Rightarrow> prime_grower" where
  "inserted_collision path_size g =
     g\<lparr>used := used g + 1, collisions := collisions g + 1,
       collision_path_sum := collision_path_sum g + path_size,
       max_path := (if max_path g \<le> path_size then path_size + 1 else max_path g)\<rparr>"

definition batch_inserted :: "nat \<Rightarrow> nat \<Rightarrow> prime_grower \<Rightarrow> prime_grower" where
  "batch_inserted count collisions_count g =
     g\<lparr>used := used g + count, collisions := collisions g + collisions_count\<rparr>"

text \<open>
  \<^verbatim>\<open>grow\<close>. The table declares 31 entries and lists 30, so entry 30 is zero and the modulus by
  the capacity traps: growing past the last listed prime is \<open>None\<close>.
\<close>

definition grow :: "prime_grower \<Rightarrow> prime_grower option" where
  "grow g =
     (let index = gr_index g + 1 in
      if index < length primes
      then Some \<lparr>capacity = primes ! index, used = 0, collisions = 0, max_path = 1,
                 collision_path_sum = 0, gr_index = index,
                 nextStride = 46337 mod (primes ! index)\<rparr>
      else None)"

definition map_bucket :: "prime_grower \<Rightarrow> nat \<Rightarrow> nat" where
  "map_bucket g hash_value = hash_value mod capacity g"

definition next_bucket :: "prime_grower \<Rightarrow> nat \<Rightarrow> nat" where
  "next_bucket g ind =
     (let ind = ind + nextStride g in if ind \<ge> capacity g then ind - capacity g else ind)"

section \<open>The table\<close>

record quick_hash =
  qh_data :: "dword list"
  qh_grower :: prime_grower

definition create_data :: "prime_grower \<Rightarrow> dword list" where
  "create_data g = replicate (capacity g) NO_INDEX"

definition new_quick_hash :: quick_hash where
  "new_quick_hash = \<lparr>qh_data = create_data new_prime_grower, qh_grower = new_prime_grower\<rparr>"

definition should_grow :: "quick_hash \<Rightarrow> bool" where
  "should_grow q \<longleftrightarrow> used (qh_grower q) + collisions (qh_grower q) + 1 \<ge> capacity (qh_grower q)"

definition should_grow_by :: "quick_hash \<Rightarrow> nat \<Rightarrow> bool" where
  "should_grow_by q n \<longleftrightarrow>
     used (qh_grower q) + collisions (qh_grower q) + n \<ge> capacity (qh_grower q)"

text \<open>The \<^verbatim>\<open>do ... while (*target != NO_INDEX)\<close> loop: bucket found and path length.\<close>

fun probe_empty :: "nat \<Rightarrow> quick_hash \<Rightarrow> nat \<Rightarrow> nat \<Rightarrow> (nat \<times> nat) option" where
  "probe_empty 0 q bucket path = None"
| "probe_empty (Suc fuel) q bucket path =
     (let bucket = next_bucket (qh_grower q) bucket; path = path + 1 in
      if qh_data q ! bucket \<noteq> NO_INDEX then probe_empty fuel q bucket path
      else Some (bucket, path))"

definition internal_insert :: "quick_hash \<Rightarrow> nat \<Rightarrow> dword \<Rightarrow> quick_hash option" where
  "internal_insert q bucket index =
     (if qh_data q ! bucket = NO_INDEX
      then Some \<lparr>qh_data = (qh_data q)[bucket := index],
                 qh_grower = inserted_cleanly (qh_grower q)\<rparr>
      else
        (case probe_empty (capacity (qh_grower q)) q bucket 0 of
          None \<Rightarrow> None
        | Some (target, path) \<Rightarrow>
            Some \<lparr>qh_data = (qh_data q)[target := index],
                  qh_grower = inserted_collision path (qh_grower q)\<rparr>))"

fun rehash_loop :: "'v hash_function \<Rightarrow> dword list \<Rightarrow> quick_hash \<Rightarrow> quick_hash option" where
  "rehash_loop hf [] q = Some q"
| "rehash_loop hf (index # old) q =
     (if index \<noteq> NO_INDEX
      then
        (case internal_insert q (map_bucket (qh_grower q) (hf_hash hf (hf_value hf index))) index of
          None \<Rightarrow> None
        | Some q' \<Rightarrow> rehash_loop hf old q')
      else rehash_loop hf old q)"

definition rehash :: "'v hash_function \<Rightarrow> prime_grower \<Rightarrow> dword list \<Rightarrow> quick_hash option" where
  "rehash hf g old_data = rehash_loop hf old_data \<lparr>qh_data = create_data g, qh_grower = g\<rparr>"

function grow_to :: "nat \<Rightarrow> prime_grower \<Rightarrow> prime_grower option" where
  "grow_to min_bucket_count g =
     (if capacity g < min_bucket_count
      then (case grow g of None \<Rightarrow> None | Some g' \<Rightarrow> grow_to min_bucket_count g')
      else Some g)"
  by pat_completeness auto
termination
  by (relation "measure (\<lambda>(m, g). length primes - gr_index g)")
     (auto simp: grow_def Let_def split: if_splits)

declare grow_to.simps [simp del]

definition qh_reserve :: "'v hash_function \<Rightarrow> nat \<Rightarrow> quick_hash \<Rightarrow> quick_hash option" where
  "qh_reserve hf min_bucket_count q =
     (let min_bucket_count =
        (if (2 ^ 64 - 1) div 16 > min_bucket_count
         then min_bucket_count + min_bucket_count div 2 else min_bucket_count)
      in
      (case grow_to min_bucket_count (qh_grower q) of
        None \<Rightarrow> None
      | Some g \<Rightarrow>
          (if capacity g \<noteq> capacity (qh_grower q) then rehash hf g (qh_data q)
           else Some (q\<lparr>qh_grower := g\<rparr>))))"

fun find_loop :: "nat \<Rightarrow> 'v hash_function \<Rightarrow> quick_hash \<Rightarrow> 'v \<Rightarrow> nat \<Rightarrow> dword option" where
  "find_loop 0 hf q v bucket = None"
| "find_loop (Suc fuel) hf q v bucket =
     (let index = qh_data q ! bucket in
      if index \<noteq> NO_INDEX
      then (if hf_equal hf v index then Some index
            else find_loop fuel hf q v (next_bucket (qh_grower q) bucket))
      else Some index)"

definition qh_find :: "'v hash_function \<Rightarrow> quick_hash \<Rightarrow> 'v \<Rightarrow> dword option" where
  "qh_find hf q v =
     find_loop (capacity (qh_grower q)) hf q v (map_bucket (qh_grower q) (hf_hash hf v))"

definition qh_insert :: "'v hash_function \<Rightarrow> quick_hash \<Rightarrow> 'v \<Rightarrow> dword \<Rightarrow> quick_hash option" where
  "qh_insert hf q v index =
     Option.bind
       (if should_grow q then qh_reserve hf (capacity (qh_grower q) + 1) q else Some q)
       (\<lambda>q. internal_insert q (map_bucket (qh_grower q) (hf_hash hf v)) index)"

definition qh_clear :: "quick_hash \<Rightarrow> quick_hash" where
  "qh_clear q = (if used (qh_grower q) > 0 then new_quick_hash else q)"

definition may_cause_growth :: "quick_hash \<Rightarrow> nat \<Rightarrow> bool" where
  "may_cause_growth q toAdd \<longleftrightarrow>
     used (qh_grower q) + collisions (qh_grower q) + 2 * toAdd \<ge> capacity (qh_grower q)"

section \<open>The probe sequence visits every bucket\<close>

definition grower_ok :: "prime_grower \<Rightarrow> bool" where
  "grower_ok g \<longleftrightarrow>
     gr_index g < length primes \<and> capacity g = primes ! gr_index g \<and>
     coprime (nextStride g) (capacity g) \<and> nextStride g \<le> capacity g"

definition probe :: "prime_grower \<Rightarrow> nat \<Rightarrow> nat \<Rightarrow> nat" where
  "probe g start k = (start + k * nextStride g) mod capacity g"

lemma gcd_numeral_step:
  "gcd (numeral m :: nat) (numeral n) = gcd (numeral n) (numeral m mod numeral n)"
  by (rule gcd_red_nat)

lemma primes_facts:
  "list_all (\<lambda>p. 0 < p \<and> gcd 46337 p = 1) primes" "sorted_wrt (<) primes"
  by (simp_all add: primes_def gcd_numeral_step)

lemma primes_pos: "i < length primes \<Longrightarrow> 0 < primes ! i"
  using primes_facts(1) by (simp add: list_all_length)

lemma primes_coprime: "i < length primes \<Longrightarrow> coprime (46337 mod (primes ! i)) (primes ! i)"
proof -
  assume "i < length primes"
  then have "0 < primes ! i" "coprime 46337 (primes ! i)"
    using primes_facts(1) by (simp_all add: list_all_length coprime_iff_gcd_eq_1)
  then show ?thesis by (simp add: coprime_mod_left_iff)
qed

lemma grower_ok_capacity: "grower_ok g \<Longrightarrow> 0 < capacity g"
  by (auto simp: grower_ok_def primes_pos)

lemma grower_ok_new: "grower_ok new_prime_grower"
  by (simp add: grower_ok_def new_prime_grower_def primes_def)

lemma grower_ok_inserted [simp]:
  "grower_ok (inserted_cleanly g) = grower_ok g"
  "grower_ok (inserted_collision p g) = grower_ok g"
  "grower_ok (g\<lparr>used := n\<rparr>) = grower_ok g"
  "grower_ok (g\<lparr>collisions := n\<rparr>) = grower_ok g"
  "grower_ok (g\<lparr>collision_path_sum := n\<rparr>) = grower_ok g"
  "grower_ok (g\<lparr>max_path := n\<rparr>) = grower_ok g"
  by (simp_all add: grower_ok_def inserted_cleanly_def inserted_collision_def)

lemma grow_ok:
  assumes "grow g = Some g'" and "grower_ok g"
  shows "grower_ok g' \<and> capacity g < capacity g' \<and> used g' = 0 \<and> collisions g' = 0"
proof -
  have i: "gr_index g + 1 < length primes"
    and g': "g' = \<lparr>capacity = primes ! (gr_index g + 1), used = 0, collisions = 0, max_path = 1,
       collision_path_sum = 0, gr_index = gr_index g + 1,
       nextStride = 46337 mod (primes ! (gr_index g + 1))\<rparr>"
    using assms(1) by (auto simp: grow_def Let_def split: if_splits)
  have "capacity g < capacity g'"
    using assms(2) i primes_facts(2) by (simp add: grower_ok_def g' sorted_wrt_nth_less)
  with i show ?thesis
    using primes_coprime [OF i] primes_pos [OF i]
    by (simp add: g' grower_ok_def mod_le_divisor)
qed

lemma grow_to_ok:
  "grow_to m g = Some g' \<Longrightarrow> grower_ok g \<Longrightarrow>
   grower_ok g' \<and> m \<le> capacity g' \<and>
   (if m \<le> capacity g then g' = g
    else capacity g < capacity g' \<and> used g' = 0 \<and> collisions g' = 0)"
proof (induction m g rule: grow_to.induct)
  case (1 m g)
  show ?case
  proof (cases "capacity g < m")
    case True
    with "1.prems" obtain g1 where g1: "grow g = Some g1" and rest: "grow_to m g1 = Some g'"
      by (auto simp: grow_to.simps [of m g] split: option.splits)
    note ok = grow_ok [OF g1 "1.prems"(2)]
    from "1.IH" [OF True g1 rest] ok True show ?thesis by (auto split: if_splits)
  next
    case False
    with "1.prems" show ?thesis by (simp add: grow_to.simps [of m g])
  qed
qed

lemma mult_coprime_mod_inj:
  fixes a s c k l :: nat
  assumes "coprime s c" and "k < c" and "l \<le> k"
    and "(a + k * s) mod c = (a + l * s) mod c"
  shows "k = l"
proof -
  have "c dvd (a + k * s) - (a + l * s)"
    using assms(3,4) by (intro mod_eq_dvd_iff_nat [THEN iffD1]) auto
  then have "c dvd (k - l) * s" by (simp add: diff_mult_distrib)
  then have "c dvd k - l" using assms(1) by (simp add: coprime_commute coprime_dvd_mult_left_iff)
  moreover have "k - l < c" using assms(2) by simp
  ultimately have "k - l = 0" by (meson dvd_imp_le not_less zero_less_iff_neq_zero)
  with assms(3) show ?thesis by simp
qed

lemma probe_inj:
  assumes "grower_ok g" and "k < capacity g" and "l < capacity g" and "probe g a k = probe g a l"
  shows "k = l"
proof -
  have c: "coprime (nextStride g) (capacity g)" using assms(1) unfolding grower_ok_def by blast
  show ?thesis
  proof (cases "l \<le> k")
    case True
    then show ?thesis
      using mult_coprime_mod_inj [OF c assms(2) True] assms(4) by (simp add: probe_def)
  next
    case False
    then show ?thesis
      using mult_coprime_mod_inj [OF c assms(3), of k a] assms(4) by (simp add: probe_def)
  qed
qed

lemma probe_surj:
  assumes "grower_ok g" and "b < capacity g"
  shows "\<exists>k < capacity g. probe g a k = b"
proof -
  have "inj_on (probe g a) {..<capacity g}"
    using probe_inj [OF assms(1)] by (auto simp: inj_on_def)
  moreover have "probe g a ` {..<capacity g} \<subseteq> {..<capacity g}"
    using grower_ok_capacity [OF assms(1)] by (auto simp: probe_def)
  ultimately have "probe g a ` {..<capacity g} = {..<capacity g}"
    by (intro endo_inj_surj) auto
  with assms(2) have "b \<in> probe g a ` {..<capacity g}" by simp
  then show ?thesis by auto
qed

lemma next_bucket_probe:
  assumes "grower_ok g"
  shows "next_bucket g (probe g a k) = probe g a (Suc k)"
proof -
  have "probe g a k < capacity g" using grower_ok_capacity [OF assms] by (simp add: probe_def)
  moreover have "nextStride g \<le> capacity g" using assms by (simp add: grower_ok_def)
  ultimately have "next_bucket g (probe g a k) = (probe g a k + nextStride g) mod capacity g"
    by (auto simp: next_bucket_def Let_def mod_if)
  also have "\<dots> = probe g a (Suc k)"
    by (simp add: probe_def mod_simps algebra_simps)
  finally show ?thesis .
qed

section \<open>The table invariant\<close>

definition live :: "dword list \<Rightarrow> dword list" where
  "live data = filter (\<lambda>i. i \<noteq> NO_INDEX) data"

abbreviation entries :: "quick_hash \<Rightarrow> dword set" where
  "entries q \<equiv> set (live (qh_data q))"

text \<open>
  \<open>hash\<close> is the hash function and \<open>val\<close> the value each stored index stands for. An entry
  is reachable when every bucket before it on its own probe path is occupied.
\<close>

definition reachable_entry :: "('v \<Rightarrow> nat) \<Rightarrow> (dword \<Rightarrow> 'v) \<Rightarrow> quick_hash \<Rightarrow> nat \<Rightarrow> bool" where
  "reachable_entry hash val q b \<longleftrightarrow>
     (\<exists>k < capacity (qh_grower q).
        probe (qh_grower q) (map_bucket (qh_grower q) (hash (val (qh_data q ! b)))) k = b \<and>
        (\<forall>j < k. qh_data q !
           probe (qh_grower q) (map_bucket (qh_grower q) (hash (val (qh_data q ! b)))) j \<noteq> NO_INDEX))"

text \<open>
  Collisions are counted towards the growth of the table. Single insertions report at most one for
  each entry; a batch can report more, which does no harm below the largest capacities.
\<close>

definition few_collisions :: "prime_grower \<Rightarrow> bool" where
  "few_collisions g \<longleftrightarrow> collisions g \<le> used g \<or> capacity g < 2 ^ 29"

definition qh_inv :: "('v \<Rightarrow> nat) \<Rightarrow> (dword \<Rightarrow> 'v) \<Rightarrow> quick_hash \<Rightarrow> bool" where
  "qh_inv hash val q \<longleftrightarrow>
     grower_ok (qh_grower q) \<and>
     length (qh_data q) = capacity (qh_grower q) \<and>
     used (qh_grower q) = length (live (qh_data q)) \<and>
     used (qh_grower q) < capacity (qh_grower q) \<and>
     few_collisions (qh_grower q) \<and>
     distinct (live (qh_data q)) \<and> inj_on val (entries q) \<and>
     (\<forall>b < capacity (qh_grower q). qh_data q ! b \<noteq> NO_INDEX \<longrightarrow> reachable_entry hash val q b)"

text \<open>The hash function record a client passes agrees with the valuation on the entries.\<close>

definition hf_agrees :: "'v hash_function \<Rightarrow> (dword \<Rightarrow> 'v) \<Rightarrow> dword set \<Rightarrow> bool" where
  "hf_agrees hf val I \<longleftrightarrow>
     (\<forall>i \<in> I. hf_value hf i = val i \<and> (\<forall>v. hf_equal hf v i \<longleftrightarrow> val i = v))"

lemma live_simps [simp]:
  "live [] = []"
  "live (i # is) = (if i = NO_INDEX then live is else i # live is)"
  "live (replicate n NO_INDEX) = []"
  by (auto simp: live_def)

lemma set_live: "set (live xs) = set xs - {NO_INDEX}"
  by (auto simp: live_def)

lemma live_update:
  assumes "b < length xs" and "xs ! b = NO_INDEX" and "i \<noteq> NO_INDEX"
  shows "length (live (xs[b := i])) = Suc (length (live xs))"
    and "set (live (xs[b := i])) = insert i (set (live xs))"
    and "distinct (live xs) \<Longrightarrow> i \<notin> set (live xs) \<Longrightarrow> distinct (live (xs[b := i]))"
proof -
  have split: "xs = take b xs @ NO_INDEX # drop (Suc b) xs"
    using assms(1,2) id_take_nth_drop by metis
  have upd: "xs[b := i] = take b xs @ i # drop (Suc b) xs"
    using assms(1) by (rule upd_conv_take_nth_drop)
  show "length (live (xs[b := i])) = Suc (length (live xs))"
    by (subst (2) split, subst upd) (simp add: live_def assms(3))
  show set_eq: "set (live (xs[b := i])) = insert i (set (live xs))"
    by (subst (2) split, subst upd) (auto simp: live_def assms(3))
  have live_xs: "live xs = live (take b xs) @ live (drop (Suc b) xs)"
    by (subst split) (simp add: live_def)
  show "distinct (live (xs[b := i]))" if "distinct (live xs)" "i \<notin> set (live xs)"
    using that unfolding upd live_xs by (auto simp: live_def assms(3))
qed

lemma qh_invD:
  assumes "qh_inv hash val q"
  shows "grower_ok (qh_grower q)" "length (qh_data q) = capacity (qh_grower q)"
    "used (qh_grower q) = length (live (qh_data q))" "used (qh_grower q) < capacity (qh_grower q)"
    "distinct (live (qh_data q))" "inj_on val (entries q)"
    "\<And>b. b < capacity (qh_grower q) \<Longrightarrow> qh_data q ! b \<noteq> NO_INDEX \<Longrightarrow> reachable_entry hash val q b"
    "few_collisions (qh_grower q)"
  using assms unfolding qh_inv_def by blast+

lemma qh_inv_cong:
  assumes "qh_inv hash val q" and "\<And>i. i \<in> entries q \<Longrightarrow> val' i = val i"
  shows "qh_inv hash val' q"
proof -
  have "val' (qh_data q ! b) = val (qh_data q ! b)"
    if "b < capacity (qh_grower q)" "qh_data q ! b \<noteq> NO_INDEX" for b
    using that assms(2) qh_invD(2) [OF assms(1)] by (simp add: set_live)
  moreover have "inj_on val' (entries q)"
    using qh_invD(6) [OF assms(1)] assms(2) by (auto simp: inj_on_def)
  ultimately show ?thesis
    using assms(1) by (simp add: qh_inv_def reachable_entry_def)
qed

lemma exists_empty_bucket:
  assumes "length (live xs) < length xs"
  shows "\<exists>b < length xs. xs ! b = NO_INDEX"
proof (rule ccontr)
  assume "\<not> ?thesis"
  then have "live xs = xs" unfolding live_def by (auto simp: filter_id_conv in_set_conv_nth)
  with assms show False by simp
qed

lemma qh_inv_empty_probe:
  assumes "qh_inv hash val q"
  shows "\<exists>k < capacity (qh_grower q). qh_data q ! probe (qh_grower q) a k = NO_INDEX"
  using exists_empty_bucket [of "qh_data q"] qh_invD [OF assms]
    probe_surj [of "qh_grower q" _ a] by metis

lemma map_bucket_probe: "grower_ok g \<Longrightarrow> map_bucket g h = probe g (map_bucket g h) 0"
  by (simp add: map_bucket_def probe_def)

section \<open>Lookup\<close>

lemma find_loop_stop:
  assumes "grower_ok (qh_grower q)" and "k \<le> m" and "m < k + fuel"
    and "qh_data q ! probe (qh_grower q) a m = NO_INDEX \<or>
      hf_equal hf v (qh_data q ! probe (qh_grower q) a m)"
    and "\<And>j. k \<le> j \<Longrightarrow> j < m \<Longrightarrow> qh_data q ! probe (qh_grower q) a j \<noteq> NO_INDEX \<and>
      \<not> hf_equal hf v (qh_data q ! probe (qh_grower q) a j)"
  shows "find_loop fuel hf q v (probe (qh_grower q) a k) =
    Some (qh_data q ! probe (qh_grower q) a m)"
  using assms
proof (induction fuel arbitrary: k)
  case (Suc fuel)
  show ?case
  proof (cases "k = m")
    case True
    with Suc.prems(4) show ?thesis by (auto simp: Let_def)
  next
    case False
    then have "k < m" using Suc.prems(2) by simp
    have "find_loop fuel hf q v (probe (qh_grower q) a (Suc k)) =
      Some (qh_data q ! probe (qh_grower q) a m)"
      using \<open>k < m\<close> Suc.prems by (intro Suc.IH) auto
    with \<open>k < m\<close> Suc.prems show ?thesis
      by (simp add: Let_def next_bucket_probe)
  qed
qed simp

lemma qh_find_stop:
  fixes v :: 'v
  assumes "qh_inv hash val q" and "hf_hash hf = hash"
  defines "p \<equiv> probe (qh_grower q) (map_bucket (qh_grower q) (hash v))"
  obtains m where "m < capacity (qh_grower q)"
    and "qh_find hf q v = Some (qh_data q ! p m)"
    and "qh_data q ! p m = NO_INDEX \<or> hf_equal hf v (qh_data q ! p m)"
    and "\<And>j. j < m \<Longrightarrow> qh_data q ! p j \<noteq> NO_INDEX \<and> \<not> hf_equal hf v (qh_data q ! p j)"
proof -
  define stop where "stop k \<longleftrightarrow> qh_data q ! p k = NO_INDEX \<or> hf_equal hf v (qh_data q ! p k)" for k
  from qh_inv_empty_probe [OF assms(1)] obtain e where
    e: "e < capacity (qh_grower q)" "stop e" by (auto simp: stop_def p_def)
  define m where "m = (LEAST k. stop k)"
  have m: "stop m" "m \<le> e" "\<And>j. j < m \<Longrightarrow> \<not> stop j"
    using e(2) not_less_Least by (auto simp: m_def intro: LeastI Least_le)
  note ok = qh_invD(1) [OF assms(1)]
  have "qh_find hf q v = Some (qh_data q ! p m)"
    unfolding qh_find_def assms(2)
    by (subst map_bucket_probe [OF ok], unfold p_def, rule find_loop_stop [OF ok])
       (use m e in \<open>auto simp: stop_def p_def\<close>)
  with m e show thesis by (intro that [of m]) (auto simp: stop_def)
qed

lemma qh_find_absent:
  assumes inv: "qh_inv hash val q" and "hf_hash hf = hash" and agr: "hf_agrees hf val (entries q)"
    and "v \<notin> val ` entries q"
  shows "qh_find hf q v = Some NO_INDEX"
proof -
  from qh_find_stop [OF assms(1,2), where v = v] obtain m where
    m: "m < capacity (qh_grower q)"
      "qh_find hf q v = Some (qh_data q ! probe (qh_grower q) (map_bucket (qh_grower q) (hash v)) m)"
      "qh_data q ! probe (qh_grower q) (map_bucket (qh_grower q) (hash v)) m = NO_INDEX \<or>
       hf_equal hf v (qh_data q ! probe (qh_grower q) (map_bucket (qh_grower q) (hash v)) m)"
    by metis
  let ?i = "qh_data q ! probe (qh_grower q) (map_bucket (qh_grower q) (hash v)) m"
  have "?i \<in> set (qh_data q)"
    using qh_invD(2) [OF inv] grower_ok_capacity [OF qh_invD(1) [OF inv]] by (simp add: probe_def)
  have "?i = NO_INDEX"
  proof (rule ccontr)
    assume no: "?i \<noteq> NO_INDEX"
    with \<open>?i \<in> set (qh_data q)\<close> have in_e: "?i \<in> entries q" by (simp add: set_live)
    then have "val ?i = v" using m(3) no agr by (auto simp: hf_agrees_def)
    with in_e have "v \<in> val ` entries q" by (metis image_eqI)
    then show False using assms(4) by blast
  qed
  with m(2) show ?thesis by simp
qed

lemma qh_find_present:
  assumes inv: "qh_inv hash val q" and "hf_hash hf = hash" and agr: "hf_agrees hf val (entries q)"
    and "i \<in> entries q" and "val i = v"
  shows "qh_find hf q v = Some i"
proof -
  let ?p = "probe (qh_grower q) (map_bucket (qh_grower q) (hash v))"
  from qh_find_stop [OF assms(1,2), where v = v] obtain m where
    m: "m < capacity (qh_grower q)" "qh_find hf q v = Some (qh_data q ! ?p m)"
      "qh_data q ! ?p m = NO_INDEX \<or> hf_equal hf v (qh_data q ! ?p m)"
      "\<And>j. j < m \<Longrightarrow> qh_data q ! ?p j \<noteq> NO_INDEX \<and> \<not> hf_equal hf v (qh_data q ! ?p j)"
    by metis
  from assms(4) obtain b where b: "b < capacity (qh_grower q)" "qh_data q ! b = i" "i \<noteq> NO_INDEX"
    using qh_invD(2) [OF inv] by (auto simp: set_live in_set_conv_nth)
  from qh_invD(7) [OF inv b(1)] b(2,3) assms(5) obtain k where
    k: "?p k = b" "\<And>j. j < k \<Longrightarrow> qh_data q ! ?p j \<noteq> NO_INDEX"
    by (auto simp: reachable_entry_def)
  have eqi: "hf_equal hf v i" using agr assms(4,5) by (auto simp: hf_agrees_def)
  then have "m \<le> k" using m(4) [of k] k(1) b(2) by fastforce
  have "qh_data q ! ?p m \<noteq> NO_INDEX"
    using \<open>m \<le> k\<close> k b by (cases "m = k") auto
  moreover have "qh_data q ! ?p m \<in> set (qh_data q)"
    using qh_invD(2) [OF inv] grower_ok_capacity [OF qh_invD(1) [OF inv]] by (simp add: probe_def)
  ultimately have "qh_data q ! ?p m \<in> entries q" "val (qh_data q ! ?p m) = v"
    using m(3) agr by (auto simp: hf_agrees_def set_live)
  then have "qh_data q ! ?p m = i"
    using qh_invD(6) [OF inv] assms(4,5) by (auto simp: inj_on_def)
  with m(2) show ?thesis by simp
qed

section \<open>Insertion\<close>

lemma probe_empty_stop:
  assumes "grower_ok (qh_grower q)" and "k < m" and "m \<le> k + fuel"
    and "qh_data q ! probe (qh_grower q) a m = NO_INDEX"
    and "\<And>j. k < j \<Longrightarrow> j < m \<Longrightarrow> qh_data q ! probe (qh_grower q) a j \<noteq> NO_INDEX"
  shows "probe_empty fuel q (probe (qh_grower q) a k) path =
    Some (probe (qh_grower q) a m, path + (m - k))"
  using assms
proof (induction fuel arbitrary: k path)
  case (Suc fuel)
  show ?case
  proof (cases "Suc k = m")
    case True
    with Suc.prems show ?thesis by (simp add: Let_def next_bucket_probe)
  next
    case False
    then have "Suc k < m" using Suc.prems(2) by simp
    have "probe_empty fuel q (probe (qh_grower q) a (Suc k)) (path + 1) =
        Some (probe (qh_grower q) a m, path + 1 + (m - Suc k))"
      using \<open>Suc k < m\<close> Suc.prems by (intro Suc.IH) auto
    with \<open>Suc k < m\<close> Suc.prems show ?thesis
      by (simp add: Let_def next_bucket_probe)
  qed
qed simp

lemma first_empty_bucket:
  assumes "qh_inv hash val q"
  obtains m where "m < capacity (qh_grower q)" "qh_data q ! probe (qh_grower q) a m = NO_INDEX"
    "\<And>j. j < m \<Longrightarrow> qh_data q ! probe (qh_grower q) a j \<noteq> NO_INDEX"
proof -
  define empty where "empty k \<longleftrightarrow> qh_data q ! probe (qh_grower q) a k = NO_INDEX" for k
  from qh_inv_empty_probe [OF assms] obtain e where e: "e < capacity (qh_grower q)" "empty e" by (auto simp: empty_def)
  define m where "m = (LEAST k. empty k)"
  have m: "empty m" "m \<le> e" unfolding m_def using e(2) by (rule LeastI, rule Least_le)
  have "\<not> empty j" if "j < m" for j using that unfolding m_def by (rule not_less_Least)
  with m e(1) show ?thesis by (intro that [of m]) (simp_all add: empty_def)
qed

text \<open>The insertion target is the first empty bucket of the value's probe path.\<close>

lemma internal_insert_target:
  fixes h :: nat
  assumes inv: "qh_inv hash val q"
  defines "p \<equiv> probe (qh_grower q) (map_bucket (qh_grower q) h)"
  obtains m g where "m < capacity (qh_grower q)" and "qh_data q ! p m = NO_INDEX"
    and "\<And>j. j < m \<Longrightarrow> qh_data q ! p j \<noteq> NO_INDEX"
    and "internal_insert q (map_bucket (qh_grower q) h) i =
      Some \<lparr>qh_data = (qh_data q)[p m := i], qh_grower = g\<rparr>"
    and "grower_ok g" and "capacity g = capacity (qh_grower q)"
    and "used g = used (qh_grower q) + 1" and "nextStride g = nextStride (qh_grower q)"
    and "collisions g \<le> collisions (qh_grower q) + 1"
proof -
  obtain m where e: "m < capacity (qh_grower q)" and m: "qh_data q ! p m = NO_INDEX" "\<And>j. j < m \<Longrightarrow> qh_data q ! p j \<noteq> NO_INDEX"
    using first_empty_bucket [OF inv] unfolding p_def by blast
  note ok = qh_invD(1) [OF inv]
  have p0: "map_bucket (qh_grower q) h = p 0" unfolding p_def by (rule map_bucket_probe [OF ok])
  show thesis
  proof (cases "m = 0")
    case True
    then have "internal_insert q (map_bucket (qh_grower q) h) i =
      Some \<lparr>qh_data = (qh_data q)[p m := i], qh_grower = inserted_cleanly (qh_grower q)\<rparr>"
      using m(1) by (simp add: internal_insert_def p0)
    with m e ok show thesis
      by (intro that [of m "inserted_cleanly (qh_grower q)"]) (auto simp: inserted_cleanly_def)
  next
    case False
    then have "probe_empty (capacity (qh_grower q)) q (p 0) 0 = Some (p m, m)"
      using probe_empty_stop [OF ok, of 0 m "capacity (qh_grower q)" "map_bucket (qh_grower q) h" 0]
        m e by (simp add: p_def)
    moreover have "qh_data q ! p 0 \<noteq> NO_INDEX" using m(2) False by simp
    ultimately have "internal_insert q (map_bucket (qh_grower q) h) i =
      Some \<lparr>qh_data = (qh_data q)[p m := i], qh_grower = inserted_collision m (qh_grower q)\<rparr>"
      by (simp add: internal_insert_def p0)
    with m e ok show thesis
      by (intro that [of m "inserted_collision m (qh_grower q)"]) (auto simp: inserted_collision_def)
  qed
qed

lemma probe_cong:
  "capacity g = capacity g' \<Longrightarrow> nextStride g = nextStride g' \<Longrightarrow> probe g = probe g'"
  "capacity g = capacity g' \<Longrightarrow> map_bucket g = map_bucket g'"
  by (auto simp: probe_def map_bucket_def fun_eq_iff)

lemma reachable_entry_update:
  assumes "reachable_entry hash val q b" and "qh_data q ! b \<noteq> NO_INDEX"
    and "qh_data q ! t = NO_INDEX" and "i \<noteq> NO_INDEX"
    and "val' (qh_data q ! b) = val (qh_data q ! b)"
    and "capacity g = capacity (qh_grower q)" and "nextStride g = nextStride (qh_grower q)"
  shows "reachable_entry hash val' \<lparr>qh_data = (qh_data q)[t := i], qh_grower = g\<rparr> b"
proof -
  have "b \<noteq> t" using assms(2,3) by auto
  moreover have "(qh_data q)[t := i] ! j \<noteq> NO_INDEX" if "qh_data q ! j \<noteq> NO_INDEX" for j
    using that assms(4) by (cases "t < length (qh_data q)") (auto simp: nth_list_update list_update_beyond)
  ultimately show ?thesis
    using assms(1,5) probe_cong(1) [OF assms(6,7)] probe_cong(2) [OF assms(6)]
    unfolding reachable_entry_def by (auto simp: assms(6))
qed

text \<open>Entering a value in the first empty bucket of its probe path keeps the invariant.\<close>

lemma qh_inv_update:
  fixes v :: 'v
  assumes inv: "qh_inv hash val q" and i: "i \<noteq> NO_INDEX" "i \<notin> entries q" and v: "v \<notin> val ` entries q"
    and room: "used (qh_grower q) + 1 < capacity (qh_grower q)"
  defines "p \<equiv> probe (qh_grower q) (map_bucket (qh_grower q) (hash v))"
  assumes m: "m < capacity (qh_grower q)" "qh_data q ! p m = NO_INDEX" "\<And>j. j < m \<Longrightarrow> qh_data q ! p j \<noteq> NO_INDEX"
    and g: "grower_ok g" "capacity g = capacity (qh_grower q)" "used g = used (qh_grower q) + 1"
      "nextStride g = nextStride (qh_grower q)" "few_collisions g"
  shows "qh_inv hash (val(i := v)) \<lparr>qh_data = (qh_data q)[p m := i], qh_grower = g\<rparr>"
    and "set (live ((qh_data q)[p m := i])) = insert i (entries q)"
proof -
  let ?q = "\<lparr>qh_data = (qh_data q)[p m := i], qh_grower = g\<rparr>"
  note D = qh_invD [OF inv]
  have len: "p m < length (qh_data q)"
    using D(2) grower_ok_capacity [OF D(1)] by (simp add: p_def probe_def)
  note upd = live_update [OF len m(2) i(1)]
  show ent: "set (live ((qh_data q)[p m := i])) = insert i (entries q)" by (rule upd(2))
  have "inj_on (val(i := v)) (insert i (entries q))"
    using D(6) i(2) v by (auto simp: inj_on_def)
  moreover have "reachable_entry hash (val(i := v)) ?q b"
    if "b < capacity g" "qh_data ?q ! b \<noteq> NO_INDEX" for b
  proof (cases "b = p m")
    case True
    have "(qh_data q)[p m := i] ! p j \<noteq> NO_INDEX" if "j < m" for j
      using that m(2,3) by (metis nth_list_update_neq)
    then show ?thesis
      unfolding reachable_entry_def using True m(1) len g(2)
      by (intro exI [of _ m]) (simp add: p_def probe_cong(1) [OF g(2,4)] probe_cong(2) [OF g(2)])
  next
    case False
    then have b: "qh_data q ! b \<noteq> NO_INDEX" using that(2) by simp
    then have "qh_data q ! b \<in> entries q" using that(1) D(2) g(2) by (simp add: set_live)
    then have "qh_data q ! b \<noteq> i" using i(2) by blast
    with D(7) [OF _ b] that(1) g(2) show ?thesis
      by (intro reachable_entry_update [OF _ b m(2) i(1)]) (use g in auto)
  qed
  ultimately show "qh_inv hash (val(i := v)) ?q"
    unfolding qh_inv_def using D g upd i(2) room by (simp add: ent [simplified])
qed

lemma internal_insert_inv:
  assumes inv: "qh_inv hash val q" and "i \<noteq> NO_INDEX" and "i \<notin> entries q"
    and "v \<notin> val ` entries q" and "used (qh_grower q) + 1 < capacity (qh_grower q)"
  shows "\<exists>q'. internal_insert q (map_bucket (qh_grower q) (hash v)) i = Some q' \<and>
    qh_inv hash (val(i := v)) q' \<and> entries q' = insert i (entries q) \<and>
    capacity (qh_grower q') = capacity (qh_grower q) \<and>
    used (qh_grower q') = used (qh_grower q) + 1 \<and>
    collisions (qh_grower q') \<le> collisions (qh_grower q) + 1"
proof -
  let ?p = "probe (qh_grower q) (map_bucket (qh_grower q) (hash v))"
  from internal_insert_target [OF inv, of "hash v" i] obtain m g where
    m: "m < capacity (qh_grower q)" "qh_data q ! ?p m = NO_INDEX"
      "\<And>j. j < m \<Longrightarrow> qh_data q ! ?p j \<noteq> NO_INDEX"
    and ins: "internal_insert q (map_bucket (qh_grower q) (hash v)) i =
      Some \<lparr>qh_data = (qh_data q)[?p m := i], qh_grower = g\<rparr>"
    and g: "grower_ok g" "capacity g = capacity (qh_grower q)"
      "used g = used (qh_grower q) + 1" "nextStride g = nextStride (qh_grower q)"
      "collisions g \<le> collisions (qh_grower q) + 1" by metis
  have "few_collisions g" using qh_invD(8) [OF inv] g by (auto simp: few_collisions_def)
  from qh_inv_update [OF inv assms(2-5) m g(1-4) this] ins g show ?thesis by simp
qed


lemma qh_inv_created:
  "grower_ok g \<Longrightarrow> used g = 0 \<Longrightarrow> collisions g = 0 \<Longrightarrow>
   qh_inv hash val \<lparr>qh_data = create_data g, qh_grower = g\<rparr>"
  by (simp add: qh_inv_def create_data_def grower_ok_capacity few_collisions_def)

lemma qh_inv_new: "qh_inv hash val new_quick_hash"
  unfolding new_quick_hash_def
  by (rule qh_inv_created) (simp_all add: grower_ok_new, simp_all add: new_prime_grower_def)

lemma entries_new: "entries new_quick_hash = {}"
  by (simp add: new_quick_hash_def create_data_def)

section \<open>Growth keeps the entries\<close>

lemma rehash_loop_inv:
  assumes "qh_inv (hf_hash hf) val q" and "hf_agrees hf val (set (live old))"
    and "distinct (live old)" and "inj_on val (set (live old) \<union> entries q)"
    and "set (live old) \<inter> entries q = {}"
    and "used (qh_grower q) + length (live old) < capacity (qh_grower q)"
  shows "\<exists>q'. rehash_loop hf old q = Some q' \<and> qh_inv (hf_hash hf) val q' \<and>
    entries q' = entries q \<union> set (live old) \<and> capacity (qh_grower q') = capacity (qh_grower q) \<and>
    used (qh_grower q') = used (qh_grower q) + length (live old)"
  using assms
proof (induction old arbitrary: q)
  case (Cons i old)
  show ?case
  proof (cases "i = NO_INDEX")
    case False
    have new: "i \<notin> entries q" using Cons.prems(5) False by auto
    have fresh: "val i \<notin> val ` entries q"
      using Cons.prems(4) False new by (auto simp: inj_on_def)
    have value_i: "hf_value hf i = val i" using Cons.prems(2) False by (simp add: hf_agrees_def)
    from internal_insert_inv [OF Cons.prems(1) False new fresh] Cons.prems(6) False
    obtain q1 where q1: "internal_insert q (map_bucket (qh_grower q) (hf_hash hf (val i))) i = Some q1"
        "qh_inv (hf_hash hf) val q1" "entries q1 = insert i (entries q)"
        "capacity (qh_grower q1) = capacity (qh_grower q)"
        "used (qh_grower q1) = used (qh_grower q) + 1"
      by (auto simp: fun_upd_idem)
    have "\<exists>q'. rehash_loop hf old q1 = Some q' \<and> qh_inv (hf_hash hf) val q' \<and>
      entries q' = entries q1 \<union> set (live old) \<and>
      capacity (qh_grower q') = capacity (qh_grower q1) \<and>
      used (qh_grower q') = used (qh_grower q1) + length (live old)"
      using Cons.prems False q1 by (intro Cons.IH) (auto simp: hf_agrees_def)
    with q1 False value_i show ?thesis by auto
  next
    case True
    with Cons show ?thesis by simp
  qed
qed simp

lemma grow_to_some:
  "grower_ok g \<Longrightarrow> m \<le> 1073741827 \<Longrightarrow> \<exists>g'. grow_to m g = Some g'"
proof (induction m g rule: grow_to.induct)
  case (1 m g)
  show ?case
  proof (cases "capacity g < m")
    case True
    then have "gr_index g \<noteq> 29" using 1(2,3) by (auto simp: grower_ok_def primes_def)
    moreover have "gr_index g < 30" using 1(2) by (simp add: grower_ok_def primes_def)
    ultimately have "gr_index g + 1 < length primes" by (simp add: primes_def)
    then obtain g1 where g1: "grow g = Some g1" by (simp add: grow_def Let_def)
    from "1.IH" [OF True g1] grow_ok [OF g1 1(2)] 1(3) True g1 show ?thesis
      by (simp add: grow_to.simps [of m g])
  qed (simp add: grow_to.simps [of m g])
qed

lemma grow_to_bounded:
  "grow_to m g = Some g' \<Longrightarrow> grower_ok g \<Longrightarrow> m \<le> 536870909 \<Longrightarrow> capacity g \<le> 536870909 \<Longrightarrow> capacity g' \<le> 536870909"
proof (induction m g rule: grow_to.induct)
  case (1 m g)
  show ?case
  proof (cases "capacity g < m")
    case True
    with 1(2) obtain g1 where g1: "grow g = Some g1" and rest: "grow_to m g1 = Some g'"
      by (auto simp: grow_to.simps [of m g] split: option.splits)
    have g: "gr_index g < 30" "capacity g = primes ! gr_index g" using 1(3) by (simp_all add: grower_ok_def primes_def)
    have "gr_index g \<noteq> 28" "gr_index g \<noteq> 29" using True 1(4) g(2) by (auto simp: primes_def)
    then have i: "gr_index g < 28" using g(1) by linarith
    then have "primes ! (gr_index g + 1) \<le> primes ! 28"
      using sorted_wrt_nth_less [OF primes_facts(2), of "gr_index g + 1" 28] by (cases "gr_index g + 1 = 28") (simp_all add: primes_def)
    moreover have "capacity g1 = primes ! (gr_index g + 1)" using g1 i by (auto simp: grow_def Let_def primes_def)
    ultimately have "capacity g1 \<le> 536870909" by (simp add: primes_def)
    with "1.IH" [OF True g1 rest] grow_ok [OF g1 1(3)] 1(4) show ?thesis by simp
  next
    case False
    with 1(2,5) show ?thesis by (simp add: grow_to.simps [of m g])
  qed
qed

lemma qh_reserve_inv:
  assumes inv: "qh_inv (hf_hash hf) val q" and agr: "hf_agrees hf val (entries q)"
    and m: "m + m div 2 \<le> 1073741827"
  shows "\<exists>q'. qh_reserve hf m q = Some q' \<and> qh_inv (hf_hash hf) val q' \<and>
    entries q' = entries q \<and> m + m div 2 \<le> capacity (qh_grower q') \<and>
    used (qh_grower q') = used (qh_grower q) \<and>
    (m + m div 2 \<le> 536870909 \<longrightarrow> capacity (qh_grower q) \<le> 536870909 \<longrightarrow> capacity (qh_grower q') \<le> 536870909)"
proof -
  note D = qh_invD [OF inv]
  have small: "m < (2 ^ 64 - 1) div 16" using m by simp
  from grow_to_some [OF D(1) m] obtain g where g: "grow_to (m + m div 2) (qh_grower q) = Some g"
    by blast
  note G = grow_to_ok [OF g D(1)]
  show ?thesis
  proof (cases "m + m div 2 \<le> capacity (qh_grower q)")
    case True
    with G have "g = qh_grower q" by simp
    with small g inv True show ?thesis by (simp add: qh_reserve_def Let_def)
  next
    case False
    with G have grown: "grower_ok g" "capacity (qh_grower q) < capacity g" "used g = 0"
      "collisions g = 0" "m + m div 2 \<le> capacity g" by simp_all
    have "\<exists>q'. rehash_loop hf (qh_data q) \<lparr>qh_data = create_data g, qh_grower = g\<rparr> = Some q' \<and>
      qh_inv (hf_hash hf) val q' \<and>
      entries q' = entries \<lparr>qh_data = create_data g, qh_grower = g\<rparr> \<union> set (live (qh_data q)) \<and>
      capacity (qh_grower q') = capacity (qh_grower \<lparr>qh_data = create_data g, qh_grower = g\<rparr>) \<and>
      used (qh_grower q') =
        used (qh_grower \<lparr>qh_data = create_data g, qh_grower = g\<rparr>) + length (live (qh_data q))"
      using D agr grown qh_inv_created [OF grown(1,3,4)]
      by (intro rehash_loop_inv) (auto simp: create_data_def)
    then show ?thesis
      using small g grown D(3) grow_to_bounded [OF g D(1)] by (auto simp: qh_reserve_def Let_def rehash_def create_data_def)
  qed
qed

section \<open>What insertion promises\<close>

lemma prime_capacity_gap:
  "grower_ok g \<Longrightarrow> capacity g < 536870912 \<Longrightarrow>
   capacity g + 1 + (capacity g + 1) div 2 \<le> 1073741827"
  by linarith

text \<open>2^28 entries always fit.\<close>

lemma qh_insert_inv:
  assumes inv: "qh_inv (hf_hash hf) val q" and agr: "hf_agrees hf val (entries q)"
    and "i \<noteq> NO_INDEX" and "i \<notin> entries q" and "v \<notin> val ` entries q"
    and room: "used (qh_grower q) < 2 ^ 28"
  shows "\<exists>q'. qh_insert hf q v i = Some q' \<and> qh_inv (hf_hash hf) (val(i := v)) q' \<and>
    entries q' = insert i (entries q) \<and> used (qh_grower q') = used (qh_grower q) + 1"
proof -
  note D = qh_invD [OF inv]
  let ?c = "capacity (qh_grower q)"
  have "\<exists>q1. (if should_grow q then qh_reserve hf (?c + 1) q else Some q) = Some q1 \<and>
    qh_inv (hf_hash hf) val q1 \<and> entries q1 = entries q \<and>
    used (qh_grower q1) = used (qh_grower q) \<and>
    used (qh_grower q1) + 1 < capacity (qh_grower q1)"
  proof (cases "should_grow q")
    case True
    then have "?c < 536870912" using D(8) room by (auto simp: should_grow_def few_collisions_def)
    from qh_reserve_inv [OF inv agr prime_capacity_gap [OF D(1) this]]
    show ?thesis using True D(4) by auto
  next
    case False
    with inv show ?thesis by (simp add: should_grow_def)
  qed
  then obtain q1 where q1: "(if should_grow q then qh_reserve hf (?c + 1) q else Some q) = Some q1"
    "qh_inv (hf_hash hf) val q1" "entries q1 = entries q" "used (qh_grower q1) = used (qh_grower q)"
    "used (qh_grower q1) + 1 < capacity (qh_grower q1)" by blast
  have "v \<notin> val ` entries q1" "i \<notin> entries q1" using assms(4,5) q1(3) by simp_all
  from internal_insert_inv [OF q1(2) assms(3) this(2,1) q1(5)] q1 show ?thesis
    by (auto simp: qh_insert_def)
qed

lemma qh_find_total:
  assumes "qh_inv (hf_hash hf) val q" and "hf_agrees hf val (entries q)"
  shows "(\<exists>i \<in> entries q. val i = v \<and> qh_find hf q v = Some i) \<or>
    (v \<notin> val ` entries q \<and> qh_find hf q v = Some NO_INDEX)"
  using qh_find_absent [OF assms(1) refl assms(2), of v]
    qh_find_present [OF assms(1) refl assms(2)] by blast

text \<open>
  C8. Inserting a value that is not yet in the hash returns (no probe loop runs forever, also
  across a rehash), keeps the table invariant and changes lookups exactly as a finite map
  update does: the new value is found at its index and every other value is found where it was.
\<close>

theorem qh_insert_updates_lookup:
  assumes inv: "qh_inv (hf_hash hf) val q" and agr: "hf_agrees hf val (entries q)"
    and "i \<noteq> NO_INDEX" and "i \<notin> entries q" and "v \<notin> val ` entries q"
    and "used (qh_grower q) < 2 ^ 28"
    and "hf_hash hf' = hf_hash hf" and "hf_agrees hf' (val(i := v)) (insert i (entries q))"
  shows "\<exists>q'. qh_insert hf q v i = Some q' \<and> qh_inv (hf_hash hf) (val(i := v)) q' \<and>
    entries q' = insert i (entries q) \<and>
    (\<forall>w. qh_find hf' q' w = (if w = v then Some i else qh_find hf q w))"
proof -
  from qh_insert_inv [OF assms(1-6)] obtain q' where q': "qh_insert hf q v i = Some q'"
    "qh_inv (hf_hash hf) (val(i := v)) q'" "entries q' = insert i (entries q)" by blast
  have inv': "qh_inv (hf_hash hf') (val(i := v)) q'" using q'(2) assms(7) by simp
  have agr': "hf_agrees hf' (val(i := v)) (entries q')" using assms(8) q'(3) by simp
  have "qh_find hf' q' w = (if w = v then Some i else qh_find hf q w)" for w
  proof (cases "w = v")
    case True
    then show ?thesis using qh_find_present [OF inv' refl agr', of i] q'(3) by simp
  next
    case False
    from qh_find_total [OF inv agr, of w] show ?thesis
    proof (elim disjE bexE conjE)
      fix j assume j: "j \<in> entries q" "val j = w" "qh_find hf q w = Some j"
      then have "(val(i := v)) j = w" using assms(4) by auto
      then show ?thesis using qh_find_present [OF inv' refl agr', of j] q'(3) j False by simp
    next
      assume "w \<notin> val ` entries q" "qh_find hf q w = Some NO_INDEX"
      moreover from this(1) have "w \<notin> (val(i := v)) ` entries q'"
        using False q'(3) assms(4) by auto
      ultimately show ?thesis using qh_find_absent [OF inv' refl agr', of w] False by simp
    qed
  qed
  with q' show ?thesis by blast
qed

text \<open>
  \<open>may_cause_growth\<close> is a sound prediction: when it says that \<open>n + 1\<close> insertions will not
  grow the hash, the next insertion keeps the capacity and the answer stays valid for \<open>n\<close> more.
\<close>

theorem no_growth_predicted:
  assumes inv: "qh_inv (hf_hash hf) val q" and "\<not> may_cause_growth q (Suc n)"
    and "i \<noteq> NO_INDEX" and "i \<notin> entries q" and "v \<notin> val ` entries q"
  shows "\<exists>q'. qh_insert hf q v i = Some q' \<and> capacity (qh_grower q') = capacity (qh_grower q) \<and>
    \<not> may_cause_growth q' n"
proof -
  have cap: "used (qh_grower q) + collisions (qh_grower q) + 2 * Suc n < capacity (qh_grower q)"
    using assms(2) by (simp add: may_cause_growth_def)
  then have "\<not> should_grow q" by (simp add: should_grow_def)
  with internal_insert_inv [OF inv assms(3-5)] cap show ?thesis
    by (auto simp: qh_insert_def may_cause_growth_def)
qed

definition sample_hf :: "nat hash_function" where
  "sample_hf = \<lparr>hf_hash = (\<lambda>v. v), hf_value = unat, hf_equal = (\<lambda>v i. unat i = v)\<rparr>"

lemma sample_hf_agrees: "hf_agrees sample_hf unat I"
  by (simp add: hf_agrees_def sample_hf_def)

lemma qh_insert_updates_lookup_witness:
  "\<exists>q'. qh_insert sample_hf new_quick_hash 5 5 = Some q' \<and> qh_find sample_hf q' 5 = Some 5 \<and>
    qh_find sample_hf q' 7 = qh_find sample_hf new_quick_hash 7"
proof -
  have "unat(5 := 5) = (unat :: dword \<Rightarrow> nat)" by (rule fun_upd_idem) simp
  with qh_insert_updates_lookup [of sample_hf unat new_quick_hash 5 5 sample_hf]
    sample_hf_agrees qh_inv_new [of "hf_hash sample_hf" unat]
  show ?thesis
    by (simp add: entries_new [simplified] NO_INDEX_def) (auto simp: new_quick_hash_def new_prime_grower_def)
qed

lemma no_growth_predicted_witness:
  "\<exists>q. \<not> may_cause_growth q (Suc 1) \<and>
    (\<exists>q'. qh_insert sample_hf q 9 9 = Some q' \<and> capacity (qh_grower q') = capacity (qh_grower q) \<and>
      \<not> may_cause_growth q' 1)"
proof -
  let ?g = "new_prime_grower\<lparr>capacity := 7, gr_index := 2, nextStride := 46337 mod 7\<rparr>"
  let ?q = "\<lparr>qh_data = create_data ?g, qh_grower = ?g\<rparr>"
  have "grower_ok ?g" using primes_coprime [of 2] by (simp add: grower_ok_def primes_def)
  then have "qh_inv (hf_hash sample_hf) unat ?q"
    by (rule qh_inv_created) (simp_all add: new_prime_grower_def)
  moreover have "\<not> may_cause_growth ?q (Suc 1)"
    by (simp add: may_cause_growth_def new_prime_grower_def)
  moreover have "entries ?q = {}" by (simp add: create_data_def)
  ultimately have "\<exists>q'. qh_insert sample_hf ?q 9 9 = Some q' \<and>
    capacity (qh_grower q') = capacity (qh_grower ?q) \<and> \<not> may_cause_growth q' 1"
    by (intro no_growth_predicted) (simp_all add: NO_INDEX_def)
  with \<open>\<not> may_cause_growth ?q (Suc 1)\<close> show ?thesis by (intro exI [of _ ?q]) simp
qed

end
