(* ===== verification/QuickHashBatch.thy ===== *)
theory QuickHashBatch
  imports QuickHash "HOL-Library.Multiset"
begin

text \<open>
  Inserting a range of values into the hash (\<^verbatim>\<open>presorted_insert\<close> and the range form of \<^verbatim>\<open>insert\<close> in
  \<^verbatim>\<open>src/src/Utils/QuickHash.h\<close>): 1000 or more values go through a buffer of 256 clusters, each for a part of the
  table, that is written whenever a cluster is full. The buffer is an array of rows; its contents
  before the first use are a parameter.
\<close>

section \<open>The algorithm\<close>

definition MAX_CLUSTERS :: nat where "MAX_CLUSTERS = 256"

function cluster_shift :: "nat \<Rightarrow> nat \<Rightarrow> nat" where
  "cluster_shift cap shift = (if push_bit shift MAX_CLUSTERS < cap then cluster_shift cap (shift + 1) else shift)"
  by pat_completeness auto
termination
proof (relation "measure (\<lambda>(cap, shift). cap - shift)")
  fix cap shift :: nat
  assume "push_bit shift MAX_CLUSTERS < cap"
  moreover have "shift < 2 ^ shift" by (rule less_exp)
  ultimately have "shift < cap" unfolding push_bit_eq_mult MAX_CLUSTERS_def by linarith
  then show "((cap, shift + 1), cap, shift) \<in> measure (\<lambda>(cap, shift). cap - shift)" by simp
qed simp

declare cluster_shift.simps [simp del]

text \<open>The pairs of bucket and index of a cluster are entered one by one; collisions are counted in steps.\<close>

fun insert_cluster :: "(nat \<times> dword) list \<Rightarrow> quick_hash \<Rightarrow> nat \<Rightarrow> (quick_hash \<times> nat) option" where
  "insert_cluster [] q collisions_count = Some (q, collisions_count)"
| "insert_cluster ((bucket, index) # pairs) q collisions_count =
     Option.bind (if qh_data q ! bucket = NO_INDEX then Some (bucket, 0) else probe_empty (capacity (qh_grower q)) q bucket 0)
       (\<lambda>(target, steps). insert_cluster pairs (q\<lparr>qh_data := (qh_data q)[target := index]\<rparr>) (collisions_count + steps))"

definition write_cluster :: "(nat \<times> dword) list \<Rightarrow> quick_hash \<Rightarrow> quick_hash option" where
  "write_cluster pairs q =
     map_option (\<lambda>(q, collisions_count). q\<lparr>qh_grower := batch_inserted (length pairs) collisions_count (qh_grower q)\<rparr>)
       (insert_cluster pairs q 0)"

type_synonym clusters = "(nat \<times> dword) list list"

fun presort_loop ::
  "'v hash_function \<Rightarrow> nat \<Rightarrow> nat \<Rightarrow> 'v list \<Rightarrow> dword \<Rightarrow> clusters \<Rightarrow> nat list \<Rightarrow> quick_hash \<Rightarrow> (clusters \<times> nat list \<times> quick_hash) option"
where
  "presort_loop hf shift clusterSize [] index temp useds q = Some (temp, useds, q)"
| "presort_loop hf shift clusterSize (v # vs) index temp useds q =
     (let bucket = map_bucket (qh_grower q) (hf_hash hf v);
          clusterIndex = drop_bit shift bucket;
          temp = temp[clusterIndex := (temp ! clusterIndex)[useds ! clusterIndex := (bucket, index)]];
          useds = useds[clusterIndex := useds ! clusterIndex + 1] in
      if useds ! clusterIndex = clusterSize
      then Option.bind (write_cluster (temp ! clusterIndex) q)
        (presort_loop hf shift clusterSize vs (index + 1) temp (useds[clusterIndex := 0]))
      else presort_loop hf shift clusterSize vs (index + 1) temp useds q)"

fun write_rest :: "clusters \<Rightarrow> nat list \<Rightarrow> quick_hash \<Rightarrow> quick_hash option" where
  "write_rest (row # temp) (n # useds) q = Option.bind (write_cluster (take n row) q) (write_rest temp useds)"
| "write_rest temp useds q = Some q"

definition presorted_insert :: "(nat \<Rightarrow> nat \<times> dword) \<Rightarrow> 'v hash_function \<Rightarrow> 'v list \<Rightarrow> dword \<Rightarrow> quick_hash \<Rightarrow> quick_hash option" where
  "presorted_insert fresh hf vs index q =
     (let clusterSize = max 1 (length vs div MAX_CLUSTERS);
          shift = cluster_shift (capacity (qh_grower q)) 0;
          temp = map (\<lambda>i. map (\<lambda>j. fresh (i * clusterSize + j)) [0..<clusterSize]) [0..<MAX_CLUSTERS];
          useds = replicate MAX_CLUSTERS 0 in
      Option.bind (presort_loop hf shift clusterSize vs index temp useds q) (\<lambda>(temp, useds, q). write_rest temp useds q))"

fun insert_each :: "'v hash_function \<Rightarrow> 'v list \<Rightarrow> dword \<Rightarrow> quick_hash \<Rightarrow> quick_hash option" where
  "insert_each hf [] index q = Some q"
| "insert_each hf (v # vs) index q =
     Option.bind (internal_insert q (map_bucket (qh_grower q) (hf_hash hf v)) index) (insert_each hf vs (index + 1))"

definition qh_insert_range :: "(nat \<Rightarrow> nat \<times> dword) \<Rightarrow> 'v hash_function \<Rightarrow> 'v list \<Rightarrow> dword \<Rightarrow> quick_hash \<Rightarrow> quick_hash option" where
  "qh_insert_range fresh hf vs index q =
     Option.bind (if should_grow_by q (length vs) then qh_reserve hf (capacity (qh_grower q) + length vs) q else Some q) (\<lambda>q.
       if length vs < 1000 then insert_each hf vs index q else presorted_insert fresh hf vs index q)"

text \<open>The assignment operator keeps the functor of the target.\<close>

definition qh_assign :: "quick_hash \<Rightarrow> quick_hash \<Rightarrow> quick_hash" where
  "qh_assign target source = \<lparr>qh_data = take (capacity (qh_grower source)) (qh_data source), qh_grower = qh_grower source\<rparr>"

definition qh_swap :: "quick_hash \<Rightarrow> quick_hash \<Rightarrow> quick_hash \<times> quick_hash" where
  "qh_swap lhs rhs =
     (\<lparr>qh_data = qh_data rhs, qh_grower = qh_grower rhs\<rparr>, \<lparr>qh_data = qh_data lhs, qh_grower = qh_grower lhs\<rparr>)"

section \<open>One cluster\<close>

lemma cluster_shift_ok: "cap \<le> push_bit (cluster_shift cap shift) MAX_CLUSTERS"
  by (induction cap shift rule: cluster_shift.induct) (subst cluster_shift.simps, simp)

lemma cluster_index: "b < cap \<Longrightarrow> drop_bit (cluster_shift cap shift) b < 256"
  using cluster_shift_ok [of cap shift]
  by (simp add: drop_bit_eq_div push_bit_eq_mult MAX_CLUSTERS_def less_mult_imp_div_less)

text \<open>While a batch is written, the numbers of entries and collisions lag behind the table.\<close>

definition settled :: "quick_hash \<Rightarrow> quick_hash" where
  "settled q = q\<lparr>qh_grower := (qh_grower q)\<lparr>used := length (live (qh_data q)), collisions := 0\<rparr>\<rparr>"

lemma settled_simps [simp]:
  "qh_data (settled q) = qh_data q" "capacity (qh_grower (settled q)) = capacity (qh_grower q)"
  "probe (qh_grower (settled q)) = probe (qh_grower q)" "map_bucket (qh_grower (settled q)) = map_bucket (qh_grower q)"
  "used (qh_grower (settled q)) = length (live (qh_data q))" "nextStride (qh_grower (settled q)) = nextStride (qh_grower q)"
  by (simp_all add: settled_def probe_def map_bucket_def fun_eq_iff)

lemma grower_ok_settled: "qh_inv hash val (settled q) \<Longrightarrow> grower_ok (qh_grower q)"
  using qh_invD(1) by (fastforce simp: settled_def)

lemma qh_inv_settled:
  assumes "used (qh_grower q) = length (live (qh_data q))" and "few_collisions (qh_grower q)"
  shows "qh_inv hash val (settled q) \<longleftrightarrow> qh_inv hash val q"
proof -
  have "grower_ok (qh_grower (settled q)) = grower_ok (qh_grower q)" "few_collisions (qh_grower (settled q))"
    by (simp_all add: settled_def few_collisions_def)
  then show ?thesis using assms unfolding qh_inv_def reachable_entry_def settled_simps by simp
qed

lemma mset_live_update:
  assumes "b < length xs" and "xs ! b = NO_INDEX" and "i \<noteq> NO_INDEX"
  shows "mset (live (xs[b := i])) = add_mset i (mset (live xs))"
proof -
  have split: "xs = take b xs @ NO_INDEX # drop (Suc b) xs" using assms(1,2) id_take_nth_drop by metis
  have "xs[b := i] = take b xs @ i # drop (Suc b) xs" using assms(1) by (rule upd_conv_take_nth_drop)
  then show ?thesis by (subst (2) split) (simp add: live_def assms(3))
qed

lemma add_mset_in_set:
  assumes "add_mset i M \<subseteq># mset_set A"
  shows "i \<in> A" and "i \<notin># M"
proof -
  have c: "count (add_mset i M) x \<le> count (mset_set A) x" for x using assms by (rule mset_subset_eq_count)
  have "count (mset_set A) i \<le> 1" by (cases "finite A \<and> i \<in> A") auto
  with c [of i] show "i \<notin># M" by (simp add: not_in_iff)
  show "i \<in> A" using c [of i] by (cases "finite A \<and> i \<in> A") auto
qed

text \<open>
  The indices of a batch and those in the table make up a set \<open>A\<close> that the table can hold, of values
  that are all different.
\<close>

definition batch_ok :: "(dword \<Rightarrow> 'v) \<Rightarrow> dword set \<Rightarrow> quick_hash \<Rightarrow> bool" where
  "batch_ok val A q \<longleftrightarrow> finite A \<and> card A < capacity (qh_grower q) \<and> inj_on val A \<and> NO_INDEX \<notin> A"

definition bucket_ok :: "('v \<Rightarrow> nat) \<Rightarrow> (dword \<Rightarrow> 'v) \<Rightarrow> quick_hash \<Rightarrow> nat \<times> dword \<Rightarrow> bool" where
  "bucket_ok hash val q x \<longleftrightarrow> fst x = map_bucket (qh_grower q) (hash (val (snd x)))"

lemma insert_cluster_ok:
  "qh_inv hash val (settled q) \<Longrightarrow> batch_ok val A q \<Longrightarrow> list_all (bucket_ok hash val q) ps \<Longrightarrow>
   mset (map snd ps) + mset (live (qh_data q)) \<subseteq># mset_set A \<Longrightarrow>
   \<exists>q' n. insert_cluster ps q c = Some (q', n) \<and> qh_inv hash val (settled q') \<and> qh_grower q' = qh_grower q \<and>
     mset (live (qh_data q')) = mset (map snd ps) + mset (live (qh_data q))"
proof (induction ps arbitrary: q c)
  case (Cons x ps)
  obtain b i where x: "x = (b, i)" by fastforce
  let ?g = "qh_grower q"
  have A: "finite A" "card A < capacity ?g" "inj_on val A" "NO_INDEX \<notin> A" using Cons.prems(2) by (auto simp: batch_ok_def)
  have sub: "add_mset i (mset (live (qh_data q))) \<subseteq># mset_set A" "mset (map snd ps) + add_mset i (mset (live (qh_data q))) \<subseteq># mset_set A"
    using Cons.prems(4) by (auto simp: x intro: subset_mset.order_trans [rotated])
  note i = add_mset_in_set [OF sub(1)]
  have entries: "entries q \<subseteq> A"
    using set_mset_mono [OF sub(1)] A(1) by auto
  have "size (add_mset i (mset (live (qh_data q)))) \<le> size (mset_set A)" using sub(1) by (rule size_mset_mono)
  then have room: "length (live (qh_data q)) + 1 < capacity ?g" using A(2) by simp
  have ni: "i \<noteq> NO_INDEX" using i(1) A(4) by blast
  have fresh: "val i \<notin> val ` entries q" "i \<notin> entries q" using i entries A(3) by (auto simp: inj_on_def)
  let ?p = "probe ?g (map_bucket ?g (hash (val i)))"
  obtain m where m: "m < capacity ?g" "qh_data q ! ?p m = NO_INDEX" "\<And>j. j < m \<Longrightarrow> qh_data q ! ?p j \<noteq> NO_INDEX"
    using first_empty_bucket [OF Cons.prems(1)] by (simp only: settled_simps) blast
  have ok: "grower_ok ?g" by (rule grower_ok_settled [OF Cons.prems(1)])
  have b: "b = ?p 0" using Cons.prems(3) map_bucket_probe [OF ok] by (simp add: x bucket_ok_def)
  let ?q = "q\<lparr>qh_data := (qh_data q)[?p m := i]\<rparr>"
  have target: "(if qh_data q ! b = NO_INDEX then Some (b, 0) else probe_empty (capacity ?g) q b 0) = Some (?p m, m)"
  proof (cases "m = 0")
    case True
    then show ?thesis using m(2) b by simp
  next
    case False
    then have "qh_data q ! b \<noteq> NO_INDEX" using m(3) [of 0] b by simp
    moreover have "probe_empty (capacity ?g) q (?p 0) 0 = Some (?p m, 0 + (m - 0))"
      using False m by (intro probe_empty_stop [OF ok]) simp_all
    ultimately show ?thesis using b by simp
  qed
  have len: "?p m < length (qh_data q)"
    using qh_invD(2) [OF Cons.prems(1)] grower_ok_capacity [OF ok] by (simp add: probe_def)
  note live = mset_live_update [OF len m(2) ni]
  have "length (live (qh_data ?q)) = length (live (qh_data q)) + 1" using arg_cong [OF live, of size] by simp
  then have "settled ?q = \<lparr>qh_data = (qh_data (settled q))[?p m := i], qh_grower = (qh_grower (settled q))\<lparr>used := length (live (qh_data q)) + 1\<rparr>\<rparr>"
    by (simp add: settled_def)
  moreover have "qh_inv hash (val(i := val i)) \<lparr>qh_data = (qh_data (settled q))[probe (qh_grower (settled q)) (map_bucket (qh_grower (settled q)) (hash (val i))) m := i],
      qh_grower = (qh_grower (settled q))\<lparr>used := length (live (qh_data q)) + 1\<rparr>\<rparr>"
    using m fresh ni room ok
    by (intro qh_inv_update [OF Cons.prems(1)]) (simp_all add: few_collisions_def, simp_all add: settled_def)
  ultimately have inv: "qh_inv hash val (settled ?q)" by simp
  have "list_all (bucket_ok hash val ?q) ps" using Cons.prems(3) by (simp add: bucket_ok_def list_all_iff)
  moreover have "batch_ok val A ?q" using Cons.prems(2) by (simp add: batch_ok_def)
  moreover have "mset (map snd ps) + mset (live (qh_data ?q)) \<subseteq># mset_set A" using sub(2) live by simp
  ultimately obtain q' n where "insert_cluster ps ?q (c + m) = Some (q', n)" "qh_inv hash val (settled q')" "qh_grower q' = qh_grower ?q"
    "mset (live (qh_data q')) = mset (map snd ps) + mset (live (qh_data ?q))"
    using Cons.IH [OF inv] by blast
  with target live show ?case by (simp add: x)
qed simp

definition same_table :: "quick_hash \<Rightarrow> quick_hash \<Rightarrow> bool" where
  "same_table q q' \<longleftrightarrow> (\<exists>u c. qh_grower q' = (qh_grower q)\<lparr>used := u, collisions := c\<rparr>)"

lemma same_table_refl: "same_table q q"
  unfolding same_table_def by (intro exI [of _ "used (qh_grower q)"] exI [of _ "collisions (qh_grower q)"]) simp

lemma same_table_trans: "same_table q q' \<Longrightarrow> same_table q' q'' \<Longrightarrow> same_table q q''"
  unfolding same_table_def by (elim exE) (simp, blast)

lemma same_table_simps:
  assumes "same_table q q'"
  shows "capacity (qh_grower q') = capacity (qh_grower q)" "map_bucket (qh_grower q') = map_bucket (qh_grower q)"
    "batch_ok val A q' = batch_ok val A q" "bucket_ok hash val q' = bucket_ok hash val q"
  using assms by (auto simp: same_table_def map_bucket_def batch_ok_def bucket_ok_def fun_eq_iff)

lemma write_cluster_ok:
  assumes "qh_inv hash val (settled q)" and "batch_ok val A q" and "list_all (bucket_ok hash val q) ps"
    and "mset (map snd ps) + mset (live (qh_data q)) \<subseteq># mset_set A" and "used (qh_grower q) = length (live (qh_data q))"
  shows "\<exists>q'. write_cluster ps q = Some q' \<and> qh_inv hash val (settled q') \<and> same_table q q' \<and>
    mset (live (qh_data q')) = mset (map snd ps) + mset (live (qh_data q)) \<and> used (qh_grower q') = length (live (qh_data q'))"
proof -
  obtain q' n where q': "insert_cluster ps q 0 = Some (q', n)" "qh_inv hash val (settled q')" "qh_grower q' = qh_grower q"
    "mset (live (qh_data q')) = mset (map snd ps) + mset (live (qh_data q))"
    using insert_cluster_ok [OF assms(1-4)] by blast
  let ?q = "q'\<lparr>qh_grower := batch_inserted (length ps) n (qh_grower q')\<rparr>"
  have "settled ?q = settled q'" by (simp add: settled_def batch_inserted_def)
  moreover have "length (live (qh_data q')) = length ps + length (live (qh_data q))"
    using arg_cong [OF q'(4), of size] by simp
  moreover have "same_table q ?q" by (auto simp: same_table_def batch_inserted_def q'(3))
  ultimately show ?thesis
    using q' assms(5) by (intro exI [of _ ?q]) (simp add: write_cluster_def batch_inserted_def)
qed

section \<open>The buffer of clusters\<close>

definition pending :: "clusters \<Rightarrow> nat list \<Rightarrow> dword multiset" where
  "pending temp useds = (\<Sum>(row, n) \<leftarrow> zip temp useds. mset (map snd (take n row)))"

definition rows_ok :: "nat \<Rightarrow> clusters \<Rightarrow> nat list \<Rightarrow> bool" where
  "rows_ok clusterSize temp useds \<longleftrightarrow> length temp = 256 \<and> length useds = 256 \<and> (\<forall>c < 256. length (temp ! c) = clusterSize \<and> useds ! c < clusterSize)"

definition pairs_ok :: "('v \<Rightarrow> nat) \<Rightarrow> (dword \<Rightarrow> 'v) \<Rightarrow> quick_hash \<Rightarrow> clusters \<Rightarrow> nat list \<Rightarrow> bool" where
  "pairs_ok hash val q temp useds \<longleftrightarrow> (\<forall>c < length temp. list_all (bucket_ok hash val q) (take (useds ! c) (temp ! c)))"

lemma sum_list_update:
  "k < length xs \<Longrightarrow> sum_list (xs[k := x]) + xs ! k = sum_list xs + x" for xs :: "'a :: comm_monoid_add list"
proof (induction xs arbitrary: k)
  case (Cons y xs)
  then show ?case
  proof (cases k)
    case (Suc j)
    with Cons have "sum_list (xs[j := x]) + xs ! j = sum_list xs + x" by simp
    with Suc show ?thesis by (simp add: add.assoc)
  qed (simp add: ac_simps)
qed simp

lemma pending_update:
  assumes "c < length temp" and "length useds = length temp"
  shows "pending (temp[c := row]) (useds[c := n]) + mset (map snd (take (useds ! c) (temp ! c))) =
    pending temp useds + mset (map snd (take n row))"
proof -
  let ?f = "\<lambda>(row, n). mset (map snd (take n row))"
  have "zip (temp[c := row]) (useds[c := n]) = (zip temp useds)[c := (row, n)]" by (simp add: update_zip)
  moreover have "map ?f ((zip temp useds)[c := (row, n)]) = (map ?f (zip temp useds))[c := ?f (row, n)]" by (rule map_update)
  ultimately show ?thesis
    using sum_list_update [of c "map ?f (zip temp useds)" "?f (row, n)"] assms by (simp add: pending_def)
qed

primrec batch_indices :: "dword \<Rightarrow> nat \<Rightarrow> dword list" where
  "batch_indices index 0 = []"
| "batch_indices index (Suc n) = index # batch_indices (index + 1) n"

lemma length_batch_indices [simp]: "length (batch_indices index n) = n"
  by (induction n arbitrary: index) simp_all

text \<open>Putting one pair into its row of the buffer.\<close>

lemma buffer_pair:
  assumes rows: "rows_ok clusterSize temp useds" and c: "c < 256" and pairs: "pairs_ok hash val q temp useds" and x: "bucket_ok hash val q x"
  defines "row \<equiv> (temp ! c)[useds ! c := x]" and "n \<equiv> useds ! c + 1"
  shows "take n row = take (useds ! c) (temp ! c) @ [x]"
    and "pending (temp[c := row]) (useds[c := n]) = add_mset (snd x) (pending temp useds)"
    and "pairs_ok hash val q (temp[c := row]) (useds[c := n])"
    and "n \<le> clusterSize" and "n < clusterSize \<Longrightarrow> rows_ok clusterSize (temp[c := row]) (useds[c := n])"
    and "rows_ok clusterSize (temp[c := row]) (useds[c := 0])"
    and "list_all (bucket_ok hash val q) (take n row)"
    and "pending (temp[c := row]) (useds[c := n]) = pending (temp[c := row]) (useds[c := 0]) + mset (map snd (take n row))"
    and "pairs_ok hash val q (temp[c := row]) (useds[c := 0])"
proof -
  have r: "length temp = 256" "length useds = 256" "length (temp ! c) = clusterSize" "useds ! c < clusterSize" using rows c by (auto simp: rows_ok_def)
  show t: "take n row = take (useds ! c) (temp ! c) @ [x]"
    unfolding row_def n_def using r by (simp add: take_Suc_conv_app_nth)
  show "pending (temp[c := row]) (useds[c := n]) = add_mset (snd x) (pending temp useds)"
    using pending_update [of c temp useds row n] r c by (simp add: t)
  show "list_all (bucket_ok hash val q) (take n row)" using pairs x c r by (simp add: t pairs_ok_def)
  then show "pairs_ok hash val q (temp[c := row]) (useds[c := n])"
    using pairs r c by (simp add: pairs_ok_def nth_list_update)
  show "pairs_ok hash val q (temp[c := row]) (useds[c := 0])"
    using pairs r c by (simp add: pairs_ok_def nth_list_update)
  show "n \<le> clusterSize" using r by (simp add: n_def)
  have len: "length row = clusterSize" using r by (simp add: row_def)
  show "rows_ok clusterSize (temp[c := row]) (useds[c := n])" if "n < clusterSize"
    using rows that len r c by (auto simp: rows_ok_def nth_list_update)
  show "rows_ok clusterSize (temp[c := row]) (useds[c := 0])" using rows len r c by (auto simp: rows_ok_def nth_list_update)
  show "pending (temp[c := row]) (useds[c := n]) = pending (temp[c := row]) (useds[c := 0]) + mset (map snd (take n row))"
    using pending_update [of c "temp[c := row]" "useds[c := 0]" row n] r c by simp
qed

lemma presort_loop_ok:
  "qh_inv hash val (settled q) \<Longrightarrow> batch_ok val A q \<Longrightarrow> rows_ok clusterSize temp useds \<Longrightarrow> pairs_ok hash val q temp useds \<Longrightarrow>
   capacity (qh_grower q) \<le> push_bit shift MAX_CLUSTERS \<Longrightarrow> hf_hash hf = hash \<Longrightarrow> map val (batch_indices index (length vs)) = vs \<Longrightarrow>
   pending temp useds + mset (live (qh_data q)) + mset (batch_indices index (length vs)) \<subseteq># mset_set A \<Longrightarrow>
   used (qh_grower q) = length (live (qh_data q)) \<Longrightarrow>
   \<exists>temp' useds' q'. presort_loop hf shift clusterSize vs index temp useds q = Some (temp', useds', q') \<and>
     qh_inv hash val (settled q') \<and> same_table q q' \<and> rows_ok clusterSize temp' useds' \<and> pairs_ok hash val q' temp' useds' \<and>
     pending temp' useds' + mset (live (qh_data q')) = pending temp useds + mset (live (qh_data q)) + mset (batch_indices index (length vs)) \<and>
     used (qh_grower q') = length (live (qh_data q'))"
proof (induction vs arbitrary: index temp useds q)
  case Nil
  then show ?case by (simp add: same_table_refl)
next
  case (Cons v vs)
  let ?b = "map_bucket (qh_grower q) (hf_hash hf v)"
  let ?c = "drop_bit shift ?b" and ?x = "(?b, index)"
  have "0 < capacity (qh_grower q)" using grower_ok_capacity [OF grower_ok_settled [OF Cons.prems(1)]] .
  then have "?b < push_bit shift MAX_CLUSTERS"
    using Cons.prems(5) by (simp add: map_bucket_def) (meson less_le_trans mod_less_divisor)
  then have c: "?c < 256" by (simp add: drop_bit_eq_div push_bit_eq_mult MAX_CLUSTERS_def less_mult_imp_div_less)
  have v: "val index = v" "map val (batch_indices (index + 1) (length vs)) = vs" using Cons.prems(7) by simp_all
  have x: "bucket_ok hash val q ?x" using Cons.prems(6) v(1) by (simp add: bucket_ok_def)
  note buf = buffer_pair [OF Cons.prems(3) c Cons.prems(4) x]
  let ?temp = "temp[?c := (temp ! ?c)[useds ! ?c := ?x]]" and ?useds = "useds[?c := useds ! ?c + 1]"
  have lens: "length temp = 256" "length useds = 256" using Cons.prems(3) by (auto simp: rows_ok_def)
  have total: "pending ?temp ?useds + mset (live (qh_data q)) + mset (batch_indices (index + 1) (length vs)) =
      pending temp useds + mset (live (qh_data q)) + mset (batch_indices index (length (v # vs)))"
    using buf(2) by simp
  show ?case
  proof (cases "useds ! ?c + 1 = clusterSize")
    case False
    with buf(4,5) have rows: "rows_ok clusterSize ?temp ?useds" by simp
    have "pending ?temp ?useds + mset (live (qh_data q)) + mset (batch_indices (index + 1) (length vs)) \<subseteq># mset_set A"
      using Cons.prems(8) total by (simp only:)
    note IH = Cons.IH [OF Cons.prems(1,2) rows buf(3) Cons.prems(5,6) v(2) this Cons.prems(9)]
    have "presort_loop hf shift clusterSize (v # vs) index temp useds q = presort_loop hf shift clusterSize vs (index + 1) ?temp ?useds q"
      using False c lens by (simp add: Let_def)
    with IH show ?thesis unfolding total by (simp only:)
  next
    case True
    let ?row = "(temp ! ?c)[useds ! ?c := ?x]"
    have "length ?row = clusterSize" using Cons.prems(3) c by (simp add: rows_ok_def)
    then have full: "take (useds ! ?c + 1) ?row = ?row" using True by simp
    have "mset (map snd ?row) + mset (live (qh_data q)) \<subseteq># pending ?temp ?useds + mset (live (qh_data q)) + mset (batch_indices (index + 1) (length vs))"
      using buf(8) unfolding full by simp
    moreover from Cons.prems(8) have "pending ?temp ?useds + mset (live (qh_data q)) + mset (batch_indices (index + 1) (length vs)) \<subseteq># mset_set A"
      unfolding total .
    ultimately have sub: "mset (map snd ?row) + mset (live (qh_data q)) \<subseteq># mset_set A" by (rule subset_mset.order_trans)
    obtain q1 where q1: "write_cluster ?row q = Some q1" "qh_inv hash val (settled q1)" "same_table q q1"
      "mset (live (qh_data q1)) = mset (map snd ?row) + mset (live (qh_data q))" "used (qh_grower q1) = length (live (qh_data q1))"
      using write_cluster_ok [OF Cons.prems(1,2) _ sub Cons.prems(9)] buf(7) unfolding full by blast
    note same = same_table_simps [OF q1(3)]
    have total': "pending ?temp (useds[?c := 0]) + mset (live (qh_data q1)) = pending ?temp ?useds + mset (live (qh_data q))"
      using q1(4) buf(8) unfolding full by simp
    have ok: "pairs_ok hash val q1 ?temp (useds[?c := 0])" "batch_ok val A q1" "capacity (qh_grower q1) \<le> push_bit shift MAX_CLUSTERS"
      using buf(9) Cons.prems(2,5) by (simp_all add: pairs_ok_def same)
    have all: "pending ?temp (useds[?c := 0]) + mset (live (qh_data q1)) + mset (batch_indices (index + 1) (length vs)) =
        pending temp useds + mset (live (qh_data q)) + mset (batch_indices index (length (v # vs)))"
      unfolding total' by (rule total)
    from Cons.prems(8) have sub': "pending ?temp (useds[?c := 0]) + mset (live (qh_data q1)) + mset (batch_indices (index + 1) (length vs)) \<subseteq># mset_set A"
      unfolding all .
    from Cons.IH [OF q1(2) ok(2) buf(6) ok(1,3) Cons.prems(6) v(2) sub' q1(5)]
    obtain temp' useds' q' where step: "presort_loop hf shift clusterSize vs (index + 1) ?temp (useds[?c := 0]) q1 = Some (temp', useds', q')"
      "qh_inv hash val (settled q')" "same_table q1 q'" "rows_ok clusterSize temp' useds'" "pairs_ok hash val q' temp' useds'"
      "pending temp' useds' + mset (live (qh_data q')) = pending temp useds + mset (live (qh_data q)) + mset (batch_indices index (length (v # vs)))"
      "used (qh_grower q') = length (live (qh_data q'))"
      unfolding all by (elim exE conjE) (rule that)
    have "presort_loop hf shift clusterSize (v # vs) index temp useds q = Some (temp', useds', q')"
      using True c lens q1(1) step(1) by (simp add: Let_def)
    with step same_table_trans [OF q1(3) step(3)] show ?thesis by blast
  qed
qed

lemma write_rest_ok:
  "length useds = length temp \<Longrightarrow> qh_inv hash val (settled q) \<Longrightarrow> batch_ok val A q \<Longrightarrow> pairs_ok hash val q temp useds \<Longrightarrow>
   pending temp useds + mset (live (qh_data q)) \<subseteq># mset_set A \<Longrightarrow> used (qh_grower q) = length (live (qh_data q)) \<Longrightarrow>
   \<exists>q'. write_rest temp useds q = Some q' \<and> qh_inv hash val (settled q') \<and> same_table q q' \<and>
     mset (live (qh_data q')) = pending temp useds + mset (live (qh_data q)) \<and> used (qh_grower q') = length (live (qh_data q'))"
proof (induction temp useds arbitrary: q rule: list_induct2')
  case (4 row temp n useds)
  let ?ps = "take n row"
  have ps: "list_all (bucket_ok hash val q) ?ps" using 4(5) by (auto simp: pairs_ok_def)
  have split: "pending (row # temp) (n # useds) = mset (map snd ?ps) + pending temp useds" by (simp add: pending_def)
  have "mset (map snd ?ps) + mset (live (qh_data q)) \<subseteq># pending (row # temp) (n # useds) + mset (live (qh_data q))" unfolding split by simp
  then have sub: "mset (map snd ?ps) + mset (live (qh_data q)) \<subseteq># mset_set A" using 4(6) by (rule subset_mset.order_trans)
  obtain q1 where q1: "write_cluster ?ps q = Some q1" "qh_inv hash val (settled q1)" "same_table q q1"
    "mset (live (qh_data q1)) = mset (map snd ?ps) + mset (live (qh_data q))" "used (qh_grower q1) = length (live (qh_data q1))"
    using write_cluster_ok [OF 4(3,4) ps sub 4(7)] by blast
  note same = same_table_simps [OF q1(3)]
  have "pairs_ok hash val q1 temp useds"
    unfolding pairs_ok_def same(4)
  proof (intro allI impI)
    fix c assume "c < length temp"
    then have "Suc c < length (row # temp)" by simp
    then have "list_all (bucket_ok hash val q) (take ((n # useds) ! Suc c) ((row # temp) ! Suc c))" using 4(5) unfolding pairs_ok_def by blast
    then show "list_all (bucket_ok hash val q) (take (useds ! c) (temp ! c))" by simp
  qed
  moreover have total: "pending temp useds + mset (live (qh_data q1)) = pending (row # temp) (n # useds) + mset (live (qh_data q))"
    unfolding q1(4) split by (simp only: ac_simps)
  moreover from 4(6) have "pending temp useds + mset (live (qh_data q1)) \<subseteq># mset_set A" unfolding total .
  moreover have "length useds = length temp" "batch_ok val A q1" using 4(2,4) by (simp_all add: same(3))
  note rest = 4(1) [OF this(1) q1(2) this(2) _ _ q1(5)]
  ultimately obtain q' where q': "write_rest temp useds q1 = Some q'" "qh_inv hash val (settled q')" "same_table q1 q'"
    "mset (live (qh_data q')) = pending temp useds + mset (live (qh_data q1))" "used (qh_grower q') = length (live (qh_data q'))"
    using rest by blast
  have "write_rest (row # temp) (n # useds) q = Some q'" using q1(1) q'(1) by simp
  with q'(2,5) q'(4) [unfolded total] same_table_trans [OF q1(3) q'(3)] show ?case by blast
qed (simp_all add: pending_def same_table_refl)

section \<open>A range of values\<close>

lemma insert_each_ok:
  "qh_inv hash val q \<Longrightarrow> batch_ok val A q \<Longrightarrow> hf_hash hf = hash \<Longrightarrow> map val (batch_indices index (length vs)) = vs \<Longrightarrow>
   mset (live (qh_data q)) + mset (batch_indices index (length vs)) \<subseteq># mset_set A \<Longrightarrow>
   \<exists>q'. insert_each hf vs index q = Some q' \<and> qh_inv hash val q' \<and>
     mset (live (qh_data q')) = mset (live (qh_data q)) + mset (batch_indices index (length vs))"
proof (induction vs arbitrary: index q)
  case (Cons v vs)
  have A: "finite A" "card A < capacity (qh_grower q)" "inj_on val A" "NO_INDEX \<notin> A" using Cons.prems(2) by (auto simp: batch_ok_def)
  have v: "val index = v" "map val (batch_indices (index + 1) (length vs)) = vs" using Cons.prems(4) by simp_all
  have sub: "add_mset index (mset (live (qh_data q)) + mset (batch_indices (index + 1) (length vs))) \<subseteq># mset_set A"
    using Cons.prems(5) by simp
  then have here: "add_mset index (mset (live (qh_data q))) \<subseteq># mset_set A"
    by (rule subset_mset.order_trans [rotated]) simp
  note i = add_mset_in_set [OF here]
  have entries: "entries q \<subseteq> A" using set_mset_mono [OF here] A(1) by auto
  have "size (add_mset index (mset (live (qh_data q)))) \<le> size (mset_set A)" using here by (rule size_mset_mono)
  then have room: "used (qh_grower q) + 1 < capacity (qh_grower q)" using A(2) qh_invD(3) [OF Cons.prems(1)] by simp
  have fresh: "v \<notin> val ` entries q" "index \<notin> entries q" "index \<noteq> NO_INDEX" using i entries A(3,4) v(1) by (auto simp: inj_on_def)
  from internal_insert_target [OF Cons.prems(1), of "hash v" index] obtain m g where
    m: "m < capacity (qh_grower q)" "qh_data q ! probe (qh_grower q) (map_bucket (qh_grower q) (hash v)) m = NO_INDEX"
    and ins: "internal_insert q (map_bucket (qh_grower q) (hash v)) index =
      Some \<lparr>qh_data = (qh_data q)[probe (qh_grower q) (map_bucket (qh_grower q) (hash v)) m := index], qh_grower = g\<rparr>" by metis
  let ?q = "\<lparr>qh_data = (qh_data q)[probe (qh_grower q) (map_bucket (qh_grower q) (hash v)) m := index], qh_grower = g\<rparr>"
  have "val(index := v) = val" using v(1) by auto
  with internal_insert_inv [OF Cons.prems(1) fresh(3,2,1) room] ins
  have inv: "qh_inv hash val ?q" "capacity (qh_grower ?q) = capacity (qh_grower q)" by auto
  have "probe (qh_grower q) (map_bucket (qh_grower q) (hash v)) m < length (qh_data q)"
    using qh_invD(1,2) [OF Cons.prems(1)] grower_ok_capacity by (simp add: probe_def)
  from mset_live_update [OF this m(2) fresh(3)] have live: "mset (live (qh_data ?q)) = add_mset index (mset (live (qh_data q)))" by simp
  have "batch_ok val A ?q" using Cons.prems(2) inv(2) by (simp add: batch_ok_def)
  moreover have "mset (live (qh_data ?q)) + mset (batch_indices (index + 1) (length vs)) \<subseteq># mset_set A" using sub live by simp
  ultimately obtain q' where "insert_each hf vs (index + 1) ?q = Some q'" "qh_inv hash val q'"
    "mset (live (qh_data q')) = mset (live (qh_data ?q)) + mset (batch_indices (index + 1) (length vs))"
    using Cons.IH [OF inv(1) _ Cons.prems(3) v(2)] by blast
  with ins live Cons.prems(3) show ?case by (intro exI [of _ q']) simp
qed simp

lemma pending_none: "pending temp (replicate n 0) = {#}"
proof (induction temp arbitrary: n)
  case (Cons row temp)
  then show ?case by (cases n) (simp_all add: pending_def)
qed (simp add: pending_def)

lemma presorted_insert_ok:
  assumes inv: "qh_inv hash val q" and ok: "batch_ok val A q" and "hf_hash hf = hash" and "map val (batch_indices index (length vs)) = vs"
    and sub: "mset (live (qh_data q)) + mset (batch_indices index (length vs)) \<subseteq># mset_set A" and small: "capacity (qh_grower q) < 2 ^ 29"
  shows "\<exists>q'. presorted_insert fresh hf vs index q = Some q' \<and> qh_inv hash val q' \<and>
     mset (live (qh_data q')) = mset (live (qh_data q)) + mset (batch_indices index (length vs))"
proof -
  let ?size = "max 1 (length vs div MAX_CLUSTERS)" and ?shift = "cluster_shift (capacity (qh_grower q)) 0"
  let ?temp = "map (\<lambda>i. map (\<lambda>j. fresh (i * ?size + j)) [0..<?size]) [0..<MAX_CLUSTERS]" and ?useds = "replicate MAX_CLUSTERS (0 :: nat)"
  have inv': "qh_inv hash val (settled q)"
    using inv qh_inv_settled [OF qh_invD(3,8) [OF inv]] by blast
  have rows: "rows_ok ?size ?temp ?useds" by (simp add: rows_ok_def MAX_CLUSTERS_def less_max_iff_disj)
  have pairs: "pairs_ok hash val q ?temp ?useds" by (simp add: pairs_ok_def MAX_CLUSTERS_def)
  have none: "pending ?temp ?useds = {#}"
    by (rule pending_none)
  have "pending ?temp ?useds + mset (live (qh_data q)) + mset (batch_indices index (length vs)) \<subseteq># mset_set A" using sub none by simp
  from presort_loop_ok [OF inv' ok rows pairs cluster_shift_ok [of _ 0] assms(3,4) this qh_invD(3) [OF inv]] obtain temp useds q1 where
    loop: "presort_loop hf ?shift ?size vs index ?temp ?useds q = Some (temp, useds, q1)"
      "qh_inv hash val (settled q1)" "same_table q q1" "rows_ok ?size temp useds" "pairs_ok hash val q1 temp useds"
      "pending temp useds + mset (live (qh_data q1)) = mset (live (qh_data q)) + mset (batch_indices index (length vs))"
      "used (qh_grower q1) = length (live (qh_data q1))"
    unfolding none by auto
  have "length useds = length temp" "batch_ok val A q1" using loop(4) ok by (simp_all add: rows_ok_def same_table_simps(3) [OF loop(3)])
  moreover have "pending temp useds + mset (live (qh_data q1)) \<subseteq># mset_set A" using sub loop(6) by simp
  ultimately obtain q' where rest: "write_rest temp useds q1 = Some q'" "qh_inv hash val (settled q')" "same_table q1 q'"
    "mset (live (qh_data q')) = pending temp useds + mset (live (qh_data q1))" "used (qh_grower q') = length (live (qh_data q'))"
    using write_rest_ok [OF _ loop(2) _ loop(5) _ loop(7)] by blast
  have "capacity (qh_grower q') < 2 ^ 29" using small same_table_simps(1) [OF same_table_trans [OF loop(3) rest(3)]] by simp
  then have "qh_inv hash val q'"
    using rest(2) qh_inv_settled [OF rest(5), of hash val] by (simp add: few_collisions_def)
  moreover have "presorted_insert fresh hf vs index q = Some q'" using loop(1) rest(1) by (simp add: presorted_insert_def Let_def)
  ultimately show ?thesis using rest(4) loop(6) by auto
qed

lemma mset_set_union:
  "distinct xs \<Longrightarrow> distinct ys \<Longrightarrow> set xs \<inter> set ys = {} \<Longrightarrow> mset xs + mset ys = mset_set (set xs \<union> set ys)"
  by (simp add: mset_set_Union mset_set_set)

lemma qh_insert_range_inv:
  assumes inv: "qh_inv (hf_hash hf) val q" and agr: "hf_agrees hf val (entries q)"
    and vs: "map val (batch_indices index (length vs)) = vs" "distinct vs" "set vs \<inter> val ` entries q = {}"
    and new: "distinct (batch_indices index (length vs))" "set (batch_indices index (length vs)) \<inter> entries q = {}"
      "NO_INDEX \<notin> set (batch_indices index (length vs))"
    and room: "capacity (qh_grower q) + length vs + (capacity (qh_grower q) + length vs) div 2 \<le> 536870909"
  shows "\<exists>q'. qh_insert_range fresh hf vs index q = Some q' \<and> qh_inv (hf_hash hf) val q' \<and>
    entries q' = entries q \<union> set (batch_indices index (length vs))"
proof -
  let ?is = "batch_indices index (length vs)" and ?c = "capacity (qh_grower q)"
  note D = qh_invD [OF inv]
  have "\<exists>q1. (if should_grow_by q (length vs) then qh_reserve hf (?c + length vs) q else Some q) = Some q1 \<and>
    qh_inv (hf_hash hf) val q1 \<and> entries q1 = entries q \<and> used (qh_grower q1) + length vs < capacity (qh_grower q1) \<and> capacity (qh_grower q1) < 2 ^ 29"
  proof (cases "should_grow_by q (length vs)")
    case True
    have "?c + length vs + (?c + length vs) div 2 \<le> 1073741827" "?c \<le> 536870909" using room by linarith+
    with qh_reserve_inv [OF inv agr this(1)] True room D(4) show ?thesis by fastforce
  next
    case False
    with inv room show ?thesis by (simp add: should_grow_by_def)
  qed
  then obtain q1 where q1: "(if should_grow_by q (length vs) then qh_reserve hf (?c + length vs) q else Some q) = Some q1"
    "qh_inv (hf_hash hf) val q1" "entries q1 = entries q" "used (qh_grower q1) + length vs < capacity (qh_grower q1)" "capacity (qh_grower q1) < 2 ^ 29" by blast
  note E = qh_invD [OF q1(2)]
  let ?A = "entries q1 \<union> set ?is"
  have all: "mset (live (qh_data q1)) + mset ?is = mset_set ?A"
    using E(5) new(1,2) q1(3) by (intro mset_set_union) auto
  have "card ?A = length (live (qh_data q1)) + length vs" using arg_cong [OF all, of size] by simp
  moreover have "inj_on val ?A"
  proof -
    have "inj_on val (set ?is)" using vs(1,2) new(1) by (metis distinct_map)
    moreover have "val ` set ?is = set vs" using vs(1) by (metis set_map)
    ultimately show ?thesis using E(6) vs(3) q1(3) new(2) unfolding inj_on_Un by auto
  qed
  moreover have "NO_INDEX \<notin> ?A" using new(3) by (simp add: set_live)
  ultimately have ok: "batch_ok val ?A q1" using q1(4) E(3) by (simp add: batch_ok_def)
  have "\<exists>q'. (if length vs < 1000 then insert_each hf vs index q1 else presorted_insert fresh hf vs index q1) = Some q' \<and>
    qh_inv (hf_hash hf) val q' \<and> mset (live (qh_data q')) = mset_set ?A"
    using insert_each_ok [OF q1(2) ok refl vs(1)] presorted_insert_ok [OF q1(2) ok refl vs(1) _ q1(5)] unfolding all by simp
  then obtain q' where q': "(if length vs < 1000 then insert_each hf vs index q1 else presorted_insert fresh hf vs index q1) = Some q'"
    "qh_inv (hf_hash hf) val q'" "mset (live (qh_data q')) = mset_set ?A" by blast
  have "entries q' = ?A" using arg_cong [OF q'(3), of set_mset] by simp
  with q1(1,3) q'(1,2) show ?thesis by (simp add: qh_insert_range_def)
qed

text \<open>
  C14. Inserting a range of values at once, with the growth of the table in advance and, for 1000
  values or more, through the buffer of clusters, comes to an end and does to lookups what inserting
  the values one by one would: each value of the range is found at its index, every other value where
  it was. The table and the range together must stay below 357 million entries.
\<close>

theorem qh_batch_insert:
  assumes inv: "qh_inv (hf_hash hf) val q" and agr: "hf_agrees hf val (entries q)"
    and vs: "map val (batch_indices index (length vs)) = vs" "distinct vs" "set vs \<inter> val ` entries q = {}"
    and new: "distinct (batch_indices index (length vs))" "set (batch_indices index (length vs)) \<inter> entries q = {}"
      "NO_INDEX \<notin> set (batch_indices index (length vs))"
    and room: "capacity (qh_grower q) + length vs + (capacity (qh_grower q) + length vs) div 2 \<le> 536870909"
    and hf': "hf_hash hf' = hf_hash hf" "hf_agrees hf' val (entries q \<union> set (batch_indices index (length vs)))"
  shows "\<exists>q'. qh_insert_range fresh hf vs index q = Some q' \<and> qh_inv (hf_hash hf) val q' \<and>
    (\<forall>w. qh_find hf' q' w =
      (case map_of (zip vs (batch_indices index (length vs))) w of Some i \<Rightarrow> Some i | None \<Rightarrow> qh_find hf q w))"
proof -
  let ?is = "batch_indices index (length vs)"
  obtain q' where q': "qh_insert_range fresh hf vs index q = Some q'" "qh_inv (hf_hash hf) val q'" "entries q' = entries q \<union> set ?is"
    using qh_insert_range_inv [OF inv agr vs new room] by blast
  have inv': "qh_inv (hf_hash hf') val q'" and agr': "hf_agrees hf' val (entries q')" using q'(2,3) hf' by simp_all
  have "qh_find hf' q' w = (case map_of (zip vs ?is) w of Some i \<Rightarrow> Some i | None \<Rightarrow> qh_find hf q w)" for w
  proof (cases "map_of (zip vs ?is) w")
    case (Some i)
    then obtain j where j: "j < length vs" "vs ! j = w" "?is ! j = i" by (auto dest!: map_of_SomeD simp: set_zip)
    then have "val i = w" using vs(1) by (metis length_batch_indices nth_map)
    moreover have "i \<in> entries q'" using j by (auto simp: q'(3))
    ultimately show ?thesis using qh_find_present [OF inv' refl agr'] Some by simp
  next
    case None
    then have w: "w \<notin> set vs" by (simp add: map_of_zip_is_None)
    have new_vals: "val ` set ?is = set vs" using vs(1) by (metis set_map)
    from qh_find_total [OF inv agr, of w] show ?thesis
    proof (elim disjE bexE conjE)
      fix i assume "i \<in> entries q" "val i = w" "qh_find hf q w = Some i"
      then show ?thesis using qh_find_present [OF inv' refl agr', of i w] unfolding None option.case by (simp add: q'(3))
    next
      assume "w \<notin> val ` entries q" "qh_find hf q w = Some NO_INDEX"
      moreover from this(1) have "w \<notin> val ` entries q'" using w new_vals by (auto simp: q'(3))
      ultimately show ?thesis using qh_find_absent [OF inv' refl agr'] unfolding None option.case by simp
    qed
  qed
  with q'(1,2) show ?thesis by blast
qed

lemma batch_indices_nth: "j < n \<Longrightarrow> batch_indices index n ! j = index + of_nat j"
proof (induction n arbitrary: index j)
  case (Suc n)
  then show ?case by (cases j) simp_all
qed simp

lemma batch_indices_0: "batch_indices 0 n = map of_nat [0..<n]"
  by (rule nth_equalityI) (simp_all add: batch_indices_nth)

theorem qh_batch_insert_witness:
  "\<exists>q'. qh_insert_range (\<lambda>i. (0, 0)) sample_hf [0..<2000] 0 new_quick_hash = Some q' \<and>
    qh_find sample_hf q' 1999 = Some 1999 \<and> qh_find sample_hf q' 2000 = qh_find sample_hf new_quick_hash 2000"
proof -
  let ?is = "batch_indices 0 (length [0..<2000])"
  have vs: "map unat ?is = [0..<2000]" by (rule nth_equalityI) (simp_all add: batch_indices_nth unat_of_nat)
  have "distinct (map unat ?is)" unfolding vs by simp
  then have d: "distinct ?is" by (simp only: distinct_map)
  have "unat NO_INDEX \<notin> set (map unat ?is)"
    unfolding vs by (simp add: NO_INDEX_def unsigned_minus_1_eq_mask mask_eq_exp_minus_1)
  then have n: "NO_INDEX \<notin> set ?is" by (metis image_eqI set_map)
  have c: "capacity (qh_grower new_quick_hash) = 1" by (simp add: new_quick_hash_def new_prime_grower_def primes_def)
  have "\<exists>q'. qh_insert_range (\<lambda>i. (0, 0)) sample_hf [0..<2000] 0 new_quick_hash = Some q' \<and> qh_inv (hf_hash sample_hf) unat q' \<and>
    (\<forall>w. qh_find sample_hf q' w =
      (case map_of (zip [0..<2000] ?is) w of Some i \<Rightarrow> Some i | None \<Rightarrow> qh_find sample_hf new_quick_hash w))" (is "\<exists>q'. ?run q' \<and> _ \<and> ?finds q'")
    using vs d n c sample_hf_agrees
    by (intro qh_batch_insert qh_inv_new) (simp_all only: entries_new, simp_all)
  then obtain q' where q': "?run q'" "?finds q'" by blast
  have present: "map_of (zip [0..<2000] ?is) 1999 = Some 1999"
  proof (rule map_of_is_SomeI)
    have "?is ! 1999 = 0 + of_nat 1999" by (rule batch_indices_nth) simp
    then show "(1999, 1999) \<in> set (zip [0..<2000] ?is)"
      by (simp add: in_set_zip del: upt_Suc) (rule exI [of _ 1999], simp del: upt_Suc)
  qed simp
  have absent: "map_of (zip [0..<2000] ?is) 2000 = None" by (simp add: map_of_zip_is_None)
  have "qh_find sample_hf q' 1999 = Some 1999" "qh_find sample_hf q' 2000 = qh_find sample_hf new_quick_hash 2000"
    unfolding q'(2) [rule_format] present absent option.case by (rule refl)+
  with q'(1) show ?thesis by blast
qed

end
