(* ===== verification/HashedPool.thy ===== *)
theory HashedPool
  imports QuickHash
begin

text \<open>
  What the dictionaries of the log cache share: each keeps its distinct values in a pool, gives a
  value its position there as index, and finds it again through a \<^verbatim>\<open>quick_hash\<close> whose functor looks
  into the pool. The locale \<open>hash_functor\<close> says what the functor of a pool must do for the hash to
  be an index of the pool; the locale \<open>dictionary\<close> is the contract of a dictionary towards its
  clients. Both are interpreted on the dictionaries' own operations in their theories.
\<close>

section \<open>Positions in a list of distinct values\<close>

definition position :: "'v list \<Rightarrow> 'v \<Rightarrow> dword" where
  "position vs v = (if v \<in> set vs then of_nat (length (takeWhile (\<lambda>w. w \<noteq> v) vs)) else NO_INDEX)"

lemma takeWhile_position: "v \<in> set vs \<Longrightarrow> length (takeWhile (\<lambda>w. w \<noteq> v) vs) < length vs \<and>
    vs ! length (takeWhile (\<lambda>w. w \<noteq> v) vs) = v"
  by (induction vs) auto

lemma unat_index [machine_simps]: "i < 2 ^ 29 \<Longrightarrow> unat (of_nat i :: dword) = i"
  by (simp add: unat_of_nat)

lemma of_nat_eq_index: "i < 2 ^ 29 \<Longrightarrow> j < 2 ^ 29 \<Longrightarrow> (of_nat i :: dword) = of_nat j \<longleftrightarrow> i = j"
  by (metis unat_index)

lemma NO_INDEX_not_position: "i < 2 ^ 29 \<Longrightarrow> (of_nat i :: dword) \<noteq> NO_INDEX"
proof
  assume i: "i < 2 ^ 29" and "(of_nat i :: dword) = NO_INDEX"
  then have "unat (of_nat i :: dword) = unat (- 1 :: dword)" by (simp add: NO_INDEX_def)
  with i show False by (simp add: unat_index unsigned_minus_1_eq_mask mask_eq_exp_minus_1)
qed

lemma position_nth: "distinct vs \<Longrightarrow> i < length vs \<Longrightarrow> position vs (vs ! i) = of_nat i"
proof -
  assume d: "distinct vs" and i: "i < length vs"
  let ?k = "length (takeWhile (\<lambda>w. w \<noteq> vs ! i) vs)"
  have "?k < length vs" "vs ! ?k = vs ! i" using takeWhile_position [of "vs ! i" vs] i by auto
  with d i have "?k = i" by (simp add: nth_eq_iff_index_eq)
  with i show ?thesis by (simp add: position_def)
qed

lemma position_absent [simp]: "v \<notin> set vs \<Longrightarrow> position vs v = NO_INDEX"
  by (simp add: position_def)

lemma position_present:
  assumes "v \<in> set vs" and "length vs \<le> 2 ^ 29"
  shows "position vs v \<noteq> NO_INDEX" and "unat (position vs v) < length vs" and "vs ! unat (position vs v) = v"
  using takeWhile_position [OF assms(1)] assms
  by (simp_all add: position_def unat_index NO_INDEX_not_position)

lemma position_append: "v \<in> set vs \<Longrightarrow> position (vs @ ws) v = position vs v"
  by (simp add: position_def)

section \<open>A hash that indexes a pool\<close>

definition index_ok :: "('v \<Rightarrow> nat) \<Rightarrow> 'v list \<Rightarrow> quick_hash \<Rightarrow> bool" where
  "index_ok hash vs h \<longleftrightarrow>
     length vs \<le> 2 ^ 28 \<and> qh_inv hash (\<lambda>i. vs ! unat i) h \<and> entries h = of_nat ` {..<length vs}"

lemma of_nat_inj_on: "n \<le> 2 ^ 29 \<Longrightarrow> inj_on (of_nat :: nat \<Rightarrow> dword) {..<n}"
  by (rule inj_onI) (simp add: of_nat_eq_index)

lemma index_ok_distinct: "index_ok hash vs h \<Longrightarrow> distinct vs"
proof -
  assume ok: "index_ok hash vs h"
  then have inj: "inj_on (\<lambda>i. vs ! unat i) (of_nat ` {..<length vs} :: dword set)" and len: "length vs \<le> 2 ^ 28"
    using qh_invD(6) [of hash "\<lambda>i. vs ! unat i" h] by (auto simp: index_ok_def)
  have "i = j" if "i < length vs" "j < length vs" "vs ! i = vs ! j" for i j
  proof -
    have "(of_nat i :: dword) = of_nat j"
      using that len by (intro inj_onD [OF inj]) (simp_all add: unat_index)
    with that len show ?thesis by (simp add: of_nat_eq_index)
  qed
  then show ?thesis by (auto simp: distinct_conv_nth)
qed

lemma index_ok_new: "index_ok hash [] new_quick_hash"
  using qh_inv_new by (simp add: index_ok_def entries_new)

lemma index_ok_clear:
  assumes "index_ok hash vs h"
  shows "index_ok hash' [] (qh_clear h)"
proof (cases "used (qh_grower h) > 0")
  case True
  then show ?thesis by (simp add: qh_clear_def index_ok_new)
next
  case False
  have inv: "qh_inv hash (\<lambda>i. vs ! unat i) h" using assms by (simp add: index_ok_def)
  with False have "live (qh_data h) = []" by (simp add: qh_invD(3) [OF inv])
  then have "qh_data h ! b = NO_INDEX" if "b < capacity (qh_grower h)" for b
    using that qh_invD(2) [OF inv] by (metis empty_iff insert_iff list.set(1) nth_mem set_live Diff_iff)
  with False inv \<open>live (qh_data h) = []\<close> show ?thesis
    by (simp add: qh_clear_def index_ok_def qh_inv_def)
qed

text \<open>The first entry can be made with any functor, as nothing has to be rehashed.\<close>

lemma index_ok_first:
  assumes "index_ok (hf_hash hf) [] h"
  shows "\<exists>h'. qh_insert hf h v 0 = Some h' \<and> index_ok (hf_hash hf) [v] h'"
proof -
  let ?val = "\<lambda>i :: dword. [v] ! unat i"
  have inv0: "qh_inv (hf_hash hf) (\<lambda>i. [] ! unat i) h" and none: "entries h = {}"
    using assms by (auto simp: index_ok_def)
  have inv: "qh_inv (hf_hash hf) ?val h" by (rule qh_inv_cong [OF inv0]) (simp add: none)
  have "used (qh_grower h) < 2 ^ 28" using none qh_invD(3) [OF inv0] by simp
  moreover have "hf_agrees hf ?val (entries h)" by (simp only: hf_agrees_def none ball_empty)
  moreover have "(0 :: dword) \<noteq> NO_INDEX" by (simp add: NO_INDEX_def)
  ultimately obtain h' where h': "qh_insert hf h v 0 = Some h'" "qh_inv (hf_hash hf) (?val(0 := v)) h'"
    "entries h' = {0}"
    using qh_insert_inv [OF inv, of 0 v] none by auto
  have "qh_inv (hf_hash hf) ?val h'" by (rule qh_inv_cong [OF h'(2)]) (simp add: h'(3))
  with h' show ?thesis by (simp add: index_ok_def lessThan_Suc)
qed

text \<open>A new value enters the hash at the end of the pool, whatever functor knows the entries.\<close>

lemma index_ok_insert:
  assumes ok: "index_ok hash vs h" and hf: "hf_hash hf = hash"
    and agr: "hf_agrees hf (\<lambda>i. vs ! unat i) (entries h)"
    and fresh: "v \<notin> set vs" and room: "length vs < 2 ^ 28"
  shows "\<exists>h'. qh_insert hf h v (of_nat (length vs)) = Some h' \<and> index_ok hash (vs @ [v]) h'"
proof -
  let ?n = "length vs" and ?val = "\<lambda>i. vs ! unat i"
  have inv: "qh_inv (hf_hash hf) ?val h" and ent: "entries h = of_nat ` {..<?n}"
    using ok by (auto simp: index_ok_def hf)
  have new: "(of_nat ?n :: dword) \<notin> entries h"
  proof
    assume "(of_nat ?n :: dword) \<in> entries h"
    then obtain j where "j < ?n" "(of_nat j :: dword) = of_nat ?n" by (auto simp: ent)
    with room show False by (simp add: of_nat_eq_index)
  qed
  have absent: "v \<notin> ?val ` entries h" using fresh room by (auto simp: ent unat_index)
  have "used (qh_grower h) = card (entries h)"
    using qh_invD(3,5) [OF inv] by (simp add: distinct_card)
  also have "\<dots> = ?n" using room unfolding ent by (subst card_image) (simp_all add: of_nat_inj_on)
  finally have "used (qh_grower h) < 2 ^ 28" using room by simp
  from qh_insert_inv [OF inv agr _ new absent this] room
  obtain h' where h': "qh_insert hf h v (of_nat ?n) = Some h'"
    "qh_inv hash (?val(of_nat ?n := v)) h'" "entries h' = insert (of_nat ?n) (entries h)"
    by (auto simp: NO_INDEX_not_position hf)
  have "qh_inv hash (\<lambda>i. (vs @ [v]) ! unat i) h'"
    using new room by (intro qh_inv_cong [OF h'(2)]) (auto simp: h'(3) ent unat_index nth_append)
  moreover have "entries h' = of_nat ` {..<length (vs @ [v])}"
    unfolding h'(3) ent by (auto simp: lessThan_Suc)
  ultimately show ?thesis using h'(1) room by (simp add: index_ok_def)
qed

text \<open>
  The contract of a functor: it hashes the value itself, and for the positions of the pool it
  knows the value and compares with it.
\<close>

locale hash_functor =
  fixes hash :: "'v \<Rightarrow> nat" and functor_of :: "'p \<Rightarrow> 'v hash_function"
    and contents :: "'p \<Rightarrow> 'v list" and pool_ok :: "'p \<Rightarrow> bool"
  assumes hashes: "hf_hash (functor_of p) = hash"
    and knows: "pool_ok p \<Longrightarrow> i < length (contents p) \<Longrightarrow> length (contents p) \<le> 2 ^ 28 \<Longrightarrow>
      hf_value (functor_of p) (of_nat i) = contents p ! i"
    and compares: "pool_ok p \<Longrightarrow> i < length (contents p) \<Longrightarrow> length (contents p) \<le> 2 ^ 28 \<Longrightarrow>
      hf_equal (functor_of p) v (of_nat i) \<longleftrightarrow> contents p ! i = v"
begin

lemma agrees:
  assumes "pool_ok p" and "index_ok hash (contents p) h"
  shows "hf_agrees (functor_of p) (\<lambda>i. contents p ! unat i) (entries h)"
  using assms unfolding hf_agrees_def index_ok_def
  by (auto simp: knows compares unat_index)

lemma find_position:
  assumes "pool_ok p" and "index_ok hash (contents p) h"
  shows "qh_find (functor_of p) h v = Some (position (contents p) v)"
proof -
  have inv: "qh_inv hash (\<lambda>i. contents p ! unat i) h" and len: "length (contents p) \<le> 2 ^ 28"
    and ent: "entries h = of_nat ` {..<length (contents p)}"
    using assms(2) by (auto simp: index_ok_def)
  note agr = agrees [OF assms]
  show ?thesis
  proof (cases "v \<in> set (contents p)")
    case True
    then obtain i where i: "i < length (contents p)" "contents p ! i = v" by (auto simp: in_set_conv_nth)
    with len have "qh_find (functor_of p) h v = Some (of_nat i)"
      by (intro qh_find_present [OF inv hashes agr]) (simp_all add: ent unat_index)
    with position_nth [OF index_ok_distinct [OF assms(2)] i(1)] i(2) show ?thesis by simp
  next
    case False
    with len have "v \<notin> (\<lambda>i. contents p ! unat i) ` entries h" by (auto simp: ent unat_index)
    with False qh_find_absent [OF inv hashes agr] show ?thesis by simp
  qed
qed

lemma insert_position:
  assumes "pool_ok p" and "index_ok hash (contents p) h" and "v \<notin> set (contents p)"
    and "length (contents p) < 2 ^ 28"
  shows "\<exists>h'. qh_insert (functor_of p) h v (of_nat (length (contents p))) = Some h' \<and>
    index_ok hash (contents p @ [v]) h'"
  using index_ok_insert [OF assms(2) hashes agrees [OF assms(1,2)] assms(3,4)] .

end

section \<open>Dictionaries\<close>

text \<open>
  \<^verbatim>\<open>AutoInsert\<close>, which all dictionaries have in the same form. \<open>None\<close> stands for a hash that can not
  grow any more, the result type for the exceptions of the containers.
\<close>

definition auto_insert ::
  "('d \<Rightarrow> 'v \<Rightarrow> dword option) \<Rightarrow> ('d \<Rightarrow> 'v \<Rightarrow> (string, dword \<times> 'd) result option) \<Rightarrow>
   'd \<Rightarrow> 'v \<Rightarrow> (string, dword \<times> 'd) result option"
where
  "auto_insert lookup add d v =
     Option.bind (lookup d v) (\<lambda>r. if r = NO_INDEX then add d v else Some (Return (r, d)))"

locale dictionary =
  fixes contents :: "'d \<Rightarrow> 'v list" and ok :: "'d \<Rightarrow> bool" and room :: "'d \<Rightarrow> 'v \<Rightarrow> bool"
    and lookup :: "'d \<Rightarrow> 'v \<Rightarrow> dword option"
    and add :: "'d \<Rightarrow> 'v \<Rightarrow> (string, dword \<times> 'd) result option"
  assumes finds: "ok d \<Longrightarrow> lookup d v = Some (position (contents d) v)"
    and inserts: "ok d \<Longrightarrow> v \<notin> set (contents d) \<Longrightarrow> room d v \<Longrightarrow>
      \<exists>d'. add d v = Some (Return (of_nat (length (contents d)), d')) \<and> ok d' \<and> contents d' = contents d @ [v]"
    and bounded: "ok d \<Longrightarrow> distinct (contents d) \<and> length (contents d) \<le> 2 ^ 28"
begin

lemma finds_present:
  assumes "ok d" and "v \<in> set (contents d)"
  obtains i where "lookup d v = Some (of_nat i)" "i < length (contents d)" "contents d ! i = v"
    "(of_nat i :: dword) \<noteq> NO_INDEX"
  using assms bounded [OF assms(1)] finds [OF assms(1), of v] takeWhile_position [OF assms(2)]
  by (simp add: position_def NO_INDEX_not_position that)

text \<open>An automatic insertion gives the value an index, keeps all others, and adds nothing twice.\<close>

lemma auto_inserts:
  assumes "ok d" and "v \<in> set (contents d) \<or> room d v"
  obtains i d' where "auto_insert lookup add d v = Some (Return (of_nat i, d'))" "ok d'"
    "contents d' = (if v \<in> set (contents d) then contents d else contents d @ [v])"
    "i < length (contents d')" "contents d' ! i = v"
proof (cases "v \<in> set (contents d)")
  case True
  obtain i where "lookup d v = Some (of_nat i)" "i < length (contents d)" "contents d ! i = v"
    "(of_nat i :: dword) \<noteq> NO_INDEX"
    by (rule finds_present [OF assms(1) True])
  with True assms(1) show ?thesis by (intro that [of i d]) (auto simp: auto_insert_def)
next
  case False
  with assms inserts [of d v] obtain d' where
    "add d v = Some (Return (of_nat (length (contents d)), d'))" "ok d'" "contents d' = contents d @ [v]" by blast
  with False show ?thesis
    by (intro that [of "length (contents d)" d']) (auto simp: auto_insert_def finds [OF assms(1)])
qed

text \<open>Indices are unique and immutable: what was found before is found at the same index.\<close>

lemma auto_insert_finds:
  assumes "ok d" and "v \<in> set (contents d) \<or> room d v"
  shows "\<exists>i d'. auto_insert lookup add d v = Some (Return (i, d')) \<and> ok d' \<and> unat i < length (contents d') \<and>
    contents d' ! unat i = v \<and> take (length (contents d)) (contents d') = contents d \<and>
    (\<forall>w. lookup d' w = (if w = v then Some i else lookup d w))"
proof -
  from auto_inserts [OF assms] obtain i d' where d': "auto_insert lookup add d v = Some (Return (of_nat i, d'))"
    "ok d'" "contents d' = (if v \<in> set (contents d) then contents d else contents d @ [v])"
    "i < length (contents d')" "contents d' ! i = v" .
  have unat: "unat (of_nat i :: dword) = i" using d'(4) bounded [OF d'(2)] by (simp add: unat_index)
  have pos: "position (contents d') v = of_nat i"
    using position_nth [of "contents d'" i] bounded [OF d'(2)] d'(4,5) by simp
  have "lookup d' w = (if w = v then Some (of_nat i) else lookup d w)" for w
  proof (cases "w \<in> set (contents d)")
    case True
    then have "position (contents d') w = position (contents d) w"
      by (simp add: d'(3) position_append)
    then show ?thesis using pos by (auto simp: finds [OF assms(1)] finds [OF d'(2)])
  next
    case False
    then show ?thesis using pos by (auto simp: finds [OF assms(1)] finds [OF d'(2)] d'(3))
  qed
  with d' unat show ?thesis by (intro exI [of _ "of_nat i"] exI [of _ d']) simp
qed

lemma auto_insert_again:
  assumes "ok d" and "v \<in> set (contents d)"
  shows "auto_insert lookup add d v = Some (Return (position (contents d) v, d))"
  using position_present [OF assms(2)] bounded [OF assms(1)]
  by (simp add: auto_insert_def finds [OF assms(1)])

end

end
