(* ===== verification/QuickHashMap.thy ===== *)
theory QuickHashMap
  imports HashedPool QuickHashBatch
begin

text \<open>
  The associative container over a \<^verbatim>\<open>quick_hash\<close> (\<^verbatim>\<open>src/src/Utils/QuickHashMap.h\<close>), with 32-bit keys as
  all its users have them. The entries are kept in the order of their insertion and are found through
  the hash by their positions; iterators are positions, and the one behind the last entry is the end.
  The hash stores positions as \<^verbatim>\<open>size_t\<close>; as its table has less than 2^32 buckets, all positions in it
  are below the \<^verbatim>\<open>NO_INDEX\<close> of 32 bits, which stands here for the one of 64 bits.
\<close>

section \<open>The container\<close>

record 'v hash_map =
  qm_data :: "(dword \<times> 'v) list"
  qm_hash :: quick_hash
  batch_insert_start :: qword

definition map_functor :: "(dword \<times> 'v) list \<Rightarrow> dword hash_function" where
  "map_functor data =
     \<lparr>hf_hash = unat, hf_value = (\<lambda>index. fst (data ! unat index)), hf_equal = (\<lambda>value index. value = fst (data ! unat index))\<rparr>"

definition new_hash_map :: "'v hash_map" where
  "new_hash_map = \<lparr>qm_data = [], qm_hash = new_quick_hash, batch_insert_start = - 1\<rparr>"

definition qm_assign :: "'v hash_map \<Rightarrow> 'v hash_map \<Rightarrow> 'v hash_map" where
  "qm_assign target source =
     \<lparr>qm_data = qm_data source, qm_hash = qh_assign (qm_hash target) (qm_hash source), batch_insert_start = batch_insert_start source\<rparr>"

definition qm_begin :: "'v hash_map \<Rightarrow> nat" where "qm_begin m = 0"
definition qm_end :: "'v hash_map \<Rightarrow> nat" where "qm_end m = length (qm_data m)"

definition qm_find :: "'v hash_map \<Rightarrow> dword \<Rightarrow> nat option" where
  "qm_find m key =
     map_option (\<lambda>index. if index = NO_INDEX then qm_end m else qm_begin m + unat index) (qh_find (map_functor (qm_data m)) (qm_hash m) key)"

text \<open>The dereferenced iterator; there is nothing behind the end.\<close>

definition qm_value :: "'v hash_map \<Rightarrow> nat \<Rightarrow> 'v option" where
  "qm_value m iter = (if iter < length (qm_data m) then Some (snd (qm_data m ! iter)) else None)"

definition qm_insert :: "'v hash_map \<Rightarrow> dword \<Rightarrow> 'v \<Rightarrow> 'v hash_map option" where
  "qm_insert m key v =
     (let data = qm_data m @ [(key, v)] in
      map_option (\<lambda>h. m\<lparr>qm_data := data, qm_hash := h\<rparr>)
        (qh_insert (map_functor data) (qm_hash m) key (of_nat (length data - 1))))"

definition qm_auto_insert :: "'v hash_map \<Rightarrow> dword \<Rightarrow> 'v \<Rightarrow> 'v hash_map option" where
  "qm_auto_insert m key v =
     Option.bind (qh_find (map_functor (qm_data m)) (qm_hash m) key)
       (\<lambda>index. if index = NO_INDEX then qm_insert m key v else Some m)"

definition qm_reserve :: "nat \<Rightarrow> nat \<Rightarrow> 'v hash_map \<Rightarrow> 'v hash_map option" where
  "qm_reserve vector_capacity min_bucket_count m =
     (if vector_capacity < min_bucket_count
      then map_option (\<lambda>h. m\<lparr>qm_hash := h\<rparr>) (qh_reserve (map_functor (qm_data m)) min_bucket_count (qm_hash m))
      else Some m)"

definition qm_begin_batch_insert :: "'v hash_map \<Rightarrow> 'v hash_map" where
  "qm_begin_batch_insert m = m\<lparr>batch_insert_start := of_nat (length (qm_data m))\<rparr>"

definition qm_batch_insert :: "'v hash_map \<Rightarrow> dword \<Rightarrow> 'v \<Rightarrow> 'v hash_map" where
  "qm_batch_insert m key v = m\<lparr>qm_data := qm_data m @ [(key, v)]\<rparr>"

definition qm_size :: "'v hash_map \<Rightarrow> nat" where "qm_size m = length (qm_data m)"

definition qm_clear :: "'v hash_map \<Rightarrow> 'v hash_map" where
  "qm_clear m = m\<lparr>qm_data := [], qm_hash := qh_clear (qm_hash m)\<rparr>"

definition qm_swap :: "'v hash_map \<Rightarrow> 'v hash_map \<Rightarrow> 'v hash_map \<times> 'v hash_map" where
  "qm_swap lhs rhs =
     (let (h1, h2) = qh_swap (qm_hash lhs) (qm_hash rhs) in
      (\<lparr>qm_data = qm_data rhs, qm_hash = h1, batch_insert_start = batch_insert_start rhs\<rparr>,
       \<lparr>qm_data = qm_data lhs, qm_hash = h2, batch_insert_start = batch_insert_start lhs\<rparr>))"

text \<open>Moving an iterator. The operators that move it back also add the distance.\<close>

definition iter_plus_assign :: "nat \<Rightarrow> nat \<Rightarrow> nat" where "iter_plus_assign iter diff = iter + diff"
definition iter_minus_assign :: "nat \<Rightarrow> nat \<Rightarrow> nat" where "iter_minus_assign iter diff = iter + diff"
definition iter_plus :: "nat \<Rightarrow> nat \<Rightarrow> nat" where "iter_plus iter diff = iter_plus_assign iter diff"
definition iter_minus :: "nat \<Rightarrow> nat \<Rightarrow> nat" where "iter_minus iter diff = iter_minus_assign iter diff"

section \<open>It is a map\<close>

definition qm_ok :: "'v hash_map \<Rightarrow> bool" where
  "qm_ok m \<longleftrightarrow> index_ok unat (map fst (qm_data m)) (qm_hash m)"

definition qm_map :: "'v hash_map \<Rightarrow> dword \<Rightarrow> 'v option" where
  "qm_map m = map_of (qm_data m)"

interpretation map_functor: hash_functor unat map_functor "map fst" "\<lambda>data. True"
  by unfold_locales (auto simp: map_functor_def unat_index)

lemma qm_ok_new: "qm_ok new_hash_map" "qm_map new_hash_map = Map.empty" "qm_data new_hash_map = []"
  by (simp_all add: qm_ok_def new_hash_map_def index_ok_new qm_map_def)

lemma qm_ok_distinct: "qm_ok m \<Longrightarrow> distinct (map fst (qm_data m)) \<and> length (qm_data m) \<le> 2 ^ 28"
  unfolding qm_ok_def using index_ok_distinct by (fastforce simp: index_ok_def)

lemma qm_find_cases:
  assumes "qm_ok m"
  obtains (found) i where "qm_find m k = Some i" "i < length (qm_data m)" "fst (qm_data m ! i) = k" "qm_map m k = Some (snd (qm_data m ! i))"
    | (missing) "qm_find m k = Some (length (qm_data m))" "qm_map m k = None" "k \<notin> set (map fst (qm_data m))"
proof -
  have ix: "index_ok unat (map fst (qm_data m)) (qm_hash m)" using assms by (simp add: qm_ok_def)
  note find = map_functor.find_position [OF TrueI ix, of k] and D = qm_ok_distinct [OF assms]
  show ?thesis
  proof (cases "k \<in> set (map fst (qm_data m))")
    case True
    have pos: "position (map fst (qm_data m)) k \<noteq> NO_INDEX" "unat (position (map fst (qm_data m)) k) < length (qm_data m)"
      "map fst (qm_data m) ! unat (position (map fst (qm_data m)) k) = k"
      using position_present [OF True] D by simp_all
    let ?i = "unat (position (map fst (qm_data m)) k)"
    have key: "fst (qm_data m ! ?i) = k" using pos(2,3) by simp
    then have "(k, snd (qm_data m ! ?i)) \<in> set (qm_data m)" using pos(2) by (metis nth_mem prod.collapse)
    with D have "qm_map m k = Some (snd (qm_data m ! ?i))" by (simp add: qm_map_def)
    with pos key find show ?thesis by (intro found [of ?i]) (simp_all add: qm_find_def qm_begin_def)
  next
    case False
    then have "qm_map m k = None" by (simp add: qm_map_def map_of_eq_None_iff)
    with False find show ?thesis by (intro missing) (simp_all add: qm_find_def qm_end_def)
  qed
qed

lemma qm_insert_ok:
  assumes ok: "qm_ok m" and new: "qm_map m k = None" and room: "length (qm_data m) < 2 ^ 28"
  shows "\<exists>m'. qm_insert m k v = Some m' \<and> qm_ok m' \<and> qm_data m' = qm_data m @ [(k, v)] \<and> qm_map m' = (qm_map m)(k \<mapsto> v)"
proof -
  let ?data = "qm_data m @ [(k, v)]"
  have ix: "index_ok unat (map fst (qm_data m)) (qm_hash m)" using ok by (simp add: qm_ok_def)
  have fresh: "k \<notin> set (map fst (qm_data m))" using new by (simp add: qm_map_def map_of_eq_None_iff)
  have agr: "hf_agrees (map_functor ?data) (\<lambda>i. map fst (qm_data m) ! unat i) (entries (qm_hash m))"
    using ix unfolding hf_agrees_def index_ok_def by (auto simp: map_functor_def unat_index nth_append)
  obtain h where h: "qh_insert (map_functor ?data) (qm_hash m) k (of_nat (length (qm_data m))) = Some h"
    "index_ok unat (map fst (qm_data m) @ [k]) h"
    using index_ok_insert [OF ix map_functor.hashes agr fresh] room by auto
  have "map_of ?data = (map_of (qm_data m))(k \<mapsto> v)"
    using new by (auto simp: qm_map_def map_add_def fun_eq_iff split: option.splits)
  with h show ?thesis by (simp add: qm_insert_def Let_def qm_ok_def qm_map_def)
qed

text \<open>
  The hash map refines a finite map: on a well-formed container, looking up a key returns the
  end exactly when the map has no value for it, and otherwise an iterator to its value; inserting a
  new key, as long as the container has less than 2^28 entries, succeeds, keeps the container well-formed and
  adds exactly this pair to the map; and an automatic insertion does the same for a new key and
  leaves the container alone for a key that it has.
\<close>

theorem hash_map_refines_map:
  assumes "qm_ok m" and "length (qm_data m) < 2 ^ 28"
  shows "(\<exists>i. qm_find m k = Some i \<and> qm_value m i = qm_map m k \<and> (i = qm_end m \<longleftrightarrow> qm_map m k = None)) \<and>
    (\<exists>m'. qm_auto_insert m k v = Some m' \<and> qm_ok m' \<and>
      qm_map m' = (if qm_map m k = None then (qm_map m)(k \<mapsto> v) else qm_map m) \<and>
      (if qm_map m k = None then qm_insert m k v = Some m' else m' = m))"
proof (rule conjI)
  show "\<exists>i. qm_find m k = Some i \<and> qm_value m i = qm_map m k \<and> (i = qm_end m \<longleftrightarrow> qm_map m k = None)"
    by (rule qm_find_cases [OF assms(1), of k]) (auto simp: qm_value_def qm_end_def)
  have hash: "index_ok unat (map fst (qm_data m)) (qm_hash m)" using assms(1) by (simp add: qm_ok_def)
  note find = map_functor.find_position [OF TrueI hash, of k]
  show "\<exists>m'. qm_auto_insert m k v = Some m' \<and> qm_ok m' \<and>
      qm_map m' = (if qm_map m k = None then (qm_map m)(k \<mapsto> v) else qm_map m) \<and>
      (if qm_map m k = None then qm_insert m k v = Some m' else m' = m)"
  proof (cases "qm_map m k")
    case None
    then have "k \<notin> set (map fst (qm_data m))" by (simp add: qm_map_def map_of_eq_None_iff)
    with find have "qm_auto_insert m k v = qm_insert m k v" by (simp add: qm_auto_insert_def)
    with None qm_insert_ok [OF assms(1) None assms(2), of v] show ?thesis by auto
  next
    case (Some w)
    then have "k \<in> set (map fst (qm_data m))" unfolding qm_map_def by (auto dest: map_of_SomeD intro: rev_image_eqI)
    then have "position (map fst (qm_data m)) k \<noteq> NO_INDEX" using position_present(1) [of k "map fst (qm_data m)"] qm_ok_distinct [OF assms(1)] by simp
    with find Some assms(1) show ?thesis by (simp add: qm_auto_insert_def)
  qed
qed

theorem hash_map_refines_map_witness:
  "\<exists>m i. qm_auto_insert new_hash_map 7 (9 :: dword) = Some m \<and> qm_map m = [7 \<mapsto> 9] \<and> qm_find (new_hash_map :: dword hash_map) 7 = Some i \<and>
    i = qm_end (new_hash_map :: dword hash_map)"
  using hash_map_refines_map [OF qm_ok_new(1), of 7 "9 :: dword"] by (auto simp: qm_ok_new(2,3))

end
