(* ===== verification/RevisionIndex.thy ===== *)
theory RevisionIndex
  imports PackedStreams QuickHash
begin

text \<open>
  The revision index of the log cache
  (\<^verbatim>\<open>src/src/LogCache/Containers/RevisionIndex.h\<close>, \<^verbatim>\<open>RevisionIndex.cpp\<close>): an array with a bias that
  maps revision numbers to the position of their data. It refines a total map from revisions to
  indices in which all but finitely many entries are \<^verbatim>\<open>NO_INDEX\<close>. Assertions are not part of the
  model; the capacity of the vector, which one operation looks at, is an argument.
\<close>

section \<open>The index\<close>

definition NO_REVISION :: dword where "NO_REVISION = - 1"

record revision_index =
  firstRevision :: dword
  indices :: "dword list"

definition new_revision_index :: revision_index where
  "new_revision_index = \<lparr>firstRevision = 0, indices = []\<rparr>"

definition GetFirstRevision :: "revision_index \<Rightarrow> dword" where
  "GetFirstRevision ri = firstRevision ri"

definition GetLastRevision :: "revision_index \<Rightarrow> dword" where
  "GetLastRevision ri = firstRevision ri + of_nat (length (indices ri))"

text \<open>The two directions of search through the array.\<close>

function first_index :: "(dword \<Rightarrow> bool) \<Rightarrow> dword list \<Rightarrow> nat \<Rightarrow> nat option" where
  "first_index P xs i =
     (if i < length xs then (if P (xs ! i) then Some i else first_index P xs (i + 1)) else None)"
  by pat_completeness auto
termination by (relation "measure (\<lambda>(P, xs, i). length xs - i)") auto

declare first_index.simps [simp del]

fun last_index :: "(dword \<Rightarrow> bool) \<Rightarrow> dword list \<Rightarrow> nat \<Rightarrow> nat option" where
  "last_index P xs 0 = None"
| "last_index P xs (Suc i) = (if P (xs ! i) then Some (Suc i) else last_index P xs i)"

definition GetFirstCachedRevision :: "revision_index \<Rightarrow> dword" where
  "GetFirstCachedRevision ri =
     (case first_index (\<lambda>x. x \<noteq> NO_INDEX) (indices ri) 0 of
        Some i \<Rightarrow> firstRevision ri + of_nat i
      | None \<Rightarrow> NO_REVISION)"

definition GetLastCachedRevision :: "revision_index \<Rightarrow> dword" where
  "GetLastCachedRevision ri =
     (case last_index (\<lambda>x. x \<noteq> NO_INDEX) (indices ri) (length (indices ri)) of
        Some i \<Rightarrow> firstRevision ri + of_nat i
      | None \<Rightarrow> NO_REVISION)"

definition GetFirstMissingRevision :: "revision_index \<Rightarrow> dword \<Rightarrow> dword" where
  "GetFirstMissingRevision ri start =
     (if indices ri = [] then start
      else if firstRevision ri > start then start
      else
        (case first_index (\<lambda>x. x = NO_INDEX) (indices ri) (unat (start - firstRevision ri)) of
           Some i \<Rightarrow> firstRevision ri + of_nat i
         | None \<Rightarrow> firstRevision ri + of_nat (length (indices ri))))"

definition ri_lookup :: "revision_index \<Rightarrow> dword \<Rightarrow> dword" where
  "ri_lookup ri revision =
     (let revision = revision - firstRevision ri in
      if unat revision < length (indices ri) then indices ri ! unat revision else NO_INDEX)"

definition grow_lower :: "dword \<Rightarrow> revision_index \<Rightarrow> revision_index" where
  "grow_lower revision ri =
     (let indexSize = of_nat (length (indices ri)) :: dword;
          newFirstRevision = (if firstRevision ri < indexSize then 0
                              else min (firstRevision ri - indexSize) revision) in
      \<lparr>firstRevision = newFirstRevision,
       indices = replicate (unat (firstRevision ri - newFirstRevision)) NO_INDEX @ indices ri\<rparr>)"

definition grow_upper :: "dword \<Rightarrow> revision_index \<Rightarrow> revision_index" where
  "grow_upper revision ri =
     (let size = of_nat (length (indices ri)) :: dword in
      if revision - firstRevision ri \<ge> size
      then ri\<lparr>indices := indices ri @
                replicate (unat (max size (revision + 1 - firstRevision ri - size))) NO_INDEX\<rparr>
      else ri)"

definition SetRevisionIndex :: "revision_index \<Rightarrow> dword \<Rightarrow> dword \<Rightarrow> (string, revision_index) result" where
  "SetRevisionIndex ri revision index =
     (if revision = NO_REVISION then Raise ''Invalid revision''
      else if indices ri = [] then Return \<lparr>firstRevision = revision, indices = [index]\<rparr>
      else if revision = GetLastRevision ri then Return (ri\<lparr>indices := indices ri @ [index]\<rparr>)
      else
        (let ri = (if revision < firstRevision ri then grow_lower revision ri else grow_upper revision ri) in
         Return (ri\<lparr>indices := (indices ri)[unat (revision - firstRevision ri) := index]\<rparr>)))"

definition CanSetRevisionIndexThreadSafely :: "nat \<Rightarrow> revision_index \<Rightarrow> dword \<Rightarrow> bool" where
  "CanSetRevisionIndexThreadSafely vector_capacity ri revision =
     (if indices ri = [] then False
      else if revision < firstRevision ri then False
      else revision - firstRevision ri < of_nat vector_capacity)"

definition ri_Clear :: "revision_index \<Rightarrow> revision_index" where
  "ri_Clear ri = ri\<lparr>indices := [], firstRevision := 0\<rparr>"

text \<open>The cache file: the bias as a size value, the array as a vector of differences.\<close>

definition write_revision_index :: "revision_index \<Rightarrow> byte list" where
  "write_revision_index ri =
     write_vector (Diff_AddSizeValue AddSizeValue) (Diff_Add Integer_Add) (Diff_Flush FlushData)
       (Diff_AddSizeValue AddSizeValue (new_diff_out new_packed_out) (unat (firstRevision ri)))
       (indices ri)"

definition read_revision_index :: "byte list \<Rightarrow> (stream_error, revision_index) result" where
  "read_revision_index bs =
     bind_result (Diff_GetSizeValue GetSizeValue (Diff_Open AutoOpen bs)) (\<lambda>(first, stream).
       bind_result (read_vector (Diff_GetSizeValue GetSizeValue) (Diff_GetValue Integer_GetValue) stream)
         (\<lambda>(vs, stream). Return \<lparr>firstRevision = of_nat first, indices = vs\<rparr>))"

section \<open>The abstract map\<close>

text \<open>The array does not reach the end of the 32-bit range.\<close>

definition ri_ok :: "revision_index \<Rightarrow> bool" where
  "ri_ok ri \<longleftrightarrow> unat (firstRevision ri) + length (indices ri) < 2 ^ 32"

lemma ri_lookup_alt:
  assumes "ri_ok ri"
  shows "ri_lookup ri r =
    (if unat (firstRevision ri) \<le> unat r \<and> unat r < unat (firstRevision ri) + length (indices ri)
     then indices ri ! (unat r - unat (firstRevision ri)) else NO_INDEX)"
  using assms by (auto simp: ri_lookup_def ri_ok_def unat_minus_wrap Let_def)

lemma unat_GetLastRevision:
  "ri_ok ri \<Longrightarrow> unat (GetLastRevision ri) = unat (firstRevision ri) + length (indices ri)"
  by (simp add: GetLastRevision_def ri_ok_def unat_word_ariths unat_of_nat)

lemma first_index_Some:
  "first_index P xs i = Some j \<Longrightarrow> i \<le> j \<and> j < length xs \<and> P (xs ! j) \<and> (\<forall>k. i \<le> k \<and> k < j \<longrightarrow> \<not> P (xs ! k))"
proof (induction P xs i rule: first_index.induct)
  case (1 P xs i)
  show ?case
  proof (cases "i < length xs \<and> \<not> P (xs ! i)")
    case True
    with 1 have IH: "i + 1 \<le> j \<and> j < length xs \<and> P (xs ! j) \<and> (\<forall>k. i + 1 \<le> k \<and> k < j \<longrightarrow> \<not> P (xs ! k))"
      by (simp add: first_index.simps [of P xs i])
    have "\<not> P (xs ! k)" if "i \<le> k" "k < j" for k
      using that IH True by (cases "k = i") auto
    with IH show ?thesis by simp
  next
    case False
    with "1.prems" show ?thesis by (auto simp: first_index.simps [of P xs i] split: if_splits)
  qed
qed

lemma first_index_None:
  "first_index P xs i = None \<Longrightarrow> i \<le> k \<Longrightarrow> k < length xs \<Longrightarrow> \<not> P (xs ! k)"
proof (induction P xs i rule: first_index.induct)
  case (1 P xs i)
  then show ?case
    by (cases "k = i") (auto simp: first_index.simps [of P xs i] split: if_splits)
qed

lemma last_index_Some:
  "last_index P xs n = Some j \<Longrightarrow> 0 < j \<and> j \<le> n \<and> P (xs ! (j - 1)) \<and> (\<forall>k. j \<le> k \<and> k < n \<longrightarrow> \<not> P (xs ! k))"
proof (induction n)
  case (Suc n)
  have "\<not> P (xs ! n) \<Longrightarrow> j \<le> k \<Longrightarrow> k < Suc n \<Longrightarrow> \<not> P (xs ! k)" for k
    using Suc by (cases "k = n") auto
  with Suc show ?case by (auto split: if_splits)
qed simp

lemma last_index_None: "last_index P xs n = None \<Longrightarrow> k < n \<Longrightarrow> \<not> P (xs ! k)"
  by (induction n) (auto simp: less_Suc_eq split: if_splits)

section \<open>Setting an entry\<close>

lemma unat_minus_1 [simp]: "unat (- 1 :: dword) = 4294967295"
  by (simp add: unsigned_minus_1_eq_mask mask_eq_exp_minus_1)

lemma valid_revision: "unat revision < 2 ^ 31 \<Longrightarrow> revision \<noteq> NO_REVISION"
  by (auto simp: NO_REVISION_def)

lemma SetRevisionIndex_Return: "revision \<noteq> NO_REVISION \<Longrightarrow> \<exists>ri'. SetRevisionIndex ri revision index = Return ri'"
  by (simp add: SetRevisionIndex_def Let_def)

text \<open>Growing changes neither the invariant nor the map, and makes room for the revision.\<close>

definition has_room :: "revision_index \<Rightarrow> dword \<Rightarrow> bool" where
  "has_room ri r \<longleftrightarrow> unat (firstRevision ri) \<le> unat r \<and> unat r < unat (firstRevision ri) + length (indices ri)"

lemma grow_lower_ok:
  assumes "ri_ok ri" and "revision < firstRevision ri" and "indices ri \<noteq> []"
  shows "ri_ok (grow_lower revision ri)" and "has_room (grow_lower revision ri) revision"
    and "ri_lookup (grow_lower revision ri) = ri_lookup ri"
proof -
  let ?n = "firstRevision (grow_lower revision ri)"
  have len: "unat (of_nat (length (indices ri)) :: dword) = length (indices ri)"
    using assms(1) by (simp add: ri_ok_def unat_of_nat)
  have n: "unat ?n \<le> unat revision"
    by (simp add: grow_lower_def Let_def word_le_nat_alt min_def)
  have rev: "unat revision < unat (firstRevision ri)" using assms(2) by (simp add: word_less_nat_alt)
  have idx: "indices (grow_lower revision ri) =
      replicate (unat (firstRevision ri) - unat ?n) NO_INDEX @ indices ri"
    using n rev by (simp add: grow_lower_def Let_def unat_minus_wrap)
  show ok: "ri_ok (grow_lower revision ri)"
    using assms(1) n rev unfolding ri_ok_def idx by simp
  show "has_room (grow_lower revision ri) revision"
    using assms(3) n rev unfolding has_room_def idx by simp
  show "ri_lookup (grow_lower revision ri) = ri_lookup ri"
    using n rev unfolding ri_lookup_alt [OF ok] ri_lookup_alt [OF assms(1)] fun_eq_iff idx
    by (auto simp: nth_append)
qed

lemma grow_upper_ok:
  assumes "ri_ok ri" and "firstRevision ri \<le> revision" and "unat revision < 2 ^ 31" and "indices ri \<noteq> []"
  shows "ri_ok (grow_upper revision ri)" and "has_room (grow_upper revision ri) revision"
    and "ri_lookup (grow_upper revision ri) = ri_lookup ri"
    and "length (indices (grow_upper revision ri)) =
      (if revision < GetLastRevision ri then length (indices ri)
       else max (2 * length (indices ri)) (unat revision + 1 - unat (firstRevision ri)))"
proof -
  let ?len = "length (indices ri)" and ?f = "unat (firstRevision ri)"
  have len: "unat (of_nat ?len :: dword) = ?len" using assms(1) by (simp add: ri_ok_def unat_of_nat)
  have f: "?f \<le> unat revision" using assms(2) by (simp add: word_le_nat_alt)
  have outside: "revision - firstRevision ri \<ge> of_nat ?len \<longleftrightarrow> ?len \<le> unat revision - ?f"
    using f by (simp add: word_le_nat_alt len unat_minus_wrap)
  have last: "revision < GetLastRevision ri \<longleftrightarrow> unat revision - ?f < ?len"
    using f unat_GetLastRevision [OF assms(1)] by (auto simp: word_less_nat_alt)
  have suc: "unat (revision + 1) = unat revision + 1" using assms(3) by (simp add: unat_word_ariths)
  have toAdd: "unat (max (of_nat ?len) (revision + 1 - firstRevision ri - of_nat ?len) :: dword) =
      max ?len (unat revision + 1 - ?f - ?len)" if "?len \<le> unat revision - ?f"
  proof -
    have "?len \<le> unat revision + 1 - ?f" using that f by linarith
    with that f suc show ?thesis by (simp add: max_def word_le_nat_alt len unat_minus_wrap)
  qed
  have idx: "indices (grow_upper revision ri) = indices ri @
      replicate (if ?len \<le> unat revision - ?f then max ?len (unat revision + 1 - ?f - ?len) else 0) NO_INDEX"
    using outside toAdd by (simp add: grow_upper_def Let_def)
  have first: "firstRevision (grow_upper revision ri) = firstRevision ri"
    by (simp add: grow_upper_def Let_def)
  show ok: "ri_ok (grow_upper revision ri)"
    using assms(1,3) f unfolding ri_ok_def idx first by (auto simp: max_def)
  show "has_room (grow_upper revision ri) revision"
    using assms(4) f unfolding has_room_def idx first by (auto simp: max_def)
  show "ri_lookup (grow_upper revision ri) = ri_lookup ri"
    unfolding ri_lookup_alt [OF ok] ri_lookup_alt [OF assms(1)] fun_eq_iff idx first
    by (auto simp: nth_append)
  show "length (indices (grow_upper revision ri)) =
      (if revision < GetLastRevision ri then ?len else max (2 * ?len) (unat revision + 1 - ?f))"
    unfolding idx last by (auto simp: max_def)
qed

lemma write_ok:
  assumes "ri_ok ri" and "has_room ri revision"
  shows "ri_ok (ri\<lparr>indices := (indices ri)[unat (revision - firstRevision ri) := index]\<rparr>)"
    and "ri_lookup (ri\<lparr>indices := (indices ri)[unat (revision - firstRevision ri) := index]\<rparr>) =
      (ri_lookup ri)(revision := index)"
proof -
  let ?ri = "ri\<lparr>indices := (indices ri)[unat (revision - firstRevision ri) := index]\<rparr>"
  show ok: "ri_ok ?ri" using assms(1) by (simp add: ri_ok_def)
  have at: "unat (revision - firstRevision ri) = unat revision - unat (firstRevision ri)"
    using assms(2) by (simp add: unat_minus_wrap has_room_def)
  have "ri_lookup ?ri r = ((ri_lookup ri)(revision := index)) r" for r
  proof (cases "r = revision")
    case True
    then show ?thesis
      using assms(2) unfolding ri_lookup_alt [OF ok] by (auto simp: has_room_def at)
  next
    case False
    then have "unat r \<noteq> unat revision" by (simp add: word_unat_eq_iff)
    then have "unat r - unat (firstRevision ri) \<noteq> unat revision - unat (firstRevision ri)"
      if "unat (firstRevision ri) \<le> unat r"
      using that assms(2) by (auto simp: has_room_def)
    with False show ?thesis
      unfolding ri_lookup_alt [OF ok] by (auto simp: at ri_lookup_alt [OF assms(1)])
  qed
  then show "ri_lookup ?ri = (ri_lookup ri)(revision := index)" by blast
qed

section \<open>Differences of stored indices\<close>

lemma int_value_ok_difference:
  assumes "a = NO_INDEX \<or> unat a < 2 ^ 30" and "b = NO_INDEX \<or> unat b < 2 ^ 30"
  shows "int_value_ok (b - a)"
proof -
  have "unat (b - a) < 2 ^ 31 \<or> unat (b - a) > 0x80000001"
    using assms unat_lt_2p32 [of a] unat_lt_2p32 [of b] by (auto simp: unat_minus_wrap NO_INDEX_def)
  then show ?thesis by (auto simp: int_value_ok_def)
qed

lemma diffs_storable:
  "l = NO_INDEX \<or> unat l < 2 ^ 30 \<Longrightarrow> \<forall>i \<in> set vs. i = NO_INDEX \<or> unat i < 2 ^ 30 \<Longrightarrow>
   length (diffs l vs) = length vs \<and> list_all int_value_ok (diffs l vs)"
  by (induction vs arbitrary: l) (simp_all add: int_value_ok_difference)

section \<open>The properties\<close>

text \<open>
  C21. The index refines a map: for every revision below 2^31 that is not the invalid one, setting
  its entry succeeds, however far below or above the stored range it lies, changes the value found
  at this revision and at no other, and keeps the array inside the 32-bit range, so no later
  position computation wraps.
\<close>

theorem revision_index_refines_map:
  assumes "ri_ok ri" and "unat revision < 2 ^ 31"
  shows "\<exists>ri'. SetRevisionIndex ri revision index = Return ri' \<and> ri_ok ri' \<and>
    ri_lookup ri' = (ri_lookup ri)(revision := index)"
proof -
  have valid: "revision \<noteq> NO_REVISION" by (rule valid_revision [OF assms(2)])
  consider (empty) "indices ri = []" | (last) "indices ri \<noteq> []" "revision = GetLastRevision ri"
    | (lower) "indices ri \<noteq> []" "revision \<noteq> GetLastRevision ri" "revision < firstRevision ri"
    | (upper) "indices ri \<noteq> []" "revision \<noteq> GetLastRevision ri" "firstRevision ri \<le> revision"
    by fastforce
  then show ?thesis
  proof cases
    case empty
    let ?ri = "\<lparr>firstRevision = revision, indices = [index]\<rparr>"
    have ok: "ri_ok ?ri" using assms(2) by (simp add: ri_ok_def)
    have "ri_lookup ?ri = (ri_lookup ri)(revision := index)"
      unfolding fun_eq_iff ri_lookup_alt [OF ok] ri_lookup_alt [OF assms(1)] using empty
      by (auto simp: word_unat_eq_iff)
    with ok valid empty show ?thesis by (simp add: SetRevisionIndex_def)
  next
    case last
    let ?ri = "ri\<lparr>indices := indices ri @ [index]\<rparr>"
    have end': "unat revision = unat (firstRevision ri) + length (indices ri)"
      using unat_GetLastRevision [OF assms(1)] last by simp
    then have ok: "ri_ok ?ri" using assms(2) by (simp add: ri_ok_def)
    have "ri_lookup ?ri = (ri_lookup ri)(revision := index)"
      unfolding fun_eq_iff ri_lookup_alt [OF ok] ri_lookup_alt [OF assms(1)]
      using end' by (auto simp: nth_append word_unat_eq_iff)
    with ok valid last show ?thesis by (simp add: SetRevisionIndex_def)
  next
    case lower
    with write_ok [OF grow_lower_ok(1,2) [OF assms(1) lower(3,1)], of index] valid show ?thesis
      by (simp add: SetRevisionIndex_def Let_def grow_lower_ok(3) [OF assms(1) lower(3,1)])
  next
    case upper
    note up = grow_upper_ok [OF assms(1) upper(3) assms(2) upper(1)]
    with write_ok [OF up(1,2), of index] valid upper leD [OF upper(3)] show ?thesis
      by (simp add: SetRevisionIndex_def Let_def)
  qed
qed

theorem revision_index_refines_map_witness:
  "\<exists>ri'. SetRevisionIndex \<lparr>firstRevision = 100, indices = [7, 8]\<rparr> 20 9 = Return ri' \<and> ri_ok ri' \<and>
    ri_lookup ri' = (ri_lookup \<lparr>firstRevision = 100, indices = [7, 8]\<rparr>)(20 := 9)"
  by (rule revision_index_refines_map) (simp_all add: ri_ok_def)

text \<open>
  C28. The search for the first missing revision is right from any start that is not beyond the
  stored range: the result is the first revision from there on that has no entry. From a start
  beyond the range of a nonempty index the result lies before the start.
\<close>

theorem first_missing_correct:
  assumes "ri_ok ri"
  shows "if indices ri = [] \<or> start \<le> GetLastRevision ri
    then start \<le> GetFirstMissingRevision ri start \<and> ri_lookup ri (GetFirstMissingRevision ri start) = NO_INDEX \<and>
      \<not> (\<exists>r. start \<le> r \<and> r < GetFirstMissingRevision ri start \<and> ri_lookup ri r = NO_INDEX)
    else GetFirstMissingRevision ri start = GetLastRevision ri \<and> GetFirstMissingRevision ri start < start"
proof -
  let ?len = "length (indices ri)" and ?f = "unat (firstRevision ri)"
  note lookup = ri_lookup_alt [OF assms] and last = unat_GetLastRevision [OF assms]
  note nat_simps = word_le_nat_alt word_less_nat_alt
  have at: "unat (firstRevision ri + of_nat i :: dword) = ?f + i" if "i \<le> ?len" for i
    using that assms by (simp add: ri_ok_def unat_word_ariths unat_of_nat)
  show ?thesis
  proof (cases "indices ri = [] \<or> start < firstRevision ri")
    case True
    then have "GetFirstMissingRevision ri start = start" by (auto simp: GetFirstMissingRevision_def)
    moreover have "ri_lookup ri start = NO_INDEX" using True by (auto simp: lookup nat_simps)
    moreover have "indices ri = [] \<or> start \<le> GetLastRevision ri" using True last by (auto simp: nat_simps)
    ultimately show ?thesis by auto
  next
    case False
    then have start: "?f \<le> unat start" and ne: "indices ri \<noteq> []" by (auto simp: nat_simps)
    define i where "i = unat start - ?f"
    have i: "unat (start - firstRevision ri) = i" "unat start = ?f + i"
      using start by (simp_all add: unat_minus_wrap i_def)
    show ?thesis
    proof (cases "first_index (\<lambda>x. x = NO_INDEX) (indices ri) i")
      case (Some j)
      note j = first_index_Some [OF Some]
      then have "unat (GetFirstMissingRevision ri start) = ?f + j"
        using False ne i Some at [of j] by (simp add: GetFirstMissingRevision_def)
      moreover have "ri_lookup ri r \<noteq> NO_INDEX" if "unat start \<le> unat r" "unat r < ?f + j" for r
      proof -
        have "i \<le> unat r - ?f" "unat r - ?f < j" using that i by auto
        with that i j show ?thesis by (simp add: lookup)
      qed
      moreover have "start \<le> GetLastRevision ri" using i j last by (simp add: nat_simps)
      moreover have "ri_lookup ri (GetFirstMissingRevision ri start) = NO_INDEX"
        using calculation(1) j by (simp add: lookup)
      ultimately show ?thesis using i j by (auto simp: nat_simps)
    next
      case None
      have missing: "GetFirstMissingRevision ri start = GetLastRevision ri"
        using False ne i None by (simp add: GetFirstMissingRevision_def GetLastRevision_def)
      have "ri_lookup ri r \<noteq> NO_INDEX" if "unat start \<le> unat r" "unat r < ?f + ?len" for r
        using that i first_index_None [OF None, of "unat r - ?f"] by (simp add: lookup)
      with missing last i ne show ?thesis by (auto simp: nat_simps lookup)
    qed
  qed
qed

theorem first_missing_correct_witness:
  "GetFirstMissingRevision \<lparr>firstRevision = 10, indices = [1, 2, NO_INDEX, 3]\<rparr> 50 < 50"
  using first_missing_correct [of "\<lparr>firstRevision = 10, indices = [1, 2, NO_INDEX, 3]\<rparr>" 50]
  by (simp add: ri_ok_def GetLastRevision_def)

text \<open>
  C29. What the thread safety test guarantees. If it allows an insertion, the vector is not
  reallocated exactly when the revision is at most the one after the stored range or twice the
  stored range fits the capacity: a revision further out makes the array at least double its size,
  so the test can allow an insertion that moves the array under its concurrent readers.
\<close>

theorem thread_safe_insertion:
  assumes "ri_ok ri" and "unat revision < 2 ^ 31" and "length (indices ri) \<le> c" and "c < 2 ^ 32"
    and "CanSetRevisionIndexThreadSafely c ri revision" and "SetRevisionIndex ri revision index = Return ri'"
  shows "length (indices ri') \<le> c \<longleftrightarrow> revision \<le> GetLastRevision ri \<or> 2 * length (indices ri) \<le> c"
proof -
  let ?len = "length (indices ri)" and ?f = "unat (firstRevision ri)"
  from assms(5) have ne: "indices ri \<noteq> []" and f: "firstRevision ri \<le> revision"
    and cap: "revision - firstRevision ri < of_nat c"
    by (auto simp: CanSetRevisionIndexThreadSafely_def not_less split: if_splits)
  have room: "unat revision - ?f < c"
    using cap f assms(4) by (simp add: word_less_nat_alt word_le_nat_alt unat_minus_wrap unat_of_nat)
  have valid: "revision \<noteq> NO_REVISION" by (rule valid_revision [OF assms(2)])
  show ?thesis
  proof (cases "revision = GetLastRevision ri")
    case True
    with assms(6) ne valid have "length (indices ri') = ?len + 1" by (auto simp: SetRevisionIndex_def)
    with True room unat_GetLastRevision [OF assms(1)] show ?thesis by simp
  next
    case False
    have "length (indices ri') = length (indices (grow_upper revision ri))"
      using False assms(6) ne valid f by (auto simp: SetRevisionIndex_def Let_def not_less)
    with False assms(3) room grow_upper_ok(4) [OF assms(1) f assms(2) ne] show ?thesis
      by (auto simp: max_def)
  qed
qed

text \<open>Sixty revisions in a vector of capacity 100, and revision 80 from their start.\<close>

theorem thread_safe_insertion_witness:
  "CanSetRevisionIndexThreadSafely 100 \<lparr>firstRevision = 1, indices = replicate 60 5\<rparr> 81 \<and>
   (\<exists>ri'. SetRevisionIndex \<lparr>firstRevision = 1, indices = replicate 60 5\<rparr> 81 6 = Return ri' \<and>
     \<not> length (indices ri') \<le> 100)"
proof -
  let ?ri = "\<lparr>firstRevision = 1, indices = replicate 60 5\<rparr>"
  have can: "CanSetRevisionIndexThreadSafely 100 ?ri 81"
    by (simp add: CanSetRevisionIndexThreadSafely_def)
  obtain ri' where set': "SetRevisionIndex ?ri 81 6 = Return ri'"
    using SetRevisionIndex_Return [OF valid_revision, of 81] by auto
  have "\<not> length (indices ri') \<le> 100"
    using thread_safe_insertion [OF _ _ _ _ can set'] by (simp add: ri_ok_def GetLastRevision_def)
  with can set' show ?thesis by blast
qed

text \<open>
  The index survives the cache file: an index whose entries are valid indices below 2^30 or
  \<^verbatim>\<open>NO_INDEX\<close> is read back from its stream exactly as it was written, bias included.
\<close>

theorem revision_index_stream_roundtrip:
  assumes "length (indices ri) < 2 ^ 32" and "\<forall>i \<in> set (indices ri). i = NO_INDEX \<or> unat i < 2 ^ 30"
  shows "read_revision_index (write_revision_index ri) = Return ri"
proof -
  have "int_storable (diffs 0 (indices ri))"
    using assms by (simp add: int_storable_def diffs_storable)
  from diff_int_stream.vector_after_sizes [OF this, of "[unat (firstRevision ri)]"] obtain bs r where
    "write_revision_index ri = InternalAdd (of_nat (unat (firstRevision ri))) @ bs"
    "read_vector (Diff_GetSizeValue GetSizeValue) (Diff_GetValue Integer_GetValue)
       (Diff_Open AutoOpen bs) = Return (indices ri, r)"
    by (auto simp: write_revision_index_def)
  with diff_int_stream.getSize [of "unat (firstRevision ri)" bs] show ?thesis
    by (simp add: read_revision_index_def)
qed

theorem revision_index_stream_roundtrip_witness:
  "read_revision_index (write_revision_index \<lparr>firstRevision = 5, indices = [3, NO_INDEX, 3, 0]\<rparr>) =
   Return \<lparr>firstRevision = 5, indices = [3, NO_INDEX, 3, 0]\<rparr>"
  by (rule revision_index_stream_roundtrip) simp_all

end
