(* ===== verification/SkipRanges.thy ===== *)
theory SkipRanges
  imports RevisionIndex
begin

text \<open>
  The revision ranges of one path in the skip information of the log cache (\<^verbatim>\<open>SPerPathRanges\<close> of
  \<^verbatim>\<open>src/src/LogCache/Containers/SkipRevisionInfo.h\<close>, \<^verbatim>\<open>SkipRevisionInfo.cpp\<close>). The \<^verbatim>\<open>std::map\<close> from the start
  of a range to its size is the list of its entries in the order of the keys, its iterators are
  positions. Assertions are not part of the model.
\<close>

section \<open>The ranges of a path\<close>

type_synonym ranges = "(dword \<times> dword) list"

text \<open>The operations of the map that are used: lookup of a position, insertion, removal.\<close>

definition lower_bound :: "ranges \<Rightarrow> dword \<Rightarrow> nat" where
  "lower_bound m key = length (takeWhile (\<lambda>e. fst e < key) m)"

definition upper_bound :: "ranges \<Rightarrow> dword \<Rightarrow> nat" where
  "upper_bound m key = length (takeWhile (\<lambda>e. fst e \<le> key) m)"

definition emplace :: "ranges \<Rightarrow> dword \<Rightarrow> dword \<Rightarrow> ranges \<times> nat \<times> bool" where
  "emplace m key value =
     (let i = lower_bound m key in
      if i < length m \<and> fst (m ! i) = key then (m, i, False)
      else (take i m @ (key, value) # drop i m, i, True))"

definition erase :: "ranges \<Rightarrow> nat \<Rightarrow> ranges" where
  "erase m i = take i m @ drop (Suc i) m"

definition FindPrevious :: "ranges \<Rightarrow> dword \<Rightarrow> dword" where
  "FindPrevious m revision =
     (if m = [] then NO_REVISION
      else
        (let i = upper_bound m revision in
         if i = 0 then NO_REVISION
         else
           (let (first, second) = m ! (i - 1); next_revision = first + second in
            if next_revision \<le> revision then NO_REVISION else first - 1)))"

definition merge_previous :: "ranges \<Rightarrow> nat \<Rightarrow> dword \<Rightarrow> dword \<Rightarrow> ranges \<times> nat \<times> dword" where
  "merge_previous m i start end_revision =
     (if i \<noteq> 0
      then
        (let (first, second) = m ! (i - 1); previousEnd = first + second in
         if previousEnd \<ge> start
         then
           (let end_revision = (if end_revision < previousEnd then previousEnd else end_revision) in
            (erase (m[i - 1 := (first, end_revision - first)]) i, i - 1, end_revision))
         else (m, i, end_revision))
      else (m, i, end_revision))"

definition merge_next :: "ranges \<Rightarrow> nat \<Rightarrow> dword \<Rightarrow> ranges" where
  "merge_next m i end_revision =
     (if i + 1 < length m \<and> fst (m ! (i + 1)) \<le> end_revision
      then
        (let (first, second) = m ! (i + 1); start = fst (m ! i) in
         erase (m[i := (start, max end_revision (first + second) - start)]) (i + 1))
      else m)"

definition range_Add :: "ranges \<Rightarrow> dword \<Rightarrow> dword \<Rightarrow> ranges" where
  "range_Add m start extent =
     (let end_revision = start + extent;
          (m, i, inserted) = emplace m start extent;
          m = (if \<not> inserted \<and> snd (m ! i) < extent then m[i := (start, extent)] else m);
          (m, i, end_revision) = merge_previous m i start end_revision
      in merge_next m i end_revision)"

subsection \<open>The revisions they cover\<close>

abbreviation range_first :: "dword \<times> dword \<Rightarrow> nat" where
  "range_first e \<equiv> unat (fst e)"

abbreviation range_end :: "dword \<times> dword \<Rightarrow> nat" where
  "range_end e \<equiv> unat (fst e) + unat (snd e)"

definition covered :: "ranges \<Rightarrow> nat set" where
  "covered m = (\<Union>e \<in> set m. {range_first e..<range_end e})"

text \<open>No range is empty or runs past the last revision number.\<close>

definition range_ok :: "dword \<times> dword \<Rightarrow> bool" where
  "range_ok e \<longleftrightarrow> 0 < unat (snd e) \<and> range_end e < 2 ^ 32"

text \<open>
  The header asks that ranges do not overlap; what the insertion of single ranges aims at is that
  they do not even touch.
\<close>

definition no_overlap :: "ranges \<Rightarrow> bool" where
  "no_overlap m \<longleftrightarrow> list_all range_ok m \<and> sorted_wrt (\<lambda>a b. range_end a \<le> range_first b) m"

definition separated :: "ranges \<Rightarrow> bool" where
  "separated m \<longleftrightarrow> list_all range_ok m \<and> sorted_wrt (\<lambda>a b. range_end a < range_first b) m"

lemma covered_simps [simp]:
  "covered [] = {}" "covered (e # m) = {range_first e..<range_end e} \<union> covered m"
  "covered (m @ m') = covered m \<union> covered m'"
  by (auto simp: covered_def)

lemma separated_no_overlap: "separated m \<Longrightarrow> no_overlap m"
  by (auto simp: separated_def no_overlap_def intro: sorted_wrt_mono_rel [rotated])

lemma unat_plus_small: "unat a + unat b < 2 ^ 32 \<Longrightarrow> unat (a + b) = unat a + unat b" for a b :: dword
  by (simp add: unat_word_ariths)

lemma unat_range_end: "range_ok e \<Longrightarrow> unat (fst e + snd e) = range_end e"
  by (simp add: range_ok_def unat_plus_small)


subsection \<open>Adding a range\<close>

lemma sorted_firsts:
  assumes "no_overlap m" and "i < j" and "j < length m"
  shows "range_end (m ! i) \<le> range_first (m ! j)" and "fst (m ! i) < fst (m ! j)"
proof -
  show le: "range_end (m ! i) \<le> range_first (m ! j)"
    using assms by (simp add: no_overlap_def sorted_wrt_iff_nth_less)
  have "range_ok (m ! i)" using assms by (simp add: no_overlap_def list_all_length)
  with le show "fst (m ! i) < fst (m ! j)" by (simp add: range_ok_def word_less_nat_alt)
qed

lemma lower_bound_append:
  "\<forall>x \<in> set xs. fst x < key \<Longrightarrow> ys = [] \<or> \<not> fst (hd ys) < key \<Longrightarrow> lower_bound (xs @ ys) key = length xs"
  by (cases ys) (auto simp: lower_bound_def takeWhile_append takeWhile_eq_all_conv [THEN iffD2])

lemma lower_bound_cases:
  obtains xs ys where "m = xs @ ys" "lower_bound m key = length xs" "\<forall>x \<in> set xs. fst x < key"
    "ys = [] \<or> key \<le> fst (hd ys)"
proof
  let ?P = "\<lambda>e :: dword \<times> dword. fst e < key"
  show "m = takeWhile ?P m @ dropWhile ?P m" by simp
  show "\<forall>x \<in> set (takeWhile ?P m). fst x < key" by (auto dest: set_takeWhileD)
  show "dropWhile ?P m = [] \<or> key \<le> fst (hd (dropWhile ?P m))"
    using hd_dropWhile [of ?P m] by (metis not_less)
qed (simp add: lower_bound_def)

text \<open>Insertion puts the new range between those before and those behind its start.\<close>

definition entered :: "ranges \<Rightarrow> dword \<Rightarrow> dword \<Rightarrow> ranges" where
  "entered m start extent =
     (let (m, i, inserted) = emplace m start extent in
      if \<not> inserted \<and> snd (m ! i) < extent then m[i := (start, extent)] else m)"

lemma range_Add_entered:
  "range_Add m start extent =
     (let (m', i, e) = merge_previous (entered m start extent) (lower_bound m start) start (start + extent)
      in merge_next m' i e)"
  by (auto simp: range_Add_def entered_def emplace_def Let_def split: prod.splits)

lemma entered_at:
  assumes "\<forall>x \<in> set xs. fst x < start" and "ys = [] \<or> start \<le> fst (hd ys)"
  shows "lower_bound (xs @ ys) start = length xs"
    and "entered (xs @ ys) start extent =
      (case ys of [] \<Rightarrow> xs @ [(start, extent)]
       | (k, s) # zs \<Rightarrow> if k = start then xs @ (start, if s < extent then extent else s) # zs
                        else xs @ (start, extent) # ys)"
proof -
  show lb: "lower_bound (xs @ ys) start = length xs"
    using assms by (intro lower_bound_append) (auto simp: not_less)
  show "entered (xs @ ys) start extent =
      (case ys of [] \<Rightarrow> xs @ [(start, extent)]
       | (k, s) # zs \<Rightarrow> if k = start then xs @ (start, if s < extent then extent else s) # zs
                        else xs @ (start, extent) # ys)"
    by (auto simp: entered_def emplace_def lb Let_def split: list.split)
qed

lemma merge_previous_at:
  "merge_previous (r # zs) 0 start e = (r # zs, 0, e)"
  "fst p + snd p \<ge> start \<Longrightarrow> merge_previous (xs @ p # r # zs) (Suc (length xs)) start e =
     (let e' = max e (fst p + snd p) in (xs @ (fst p, e' - fst p) # zs, length xs, e'))"
  "\<not> fst p + snd p \<ge> start \<Longrightarrow> merge_previous (xs @ p # r # zs) (Suc (length xs)) start e =
     (xs @ p # r # zs, Suc (length xs), e)"
  by (auto simp: merge_previous_def erase_def nth_append list_update_append Let_def max_def not_less
      split: prod.splits)

lemma merge_next_at:
  "merge_next (xs @ [r]) (length xs) e = xs @ [r]"
  "fst z \<le> e \<Longrightarrow> merge_next (xs @ r # z # zs) (length xs) e = xs @ (fst r, max e (fst z + snd z) - fst r) # zs"
  "\<not> fst z \<le> e \<Longrightarrow> merge_next (xs @ r # z # zs) (length xs) e = xs @ r # z # zs"
  by (auto simp: merge_next_def erase_def nth_append list_update_append Let_def split: prod.splits)

lemma separated_simps:
  "separated []"
  "separated (r # m) \<longleftrightarrow> range_ok r \<and> separated m \<and> (\<forall>b \<in> set m. range_end r < range_first b)"
  "separated (m @ m') \<longleftrightarrow> separated m \<and> separated m' \<and> (\<forall>a \<in> set m. \<forall>b \<in> set m'. range_end a < range_first b)"
  by (auto simp: separated_def sorted_wrt_append)

text \<open>The range from \<open>k\<close> to \<open>e\<close>.\<close>

lemma range_upto:
  assumes "unat k < unat e"
  shows "range_ok (k, e - k)" and "range_end (k, e - k) = unat e"
  using assms unat_lt_2p32 [of e] by (simp_all add: range_ok_def unat_minus_wrap)

lemma unat_max: "unat (max a b) = max (unat a) (unat b)" for a b :: dword
  by (auto simp: max_def word_le_nat_alt)

abbreviation starting_upto :: "ranges \<Rightarrow> nat \<Rightarrow> ranges" where
  "starting_upto m e \<equiv> filter (\<lambda>z. range_first z \<le> e) m"

lemma merge_next_ok:
  assumes sep: "separated xs" "separated zs" and r: "range_ok r" and before: "\<forall>x \<in> set xs. range_end x < range_first r"
    and behind: "\<forall>z \<in> set zs. range_first r < range_first z"
    and e: "range_first r < unat e" "unat e \<le> range_end r"
    and complete: "unat e = range_end r \<or> (\<forall>z \<in> set zs. range_end r < range_first z)"
  shows "covered (merge_next (xs @ r # zs) (length xs) e) = covered (xs @ r # zs)"
    and "separated (merge_next (xs @ r # zs) (length xs) e) \<longleftrightarrow> length (starting_upto zs (unat e)) \<le> 1"
proof -
  have "covered (merge_next (xs @ r # zs) (length xs) e) = covered (xs @ r # zs) \<and>
    (separated (merge_next (xs @ r # zs) (length xs) e) \<longleftrightarrow> length (starting_upto zs (unat e)) \<le> 1)"
  proof (cases zs)
    case Nil
    with sep r before show ?thesis by (simp add: merge_next_at separated_simps)
  next
    case (Cons z ws)
    with sep(2) have z: "range_ok z" "separated ws" "\<forall>w \<in> set ws. range_end z < range_first w"
      by (simp_all add: separated_simps)
    then have pos: "range_first z < range_end z" by (simp add: range_ok_def)
    have far: "\<forall>x \<in> set xs. \<forall>w \<in> set zs. range_end x < range_first w"
      using before behind by (meson less_trans)
    show ?thesis
    proof (cases "range_first z \<le> unat e")
      case True
      with complete Cons e(2) have end_r: "unat e = range_end r" by auto
      let ?e = "max e (fst z + snd z)"
      have E: "unat ?e = max (unat e) (range_end z)" by (simp add: unat_max unat_range_end z(1))
      with e(1) have less: "unat (fst r) < unat ?e" by simp
      have res: "merge_next (xs @ r # zs) (length xs) e = xs @ (fst r, ?e - fst r) # ws"
        using True Cons by (simp add: merge_next_at word_le_nat_alt)
      have cov: "{range_first r..<max (range_end r) (range_end z)} =
          {range_first r..<range_end r} \<union> {range_first z..<range_end z}"
        using True end_r behind Cons by (auto simp: max_def)
      have "separated (xs @ (fst r, ?e - fst r) # ws) \<longleftrightarrow> (\<forall>w \<in> set ws. unat e < range_first w)"
        using sep(1) z far Cons before E range_upto [OF less] by (auto simp: separated_simps)
      then have "separated (xs @ (fst r, ?e - fst r) # ws) \<longleftrightarrow> starting_upto ws (unat e) = []"
        by (simp add: filter_empty_conv not_le)
      with True Cons have "separated (xs @ (fst r, ?e - fst r) # ws) \<longleftrightarrow> length (starting_upto zs (unat e)) \<le> 1"
        by simp
      with res range_upto(2) [OF less] E end_r cov Cons show ?thesis by auto
    next
      case False
      with z(3) pos have none: "\<forall>w \<in> set ws. \<not> range_first w \<le> unat e" by fastforce
      with False Cons have "starting_upto zs (unat e) = []" by (simp add: filter_empty_conv)
      moreover have "separated (xs @ r # zs)"
        using False none complete far sep r before Cons by (auto simp: separated_simps not_le)
      ultimately show ?thesis using False Cons by (simp add: merge_next_at word_le_nat_alt)
    qed
  qed
  then show "covered (merge_next (xs @ r # zs) (length xs) e) = covered (xs @ r # zs)"
    and "separated (merge_next (xs @ r # zs) (length xs) e) \<longleftrightarrow> length (starting_upto zs (unat e)) \<le> 1"
    by blast+
qed

text \<open>What is entered: the new range, or the old one with the same start if that is longer.\<close>

lemma entered_cases:
  assumes sep: "separated m" and new: "0 < unat extent" "unat start + unat extent < 2 ^ 32"
  obtains xs s zs where "entered m start extent = xs @ (start, s) # zs" "lower_bound m start = length xs"
    "separated xs" "separated zs" "unat extent \<le> unat s" "unat start + unat s < 2 ^ 32"
    "\<forall>x \<in> set xs. range_first x < unat start" "\<forall>z \<in> set zs. unat start < range_first z"
    "covered (entered m start extent) = covered m \<union> {unat start..<unat start + unat extent}"
    "filter (\<lambda>r. unat start < range_first r) m = zs"
    "s = extent \<or> (\<forall>x \<in> set xs. range_end x < unat start) \<and> (\<forall>z \<in> set zs. unat start + unat s < range_first z)"
    "\<forall>x \<in> set xs. \<forall>z \<in> set zs. range_end x < range_first z"
proof -
  obtain xs ys where split: "m = xs @ ys" and xs: "\<forall>x \<in> set xs. fst x < start"
    and ys: "ys = [] \<or> start \<le> fst (hd ys)"
    by (rule lower_bound_cases)
  have sep': "separated xs" "separated ys" "\<forall>a \<in> set xs. \<forall>b \<in> set ys. range_end a < range_first b"
    using sep by (simp_all add: split separated_simps)
  note at = entered_at(1) [OF xs ys, folded split] entered_at(2) [OF xs ys, of extent, folded split]
  have low: "filter (\<lambda>r. unat start < range_first r) xs = []"
    using xs by (auto simp: filter_empty_conv word_less_nat_alt)
  have first_m: "filter (\<lambda>r. unat start < range_first r) m = filter (\<lambda>r. unat start < range_first r) ys"
    using low by (simp add: split)
  have cov: "covered m = covered xs \<union> covered ys" by (simp add: split)
  show ?thesis
  proof (cases "\<exists>s zs. ys = (start, s) # zs")
    case True
    then obtain s zs where y: "ys = (start, s) # zs" by blast
    let ?s = "if s < extent then extent else s"
    have z: "range_ok (start, s)" "separated zs" "\<forall>w \<in> set zs. unat start + unat s < range_first w"
      using sep'(2) unfolding y separated_simps by simp_all
    then have beh: "\<forall>w \<in> set zs. unat start < range_first w" by fastforce
    have f: "filter (\<lambda>r. unat start < range_first r) m = zs"
      using first_m beh by (simp add: y filter_id_conv)
    have c: "covered (entered m start extent) = covered m \<union> {unat start..<unat start + unat extent}"
      unfolding cov at(2) y by (auto simp: word_less_nat_alt)
    show ?thesis
      by (rule that [of xs ?s zs])
        (use at y z beh f c xs new sep' in \<open>auto simp: word_less_nat_alt range_ok_def split: if_splits\<close>)
  next
    case False
    have beh: "\<forall>w \<in> set ys. unat start < range_first w"
    proof (cases ys)
      case (Cons y ws)
      with False ys have "start < fst y" by (cases y) auto
      moreover have "\<forall>w \<in> set ws. range_end y < range_first w"
        using sep'(2) unfolding Cons separated_simps by blast
      ultimately show ?thesis unfolding Cons by (auto simp: word_less_nat_alt intro: less_trans)
    qed simp
    have ent: "entered m start extent = xs @ (start, extent) # ys"
      unfolding at(2) using False by (cases ys) auto
    have f: "filter (\<lambda>r. unat start < range_first r) m = ys"
      using first_m beh by (simp add: filter_id_conv)
    show ?thesis
      by (rule that [of xs extent ys])
        (use at ent beh f xs new sep' cov in \<open>auto simp: word_less_nat_alt\<close>)
  qed
qed

lemma range_Add_covers:
  assumes "separated m" and "0 < unat extent" and "unat start + unat extent < 2 ^ 32"
  shows "covered (range_Add m start extent) = covered m \<union> {unat start..<unat start + unat extent} \<and>
    (separated (range_Add m start extent) \<longleftrightarrow>
       length (filter (\<lambda>r. unat start < range_first r \<and> range_first r \<le> unat start + unat extent) m) \<le> 1)"
proof -
  obtain xs s zs where e: "entered m start extent = xs @ (start, s) # zs" "lower_bound m start = length xs"
    and sep: "separated xs" "separated zs" and s: "unat extent \<le> unat s" "unat start + unat s < 2 ^ 32"
    and low: "\<forall>x \<in> set xs. range_first x < unat start" and high: "\<forall>z \<in> set zs. unat start < range_first z"
    and cov: "covered (entered m start extent) = covered m \<union> {unat start..<unat start + unat extent}"
    and behind: "filter (\<lambda>r. unat start < range_first r) m = zs"
    and old: "s = extent \<or> (\<forall>x \<in> set xs. range_end x < unat start) \<and> (\<forall>z \<in> set zs. unat start + unat s < range_first z)"
    and far: "\<forall>x \<in> set xs. \<forall>z \<in> set zs. range_end x < range_first z"
    using entered_cases [OF assms] by blast
  let ?e = "start + extent"
  have unat_e: "unat ?e = unat start + unat extent" by (rule unat_plus_small [OF assms(3)])
  have inside: "filter (\<lambda>r. unat start < range_first r \<and> range_first r \<le> unat start + unat extent) m =
      starting_upto zs (unat ?e)"
    unfolding behind [symmetric] filter_filter unat_e by (rule filter_cong) auto
  have ok: "range_ok (start, s)" using s assms(2) by (simp add: range_ok_def)
  have alone: "covered (merge_next (xs @ (start, s) # zs) (length xs) ?e) = covered (xs @ (start, s) # zs) \<and>
      (separated (merge_next (xs @ (start, s) # zs) (length xs) ?e) \<longleftrightarrow> length (starting_upto zs (unat ?e)) \<le> 1)"
    if "\<forall>x \<in> set xs. range_end x < unat start"
    using merge_next_ok [OF sep ok _ _ _ _, of ?e] that high old s assms(2) unat_e by auto
  show ?thesis
  proof (cases "\<exists>xs' p. xs = xs' @ [p] \<and> start \<le> fst p + snd p")
    case False
    have "\<forall>x \<in> set xs. range_end x < unat start"
    proof (cases xs rule: rev_cases)
      case (snoc xs' p)
      with False sep(1) have "range_end p < unat start"
        by (auto simp: separated_simps word_le_nat_alt unat_range_end)
      with snoc sep(1) show ?thesis by (fastforce simp: separated_simps)
    qed simp
    moreover have "merge_previous (entered m start extent) (length xs) start ?e = (xs @ (start, s) # zs, length xs, ?e)"
      unfolding e(1) using False by (cases xs rule: rev_cases) (auto simp: merge_previous_at)
    ultimately show ?thesis using alone cov by (simp add: range_Add_entered e inside)
  next
    case True
    then obtain xs' p where xs: "xs = xs' @ [p]" and touch: "start \<le> fst p + snd p" by blast
    have p: "range_ok p" "separated xs'" "\<forall>x \<in> set xs'. range_end x < range_first p" "range_first p < unat start"
      using sep(1) low by (simp_all add: xs separated_simps)
    with touch have touch': "unat start \<le> range_end p" by (simp add: word_le_nat_alt unat_range_end)
    with old have s_count: "s = extent" by (auto simp: xs)
    let ?E = "max ?e (fst p + snd p)"
    have E: "unat ?E = max (unat start + unat extent) (range_end p)" by (simp add: unat_max unat_range_end p(1) unat_e)
    with p(4) have less: "unat (fst p) < unat ?E" by simp
    have prev: "merge_previous (entered m start extent) (length xs) start ?e =
        (xs' @ (fst p, ?E - fst p) # zs, length xs', ?E)"
      unfolding e(1) xs using touch by (simp add: merge_previous_at Let_def)
    have same: "starting_upto zs (unat ?E) = starting_upto zs (unat ?e)"
      using far by (intro filter_cong) (auto simp: E unat_e xs)
    have cov': "covered (xs' @ (fst p, ?E - fst p) # zs) = covered (entered m start extent)"
      using E p(4) touch' range_upto(2) [OF less] by (auto simp: e(1) xs s_count)
    let ?r = "(fst p, ?E - fst p)"
    have "range_end ?r = unat ?E" by (rule range_upto(2) [OF less])
    with p(3,4) high less have conds: "\<forall>x \<in> set xs'. range_end x < range_first ?r"
      "\<forall>z \<in> set zs. range_first ?r < range_first z" "range_first ?r < unat ?E" "unat ?E \<le> range_end ?r"
      "unat ?E = range_end ?r \<or> (\<forall>z \<in> set zs. range_end ?r < range_first z)"
      by (auto intro: less_trans)
    note next_ok = merge_next_ok [OF p(2) sep(2) range_upto(1) [OF less] conds]
    have "range_Add m start extent = merge_next (xs' @ ?r # zs) (length xs') ?E"
      by (simp add: range_Add_entered e(2) prev)
    with next_ok cov' same have "covered (range_Add m start extent) = covered (entered m start extent)"
      "separated (range_Add m start extent) \<longleftrightarrow> length (starting_upto zs (unat ?e)) \<le> 1"
      by simp_all
    then show ?thesis using cov by (simp add: inside)
  qed
qed

subsection \<open>Looking for the next gap\<close>

text \<open>
  A range that begins at revision 0 can not be left downwards: the revision before it would be
  \<^verbatim>\<open>NO_REVISION\<close>. The others are those the search skips.
\<close>

definition skipped :: "ranges \<Rightarrow> nat set" where
  "skipped m = covered (filter (\<lambda>e. fst e \<noteq> 0) m)"

lemma skipped_simps [simp]:
  "skipped [] = {}" "skipped (m @ m') = skipped m \<union> skipped m'"
  "skipped (e # m) = (if fst e = 0 then {} else {range_first e..<range_end e}) \<union> skipped m"
  by (auto simp: skipped_def)

lemma skipped_bounds: "k \<in> skipped m \<Longrightarrow> \<exists>e \<in> set m. 0 < range_first e \<and> range_first e \<le> k \<and> k < range_end e"
  by (force simp: skipped_def covered_def word_nonzero)

lemma no_overlap_append:
  "no_overlap (m @ m') \<longleftrightarrow> no_overlap m \<and> no_overlap m' \<and> (\<forall>a \<in> set m. \<forall>b \<in> set m'. range_end a \<le> range_first b)"
  by (auto simp: no_overlap_def sorted_wrt_append)

lemma upper_bound_cases:
  obtains xs ys where "m = xs @ ys" "upper_bound m key = length xs" "\<forall>x \<in> set xs. fst x \<le> key"
    "ys = [] \<or> key < fst (hd ys)"
proof
  let ?P = "\<lambda>e :: dword \<times> dword. fst e \<le> key"
  show "m = takeWhile ?P m @ dropWhile ?P m" by simp
  show "\<forall>x \<in> set (takeWhile ?P m). fst x \<le> key" by (auto dest: set_takeWhileD)
  show "dropWhile ?P m = [] \<or> key < fst (hd (dropWhile ?P m))"
    using hd_dropWhile [of ?P m] by (metis not_le)
qed (simp add: upper_bound_def)

lemma no_overlap_behind:
  assumes "no_overlap ys" and "ys = [] \<or> key < fst (hd ys)" and "y \<in> set ys"
  shows "unat key < range_first y"
proof (cases ys)
  case (Cons z zs)
  with assms have "unat key < range_first z" by (simp add: word_less_nat_alt)
  moreover have "y = z \<or> range_end z \<le> range_first y" using assms Cons by (auto simp: no_overlap_def)
  ultimately show ?thesis by auto
qed (use assms in simp)

lemma unat_minus_one: "x \<noteq> 0 \<Longrightarrow> unat (x - 1) = unat x - 1" for x :: dword
  by (simp add: unat_minus_wrap word_nonzero Suc_le_eq)

lemma FindPrevious_gap:
  assumes "no_overlap m"
  shows "if unat revision \<in> skipped m
    then FindPrevious m revision \<noteq> NO_REVISION \<and> unat (FindPrevious m revision) < unat revision \<and>
      (\<forall>k. unat (FindPrevious m revision) < k \<and> k \<le> unat revision \<longrightarrow> k \<in> skipped m)
    else FindPrevious m revision = NO_REVISION"
proof -
  obtain xs ys where m: "m = xs @ ys" and ub: "upper_bound m revision = length xs"
    and low: "\<forall>x \<in> set xs. fst x \<le> revision" and high: "ys = [] \<or> revision < fst (hd ys)"
    using upper_bound_cases .
  have "unat revision \<notin> skipped ys"
    using assms no_overlap_behind [OF _ high] unfolding m no_overlap_append by (fastforce dest: skipped_bounds)
  then have in_xs: "unat revision \<in> skipped m \<longleftrightarrow> unat revision \<in> skipped xs" by (simp add: m)
  show ?thesis
  proof (cases xs rule: rev_cases)
    case Nil
    with in_xs ub show ?thesis by (simp add: FindPrevious_def Let_def)
  next
    case (snoc xs' p)
    have p: "range_ok p" "\<forall>x \<in> set xs'. range_end x \<le> range_first p"
      using assms unfolding m snoc no_overlap_append by (simp_all add: no_overlap_def)
    have p_low: "range_first p \<le> unat revision" using low by (simp add: snoc word_le_nat_alt)
    have "unat revision \<notin> skipped xs'" using p(2) p_low by (fastforce dest: skipped_bounds)
    with in_xs p_low have in_m: "unat revision \<in> skipped m \<longleftrightarrow> fst p \<noteq> 0 \<and> unat revision < range_end p"
      by (auto simp: snoc)
    have found: "FindPrevious m revision = (if fst p + snd p \<le> revision then NO_REVISION else fst p - 1)"
    proof -
      have "upper_bound m revision = Suc (length xs')" "m ! length xs' = p" "m \<noteq> []"
        using ub by (simp_all add: m snoc)
      then show ?thesis by (simp add: FindPrevious_def Let_def split: prod.split)
    qed
    have le: "fst p + snd p \<le> revision \<longleftrightarrow> range_end p \<le> unat revision"
      by (simp add: word_le_nat_alt unat_range_end p(1))
    show ?thesis
    proof (cases "fst p \<noteq> 0 \<and> unat revision < range_end p")
      case True
      with found le have f: "FindPrevious m revision = fst p - 1" by simp
      have u: "unat (fst p - 1) = range_first p - 1" using True by (intro unat_minus_one) simp
      with True p_low have "unat (fst p - 1) < unat revision" by (auto simp: word_nonzero)
      moreover have "unat revision \<le> 4294967295" using unat_lt_2p32 [of revision] by linarith
      with calculation have "fst p - 1 \<noteq> NO_REVISION" by (auto simp: NO_REVISION_def)
      moreover have "k \<in> skipped m" if "unat (fst p - 1) < k" "k \<le> unat revision" for k
        using that True by (auto simp: u m snoc)
      ultimately show ?thesis using True in_m f by simp
    next
      case False
      with found le in_m show ?thesis by (auto simp: NO_REVISION_def)
    qed
  qed
qed

section \<open>The property\<close>

text \<open>
  C26. Adding a range to a path's ranges covers exactly what they and the new range cover. The result
  is separated, as the ranges were before, exactly if at most one old range begins inside the new
  one: only a single following range is merged, any further one stays as it is and overlaps.
\<close>

theorem skip_range_add:
  assumes "separated m" and "0 < unat extent" and "unat start + unat extent < 2 ^ 32"
  shows "covered (range_Add m start extent) = covered m \<union> {unat start..<unat start + unat extent} \<and>
    (separated (range_Add m start extent) \<longleftrightarrow>
       length (filter (\<lambda>r. unat start < range_first r \<and> range_first r \<le> unat start + unat extent) m) \<le> 1)"
  using range_Add_covers [OF assms] by blast

theorem skip_range_add_witness:
  "\<not> separated (range_Add [(10, 5), (20, 5)] 5 30) \<and> separated (range_Add [(10, 5), (20, 5)] 5 7)"
proof -
  have "separated [(10, 5), (20, 5)]" by (simp add: separated_simps range_ok_def)
  from skip_range_add [OF this, of 30 5] skip_range_add [OF this, of 7 5] show ?thesis by simp
qed

end
