(* ===== verification/IndexPairDictionary.thy ===== *)
theory IndexPairDictionary
  imports HashedPool
begin

text \<open>
  The dictionary of index pairs
  (\<^verbatim>\<open>src/src/LogCache/Containers/IndexPairDictionary.h\<close>, \<^verbatim>\<open>IndexPairDictionary.cpp\<close>): a pool of
  distinct pairs of 32-bit indices over a \<^verbatim>\<open>quick_hash\<close>, in the variant for 64-bit systems. The
  stream operators, which fill the hash with its batch insertion, are in \<open>DictionaryStreams\<close>.
\<close>

section \<open>The dictionary\<close>

record pair_dict =
  pd_data :: "(dword \<times> dword) list"
  pd_index :: quick_hash

text \<open>The memory of a pair, read as a 64-bit number.\<close>

definition pair_hash :: "dword \<times> dword \<Rightarrow> nat" where
  "pair_hash value = (case value of (a, b) \<Rightarrow> unat a + 2 ^ 32 * unat b)"

definition pair_functor :: "(dword \<times> dword) list \<Rightarrow> (dword \<times> dword) hash_function" where
  "pair_functor data =
     \<lparr>hf_hash = pair_hash, hf_value = (\<lambda>index. data ! unat index),
      hf_equal = (\<lambda>value index. data ! unat index = value)\<rparr>"

definition new_pair_dict :: pair_dict where
  "new_pair_dict = \<lparr>pd_data = [], pd_index = new_quick_hash\<rparr>"

definition pd_size :: "pair_dict \<Rightarrow> dword" where
  "pd_size d = of_nat (length (pd_data d))"

definition pd_reserve :: "nat \<Rightarrow> pair_dict \<Rightarrow> pair_dict option" where
  "pd_reserve min_capacity d =
     map_option (\<lambda>h. d\<lparr>pd_index := h\<rparr>) (qh_reserve (pair_functor (pd_data d)) min_capacity (pd_index d))"

definition pd_get :: "pair_dict \<Rightarrow> dword \<Rightarrow> dword \<times> dword" where
  "pd_get d index = pd_data d ! unat index"

definition pd_Find :: "pair_dict \<Rightarrow> dword \<times> dword \<Rightarrow> dword option" where
  "pd_Find d value = qh_find (pair_functor (pd_data d)) (pd_index d) value"

definition pd_Insert :: "pair_dict \<Rightarrow> dword \<times> dword \<Rightarrow> (string, dword \<times> pair_dict) result option" where
  "pd_Insert d value =
     (let result = of_nat (length (pd_data d)) in
      map_option (\<lambda>h. Return (result, d\<lparr>pd_index := h, pd_data := pd_data d @ [value]\<rparr>))
        (qh_insert (pair_functor (pd_data d)) (pd_index d) value result))"

definition pd_AutoInsert :: "pair_dict \<Rightarrow> dword \<times> dword \<Rightarrow> (string, dword \<times> pair_dict) result option" where
  "pd_AutoInsert = auto_insert pd_Find pd_Insert"

definition pd_Clear :: "pair_dict \<Rightarrow> pair_dict" where
  "pd_Clear d = \<lparr>pd_data = [], pd_index = qh_clear (pd_index d)\<rparr>"

definition pd_CanInsertThreadSafely :: "nat \<Rightarrow> pair_dict \<Rightarrow> nat \<Rightarrow> bool" where
  "pd_CanInsertThreadSafely vector_capacity d count \<longleftrightarrow>
     length (pd_data d) + count \<le> vector_capacity \<and> \<not> may_cause_growth (pd_index d) count"

section \<open>It is a dictionary\<close>

interpretation pair_functor: hash_functor pair_hash pair_functor "\<lambda>data. data" "\<lambda>data. True"
  by unfold_locales (simp_all add: pair_functor_def unat_index)

definition pair_dict_ok :: "pair_dict \<Rightarrow> bool" where
  "pair_dict_ok d \<longleftrightarrow> index_ok pair_hash (pd_data d) (pd_index d)"

definition pair_room :: "pair_dict \<Rightarrow> dword \<times> dword \<Rightarrow> bool" where
  "pair_room d value \<longleftrightarrow> length (pd_data d) < 2 ^ 28"

interpretation pairs: dictionary pd_data pair_dict_ok pair_room pd_Find pd_Insert
proof unfold_locales
  fix d v
  assume ok: "pair_dict_ok d"
  then show "pd_Find d v = Some (position (pd_data d) v)"
    by (simp add: pd_Find_def pair_dict_ok_def pair_functor.find_position)
  show "distinct (pd_data d) \<and> length (pd_data d) \<le> 2 ^ 28"
    using ok index_ok_distinct unfolding pair_dict_ok_def index_ok_def by blast
  assume "v \<notin> set (pd_data d)" "pair_room d v"
  with ok pair_functor.insert_position [of "pd_data d" "pd_index d" v]
  show "\<exists>d'. pd_Insert d v = Some (Return (of_nat (length (pd_data d)), d')) \<and> pair_dict_ok d' \<and>
      pd_data d' = pd_data d @ [v]"
    by (auto simp: pair_dict_ok_def pair_room_def pd_Insert_def Let_def)
qed

lemma pair_dict_ok_new: "pair_dict_ok new_pair_dict"
  by (simp add: pair_dict_ok_def new_pair_dict_def index_ok_new)

lemma pair_dict_ok_Clear: "pair_dict_ok d \<Longrightarrow> pair_dict_ok (pd_Clear d) \<and> pd_data (pd_Clear d) = []"
  by (auto simp: pair_dict_ok_def pd_Clear_def index_ok_clear)

section \<open>The properties\<close>

text \<open>
  The pair dictionary gives every pair a unique and immutable index: below 2^28 entries an
  automatic insertion succeeds, keeps the invariant and all entries with their indices, the new
  index leads to the pair, the pair is found at it, and every other lookup, successful or not,
  answers as before.
\<close>

theorem pair_dictionary_auto_insert:
  assumes "pair_dict_ok d" and "length (pd_data d) < 2 ^ 28"
  shows "\<exists>i d'. pd_AutoInsert d v = Some (Return (i, d')) \<and> pair_dict_ok d' \<and> unat i < length (pd_data d') \<and>
    pd_get d' i = v \<and> take (length (pd_data d)) (pd_data d') = pd_data d \<and>
    (\<forall>w. pd_Find d' w = (if w = v then Some i else pd_Find d w))"
  using pairs.auto_insert_finds [OF assms(1), of v] assms(2)
  by (simp add: pd_AutoInsert_def pd_get_def pair_room_def)

theorem pair_dictionary_auto_insert_witness:
  "\<exists>i d'. pd_AutoInsert new_pair_dict (7, 9) = Some (Return (i, d')) \<and> pd_get d' i = (7, 9) \<and>
     pd_Find d' (9, 7) = pd_Find new_pair_dict (9, 7)"
  using pair_dictionary_auto_insert [of new_pair_dict "(7, 9)"] pair_dict_ok_new
  by (auto simp: new_pair_dict_def)

end
