(* ===== verification/StringDictionary.thy ===== *)
theory StringDictionary
  imports HashedPool
begin

text \<open>
  The string dictionary (\<^verbatim>\<open>src/src/LogCache/Containers/StringDictonary.h\<close>, \<^verbatim>\<open>StringDictonary.cpp\<close>):
  distinct C strings, stored back to back with their terminators in one byte array, the offsets of
  their starts (and of the end) in a second, and a \<^verbatim>\<open>quick_hash\<close> whose functor compares with the bytes
  in the first. A C string is modelled by the list of bytes before its terminator. The empty string
  has index 0. \<^verbatim>\<open>Reorder\<close> and the stream operators, which rebuild the hash by batch insertion, are in
  \<open>DictionaryStreams\<close>, \<^verbatim>\<open>Merge\<close> is in \<open>DictionaryMerge\<close>. Not modelled: the \<^verbatim>\<open>NULL\<close> string, which hashes and
  compares like the empty one.
\<close>

section \<open>The functor\<close>

text \<open>\<^verbatim>\<open>char\<close> is signed: a byte is extended with its sign.\<close>

definition string_hash :: "byte list \<Rightarrow> nat" where
  "string_hash value = unat (foldl (\<lambda>result c. (result * 33) XOR scast c) (0 :: qword) value)"

definition c_string :: "byte list \<Rightarrow> nat \<Rightarrow> byte list" where
  "c_string mem offset = takeWhile (\<lambda>c. c \<noteq> 0) (drop offset mem)"

definition string_functor :: "byte list \<times> dword list \<Rightarrow> (byte list) hash_function" where
  "string_functor pool =
     (case pool of (packed, offs) \<Rightarrow>
        \<lparr>hf_hash = string_hash,
         hf_value = (\<lambda>index. if index = NO_INDEX then [] else c_string packed (unat (offs ! unat index))),
         hf_equal = (\<lambda>value index. value = c_string packed (unat (offs ! unat index)))\<rparr>)"

section \<open>The dictionary\<close>

record string_dict =
  packedStrings :: "byte list"
  offsets :: "dword list"
  sd_index :: quick_hash

definition sd_Initialize :: "string_dict \<Rightarrow> string_dict option" where
  "sd_Initialize d =
     (let packed = packedStrings d @ [0]; offs = offsets d @ [0, 1] in
      map_option (\<lambda>h. \<lparr>packedStrings = packed, offsets = offs, sd_index = h\<rparr>)
        (qh_insert (string_functor (packed, offs)) (sd_index d) [] 0))"

definition new_string_dict :: "string_dict option" where
  "new_string_dict = sd_Initialize \<lparr>packedStrings = [], offsets = [], sd_index = new_quick_hash\<rparr>"

definition sd_size :: "string_dict \<Rightarrow> dword" where
  "sd_size d = of_nat (length (offsets d) - 1)"

definition sd_get :: "string_dict \<Rightarrow> dword \<Rightarrow> byte list" where
  "sd_get d index = c_string (packedStrings d) (unat (offsets d ! unat index))"

definition sd_GetLength :: "string_dict \<Rightarrow> dword \<Rightarrow> dword" where
  "sd_GetLength d index = offsets d ! unat (index + 1) - offsets d ! unat index - 1"

text \<open>The bytes that \<^verbatim>\<open>CopyTo\<close> copies.\<close>

definition sd_CopyTo :: "string_dict \<Rightarrow> dword \<Rightarrow> byte list" where
  "sd_CopyTo d index =
     (let first = unat (offsets d ! unat index); last = unat (offsets d ! unat (index + 1)) - 1 in
      take (last - first) (drop first (packedStrings d)))"

definition sd_Find :: "string_dict \<Rightarrow> byte list \<Rightarrow> dword option" where
  "sd_Find d s = qh_find (string_functor (packedStrings d, offsets d)) (sd_index d) s"

text \<open>The hash looks at the byte array with the new string, but at the offsets without it.\<close>

definition sd_Insert :: "string_dict \<Rightarrow> byte list \<Rightarrow> (string, dword \<times> string_dict) result option" where
  "sd_Insert d s =
     (let size = of_nat (length s) + 1 :: dword in
      if (of_nat (length (packedStrings d)) :: qword) \<ge> ucast NO_INDEX - (ucast size + 8)
      then Some (Raise ''dictionary overflow'')
      else
        (let packed = packedStrings d @ take (unat size) (s @ [0]);
             result = of_nat (length (offsets d) - 1) in
         map_option
           (\<lambda>h. Return (result, \<lparr>packedStrings = packed,
                                 offsets = offsets d @ [of_nat (length packed)], sd_index = h\<rparr>))
           (qh_insert (string_functor (packed, offsets d)) (sd_index d) s result)))"

definition sd_AutoInsert :: "string_dict \<Rightarrow> byte list \<Rightarrow> (string, dword \<times> string_dict) result option" where
  "sd_AutoInsert = auto_insert sd_Find sd_Insert"

definition sd_CanInsertThreadSafely :: "nat \<Rightarrow> nat \<Rightarrow> string_dict \<Rightarrow> nat \<Rightarrow> nat \<Rightarrow> bool" where
  "sd_CanInsertThreadSafely packed_capacity offsets_capacity d elements chars \<longleftrightarrow>
     length (packedStrings d) + chars \<le> packed_capacity \<and>
     length (offsets d) + elements \<le> offsets_capacity \<and> \<not> may_cause_growth (sd_index d) elements"

definition sd_Clear :: "string_dict \<Rightarrow> string_dict option" where
  "sd_Clear d = sd_Initialize \<lparr>packedStrings = [], offsets = [], sd_index = qh_clear (sd_index d)\<rparr>"

definition sd_Reserve :: "string_dict \<Rightarrow> nat \<Rightarrow> string_dict option" where
  "sd_Reserve d stringCount =
     map_option (\<lambda>h. d\<lparr>sd_index := h\<rparr>)
       (qh_reserve (string_functor (packedStrings d, offsets d)) stringCount (sd_index d))"

definition sd_GetPackedStringSize :: "string_dict \<Rightarrow> nat" where
  "sd_GetPackedStringSize d = length (packedStrings d)"

section \<open>The layout of the arrays\<close>

definition flatten :: "byte list list \<Rightarrow> byte list" where
  "flatten strs = concat (map (\<lambda>s. s @ [0]) strs)"

definition offset_of :: "byte list list \<Rightarrow> nat \<Rightarrow> dword" where
  "offset_of strs i = of_nat (length (flatten (take i strs)))"

definition layout :: "byte list \<Rightarrow> dword list \<Rightarrow> byte list list \<Rightarrow> bool" where
  "layout packed offs strs \<longleftrightarrow>
     (\<exists>rest. packed = flatten strs @ rest) \<and> length (flatten strs) < 2 ^ 32 \<and>
     offs = map (offset_of strs) [0..<length strs + 1] \<and> (\<forall>s \<in> set strs. 0 \<notin> set s)"

definition pool_strings :: "byte list \<times> dword list \<Rightarrow> byte list list" where
  "pool_strings pool =
     (case pool of (packed, offs) \<Rightarrow> map (\<lambda>i. c_string packed (unat (offs ! i))) [0..<length offs - 1])"

lemma flatten_simps [simp]:
  "flatten [] = []" "flatten (s # strs) = s @ 0 # flatten strs" "flatten (as @ bs) = flatten as @ flatten bs"
  by (simp_all add: flatten_def)

lemma flatten_take_Suc: "i < length strs \<Longrightarrow> flatten (take (Suc i) strs) = flatten (take i strs) @ strs ! i @ [0]"
  by (simp add: take_Suc_conv_app_nth)

lemma flatten_split: "i < length strs \<Longrightarrow>
    flatten strs = flatten (take i strs) @ strs ! i @ 0 # flatten (drop (Suc i) strs)"
  by (metis append_take_drop_id Cons_nth_drop_Suc flatten_simps(2,3))

lemma length_flatten_take: "length (flatten (take i strs)) \<le> length (flatten strs)"
  by (metis append_take_drop_id flatten_simps(3) length_append le_add1)

lemma drop_flatten:
  assumes "i < length strs"
  shows "drop (length (flatten (take i strs))) (flatten strs @ rest) =
    strs ! i @ 0 # flatten (drop (Suc i) strs) @ rest"
  by (subst flatten_split [OF assms]) simp

lemma c_string_at:
  assumes "i < length strs" and "0 \<notin> set (strs ! i)"
  shows "c_string (flatten strs @ rest) (length (flatten (take i strs))) = strs ! i"
proof -
  note drop_flatten [OF assms(1), of rest]
  moreover have "\<forall>c \<in> set (strs ! i). c \<noteq> 0" using assms(2) by auto
  ultimately show ?thesis by (simp add: c_string_def takeWhile_append2)
qed

lemma unat_offset_of: "length (flatten strs) < 2 ^ 32 \<Longrightarrow> unat (offset_of strs i) = length (flatten (take i strs))"
  using length_flatten_take [of i strs] by (simp add: offset_of_def unat_of_nat)

lemma layout_strings:
  assumes "layout packed offs strs"
  shows "pool_strings (packed, offs) = strs"
proof -
  from assms obtain rest where l: "packed = flatten strs @ rest" "length (flatten strs) < 2 ^ 32"
    "offs = map (offset_of strs) [0..<length strs + 1]" "\<forall>s \<in> set strs. 0 \<notin> set s"
    by (auto simp: layout_def)
  have len: "length offs - Suc 0 = length strs" unfolding l(3) by (simp del: upt_Suc)
  have at: "c_string packed (unat (offs ! i)) = strs ! i" if "i < length strs" for i
  proof -
    have "offs ! i = offset_of strs i" unfolding l(3) using that by (simp del: upt_Suc)
    with that l show ?thesis by (simp add: unat_offset_of c_string_at)
  qed
  show ?thesis
  proof (rule nth_equalityI)
    show "length (pool_strings (packed, offs)) = length strs" by (simp add: pool_strings_def len)
    fix i assume "i < length (pool_strings (packed, offs))"
    then show "pool_strings (packed, offs) ! i = strs ! i"
      using at by (simp add: pool_strings_def len)
  qed
qed

lemma layout_rest: "layout packed offs strs \<Longrightarrow> layout (packed @ extra) offs strs"
  by (auto simp: layout_def)

lemma layout_snoc:
  assumes "layout packed offs strs" and "packed = flatten strs" and "0 \<notin> set s"
    and "length (packed @ s @ [0]) < 2 ^ 32"
  shows "layout (packed @ s @ [0]) (offs @ [of_nat (length (packed @ s @ [0]))]) (strs @ [s])"
proof -
  have "map (offset_of (strs @ [s])) [0..<length strs + 1] = map (offset_of strs) [0..<length strs + 1]"
    by (rule map_cong) (auto simp: offset_of_def)
  with assms show ?thesis by (auto simp: layout_def offset_of_def)
qed

text \<open>A pool that is laid out properly, perhaps with bytes of a string that is not in it yet.\<close>

definition pool_ok :: "byte list \<times> dword list \<Rightarrow> bool" where
  "pool_ok pool \<longleftrightarrow> layout (fst pool) (snd pool) (pool_strings pool)"

interpretation string_functor: hash_functor string_hash string_functor pool_strings pool_ok
proof unfold_locales
  fix pool :: "byte list \<times> dword list" and i
  show "hf_hash (string_functor pool) = string_hash" by (simp add: string_functor_def split: prod.split)
  assume i: "i < length (pool_strings pool)" "length (pool_strings pool) \<le> 2 ^ 28"
  obtain packed offs where pool: "pool = (packed, offs)" by fastforce
  have at: "c_string packed (unat (offs ! i)) = pool_strings pool ! i"
    using i by (simp add: pool pool_strings_def)
  show "hf_value (string_functor pool) (of_nat i) = pool_strings pool ! i"
    using i at by (simp add: pool string_functor_def NO_INDEX_not_position unat_index)
  show "hf_equal (string_functor pool) v (of_nat i) \<longleftrightarrow> pool_strings pool ! i = v" for v
    using i at by (auto simp: pool string_functor_def unat_index)
qed

section \<open>It is a dictionary\<close>

definition sd_contents :: "string_dict \<Rightarrow> byte list list" where
  "sd_contents d = pool_strings (packedStrings d, offsets d)"

definition sd_ok :: "string_dict \<Rightarrow> bool" where
  "sd_ok d \<longleftrightarrow>
     layout (packedStrings d) (offsets d) (sd_contents d) \<and> packedStrings d = flatten (sd_contents d) \<and>
     sd_contents d \<noteq> [] \<and> sd_contents d ! 0 = [] \<and> index_ok string_hash (sd_contents d) (sd_index d)"

text \<open>A C string that does not make the byte array overflow, and a hash that can take one more entry.\<close>

definition sd_room :: "string_dict \<Rightarrow> byte list \<Rightarrow> bool" where
  "sd_room d s \<longleftrightarrow>
     0 \<notin> set s \<and> length (packedStrings d) + length s + 9 < 2 ^ 32 - 1 \<and> length (sd_contents d) < 2 ^ 28"

lemma sd_okI:
  assumes "layout packed offs strs" and "packed = flatten strs" and "strs \<noteq> []" and "strs ! 0 = []"
    and "index_ok string_hash strs h"
  shows "sd_ok \<lparr>packedStrings = packed, offsets = offs, sd_index = h\<rparr>"
    and "sd_contents \<lparr>packedStrings = packed, offsets = offs, sd_index = h\<rparr> = strs"
  using assms by (simp_all add: sd_ok_def sd_contents_def layout_strings)

lemma layout_length: "layout packed offs strs \<Longrightarrow> length offs = length strs + 1"
  by (auto simp: layout_def)

lemma pool_okI: "layout packed offs strs \<Longrightarrow> pool_ok (packed, offs)"
  by (simp add: pool_ok_def layout_strings)

text \<open>The overflow test, in unbounded arithmetic.\<close>

lemma overflow_test:
  assumes "length s + 9 < 2 ^ 32" and "n < 2 ^ 32"
  shows "(of_nat n :: qword) \<ge> ucast NO_INDEX - (ucast (of_nat (length s) + 1 :: dword) + 8) \<longleftrightarrow>
    n + length s + 9 \<ge> 2 ^ 32 - 1"
proof -
  have size: "unat (of_nat (length s) + 1 :: dword) = length s + 1"
    using assms(1) by (simp add: unat_word_ariths unat_of_nat)
  have full: "unat (ucast NO_INDEX :: qword) = 2 ^ 32 - 1"
    by (simp add: NO_INDEX_def unat_ucast_mod unsigned_minus_1_eq_mask mask_eq_exp_minus_1)
  have grown: "unat (ucast (of_nat (length s) + 1 :: dword) + 8 :: qword) = length s + 9"
    using assms(1) size by (simp add: unat_word_ariths unat_ucast_mod)
  have "unat (ucast NO_INDEX - (ucast (of_nat (length s) + 1 :: dword) + 8) :: qword) = 2 ^ 32 - 1 - (length s + 9)"
    using assms(1) full grown by (subst unat_sub) (simp_all add: word_le_nat_alt)
  moreover have "unat (of_nat n :: qword) = n" using assms(2) by (simp add: unat_of_nat)
  ultimately show ?thesis using assms(1) by (auto simp: word_le_nat_alt)
qed

lemma sd_Insert_ok:
  assumes ok: "sd_ok d" and new: "s \<notin> set (sd_contents d)" and room: "sd_room d s"
  shows "\<exists>d'. sd_Insert d s = Some (Return (of_nat (length (sd_contents d)), d')) \<and> sd_ok d' \<and>
    sd_contents d' = sd_contents d @ [s]"
proof -
  let ?strs = "sd_contents d" and ?packed = "packedStrings d @ s @ [0]"
  have l: "layout (packedStrings d) (offsets d) ?strs" "packedStrings d = flatten ?strs" "?strs \<noteq> []"
    "?strs ! 0 = []" "index_ok string_hash ?strs (sd_index d)"
    using ok by (auto simp: sd_ok_def)
  have r: "0 \<notin> set s" "length (packedStrings d) + length s + 9 < 2 ^ 32 - 1" "length ?strs < 2 ^ 28"
    using room by (auto simp: sd_room_def)
  have pool: "pool_ok (?packed, offsets d)" "pool_strings (?packed, offsets d) = ?strs"
    using layout_rest [OF l(1), of "s @ [0]"] pool_okI layout_strings by blast+
  obtain h' where h': "qh_insert (string_functor (?packed, offsets d)) (sd_index d) s (of_nat (length ?strs)) = Some h'"
    "index_ok string_hash (?strs @ [s]) h'"
    using string_functor.insert_position [OF pool(1), unfolded pool(2), OF l(5) new r(3)] by blast
  have "unat (of_nat (length s) + 1 :: dword) = length s + 1"
    using r(2) by (simp add: unat_word_ariths unat_of_nat)
  then have bytes: "take (unat (of_nat (length s) + 1 :: dword)) (s @ [0]) = s @ [0]" by simp
  have fits: "\<not> (of_nat (length (packedStrings d)) :: qword) \<ge> ucast NO_INDEX - (ucast (of_nat (length s) + 1 :: dword) + 8)"
    using overflow_test [of s "length (packedStrings d)"] r(2) by simp
  let ?d' = "\<lparr>packedStrings = ?packed, offsets = offsets d @ [of_nat (length ?packed)], sd_index = h'\<rparr>"
  have res: "sd_Insert d s = Some (Return (of_nat (length ?strs), ?d'))"
    using h'(1) fits layout_length [OF l(1)] by (simp only: sd_Insert_def Let_def bytes if_False) simp
  have lay: "layout ?packed (offsets d @ [of_nat (length ?packed)]) (?strs @ [s])"
    using r(2) by (intro layout_snoc l(1,2) r(1)) simp
  have "?packed = flatten (?strs @ [s])" using l(2) by simp
  with sd_okI [OF lay this _ _ h'(2)] res l(3,4) show ?thesis
    by (auto simp: nth_append)
qed

interpretation strings: dictionary sd_contents sd_ok sd_room sd_Find sd_Insert
proof unfold_locales
  fix d v
  assume ok: "sd_ok d"
  then have pool: "pool_ok (packedStrings d, offsets d)" and idx: "index_ok string_hash (sd_contents d) (sd_index d)"
    by (auto simp: sd_ok_def pool_ok_def sd_contents_def)
  show "sd_Find d v = Some (position (sd_contents d) v)"
    using string_functor.find_position [OF pool] idx by (simp add: sd_Find_def sd_contents_def)
  show "distinct (sd_contents d) \<and> length (sd_contents d) \<le> 2 ^ 28"
    using idx index_ok_distinct unfolding index_ok_def by blast
qed (rule sd_Insert_ok)

text \<open>Construction and clearing.\<close>

lemma sd_Initialize_ok:
  assumes "index_ok string_hash ([] :: byte list list) h"
  shows "\<exists>d. sd_Initialize \<lparr>packedStrings = [], offsets = [], sd_index = h\<rparr> = Some d \<and> sd_ok d \<and> sd_contents d = [[]]"
proof -
  have hash: "hf_hash (string_functor pool) = string_hash" for pool by (rule string_functor.hashes)
  obtain h' where h': "qh_insert (string_functor ([0], [0, 1])) h [] 0 = Some h'" "index_ok string_hash [[]] h'"
    using index_ok_first [of "string_functor ([0], [0, 1])" h "[]"] assms by (auto simp: hash)
  have "layout [0] [0, 1] [[]]" by (simp add: layout_def offset_of_def)
  with sd_okI [OF this _ _ _ h'(2)] h'(1) show ?thesis by (simp add: sd_Initialize_def)
qed

lemma new_string_dict_ok: "\<exists>d. new_string_dict = Some d \<and> sd_ok d \<and> sd_contents d = [[]]"
  unfolding new_string_dict_def by (rule sd_Initialize_ok) (rule index_ok_new)

lemma sd_Clear_ok: "sd_ok d \<Longrightarrow> \<exists>d'. sd_Clear d = Some d' \<and> sd_ok d' \<and> sd_contents d' = [[]]"
  unfolding sd_Clear_def by (rule sd_Initialize_ok) (auto simp: sd_ok_def intro: index_ok_clear)

text \<open>Reading a string back.\<close>

lemma sd_offset:
  assumes "sd_ok d" and "j \<le> length (sd_contents d)"
  shows "unat (offsets d ! j) = length (flatten (take j (sd_contents d)))"
proof -
  have l: "layout (packedStrings d) (offsets d) (sd_contents d)" using assms(1) unfolding sd_ok_def by blast
  then have "offsets d ! j = offset_of (sd_contents d) j"
    using assms(2) by (auto simp: layout_def nth_append simp del: upt_Suc)
  with l show ?thesis by (simp add: layout_def unat_offset_of)
qed

lemma sd_read:
  assumes "sd_ok d" and "i < length (sd_contents d)"
  shows "sd_get d (of_nat i) = sd_contents d ! i"
    and "unat (sd_GetLength d (of_nat i)) = length (sd_contents d ! i)"
    and "sd_CopyTo d (of_nat i) = sd_contents d ! i"
proof -
  let ?strs = "sd_contents d"
  have l: "layout (packedStrings d) (offsets d) ?strs" "packedStrings d = flatten ?strs"
    and idx: "index_ok string_hash ?strs (sd_index d)"
    using assms(1) by (auto simp: sd_ok_def)
  have small: "length ?strs \<le> 2 ^ 28" using idx by (simp add: index_ok_def)
  with assms(2) have i: "unat (of_nat i :: dword) = i" "unat (of_nat i + 1 :: dword) = Suc i"
    by (simp_all add: unat_word_ariths unat_index)
  have len: "length (flatten ?strs) < 2 ^ 32" using l(1) by (simp add: layout_def)
  have off: "offsets d ! j = offset_of ?strs j" "unat (offset_of ?strs j) = length (flatten (take j ?strs))"
    if "j \<le> length ?strs" for j
    using that l(1) unat_offset_of [OF len, of j] by (auto simp: layout_def nth_append simp del: upt_Suc)
  have nul: "0 \<notin> set (?strs ! i)" using l(1) assms(2) by (auto simp: layout_def)
  have next_off: "length (flatten (take (Suc i) ?strs)) = length (flatten (take i ?strs)) + length (?strs ! i) + 1"
    by (simp add: flatten_take_Suc [OF assms(2)])
  show "sd_get d (of_nat i) = ?strs ! i"
    using assms(2) c_string_at [OF assms(2) nul, of "[]"] l(2) by (simp add: sd_get_def i off)
  show "sd_CopyTo d (of_nat i) = ?strs ! i"
    using assms(2) flatten_split [OF assms(2)]
    by (simp add: sd_CopyTo_def Let_def i off next_off l(2))
  have "unat (offset_of ?strs (Suc i) - offset_of ?strs i - 1) = length (?strs ! i)"
    using next_off off [of i] off [of "Suc i"] assms(2)
    by (subst unat_sub, simp add: word_le_nat_alt unat_sub)+ simp
  then show "unat (sd_GetLength d (of_nat i)) = length (?strs ! i)"
    using assms(2) by (simp add: sd_GetLength_def i off)
qed

lemma sd_get_at:
  assumes "sd_ok d" and "unat i < length (sd_contents d)"
  shows "sd_get d i = sd_contents d ! unat i" and "unat (sd_GetLength d i) = length (sd_contents d ! unat i)"
    and "sd_CopyTo d i = sd_contents d ! unat i"
  using sd_read [OF assms] by simp_all

section \<open>The properties\<close>

text \<open>
  C19. The string dictionary gives every string a unique and immutable index: an automatic insertion
  of a string that it has, or has room for, succeeds and keeps the layout of the byte and offset
  arrays and the hash consistent. The bytes, the length and the copied bytes at the returned index
  are those of the string, the string is found there, and every string that was in the dictionary,
  the empty one at index 0 included, is read and found as before.
\<close>

theorem string_dictionary_auto_insert:
  assumes "sd_ok d" and "s \<in> set (sd_contents d) \<or> sd_room d s"
  shows "\<exists>i d'. sd_AutoInsert d s = Some (Return (i, d')) \<and> sd_ok d' \<and>
    sd_get d' i = s \<and> unat (sd_GetLength d' i) = length s \<and> sd_CopyTo d' i = s \<and>
    (\<forall>j < length (sd_contents d). sd_get d' (of_nat j) = sd_get d (of_nat j)) \<and>
    (\<forall>w. sd_Find d' w = (if w = s then Some i else sd_Find d w))"
proof -
  obtain i d' where d': "sd_AutoInsert d s = Some (Return (i, d'))" "sd_ok d'" "unat i < length (sd_contents d')"
    "sd_contents d' ! unat i = s" "take (length (sd_contents d)) (sd_contents d') = sd_contents d"
    "\<And>w. sd_Find d' w = (if w = s then Some i else sd_Find d w)"
    using strings.auto_insert_finds [OF assms] by (auto simp: sd_AutoInsert_def)
  have "sd_get d' (of_nat j) = sd_get d (of_nat j)" if j: "j < length (sd_contents d)" for j
  proof -
    have "sd_contents d' ! j = sd_contents d ! j" "j < length (sd_contents d')"
      using d'(5) j by (metis nth_take, metis length_take min_less_iff_conj)
    with j show ?thesis by (simp add: sd_read assms(1) d'(2))
  qed
  with d' show ?thesis by (intro exI [of _ i] exI [of _ d']) (simp add: sd_get_at)
qed

theorem string_dictionary_auto_insert_witness:
  "\<exists>d i d'. new_string_dict = Some d \<and> sd_AutoInsert d [116, 114, 117, 110, 107] = Some (Return (i, d')) \<and>
     sd_get d' i = [116, 114, 117, 110, 107] \<and> sd_Find d' [] = sd_Find d []"
proof -
  obtain d where d: "new_string_dict = Some d" "sd_ok d" "sd_contents d = [[]]"
    using new_string_dict_ok by blast
  then have "sd_room d [116, 114, 117, 110, 107]" by (simp add: sd_room_def sd_ok_def)
  from string_dictionary_auto_insert [OF d(2) disjI2, OF this] d(1) show ?thesis by fastforce
qed

text \<open>
  C20. The overflow check of the string dictionary is exact: for a new string and a hash that can take
  it, the insertion raises the exception precisely when the byte array, with the string, its
  terminator and the reserve of 8 bytes for word-wise copies, would reach the largest index, and
  otherwise the string is inserted and read back.
\<close>

theorem string_insert_overflow:
  assumes "sd_ok d" and "0 \<notin> set s" and "s \<notin> set (sd_contents d)" and "length (sd_contents d) < 2 ^ 28"
    and "length s + 9 < 2 ^ 32"
  shows "if sd_GetPackedStringSize d + length s + 9 \<ge> 2 ^ 32 - 1
    then sd_Insert d s = Some (Raise ''dictionary overflow'')
    else \<exists>i d'. sd_Insert d s = Some (Return (i, d')) \<and> sd_ok d' \<and> sd_get d' i = s"
proof -
  have packed: "length (packedStrings d) < 2 ^ 32"
    using assms(1) by (simp add: sd_ok_def layout_def)
  show ?thesis
  proof (cases "length (packedStrings d) + length s + 9 \<ge> 2 ^ 32 - 1")
    case True
    with overflow_test [OF assms(5) packed] show ?thesis
      by (simp add: sd_Insert_def Let_def sd_GetPackedStringSize_def)
  next
    case False
    with assms(2,4) have "sd_room d s" by (simp add: sd_room_def)
    from sd_Insert_ok [OF assms(1,3) this] obtain d' where
      d': "sd_Insert d s = Some (Return (of_nat (length (sd_contents d)), d'))" "sd_ok d'"
        "sd_contents d' = sd_contents d @ [s]" by blast
    then have "sd_get d' (of_nat (length (sd_contents d))) = s"
      using sd_read(1) [OF d'(2), of "length (sd_contents d)"] by simp
    with d' False show ?thesis by (auto simp: sd_GetPackedStringSize_def)
  qed
qed

theorem string_insert_overflow_witness:
  "\<exists>d. new_string_dict = Some d \<and>
     (\<exists>i d'. sd_Insert d [46] = Some (Return (i, d')) \<and> sd_ok d' \<and> sd_get d' i = [46])"
proof -
  obtain d where d: "new_string_dict = Some d" "sd_ok d" "sd_contents d = [[]]"
    using new_string_dict_ok by blast
  then have "sd_GetPackedStringSize d = 1" by (simp add: sd_GetPackedStringSize_def sd_ok_def)
  with string_insert_overflow [OF d(2), of "[46]"] d show ?thesis by (intro exI [of _ d]) simp
qed

end
