(* ===== verification/PathDictionary.thy ===== *)
theory PathDictionary
  imports IndexPairDictionary StringDictionary "HOL-Library.Sublist"
begin

text \<open>
  The path dictionary and the paths in it (\<^verbatim>\<open>src/src/LogCache/Containers/PathDictionary.h\<close>,
  \<^verbatim>\<open>PathDictionary.cpp\<close>). A path is a pair of the index of its parent and the index of its last
  element in a string dictionary; the pairs are kept in a pair dictionary, the root at index 0 with
  the parent \<^verbatim>\<open>NO_INDEX\<close>. Loops that follow parents are partial functions: \<open>None\<close> is a loop that does
  not end, as it could on a corrupt cache file, or a hash that can not grow. Indices that are not in
  the dictionary are undefined behaviour. Assertions and the checks of debug builds are left out.
  The stream operators are in \<open>DictionaryStreams\<close>, merging is in \<open>DictionaryMerge\<close>.
\<close>

section \<open>The dictionary\<close>

record path_dict =
  pathElements :: string_dict
  paths :: pair_dict

text \<open>Composition of operations that may raise or not return.\<close>

definition and_then ::
  "('e, 'a) result option \<Rightarrow> ('a \<Rightarrow> ('e, 'b) result option) \<Rightarrow> ('e, 'b) result option"
where
  "and_then m f = Option.bind m (\<lambda>r. case r of Inl e \<Rightarrow> Some (Raise e) | Inr a \<Rightarrow> f a)"

lemma and_then_simps [simp]:
  "and_then None f = None" "and_then (Some (Inl e)) f = Some (Inl e)" "and_then (Some (Inr a)) f = f a"
  by (simp_all add: and_then_def)

definition pa_Initialize :: "path_dict \<Rightarrow> (string, path_dict) result option" where
  "pa_Initialize d =
     and_then (pd_Insert (paths d) (NO_INDEX, 0)) (\<lambda>(i, p). Some (Return (d\<lparr>paths := p\<rparr>)))"

definition new_path_dict :: "(string, path_dict) result option" where
  "new_path_dict =
     Option.bind new_string_dict (\<lambda>s. pa_Initialize \<lparr>pathElements = s, paths = new_pair_dict\<rparr>)"

definition pa_size :: "path_dict \<Rightarrow> dword" where
  "pa_size d = pd_size (paths d)"

definition GetParent :: "path_dict \<Rightarrow> dword \<Rightarrow> dword" where
  "GetParent d index = fst (pd_get (paths d) index)"

definition GetPathElementID :: "path_dict \<Rightarrow> dword \<Rightarrow> dword" where
  "GetPathElementID d index = snd (pd_get (paths d) index)"

definition GetPathElement :: "path_dict \<Rightarrow> dword \<Rightarrow> byte list" where
  "GetPathElement d index = sd_get (pathElements d) (snd (pd_get (paths d) index))"

definition GetPathElementSize :: "path_dict \<Rightarrow> dword \<Rightarrow> dword" where
  "GetPathElementSize d index = sd_GetLength (pathElements d) (snd (pd_get (paths d) index))"

definition pa_Find :: "path_dict \<Rightarrow> dword \<Rightarrow> byte list \<Rightarrow> dword option" where
  "pa_Find d parent pathElement =
     Option.bind (sd_Find (pathElements d) pathElement)
       (\<lambda>e. if e = NO_INDEX then Some NO_INDEX else pd_Find (paths d) (parent, e))"

definition pa_Insert :: "path_dict \<Rightarrow> dword \<Rightarrow> byte list \<Rightarrow> (string, dword \<times> path_dict) result option" where
  "pa_Insert d parent pathElement =
     and_then (sd_AutoInsert (pathElements d) pathElement) (\<lambda>(e, elements).
       and_then (pd_Insert (paths d) (parent, e)) (\<lambda>(i, p).
         Some (Return (i, \<lparr>pathElements = elements, paths = p\<rparr>))))"

definition pa_AutoInsert :: "path_dict \<Rightarrow> dword \<Rightarrow> byte list \<Rightarrow> (string, dword \<times> path_dict) result option" where
  "pa_AutoInsert d parent pathElement =
     and_then (sd_AutoInsert (pathElements d) pathElement) (\<lambda>(e, elements).
       and_then (pd_AutoInsert (paths d) (parent, e)) (\<lambda>(i, p).
         Some (Return (i, \<lparr>pathElements = elements, paths = p\<rparr>))))"

definition pa_Clear :: "path_dict \<Rightarrow> (string, path_dict) result option" where
  "pa_Clear d =
     Option.bind (sd_Clear (pathElements d))
       (\<lambda>s. pa_Initialize \<lparr>pathElements = s, paths = pd_Clear (paths d)\<rparr>)"

text \<open>The test for data loaded from disk.\<close>

definition entry_valid :: "path_dict \<Rightarrow> dword \<times> dword \<Rightarrow> bool" where
  "entry_valid d entry \<longleftrightarrow>
     \<not> ((fst entry \<ge> pa_size d \<and> fst entry \<noteq> NO_INDEX) \<or>
        (snd entry \<ge> sd_size (pathElements d) \<and> snd entry \<noteq> NO_INDEX))"

definition pa_Validate :: "path_dict \<Rightarrow> (string, unit) result" where
  "pa_Validate d =
     (if list_all (entry_valid d) (pd_data (paths d)) then Return () else Raise ''path dictionary is corrupt'')"

section \<open>Paths\<close>

partial_function (option) depth_loop :: "path_dict \<Rightarrow> dword \<Rightarrow> dword \<Rightarrow> dword option" where
  "depth_loop d i result = (if i \<noteq> 0 then depth_loop d (GetParent d i) (result + 1) else Some result)"

definition GetDepth :: "path_dict \<Rightarrow> dword \<Rightarrow> dword option" where
  "GetDepth d index = (if index \<noteq> NO_INDEX then depth_loop d index 0 else Some NO_INDEX)"

fun ReverseAt :: "path_dict \<Rightarrow> dword \<Rightarrow> nat \<Rightarrow> byte list" where
  "ReverseAt d elementIndex 0 = GetPathElement d elementIndex"
| "ReverseAt d elementIndex (Suc reverseIndex) = ReverseAt d (GetParent d elementIndex) reverseIndex"

partial_function (option) parent_loop :: "path_dict \<Rightarrow> dword \<Rightarrow> dword \<Rightarrow> bool option" where
  "parent_loop d lhsIndex rhsIndex =
     (if rhsIndex \<ge> lhsIndex
      then (if lhsIndex = rhsIndex then Some True else parent_loop d lhsIndex (GetParent d rhsIndex))
      else Some False)"

definition IsSameOrParentOf :: "path_dict \<Rightarrow> dword \<Rightarrow> dword \<Rightarrow> bool option" where
  "IsSameOrParentOf d lhsIndex rhsIndex =
     (if lhsIndex = 0 then Some True else parent_loop d lhsIndex rhsIndex)"

definition Intersects :: "path_dict \<Rightarrow> dword \<Rightarrow> dword \<Rightarrow> bool option" where
  "Intersects d lhsIndex rhsIndex =
     (if lhsIndex < rhsIndex then IsSameOrParentOf d lhsIndex rhsIndex
      else IsSameOrParentOf d rhsIndex lhsIndex)"

partial_function (option) GetCommonRoot :: "path_dict \<Rightarrow> dword \<Rightarrow> dword \<Rightarrow> dword option" where
  "GetCommonRoot d lhsIndex rhsIndex =
     (if lhsIndex \<noteq> rhsIndex
      then (if lhsIndex < rhsIndex then GetCommonRoot d lhsIndex (GetParent d rhsIndex)
            else GetCommonRoot d (GetParent d lhsIndex) rhsIndex)
      else Some lhsIndex)"

partial_function (option) contains_loop :: "path_dict \<Rightarrow> dword \<Rightarrow> dword \<Rightarrow> bool option" where
  "contains_loop d pathElementID pathIndex =
     (if pathIndex \<noteq> 0
      then (if GetPathElementID d pathIndex = pathElementID then Some True
            else contains_loop d pathElementID (GetParent d pathIndex))
      else Some False)"

text \<open>
  \<^verbatim>\<open>ParsePath\<close>. The part of the path behind the current slash is \<open>rest\<close>; its first element ends at the
  next slash, which the code overwrites with a terminator. A writable dictionary is the path's own
  dictionary; \<open>rel\<close> is the relative path that is built otherwise, if the caller wants one.
\<close>

abbreviation SLASH :: byte where "SLASH \<equiv> 47"

abbreviation first_element :: "byte list \<Rightarrow> byte list" where
  "first_element rest \<equiv> takeWhile (\<lambda>c. c \<noteq> SLASH) rest"

abbreviation behind_element :: "byte list \<Rightarrow> byte list" where
  "behind_element rest \<equiv> dropWhile (\<lambda>c. c \<noteq> SLASH) rest"

lemma behind_element_shrinks: "SLASH \<in> set rest \<Longrightarrow> length (behind_element rest) - Suc 0 < length rest"
proof -
  assume "SLASH \<in> set rest"
  then have "0 < length rest" by auto
  with length_dropWhile_le [of "\<lambda>c. c \<noteq> SLASH" rest] show ?thesis by linarith
qed

function parse_loop ::
  "bool \<Rightarrow> path_dict \<Rightarrow> dword \<Rightarrow> dword \<Rightarrow> byte list list option \<Rightarrow> byte list \<Rightarrow>
   (string, path_dict \<times> dword \<times> byte list list option) result option"
where
  "parse_loop writable d index currentIndex rel rest =
     Option.bind (pa_Find d currentIndex (first_element rest)) (\<lambda>nextIndex.
       if nextIndex = NO_INDEX
       then
         (if writable
          then and_then (pa_Insert d currentIndex (first_element rest)) (\<lambda>(i, d).
                 if behind_element rest = [] then Some (Return (d, i, rel))
                 else parse_loop writable d i i rel (tl (behind_element rest)))
          else
            (case rel of
               Some relPath \<Rightarrow>
                 (let rel = Some (relPath @ [first_element rest]) in
                  if behind_element rest = [] then Some (Return (d, index, rel))
                  else parse_loop writable d index nextIndex rel (tl (behind_element rest)))
             | None \<Rightarrow> Some (Return (d, index, rel))))
       else
         (if behind_element rest = [] then Some (Return (d, nextIndex, rel))
          else parse_loop writable d nextIndex nextIndex rel (tl (behind_element rest))))"
  by pat_completeness auto

termination
  by (relation "measure (\<lambda>(w, d, i, c, rel, rest). length rest)") (auto intro: behind_element_shrinks)

declare parse_loop.simps [simp del]

definition ParsePath ::
  "bool \<Rightarrow> path_dict \<Rightarrow> dword \<Rightarrow> byte list \<Rightarrow> byte list list option \<Rightarrow>
   (string, path_dict \<times> dword \<times> byte list list option) result option"
where
  "ParsePath writable d index path rel =
     (if path \<noteq> []
      then parse_loop writable d index index rel (if hd path = SLASH then tl path else path)
      else Some (Return (d, index, rel)))"

text \<open>
  \<^verbatim>\<open>GetPath\<close>. The elements are collected from the last one up, at most \<^verbatim>\<open>MAX_PATH\<close> of them, and then
  copied to the result in words of 8 bytes, so that each copy may run past the end of its element.
  The memory behind the byte array of the dictionary (\<open>slack\<close>) is read and the memory reserved behind the
  result is written; \<open>None\<close> is an access outside of both.
\<close>

definition MAX_PATH :: nat where "MAX_PATH = 260"

fun collect_ids :: "path_dict \<Rightarrow> nat \<Rightarrow> dword \<Rightarrow> dword list" where
  "collect_ids d 0 currentIndex = []"
| "collect_ids d (Suc n) currentIndex =
     (if currentIndex \<noteq> 0 then GetPathElementID d currentIndex # collect_ids d n (GetParent d currentIndex) else [])"

definition element_size :: "path_dict \<Rightarrow> dword \<Rightarrow> nat" where
  "element_size d element = unat (sd_GetLength (pathElements d) element)"

definition element_source :: "path_dict \<Rightarrow> byte list \<Rightarrow> dword \<Rightarrow> byte list" where
  "element_source d slack element =
     drop (unat (offsets (pathElements d) ! unat element)) (packedStrings (pathElements d) @ slack)"

definition collected_size :: "path_dict \<Rightarrow> dword list \<Rightarrow> nat" where
  "collected_size d ids = sum_list (map (element_size d) ids) + length ids"

function chunk_loop :: "byte list \<Rightarrow> byte list \<Rightarrow> nat \<Rightarrow> nat \<Rightarrow> byte list option" where
  "chunk_loop source mem dest target =
     (if dest < target
      then
        (if length source < 8 then None
         else Option.bind (store mem dest (take 8 source))
                (\<lambda>mem. chunk_loop (drop 8 source) mem (dest + 8) target))
      else Some mem)"
  by pat_completeness auto
termination by (relation "measure (\<lambda>(source, mem, dest, target). target - dest)") auto

declare chunk_loop.simps [simp del]

text \<open>The loop over the elements, from the first one of the path.\<close>

fun CopyPathElements :: "path_dict \<Rightarrow> byte list \<Rightarrow> dword list \<Rightarrow> byte list \<Rightarrow> nat \<Rightarrow> byte list option" where
  "CopyPathElements d slack [] mem target = Some mem"
| "CopyPathElements d slack (e # es) mem target =
     Option.bind (store mem target [SLASH]) (\<lambda>mem.
       Option.bind (chunk_loop (element_source d slack e) mem (target + 1) (target + 1 + element_size d e))
         (\<lambda>mem. CopyPathElements d slack es mem (target + 1 + element_size d e)))"

definition GetPath :: "path_dict \<Rightarrow> byte list \<Rightarrow> byte list \<Rightarrow> dword \<Rightarrow> (string, byte list) result option" where
  "GetPath d slack reserved index =
     (if index = NO_INDEX then Some (Raise ''Access to invalid path object'')
      else
        (let ids = collect_ids d MAX_PATH index; size = collected_size d ids in
         if size \<noteq> 0
         then map_option (\<lambda>mem. Return (take size mem))
                (CopyPathElements d slack (rev ids) (replicate size 0 @ reserved) 0)
         else Some (Return [SLASH])))"

text \<open>
  The variant that fills a buffer of the caller. It drops elements, the first ones of the path, until
  the rest is at most \<^verbatim>\<open>maxSize\<close> long; \<open>None\<close> is also the access in front of \<^verbatim>\<open>sizes\<close> when all are dropped.
\<close>

fun trim_loop :: "nat list \<Rightarrow> nat \<Rightarrow> nat \<Rightarrow> nat \<Rightarrow> (nat \<times> nat) option" where
  "trim_loop sizes maxSize len depth =
     (if len > maxSize
      then (case depth of 0 \<Rightarrow> None | Suc depth \<Rightarrow> trim_loop sizes maxSize (len - sizes ! depth) depth)
      else Some (len, depth))"

declare trim_loop.simps [simp del]

definition GetPath_buffer ::
  "path_dict \<Rightarrow> byte list \<Rightarrow> byte list \<Rightarrow> nat \<Rightarrow> dword \<Rightarrow> (string, byte list \<times> nat) result option"
where
  "GetPath_buffer d slack buffer maxSize index =
     (if index = NO_INDEX then Some (Raise ''Access to invalid path object'')
      else
        (let ids = collect_ids d MAX_PATH index in
         Option.bind (trim_loop (map (element_size d) ids) maxSize (collected_size d ids) (length ids))
           (\<lambda>(size, depth).
              map_option (\<lambda>mem. Return (mem, size)) (CopyPathElements d slack (rev (take depth ids)) buffer 0))))"

section \<open>Well-formed dictionaries and the paths they hold\<close>

text \<open>The parent always has a smaller index, and every element is in the string dictionary.\<close>

abbreviation entry :: "path_dict \<Rightarrow> nat \<Rightarrow> dword \<times> dword" where
  "entry d i \<equiv> pd_data (paths d) ! i"

abbreviation path_count :: "path_dict \<Rightarrow> nat" where
  "path_count d \<equiv> length (pd_data (paths d))"

definition pa_ok :: "path_dict \<Rightarrow> bool" where
  "pa_ok d \<longleftrightarrow>
     sd_ok (pathElements d) \<and> pair_dict_ok (paths d) \<and> pd_data (paths d) \<noteq> [] \<and> entry d 0 = (NO_INDEX, 0) \<and>
     (\<forall>i. 0 < i \<and> i < path_count d \<longrightarrow>
        unat (fst (entry d i)) < i \<and> unat (snd (entry d i)) < length (sd_contents (pathElements d)))"

text \<open>The elements of a path, from the root down.\<close>

function path_elems :: "path_dict \<Rightarrow> nat \<Rightarrow> byte list list" where
  "path_elems d i =
     (if i = 0 \<or> i \<le> unat (fst (entry d i)) then []
      else path_elems d (unat (fst (entry d i))) @ [sd_contents (pathElements d) ! unat (snd (entry d i))])"
  by pat_completeness auto
termination by (relation "measure snd") auto

declare path_elems.simps [simp del]

lemma path_elems_root [simp]: "path_elems d 0 = []"
  by (simp add: path_elems.simps)

lemma pa_okD:
  assumes "pa_ok d"
  shows "sd_ok (pathElements d)" "pair_dict_ok (paths d)" "0 < path_count d" "entry d 0 = (NO_INDEX, 0)"
    "\<And>i. 0 < i \<Longrightarrow> i < path_count d \<Longrightarrow> unat (fst (entry d i)) < i"
    "\<And>i. 0 < i \<Longrightarrow> i < path_count d \<Longrightarrow> unat (snd (entry d i)) < length (sd_contents (pathElements d))"
    "path_count d \<le> 2 ^ 28"
  using assms pairs.bounded [of "paths d"] by (auto simp: pa_ok_def)

lemma path_elems_child:
  "pa_ok d \<Longrightarrow> 0 < i \<Longrightarrow> i < path_count d \<Longrightarrow>
   path_elems d i = path_elems d (unat (fst (entry d i))) @ [sd_contents (pathElements d) ! unat (snd (entry d i))]"
  by (subst path_elems.simps) (use pa_okD(5) in \<open>auto simp: not_le\<close>)

lemma parent_index:
  "pa_ok d \<Longrightarrow> 0 < i \<Longrightarrow> i < path_count d \<Longrightarrow> unat (GetParent d (of_nat i)) < i"
  using pa_okD(5,7) [of d] by (simp add: GetParent_def pd_get_def unat_index)

text \<open>Different indices are different paths.\<close>

lemma path_elems_inj:
  assumes ok: "pa_ok d" and "i < path_count d" and "j < path_count d" and "path_elems d i = path_elems d j"
  shows "i = j"
  using assms(2-4)
proof (induction i arbitrary: j rule: less_induct)
  case (less i)
  note child = path_elems_child [OF ok] and D = pa_okD [OF ok]
  show ?case
  proof (cases "i = 0 \<or> j = 0")
    case True
    with less.prems child [of i] child [of j] show ?thesis by (cases "i = 0"; cases "j = 0") auto
  next
    case False
    with less.prems have
      "path_elems d (unat (fst (entry d i))) = path_elems d (unat (fst (entry d j)))"
      "sd_contents (pathElements d) ! unat (snd (entry d i)) = sd_contents (pathElements d) ! unat (snd (entry d j))"
      by (simp_all add: child)
    moreover have "distinct (sd_contents (pathElements d))" using strings.bounded [OF D(1)] by blast
    ultimately have "unat (fst (entry d i)) = unat (fst (entry d j))" "unat (snd (entry d i)) = unat (snd (entry d j))"
      using less.IH [of "unat (fst (entry d i))" "unat (fst (entry d j))"] less.prems False D(5,6)
      by (auto simp: nth_eq_iff_index_eq intro: less_trans)
    then have "entry d i = entry d j" by (simp add: prod_eq_iff word_unat_eq_iff)
    with less.prems show ?thesis
      using pairs.bounded [OF D(2)] by (simp add: nth_eq_iff_index_eq)
  qed
qed

section \<open>Looking up and adding children\<close>

abbreviation elements_of :: "path_dict \<Rightarrow> byte list list" where
  "elements_of d \<equiv> sd_contents (pathElements d)"

definition extends :: "path_dict \<Rightarrow> path_dict \<Rightarrow> bool" where
  "extends d d' \<longleftrightarrow>
     take (path_count d) (pd_data (paths d')) = pd_data (paths d) \<and> take (length (elements_of d)) (elements_of d') = elements_of d"

lemma take_eq_nth: "take (length xs) ys = xs \<Longrightarrow> i < length xs \<Longrightarrow> i < length ys \<and> ys ! i = xs ! i"
  by (metis length_take min_less_iff_conj nth_take)

lemma extends_elems:
  assumes ok: "pa_ok d" "pa_ok d'" and ext: "extends d d'" and "j < path_count d"
  shows "path_elems d' j = path_elems d j"
  using assms(4)
proof (induction j rule: less_induct)
  case (less j)
  have data: "i < path_count d' \<and> entry d' i = entry d i" if "i < path_count d" for i
    using that ext by (intro take_eq_nth) (simp_all add: extends_def)
  have strs: "elements_of d' ! i = elements_of d ! i" if "i < length (elements_of d)" for i
    using that ext take_eq_nth [of "elements_of d" "elements_of d'" i] by (simp add: extends_def)
  show ?case
  proof (cases "j = 0")
    case False
    then have "unat (fst (entry d j)) < j" "unat (snd (entry d j)) < length (elements_of d)"
      using pa_okD(5,6) [OF ok(1)] less.prems by simp_all
    with less.IH [of "unat (fst (entry d j))"] False less.prems data [of j] strs show ?thesis
      by (simp add: path_elems_child ok)
  qed simp
qed

lemma index_not_parent: "p < path_count d \<Longrightarrow> pa_ok d \<Longrightarrow> (of_nat p :: dword) \<noteq> NO_INDEX"
  using pa_okD(7) [of d] by (intro NO_INDEX_not_position) simp

text \<open>A pair in the dictionary is the entry of a child.\<close>

lemma child_entry:
  assumes ok: "pa_ok d" and p: "p < path_count d" and i: "i < path_count d" and e: "entry d i = (of_nat p, e)"
  shows "0 < i \<and> path_elems d i = path_elems d p @ [elements_of d ! unat e]"
proof -
  have "i \<noteq> 0"
  proof
    assume "i = 0"
    with e pa_okD(4) [OF ok] have "(of_nat p :: dword) = NO_INDEX" by simp
    with index_not_parent [OF p ok] show False by blast
  qed
  with path_elems_child [OF ok _ i] e p pa_okD(7) [OF ok] show ?thesis by (simp add: unat_index)
qed

lemma pa_Find_cases:
  assumes ok: "pa_ok d" and p: "p < path_count d"
  obtains (found) i where "pa_Find d (of_nat p) s = Some (of_nat i)" "(of_nat i :: dword) \<noteq> NO_INDEX" "0 < i"
      "i < path_count d" "path_elems d i = path_elems d p @ [s]"
    | (absent) "pa_Find d (of_nat p) s = Some NO_INDEX" "(of_nat p, position (elements_of d) s) \<notin> set (pd_data (paths d))"
proof (cases "s \<in> set (elements_of d)")
  case False
  then have find: "pa_Find d (of_nat p) s = Some NO_INDEX"
    by (simp add: pa_Find_def strings.finds pa_okD(1) [OF ok])
  have "(of_nat p, NO_INDEX) \<notin> set (pd_data (paths d))"
  proof
    assume "(of_nat p, NO_INDEX) \<in> set (pd_data (paths d))"
    then obtain i where i: "i < path_count d" "entry d i = (of_nat p, NO_INDEX)" by (auto simp: in_set_conv_nth)
    with child_entry [OF ok p i] pa_okD(6) [OF ok, of i] strings.bounded [OF pa_okD(1) [OF ok]]
    show False by (simp add: NO_INDEX_def unsigned_minus_1_eq_mask mask_eq_exp_minus_1)
  qed
  with find False show ?thesis by (simp add: absent)
next
  case True
  have pos: "position (elements_of d) s \<noteq> NO_INDEX" "elements_of d ! unat (position (elements_of d) s) = s"
    using position_present [OF True] strings.bounded [OF pa_okD(1) [OF ok]] by simp_all
  have find: "pa_Find d (of_nat p) s = pd_Find (paths d) (of_nat p, position (elements_of d) s)"
    using pos by (simp add: pa_Find_def strings.finds pa_okD(1) [OF ok])
  show ?thesis
  proof (cases "(of_nat p, position (elements_of d) s) \<in> set (pd_data (paths d))")
    case True
    obtain i where "pd_Find (paths d) (of_nat p, position (elements_of d) s) = Some (of_nat i)" "i < path_count d"
      "entry d i = (of_nat p, position (elements_of d) s)" "(of_nat i :: dword) \<noteq> NO_INDEX"
      by (rule pairs.finds_present [OF pa_okD(2) [OF ok] True])
    with child_entry [OF ok p] pos find show ?thesis by (intro found [of i]) auto
  next
    case False
    then show ?thesis
      by (intro absent) (simp_all add: find pairs.finds [OF pa_okD(2) [OF ok]])
  qed
qed

definition pa_room :: "path_dict \<Rightarrow> byte list \<Rightarrow> bool" where
  "pa_room d s \<longleftrightarrow> (s \<in> set (elements_of d) \<or> sd_room (pathElements d) s) \<and> path_count d < 2 ^ 28"

text \<open>Adding an entry for a child keeps the dictionary well-formed.\<close>

lemma pa_ok_extended:
  assumes ok: "pa_ok d" and "sd_ok s'" and "pair_dict_ok p'"
    and "take (length (elements_of d)) (sd_contents s') = elements_of d"
    and data: "pd_data p' = pd_data (paths d) @ [(of_nat p, e)]"
    and "p < path_count d" and "unat e < length (sd_contents s')"
  shows "pa_ok \<lparr>pathElements = s', paths = p'\<rparr>" and "extends d \<lparr>pathElements = s', paths = p'\<rparr>"
proof -
  note D = pa_okD [OF ok]
  have len: "length (elements_of d) \<le> length (sd_contents s')"
    using assms(4) by (metis length_take min.cobounded1)
  have "unat (of_nat p :: dword) = p" using assms(6) D(7) by (simp add: unat_index)
  with assms D len show "pa_ok \<lparr>pathElements = s', paths = p'\<rparr>"
    by (auto simp: pa_ok_def nth_append intro: less_le_trans)
  show "extends d \<lparr>pathElements = s', paths = p'\<rparr>"
    using assms(4) data by (simp add: extends_def)
qed

lemma path_elems_last:
  assumes "pa_ok d'" and "extends d d'" and "pa_ok d" and "p < path_count d"
    and "entry d' (path_count d) = (of_nat p, e)" and "path_count d < path_count d'"
  shows "path_elems d' (path_count d) = path_elems d p @ [elements_of d' ! unat e]"
proof -
  have "unat (of_nat p :: dword) = p" using assms(4) pa_okD(7) [OF assms(3)] by (simp add: unat_index)
  with path_elems_child [OF assms(1), of "path_count d"] assms(4-6) pa_okD(3) [OF assms(3)]
    extends_elems [OF assms(3,1,2,4)]
  show ?thesis by simp
qed

lemma auto_element:
  assumes ok: "pa_ok d" and p: "p < path_count d" and room: "pa_room d s"
    and new: "(of_nat p, position (elements_of d) s) \<notin> set (pd_data (paths d))"
  obtains i s' where "sd_AutoInsert (pathElements d) s = Some (Return (of_nat i, s'))" "sd_ok s'"
    "sd_contents s' = (if s \<in> set (elements_of d) then elements_of d else elements_of d @ [s])"
    "i < length (sd_contents s')" "sd_contents s' ! i = s" "unat (of_nat i :: dword) = i"
    "(of_nat p, of_nat i) \<notin> set (pd_data (paths d))"
proof -
  note D = pa_okD [OF ok]
  obtain i s' where s': "sd_AutoInsert (pathElements d) s = Some (Return (of_nat i, s'))" "sd_ok s'"
    "sd_contents s' = (if s \<in> set (elements_of d) then elements_of d else elements_of d @ [s])"
    "i < length (sd_contents s')" "sd_contents s' ! i = s"
    using strings.auto_inserts [OF D(1)] room by (auto simp: pa_room_def sd_AutoInsert_def)
  have dist: "distinct (sd_contents s')" and small: "length (sd_contents s') \<le> 2 ^ 28"
    using strings.bounded [OF s'(2)] by auto
  have i: "unat (of_nat i :: dword) = i" using s'(4) small by (simp add: unat_index)
  have "(of_nat p, of_nat i) \<notin> set (pd_data (paths d))"
  proof (cases "s \<in> set (elements_of d)")
    case True
    with s' dist position_nth [of "sd_contents s'" i] new show ?thesis by simp
  next
    case False
    then have "s = sd_contents s' ! length (elements_of d)" "length (elements_of d) < length (sd_contents s')"
      by (simp_all add: s'(3))
    with s'(4,5) dist have at: "i = length (elements_of d)" by (simp add: nth_eq_iff_index_eq)
    show ?thesis
    proof
      assume "(of_nat p, of_nat i) \<in> set (pd_data (paths d))"
      then obtain j where j: "j < path_count d" "entry d j = (of_nat p, of_nat i)" by (auto simp: in_set_conv_nth)
      with child_entry [OF ok p j] D(6) [of j] i at show False by simp
    qed
  qed
  with s' i show thesis by (intro that)
qed

lemma pa_Insert_ok:
  assumes ok: "pa_ok d" and p: "p < path_count d" and room: "pa_room d s"
    and new: "(of_nat p, position (elements_of d) s) \<notin> set (pd_data (paths d))"
  shows "\<exists>d'. pa_Insert d (of_nat p) s = Some (Return (of_nat (path_count d), d')) \<and> pa_ok d' \<and> extends d d' \<and>
    path_count d' = path_count d + 1 \<and> path_elems d' (path_count d) = path_elems d p @ [s] \<and>
    elements_of d' = (if s \<in> set (elements_of d) then elements_of d else elements_of d @ [s])"
proof -
  note D = pa_okD [OF ok]
  obtain i s' where s': "sd_AutoInsert (pathElements d) s = Some (Return (of_nat i, s'))" "sd_ok s'"
    "sd_contents s' = (if s \<in> set (elements_of d) then elements_of d else elements_of d @ [s])"
    "i < length (sd_contents s')" "sd_contents s' ! i = s" and i: "unat (of_nat i :: dword) = i"
    and absent: "(of_nat p, of_nat i) \<notin> set (pd_data (paths d))"
    by (rule auto_element [OF ok p room new])
  obtain p' where p': "pd_Insert (paths d) (of_nat p, of_nat i) = Some (Return (of_nat (path_count d), p'))"
    "pair_dict_ok p'" "pd_data p' = pd_data (paths d) @ [(of_nat p, of_nat i)]"
    using pairs.inserts [OF D(2) absent] room by (auto simp: pa_room_def pair_room_def)
  let ?d' = "\<lparr>pathElements = s', paths = p'\<rparr>"
  have keep: "take (length (elements_of d)) (sd_contents s') = elements_of d" by (simp add: s'(3))
  note ext = pa_ok_extended [OF ok s'(2) p'(2) keep p'(3) p, unfolded i, OF s'(4)]
  have "path_elems ?d' (path_count d) = path_elems d p @ [s]"
    using path_elems_last [OF ext ok p, of "of_nat i"] p'(3) s'(5) i by simp
  moreover have "pa_Insert d (of_nat p) s = Some (Return (of_nat (path_count d), ?d'))"
    by (simp add: pa_Insert_def s'(1) p'(1))
  ultimately show ?thesis using ext p'(3) s'(3) by (intro exI [of _ ?d']) simp
qed

lemma pa_Initialize_ok:
  assumes "sd_ok s" and "sd_contents s = [[]]" and "pair_dict_ok p" and "pd_data p = []"
  shows "\<exists>d. pa_Initialize \<lparr>pathElements = s, paths = p\<rparr> = Some (Return d) \<and> pa_ok d \<and> path_count d = 1 \<and>
    elements_of d = [[]]"
proof -
  obtain p' where "pd_Insert p (NO_INDEX, 0) = Some (Return (of_nat 0, p'))" "pair_dict_ok p'"
    "pd_data p' = [(NO_INDEX, 0)]"
    using pairs.inserts [OF assms(3), of "(NO_INDEX, 0)"] assms(4) by (auto simp: pair_room_def)
  with assms(1,2) show ?thesis
    by (intro exI [of _ "\<lparr>pathElements = s, paths = p'\<rparr>"]) (auto simp: pa_Initialize_def pa_ok_def)
qed

lemma new_path_dict_ok:
  "\<exists>d. new_path_dict = Some (Return d) \<and> pa_ok d \<and> path_count d = 1 \<and> elements_of d = [[]]"
proof -
  obtain s where s: "new_string_dict = Some s" "sd_ok s" "sd_contents s = [[]]" using new_string_dict_ok by blast
  have "pd_data new_pair_dict = []" by (simp add: new_pair_dict_def)
  from pa_Initialize_ok [OF s(2,3) pair_dict_ok_new this] show ?thesis
    unfolding new_path_dict_def s(1) by (simp only: bind.bind_lunit)
qed

lemma pa_Clear_ok:
  "pa_ok d \<Longrightarrow> \<exists>d'. pa_Clear d = Some (Return d') \<and> pa_ok d' \<and> path_count d' = 1 \<and> elements_of d' = [[]]"
  using sd_Clear_ok [OF pa_okD(1)] pair_dict_ok_Clear [OF pa_okD(2)] pa_Initialize_ok
  by (fastforce simp: pa_Clear_def)

lemma pa_AutoInsert_ok:
  assumes ok: "pa_ok d" and p: "p < path_count d" and room: "pa_room d s"
  shows "\<exists>i d'. pa_AutoInsert d (of_nat p) s = Some (Return (of_nat i, d')) \<and> pa_ok d' \<and> extends d d' \<and>
    i < path_count d' \<and> path_elems d' i = path_elems d p @ [s]"
proof (cases "(of_nat p, position (elements_of d) s) \<in> set (pd_data (paths d))")
  case True
  note D = pa_okD [OF ok]
  obtain j where j: "j < path_count d" "entry d j = (of_nat p, position (elements_of d) s)"
    using True by (auto simp: in_set_conv_nth)
  have s: "s \<in> set (elements_of d)"
  proof (rule ccontr)
    assume "s \<notin> set (elements_of d)"
    with j child_entry [OF ok p j] D(6) [of j] strings.bounded [OF D(1)]
    show False by (simp add: NO_INDEX_def unsigned_minus_1_eq_mask mask_eq_exp_minus_1)
  qed
  have "pa_AutoInsert d (of_nat p) s = Some (Return (of_nat j, d))"
    using position_nth [of "pd_data (paths d)" j] pairs.bounded [OF D(2)] j
    by (simp add: pa_AutoInsert_def sd_AutoInsert_def pd_AutoInsert_def strings.auto_insert_again [OF D(1) s]
        pairs.auto_insert_again [OF D(2) True])
  moreover have "path_elems d j = path_elems d p @ [s]"
    using child_entry [OF ok p j] position_present [OF s] strings.bounded [OF D(1)] by simp
  ultimately show ?thesis using ok j by (auto simp: extends_def)
next
  case False
  note D = pa_okD [OF ok]
  obtain d' where d': "pa_Insert d (of_nat p) s = Some (Return (of_nat (path_count d), d'))" "pa_ok d'" "extends d d'"
    "path_count d' = path_count d + 1" "path_elems d' (path_count d) = path_elems d p @ [s]"
    using pa_Insert_ok [OF ok p room False] by blast
  have "pa_AutoInsert d (of_nat p) s = pa_Insert d (of_nat p) s"
  proof -
    obtain i s' where "sd_AutoInsert (pathElements d) s = Some (Return (of_nat i, s'))"
      "(of_nat p, of_nat i) \<notin> set (pd_data (paths d))"
      by (rule auto_element [OF ok p room False])
    then show ?thesis
      by (simp add: pa_AutoInsert_def pa_Insert_def pd_AutoInsert_def auto_insert_def pairs.finds [OF D(2)])
  qed
  with d' show ?thesis by (intro exI [of _ "path_count d"] exI [of _ d']) simp
qed

section \<open>Following parents\<close>

abbreviation elems :: "path_dict \<Rightarrow> dword \<Rightarrow> byte list list" where
  "elems d x \<equiv> path_elems d (unat x)"

abbreviation valid_index :: "path_dict \<Rightarrow> dword \<Rightarrow> bool" where
  "valid_index d x \<equiv> unat x < path_count d"

lemma parent_valid:
  "pa_ok d \<Longrightarrow> valid_index d x \<Longrightarrow> x \<noteq> 0 \<Longrightarrow> unat (GetParent d x) < unat x \<and> valid_index d (GetParent d x)"
  using pa_okD(5) [of d "unat x"] by (auto simp: GetParent_def pd_get_def word_nonzero)

lemma elems_parent:
  "pa_ok d \<Longrightarrow> valid_index d x \<Longrightarrow> x \<noteq> 0 \<Longrightarrow> elems d x = elems d (GetParent d x) @ [GetPathElement d x]"
  using path_elems_child [of d "unat x"] pa_okD(6) [of d "unat x"]
  by (simp add: GetParent_def GetPathElement_def pd_get_def word_nonzero sd_get_at pa_okD(1))

lemma elems_inj:
  "pa_ok d \<Longrightarrow> valid_index d x \<Longrightarrow> valid_index d y \<Longrightarrow> elems d x = elems d y \<longleftrightarrow> x = y"
  using path_elems_inj [of d "unat x" "unat y"] by (auto simp: word_unat_eq_iff)

lemma elems_empty: "pa_ok d \<Longrightarrow> valid_index d x \<Longrightarrow> elems d x = [] \<longleftrightarrow> x = 0"
  using elems_inj [of d x 0] pa_okD(3) [of d] by simp

lemma prefix_parent:
  assumes "pa_ok d" and "valid_index d x" and "valid_index d y" and "y \<noteq> 0"
  shows "prefix (elems d x) (elems d y) \<longleftrightarrow> x = y \<or> prefix (elems d x) (elems d (GetParent d y))"
  using elems_inj [OF assms(1-3)] by (simp add: elems_parent [OF assms(1,3,4)])

lemma prefix_index_le:
  assumes ok: "pa_ok d" and x: "valid_index d x"
  shows "valid_index d y \<Longrightarrow> prefix (elems d x) (elems d y) \<Longrightarrow> unat x \<le> unat y"
proof (induction "unat y" arbitrary: y rule: less_induct)
  case less
  show ?case
  proof (cases "y = 0")
    case True
    with less.prems elems_empty [OF ok x] show ?thesis by simp
  next
    case False
    note par = parent_valid [OF ok less.prems(1) False]
    with less.hyps [of "GetParent d y"] less.prems prefix_parent [OF ok x less.prems(1) False]
    show ?thesis by fastforce
  qed
qed

lemma parent_loop_prefix:
  assumes ok: "pa_ok d" and x: "valid_index d x" "x \<noteq> 0"
  shows "valid_index d y \<Longrightarrow> parent_loop d x y = Some (prefix (elems d x) (elems d y))"
proof (induction "unat y" arbitrary: y rule: less_induct)
  case less
  consider (below) "y < x" | (same) "x = y" | (above) "x < y" by fastforce
  then show ?case
  proof cases
    case below
    with prefix_index_le [OF ok x(1) less.prems] show ?thesis
      by (subst parent_loop.simps) (auto simp: word_less_nat_alt word_le_nat_alt)
  next
    case same
    then show ?thesis by (subst parent_loop.simps) simp
  next
    case above
    then have y: "y \<noteq> 0" by auto
    note par = parent_valid [OF ok less.prems y]
    from above have "x \<le> y" "x \<noteq> y" by auto
    with less.hyps [of "GetParent d y"] par prefix_parent [OF ok x(1) less.prems y] show ?thesis
      by (subst parent_loop.simps) simp
  qed
qed

lemma depth_loop_length:
  assumes ok: "pa_ok d"
  shows "valid_index d x \<Longrightarrow> depth_loop d x n = Some (n + of_nat (length (elems d x)))"
proof (induction "unat x" arbitrary: x n rule: less_induct)
  case less
  show ?case
  proof (cases "x = 0")
    case True
    then show ?thesis by (subst depth_loop.simps) simp
  next
    case False
    note par = parent_valid [OF ok less.prems False]
    with less.hyps [of "GetParent d x"] elems_parent [OF ok less.prems False] False show ?thesis
      by (subst depth_loop.simps) (simp add: ac_simps)
  qed
qed

lemma contains_loop_elems:
  assumes ok: "pa_ok d" and e: "unat e < length (elements_of d)"
  shows "valid_index d x \<Longrightarrow> contains_loop d e x = Some (elements_of d ! unat e \<in> set (elems d x))"
proof (induction "unat x" arbitrary: x rule: less_induct)
  case less
  show ?case
  proof (cases "x = 0")
    case True
    then show ?thesis by (subst contains_loop.simps) simp
  next
    case False
    note par = parent_valid [OF ok less.prems False]
    have id: "unat (GetPathElementID d x) < length (elements_of d)"
      using pa_okD(6) [OF ok, of "unat x"] less.prems False
      by (simp add: GetPathElementID_def pd_get_def word_nonzero)
    then have elem: "GetPathElement d x = elements_of d ! unat (GetPathElementID d x)"
      by (simp add: GetPathElement_def GetPathElementID_def sd_get_at pa_okD(1) [OF ok])
    have "distinct (elements_of d)" using strings.bounded [OF pa_okD(1) [OF ok]] by blast
    then have "GetPathElement d x = elements_of d ! unat e \<longleftrightarrow> GetPathElementID d x = e"
      using id e by (simp add: elem nth_eq_iff_index_eq word_unat_eq_iff)
    with less.hyps [of "GetParent d x"] par elems_parent [OF ok less.prems False] False show ?thesis
      by (subst contains_loop.simps) auto
  qed
qed

lemma lcp_snoc:
  assumes "\<not> prefix (xs @ [x]) ys"
  shows "longest_common_prefix ys (xs @ [x]) = longest_common_prefix ys xs"
proof (rule prefix_order.antisym)
  let ?p = "longest_common_prefix ys (xs @ [x])"
  have "prefix ?p ys" "prefix ?p (xs @ [x])"
    by (rule longest_common_prefix_prefix1, rule longest_common_prefix_prefix2)
  with assms have "prefix ?p xs" by (metis prefix_snoc)
  with \<open>prefix ?p ys\<close> show "prefix ?p (longest_common_prefix ys xs)"
    by (rule longest_common_prefix_max_prefix)
  have "prefix (longest_common_prefix ys xs) xs" by (rule longest_common_prefix_prefix2)
  then show "prefix (longest_common_prefix ys xs) ?p"
    by (intro longest_common_prefix_max_prefix longest_common_prefix_prefix1 prefix_prefix)
qed

lemma lcp_commute: "longest_common_prefix xs ys = longest_common_prefix ys xs"
  by (intro prefix_order.antisym longest_common_prefix_max_prefix
      longest_common_prefix_prefix1 longest_common_prefix_prefix2)

lemma lcp_self: "longest_common_prefix xs xs = xs"
  by (induction xs) auto

lemma lcp_parent:
  assumes ok: "pa_ok d" and v: "valid_index d x" "valid_index d y" and "x < y"
  shows "longest_common_prefix (elems d x) (elems d y) = longest_common_prefix (elems d x) (elems d (GetParent d y))"
proof -
  have y: "y \<noteq> 0" using assms(4) by auto
  have "\<not> prefix (elems d y) (elems d x)"
    using prefix_index_le [OF ok v(2,1)] assms(4) by (auto simp: word_less_nat_alt)
  then show ?thesis using elems_parent [OF ok v(2) y] lcp_snoc by simp
qed

lemma common_root_lcp:
  assumes ok: "pa_ok d"
  shows "valid_index d x \<Longrightarrow> valid_index d y \<Longrightarrow> \<exists>c. GetCommonRoot d x y = Some c \<and> valid_index d c \<and>
    elems d c = longest_common_prefix (elems d x) (elems d y)"
proof (induction "unat x + unat y" arbitrary: x y rule: less_induct)
  case less
  consider (left) "x < y" | (same) "x = y" | (right) "y < x" by fastforce
  then show ?case
  proof cases
    case left
    then have y: "y \<noteq> 0" by auto
    have "GetCommonRoot d x y = GetCommonRoot d x (GetParent d y)"
      using left by (subst GetCommonRoot.simps) auto
    with less.hyps [of x "GetParent d y"] parent_valid [OF ok less.prems(2) y] less.prems
      lcp_parent [OF ok less.prems left] show ?thesis by simp
  next
    case same
    with less.prems show ?thesis by (subst GetCommonRoot.simps) (simp add: lcp_self)
  next
    case right
    then have x: "x \<noteq> 0" by auto
    have "GetCommonRoot d x y = GetCommonRoot d (GetParent d x) y"
      using right by (subst GetCommonRoot.simps) auto
    moreover have "longest_common_prefix (elems d x) (elems d y) =
        longest_common_prefix (elems d (GetParent d x)) (elems d y)"
      unfolding lcp_commute [of _ "elems d y"] by (rule lcp_parent [OF ok less.prems(2,1) right])
    ultimately show ?thesis
      using less.hyps [of "GetParent d x" y] parent_valid [OF ok less.prems(1) x] less.prems by simp
  qed
qed

section \<open>Parsing\<close>

text \<open>The elements of a path string without its leading slash.\<close>

function split_slashes :: "byte list \<Rightarrow> byte list list" where
  "split_slashes rest =
     first_element rest # (if behind_element rest = [] then [] else split_slashes (tl (behind_element rest)))"
  by pat_completeness auto
termination by (relation "measure length") (auto intro: behind_element_shrinks)

declare split_slashes.simps [simp del]

lemma behind_element_slash: "behind_element rest \<noteq> [] \<Longrightarrow> rest = first_element rest @ SLASH # tl (behind_element rest)"
proof -
  assume ne: "behind_element rest \<noteq> []"
  then have "hd (behind_element rest) = SLASH"
    using hd_dropWhile [of "\<lambda>c. c \<noteq> SLASH" rest] by auto
  with ne show ?thesis by (metis list.collapse takeWhile_dropWhile_id)
qed

lemma join_split: "concat (map ((#) SLASH) (split_slashes rest)) = SLASH # rest"
proof (induction rest rule: split_slashes.induct)
  case (1 rest)
  show ?case
  proof (cases "behind_element rest = []")
    case True
    then have "first_element rest = rest" by (metis append_Nil2 takeWhile_dropWhile_id)
    with True show ?thesis by (subst split_slashes.simps) simp
  next
    case False
    with 1 behind_element_slash [OF False] show ?thesis by (subst split_slashes.simps) simp
  qed
qed

text \<open>Room for the elements of a path string and the terminators of their copies.\<close>

definition parse_room :: "path_dict \<Rightarrow> byte list \<Rightarrow> bool" where
  "parse_room d rest \<longleftrightarrow>
     0 \<notin> set rest \<and> length (elements_of d) + length rest < 2 ^ 28 \<and> path_count d + length rest < 2 ^ 28 \<and>
     length (packedStrings (pathElements d)) + length rest + 10 < 2 ^ 32 - 1"

lemma length_first: "length (first_element rest) + length (behind_element rest) = length rest"
  by (metis length_append takeWhile_dropWhile_id)

lemma set_first: "set (first_element rest) \<subseteq> set rest"
  by (auto dest: set_takeWhileD)

lemma set_behind: "set (tl (behind_element rest)) \<subseteq> set rest"
proof -
  have "set (tl xs) \<subseteq> set xs" for xs :: "byte list" by (cases xs) auto
  then show ?thesis by (auto dest!: set_dropWhileD subsetD)
qed

lemma parse_room_first: "pa_ok d \<Longrightarrow> parse_room d rest \<Longrightarrow> pa_room d (first_element rest)"
  using length_first [of rest] set_first [of rest]
  by (auto simp: parse_room_def pa_room_def sd_room_def)

text \<open>What one step of the loop does to the dictionary leaves room for the rest.\<close>

lemma parse_room_rest:
  assumes "pa_ok d" and "pa_ok d'" and "parse_room d rest" and "behind_element rest \<noteq> []"
    and "path_count d' \<le> path_count d + 1"
    and "elements_of d' \<in> {elements_of d, elements_of d @ [first_element rest]}"
  shows "parse_room d' (tl (behind_element rest))"
proof -
  have len: "length rest = length (first_element rest) + Suc (length (tl (behind_element rest)))"
    using arg_cong [OF behind_element_slash [OF assms(4)], of length] by (simp only: length_append length_Cons)
  have packed: "packedStrings (pathElements x) = flatten (elements_of x)" if "pa_ok x" for x
    using pa_okD(1) [OF that] by (simp add: sd_ok_def)
  have "length (packedStrings (pathElements d')) \<le> length (packedStrings (pathElements d)) + length (first_element rest) + 1"
    using assms(6) by (auto simp: packed assms(1,2))
  moreover have "length (elements_of d') \<le> length (elements_of d) + 1" using assms(6) by auto
  moreover have "0 \<notin> set (tl (behind_element rest))" using set_behind [of rest] assms(3) by (auto simp: parse_room_def)
  ultimately show ?thesis using assms(3,5) len by (simp add: parse_room_def)
qed

lemma extends_refl [simp]: "extends d d"
  by (simp add: extends_def)

lemma take_trans: "take (length a) b = a \<Longrightarrow> take (length b) c = b \<Longrightarrow> take (length a) c = a"
proof -
  assume a: "take (length a) b = a" and b: "take (length b) c = b"
  have "length a \<le> length b" using arg_cong [OF a, of length] by simp
  then have "take (length a) c = take (length a) (take (length b) c)" by (simp add: min_absorb1)
  with a b show ?thesis by simp
qed

lemma extends_trans: "extends a b \<Longrightarrow> extends b c \<Longrightarrow> extends a c"
  unfolding extends_def by (blast intro: take_trans)

text \<open>Parsing into a writable dictionary.\<close>

lemma parse_loop_writable:
  "pa_ok d \<Longrightarrow> p < path_count d \<Longrightarrow> parse_room d rest \<Longrightarrow>
   \<exists>i d'. parse_loop True d index (of_nat p) rel rest = Some (Return (d', of_nat i, rel)) \<and> pa_ok d' \<and> extends d d' \<and>
     i < path_count d' \<and> path_elems d' i = path_elems d p @ split_slashes rest"
proof (induction "length rest" arbitrary: d p index rest rule: less_induct)
  case less
  let ?s = "first_element rest" and ?b = "behind_element rest"
  have step: "\<exists>j d1. (\<forall>X. parse_loop True d index (of_nat p) rel rest = X \<longrightarrow>
        X = (if ?b = [] then Some (Return (d1, of_nat j, rel))
             else parse_loop True d1 (of_nat j) (of_nat j) rel (tl ?b))) \<and>
      pa_ok d1 \<and> extends d d1 \<and> j < path_count d1 \<and> path_elems d1 j = path_elems d p @ [?s] \<and>
      (?b \<noteq> [] \<longrightarrow> parse_room d1 (tl ?b))"
  proof -
    consider (found) i where "pa_Find d (of_nat p) ?s = Some (of_nat i)" "(of_nat i :: dword) \<noteq> NO_INDEX"
        "i < path_count d" "path_elems d i = path_elems d p @ [?s]"
      | (absent) "pa_Find d (of_nat p) ?s = Some NO_INDEX" "(of_nat p, position (elements_of d) ?s) \<notin> set (pd_data (paths d))"
      by (rule pa_Find_cases [OF less.prems(1,2)])
    then show ?thesis
    proof cases
      case found
      have "?b \<noteq> [] \<longrightarrow> parse_room d (tl ?b)"
        using parse_room_rest [OF less.prems(1,1,3)] by simp
      with found less.prems(1) show ?thesis
        by (intro exI [of _ i] exI [of _ d]) (subst parse_loop.simps, simp)
    next
      case absent
      obtain d' where d': "pa_Insert d (of_nat p) ?s = Some (Return (of_nat (path_count d), d'))" "pa_ok d'" "extends d d'"
        "path_count d' = path_count d + 1" "path_elems d' (path_count d) = path_elems d p @ [?s]"
        "elements_of d' = (if ?s \<in> set (elements_of d) then elements_of d else elements_of d @ [?s])"
        using pa_Insert_ok [OF less.prems(1,2) parse_room_first [OF less.prems(1,3)] absent(2)] by blast
      have "?b \<noteq> [] \<longrightarrow> parse_room d' (tl ?b)"
        using parse_room_rest [OF less.prems(1) d'(2) less.prems(3)] d'(4,6) by simp
      with absent d' show ?thesis
        by (intro exI [of _ "path_count d"] exI [of _ d']) (subst parse_loop.simps, simp)
    qed
  qed
  then obtain j d1 where d1: "parse_loop True d index (of_nat p) rel rest =
      (if ?b = [] then Some (Return (d1, of_nat j, rel)) else parse_loop True d1 (of_nat j) (of_nat j) rel (tl ?b))"
    "pa_ok d1" "extends d d1" "j < path_count d1" "path_elems d1 j = path_elems d p @ [?s]"
    "?b \<noteq> [] \<Longrightarrow> parse_room d1 (tl ?b)" by blast
  show ?case
  proof (cases "?b = []")
    case True
    with d1 show ?thesis by (subst split_slashes.simps) auto
  next
    case False
    then have "length (tl ?b) < length rest" using behind_element_shrinks [of rest] by simp
    from less.hyps [OF this d1(2,4) d1(6) [OF False], of "of_nat j"] obtain i d' where
      "parse_loop True d1 (of_nat j) (of_nat j) rel (tl ?b) = Some (Return (d', of_nat i, rel))" "pa_ok d'"
      "extends d1 d'" "i < path_count d'" "path_elems d' i = path_elems d1 j @ split_slashes (tl ?b)" by blast
    with d1 False extends_trans [OF d1(3)] show ?thesis
      by (subst split_slashes.simps) auto
  qed
qed

section \<open>Building the path string\<close>

text \<open>A copy in words writes whole words.\<close>

definition chunked :: "nat \<Rightarrow> nat" where
  "chunked n = (n + 7) div 8 * 8"

lemma chunked_simps [simp]: "chunked 0 = 0" "0 < n \<Longrightarrow> chunked n = 8 + chunked (n - 8)"
  by (auto simp: chunked_def) (cases "8 \<le> n"; simp add: le_div_geq not_le)

lemma chunked_bounds: "n \<le> chunked n" "chunked n \<le> n + 7"
  by (simp_all add: chunked_def)

lemma chunk_loop_copies:
  "chunked (target - dest) \<le> length source \<Longrightarrow> dest + chunked (target - dest) \<le> length mem \<Longrightarrow>
   \<exists>mem'. chunk_loop source mem dest target = Some mem' \<and> length mem' = length mem \<and>
     take dest mem' = take dest mem \<and> take (chunked (target - dest)) (drop dest mem') = take (chunked (target - dest)) source"
proof (induction source mem dest target rule: chunk_loop.induct)
  case (1 source mem dest target)
  show ?case
  proof (cases "dest < target")
    case False
    then show ?thesis by (subst chunk_loop.simps) simp
  next
    case True
    let ?mem = "take dest mem @ take 8 source @ drop (dest + 8) mem"
    have c: "chunked (target - dest) = 8 + chunked (target - (dest + 8))" using True by simp
    with "1.prems" have eight: "8 \<le> length source" "dest + 8 \<le> length mem" by simp_all
    then have st: "store mem dest (take 8 source) = Some ?mem" by (simp add: store_def)
    have len: "length ?mem = length mem" using eight by simp
    have pre: "\<not> length source < 8" "chunked (target - (dest + 8)) \<le> length (drop 8 source)"
      "dest + 8 + chunked (target - (dest + 8)) \<le> length ?mem"
      using eight "1.prems" c len by simp_all
    obtain mem' where mem':
      "chunk_loop (drop 8 source) ?mem (dest + 8) target = Some mem'" "length mem' = length ?mem"
      "take (dest + 8) mem' = take (dest + 8) ?mem"
      "take (chunked (target - (dest + 8))) (drop (dest + 8) mem') = take (chunked (target - (dest + 8))) (drop 8 source)"
      using "1.IH" [OF True pre(1) st pre(2,3)] by blast
    have "take dest mem' = take dest (take (dest + 8) mem')" by simp
    also have "\<dots> = take dest mem" unfolding mem'(3) using eight by simp
    finally have front: "take dest mem' = take dest mem" .
    have "take 8 (drop dest mem') = drop dest (take (dest + 8) mem')" by (simp add: drop_take)
    also have "\<dots> = take 8 source" unfolding mem'(3) using eight by simp
    finally have first: "take 8 (drop dest mem') = take 8 source" .
    have "take (chunked (target - dest)) (drop dest mem') =
        take 8 (drop dest mem') @ take (chunked (target - (dest + 8))) (drop (dest + 8) mem')"
      unfolding c by (simp add: take_add add.commute)
    also have "\<dots> = take (chunked (target - dest)) source"
      unfolding c first mem'(4) by (simp add: take_add)
    finally have "take (chunked (target - dest)) (drop dest mem') = take (chunked (target - dest)) source" .
    moreover have "chunk_loop source mem dest target = Some mem'"
      using True eight st mem'(1) by (subst chunk_loop.simps) simp
    ultimately show ?thesis using front mem'(2) len by simp
  qed
qed

lemma copy_element:
  assumes "n + 7 \<le> length source" and "dest + n + 7 \<le> length mem"
  shows "\<exists>mem'. chunk_loop source mem dest (dest + n) = Some mem' \<and> length mem' = length mem \<and>
    take (dest + n) mem' = take dest mem @ take n source"
proof -
  obtain mem' where mem': "chunk_loop source mem dest (dest + n) = Some mem'" "length mem' = length mem"
    "take dest mem' = take dest mem" "take (chunked n) (drop dest mem') = take (chunked n) source"
    using chunk_loop_copies [of "dest + n" dest source mem] chunked_bounds [of n] assms by fastforce
  have "take n (drop dest mem') = take n (take (chunked n) (drop dest mem'))"
    using chunked_bounds(1) [of n] by (simp add: min_absorb1)
  also have "\<dots> = take n source" unfolding mem'(4) using chunked_bounds(1) [of n] by (simp add: min_absorb1)
  finally show ?thesis using mem' by (simp add: take_add)
qed

abbreviation element :: "path_dict \<Rightarrow> dword \<Rightarrow> byte list" where
  "element d e \<equiv> elements_of d ! unat e"

abbreviation valid_element :: "path_dict \<Rightarrow> dword \<Rightarrow> bool" where
  "valid_element d e \<equiv> unat e < length (elements_of d)"

lemma element_size_length: "pa_ok d \<Longrightarrow> valid_element d e \<Longrightarrow> element_size d e = length (element d e)"
  by (simp add: element_size_def sd_get_at pa_okD(1))

lemma element_source_bytes:
  assumes ok: "pa_ok d" and e: "valid_element d e" and "8 \<le> length slack"
  shows "length (element d e) + 7 \<le> length (element_source d slack e)"
    and "take (length (element d e)) (element_source d slack e) = element d e"
proof -
  note sd = pa_okD(1) [OF ok]
  have "packedStrings (pathElements d) = flatten (elements_of d)" using sd by (simp add: sd_ok_def)
  then have "element_source d slack e = element d e @ 0 # flatten (drop (Suc (unat e)) (elements_of d)) @ slack"
    using sd_offset [OF sd, of "unat e"] e drop_flatten [OF e, of slack] by (simp add: element_source_def)
  with assms(3) show "length (element d e) + 7 \<le> length (element_source d slack e)"
    "take (length (element d e)) (element_source d slack e) = element d e" by simp_all
qed

lemma copy_path_elements:
  assumes ok: "pa_ok d" and slack: "8 \<le> length slack"
  shows "\<forall>e \<in> set es. valid_element d e \<Longrightarrow> target + collected_size d es + 8 \<le> length mem \<Longrightarrow>
    \<exists>mem'. CopyPathElements d slack es mem target = Some mem' \<and> length mem' = length mem \<and>
      take (target + collected_size d es) mem' = take target mem @ concat (map (\<lambda>e. SLASH # element d e) es)"
proof (induction es arbitrary: mem target)
  case Nil
  then show ?case by (simp add: collected_size_def)
next
  case (Cons e es)
  let ?n = "length (element d e)" and ?t = "target + 1"
  have e: "valid_element d e" and es: "\<forall>e \<in> set es. valid_element d e" using Cons.prems(1) by simp_all
  have size: "collected_size d (e # es) = ?n + 1 + collected_size d es"
    by (simp add: collected_size_def element_size_length [OF ok e])
  let ?m1 = "take target mem @ [SLASH] @ drop ?t mem"
  have st: "store mem target [SLASH] = Some ?m1" and len1: "length ?m1 = length mem"
    and take1: "take ?t ?m1 = take target mem @ [SLASH]"
    using Cons.prems(2) size by (simp_all add: store_def)
  obtain m2 where m2: "chunk_loop (element_source d slack e) ?m1 ?t (?t + ?n) = Some m2" "length m2 = length mem"
    "take (?t + ?n) m2 = take target mem @ SLASH # element d e"
    using copy_element [OF element_source_bytes(1) [OF ok e slack], of ?t ?m1] Cons.prems(2) size len1 take1
      element_source_bytes(2) [OF ok e slack] by auto
  have "?t + ?n + collected_size d es + 8 \<le> length m2" using Cons.prems(2) size m2(2) by simp
  from Cons.IH [OF es this] obtain mem' where
    "CopyPathElements d slack es m2 (?t + ?n) = Some mem'" "length mem' = length m2"
    "take (?t + ?n + collected_size d es) mem' = take (?t + ?n) m2 @ concat (map (\<lambda>e. SLASH # element d e) es)"
    by blast
  with st m2 show ?case
    by (simp add: element_size_length [OF ok e] size add.assoc)
qed

lemma collect_ids_elems:
  assumes ok: "pa_ok d"
  shows "valid_index d x \<Longrightarrow> length (elems d x) \<le> n \<Longrightarrow>
    map (element d) (rev (collect_ids d n x)) = elems d x \<and> (\<forall>e \<in> set (collect_ids d n x). valid_element d e)"
proof (induction n arbitrary: x)
  case 0
  then show ?case by simp
next
  case (Suc n)
  show ?case
  proof (cases "x = 0")
    case False
    have id: "valid_element d (GetPathElementID d x)"
      using pa_okD(6) [OF ok, of "unat x"] Suc.prems(1) False
      by (simp add: GetPathElementID_def pd_get_def word_nonzero)
    then have "GetPathElement d x = element d (GetPathElementID d x)"
      by (simp add: GetPathElement_def GetPathElementID_def sd_get_at pa_okD(1) [OF ok])
    with Suc.IH [of "GetParent d x"] Suc.prems(2) False id elems_parent [OF ok Suc.prems(1) False]
      parent_valid [OF ok Suc.prems(1) False]
    show ?thesis by simp
  qed simp
qed

lemma valid_not_NO_INDEX: "pa_ok d \<Longrightarrow> valid_index d x \<Longrightarrow> x \<noteq> NO_INDEX"
  using pa_okD(7) [of d] by (auto simp: NO_INDEX_def unsigned_minus_1_eq_mask mask_eq_exp_minus_1)

lemma GetPath_joins:
  assumes ok: "pa_ok d" and x: "valid_index d x" and "length (elems d x) \<le> MAX_PATH"
    and slack: "8 \<le> length slack" and "8 \<le> length reserved"
  shows "GetPath d slack reserved x =
    Some (Return (if x = 0 then [SLASH] else concat (map ((#) SLASH) (elems d x))))"
proof -
  let ?ids = "collect_ids d MAX_PATH x"
  have ids: "map (element d) (rev ?ids) = elems d x" "\<forall>e \<in> set (rev ?ids). valid_element d e"
    using collect_ids_elems [OF ok x assms(3)] by simp_all
  have size: "collected_size d (rev ?ids) = collected_size d ?ids"
    by (simp add: collected_size_def sum_list_rev rev_map [symmetric])
  obtain mem where mem: "CopyPathElements d slack (rev ?ids) (replicate (collected_size d ?ids) 0 @ reserved) 0 = Some mem"
    "take (collected_size d ?ids) mem = concat (map (\<lambda>e. SLASH # element d e) (rev ?ids))"
    using copy_path_elements [OF ok slack ids(2), of 0 "replicate (collected_size d ?ids) 0 @ reserved"] assms(5) size
    by auto
  have "concat (map (\<lambda>e. SLASH # element d e) (rev ?ids)) = concat (map ((#) SLASH) (map (element d) (rev ?ids)))"
    by (simp add: comp_def)
  then have joined: "concat (map (\<lambda>e. SLASH # element d e) (rev ?ids)) = concat (map ((#) SLASH) (elems d x))"
    unfolding ids(1) .
  have "?ids = [] \<longleftrightarrow> x = 0"
    using ids(1) elems_empty [OF ok x] by (metis Nil_is_map_conv Nil_is_rev_conv)
  then have "collected_size d ?ids = 0 \<longleftrightarrow> x = 0" by (auto simp: collected_size_def)
  with mem joined valid_not_NO_INDEX [OF ok x] show ?thesis by (cases "x = 0") (simp_all add: GetPath_def Let_def)
qed

section \<open>Finding parsed paths again\<close>

lemma ancestor_exists:
  assumes ok: "pa_ok d"
  shows "i < path_count d \<Longrightarrow> prefix q (path_elems d i) \<Longrightarrow> \<exists>j < path_count d. path_elems d j = q"
proof (induction i rule: less_induct)
  case (less i)
  show ?case
  proof (cases "i = 0 \<or> q = path_elems d i")
    case True
    with less.prems show ?thesis by auto
  next
    case False
    then have "prefix q (path_elems d (unat (fst (entry d i))))"
      using less.prems path_elems_child [OF ok, of i] by simp
    moreover have "unat (fst (entry d i)) < i" using pa_okD(5) [OF ok] False less.prems by simp
    ultimately show ?thesis using less.IH [of "unat (fst (entry d i))"] less.prems(1) by simp
  qed
qed

lemma child_in_data:
  assumes ok: "pa_ok d" and p: "p < path_count d" and j: "j < path_count d" and "path_elems d j = path_elems d p @ [s]"
  shows "(of_nat p, position (elements_of d) s) \<in> set (pd_data (paths d))"
proof -
  note D = pa_okD [OF ok]
  have j0: "0 < j" using assms(4) by (cases "j = 0") auto
  with path_elems_child [OF ok j0 j] assms(4) have par: "path_elems d (unat (fst (entry d j))) = path_elems d p"
    and elem: "elements_of d ! unat (snd (entry d j)) = s" by simp_all
  have "unat (fst (entry d j)) = p" using path_elems_inj [OF ok _ p par] D(5) [OF j0 j] j by simp
  then have "fst (entry d j) = of_nat p" by auto
  moreover have "snd (entry d j) = position (elements_of d) s"
    using position_nth [OF _ D(6) [OF j0 j]] strings.bounded [OF D(1)] elem by simp
  ultimately show ?thesis using j by (metis nth_mem prod.collapse)
qed

lemma pa_Find_child:
  assumes ok: "pa_ok d" and p: "p < path_count d" and j: "j < path_count d" and "path_elems d j = path_elems d p @ [s]"
  shows "pa_Find d (of_nat p) s = Some (of_nat j)" and "(of_nat j :: dword) \<noteq> NO_INDEX"
proof -
  show "(of_nat j :: dword) \<noteq> NO_INDEX" by (rule index_not_parent [OF j ok])
  consider (found) i where "pa_Find d (of_nat p) s = Some (of_nat i)"
      "i < path_count d" "path_elems d i = path_elems d p @ [s]"
    | (absent) "(of_nat p, position (elements_of d) s) \<notin> set (pd_data (paths d))"
    by (rule pa_Find_cases [OF ok p])
  then show "pa_Find d (of_nat p) s = Some (of_nat j)"
  proof cases
    case found
    with path_elems_inj [OF ok found(2) j] assms(4) show ?thesis by simp
  next
    case absent
    with child_in_data [OF assms] show ?thesis by blast
  qed
qed

lemma parse_loop_finds:
  assumes ok: "pa_ok d"
  shows "p < path_count d \<Longrightarrow> i < path_count d \<Longrightarrow> path_elems d i = path_elems d p @ split_slashes rest \<Longrightarrow>
    parse_loop w d index (of_nat p) rel rest = Some (Return (d, of_nat i, rel))"
proof (induction "length rest" arbitrary: p index rest rule: less_induct)
  case less
  let ?s = "first_element rest" and ?b = "behind_element rest"
  have split: "split_slashes rest = ?s # (if ?b = [] then [] else split_slashes (tl ?b))"
    by (rule split_slashes.simps)
  then have "prefix (path_elems d p @ [?s]) (path_elems d i)" using less.prems(3) by simp
  then obtain j where j: "j < path_count d" "path_elems d j = path_elems d p @ [?s]"
    using ancestor_exists [OF ok less.prems(2)] by blast
  note find = pa_Find_child [OF ok less.prems(1) j]
  have unf: "parse_loop w d index (of_nat p) rel rest =
      (if ?b = [] then Some (Return (d, of_nat j, rel)) else parse_loop w d (of_nat j) (of_nat j) rel (tl ?b))"
    by (subst parse_loop.simps) (simp add: find)
  show ?case
  proof (cases "?b = []")
    case True
    have "path_elems d j = path_elems d i" using less.prems(3) split j(2) True by simp
    then have "j = i" by (rule path_elems_inj [OF ok j(1) less.prems(2)])
    with True show ?thesis unfolding unf by simp
  next
    case False
    then have "length (tl ?b) < length rest" using behind_element_shrinks [of rest] by simp
    moreover have "path_elems d i = path_elems d j @ split_slashes (tl ?b)"
      using less.prems(3) j(2) by (simp only: split False if_False append_assoc append.simps)
    ultimately show ?thesis
      using less.hyps [OF _ j(1) less.prems(2), of "tl ?b" "of_nat j"] by (simp only: unf False if_False)
  qed
qed

text \<open>
  A relative path that is built goes on below the parent \<^verbatim>\<open>NO_INDEX\<close>, and the root is stored as the child
  without name of this parent: an unknown element followed by a slash sets the path back to the root.
\<close>

lemma pa_Find_nameless: "pa_ok d \<Longrightarrow> pa_Find d NO_INDEX [] = Some 0"
proof -
  assume ok: "pa_ok d"
  note D = pa_okD [OF ok]
  have str: "elements_of d \<noteq> []" "elements_of d ! 0 = []" using D(1) unfolding sd_ok_def by blast+
  have dist: "distinct (elements_of d)" "distinct (pd_data (paths d))"
    using strings.bounded [OF D(1)] pairs.bounded [OF D(2)] by blast+
  have "position (elements_of d) [] = 0" using position_nth [OF dist(1), of 0] str by simp
  moreover have "position (pd_data (paths d)) (NO_INDEX, 0) = 0" using position_nth [OF dist(2), of 0] D(3,4) by simp
  moreover have "(0 :: dword) \<noteq> NO_INDEX" by (simp add: NO_INDEX_def)
  ultimately show ?thesis by (simp add: pa_Find_def strings.finds [OF D(1)] pairs.finds [OF D(2)])
qed

theorem relative_path_reset:
  assumes "pa_ok d" and "pa_Find d current s = Some NO_INDEX" and "SLASH \<notin> set s"
  shows "parse_loop False d index current (Some rel) (s @ [SLASH]) = Some (Return (d, 0, Some (rel @ [s])))"
proof -
  have first: "first_element (s @ [SLASH]) = s" "behind_element (s @ [SLASH]) = [SLASH]"
    using assms(3) by (induction s) auto
  have "parse_loop False d index current (Some rel) (s @ [SLASH]) =
      parse_loop False d index NO_INDEX (Some (rel @ [s])) []"
    using assms(2) first by (subst parse_loop.simps) simp
  also have "\<dots> = Some (Return (d, 0, Some (rel @ [s])))"
    using pa_Find_nameless [OF assms(1)] by (subst parse_loop.simps) (simp add: NO_INDEX_def)
  finally show ?thesis .
qed

section \<open>The properties\<close>

text \<open>
  C9. The path dictionary is a tree in which every path has one index: adding a child automatically
  succeeds while there is room, keeps the dictionary well-formed (parents before children, all
  elements known, no entry twice), gives an index whose path is the parent's path extended by the
  element, the only index with this path, and leaves the paths of all other indices as they were.
\<close>

theorem path_dictionary_auto_insert:
  assumes "pa_ok d" and "valid_index d parent" and "pa_room d s"
  shows "\<exists>i d'. pa_AutoInsert d parent s = Some (Return (i, d')) \<and> pa_ok d' \<and> valid_index d' i \<and>
    elems d' i = elems d parent @ [s] \<and> (\<forall>j. valid_index d' j \<and> elems d' j = elems d' i \<longrightarrow> j = i) \<and>
    (\<forall>j. valid_index d j \<longrightarrow> valid_index d' j \<and> elems d' j = elems d j)"
proof -
  obtain i d' where d': "pa_AutoInsert d parent s = Some (Return (of_nat i, d'))" "pa_ok d'" "extends d d'"
    "i < path_count d'" "path_elems d' i = elems d parent @ [s]"
    using pa_AutoInsert_ok [OF assms(1,2,3)] by auto
  have i: "unat (of_nat i :: dword) = i" using d'(4) pa_okD(7) [OF d'(2)] by (simp add: unat_index)
  have "path_count d \<le> path_count d'"
    using d'(3) unfolding extends_def by (metis length_take min.cobounded1)
  then have "\<forall>j. valid_index d j \<longrightarrow> valid_index d' j \<and> elems d' j = elems d j"
    using extends_elems [OF assms(1) d'(2,3)] by (auto intro: less_le_trans)
  moreover have "\<forall>j. valid_index d' j \<and> elems d' j = elems d' (of_nat i) \<longrightarrow> j = of_nat i"
    using elems_inj [OF d'(2), of _ "of_nat i"] d'(4) i by auto
  ultimately show ?thesis using d' i by (intro exI [of _ "of_nat i"] exI [of _ d']) simp
qed

theorem path_dictionary_auto_insert_witness:
  "\<exists>d i d'. new_path_dict = Some (Return d) \<and> pa_AutoInsert d 0 [116, 97, 103, 115] = Some (Return (i, d')) \<and>
     pa_ok d' \<and> elems d' i = [[116, 97, 103, 115]]"
proof -
  obtain d where d: "new_path_dict = Some (Return d)" "pa_ok d" "path_count d = 1" "elements_of d = [[]]"
    using new_path_dict_ok by blast
  then have "pa_room d [116, 97, 103, 115]"
    using pa_okD(1) [OF d(2)] by (simp add: pa_room_def sd_room_def sd_ok_def)
  then obtain i d' where "pa_AutoInsert d 0 [116, 97, 103, 115] = Some (Return (i, d'))" "pa_ok d'"
    "elems d' i = elems d 0 @ [[116, 97, 103, 115]]"
    using path_dictionary_auto_insert [OF d(2), of 0 "[116, 97, 103, 115]"] d(3) by auto
  with d(1) show ?thesis by (intro exI [of _ d] exI [of _ i] exI [of _ d']) simp
qed

text \<open>
  C18. The relations of paths are those of their element lists, and the loops over the parents that
  compute them all end: \<^verbatim>\<open>IsSameOrParentOf\<close> is the prefix relation, \<^verbatim>\<open>Intersects\<close> its symmetric
  closure, \<^verbatim>\<open>GetCommonRoot\<close> finds the index of the longest common prefix, \<^verbatim>\<open>GetDepth\<close> the number of
  elements.
\<close>

theorem path_relations:
  assumes "pa_ok d" and "valid_index d x" and "valid_index d y"
  shows "IsSameOrParentOf d x y = Some (prefix (elems d x) (elems d y)) \<and>
    Intersects d x y = Some (prefix (elems d x) (elems d y) \<or> prefix (elems d y) (elems d x)) \<and>
    (\<exists>c. GetCommonRoot d x y = Some c \<and> valid_index d c \<and>
       elems d c = longest_common_prefix (elems d x) (elems d y)) \<and>
    GetDepth d x = Some (of_nat (length (elems d x)))"
proof -
  have rel: "IsSameOrParentOf d a b = Some (prefix (elems d a) (elems d b))"
    if "valid_index d a" "valid_index d b" for a b
    using parent_loop_prefix [OF assms(1) that(1) _ that(2)] by (simp add: IsSameOrParentOf_def)
  have "Intersects d x y = Some (prefix (elems d x) (elems d y) \<or> prefix (elems d y) (elems d x))"
  proof (cases "x < y")
    case True
    then have "\<not> prefix (elems d y) (elems d x)"
      using prefix_index_le [OF assms(1,3,2)] by (auto simp: word_less_nat_alt)
    with True rel [OF assms(2,3)] show ?thesis by (simp add: Intersects_def)
  next
    case False
    then have "prefix (elems d x) (elems d y) \<Longrightarrow> x = y"
      using prefix_index_le [OF assms(1,2,3)] by (simp add: word_less_nat_alt word_unat_eq_iff)
    with False rel [OF assms(3,2)] show ?thesis by (auto simp: Intersects_def)
  qed
  moreover have "GetDepth d x = Some (of_nat (length (elems d x)))"
    using depth_loop_length [OF assms(1,2), of 0] valid_not_NO_INDEX [OF assms(1,2)] by (simp add: GetDepth_def)
  ultimately show ?thesis using rel [OF assms(2,3)] common_root_lcp [OF assms] by simp
qed

theorem path_relations_witness:
  "\<exists>d. new_path_dict = Some (Return d) \<and> IsSameOrParentOf d 0 0 = Some True \<and> GetDepth d 0 = Some 0"
proof -
  obtain d where d: "new_path_dict = Some (Return d)" "pa_ok d" "path_count d = 1"
    using new_path_dict_ok by blast
  with path_relations [OF d(2), of 0 0] show ?thesis by (intro exI [of _ d]) simp
qed

text \<open>
  C10. Path strings survive the dictionary: an absolute path of at most 260 elements that is parsed
  into a writable dictionary with room for it gets an index from which \<^verbatim>\<open>GetPath\<close> rebuilds exactly
  the string, slash for slash, without reading or writing outside of the memory reserved behind the
  strings; and parsing it again, writable or not, finds the same index and changes nothing.
\<close>

theorem path_string_roundtrip:
  assumes "pa_ok d" and "parse_room d rest" and "length (split_slashes rest) \<le> MAX_PATH"
    and "8 \<le> length slack" and "8 \<le> length reserved"
  shows "\<exists>i d'. ParsePath True d 0 (SLASH # rest) None = Some (Return (d', i, None)) \<and> pa_ok d' \<and>
    GetPath d' slack reserved i = Some (Return (SLASH # rest)) \<and>
    ParsePath w d' 0 (SLASH # rest) None = Some (Return (d', i, None))"
proof -
  note root = pa_okD(3) [OF assms(1)]
  obtain i d' where d': "parse_loop True d 0 0 None rest = Some (Return (d', of_nat i, None))" "pa_ok d'" "extends d d'"
    "i < path_count d'" "path_elems d' i = split_slashes rest"
    using parse_loop_writable [OF assms(1) root assms(2), of 0 None] by auto
  have i: "unat (of_nat i :: dword) = i" using d'(4) pa_okD(7) [OF d'(2)] by (simp add: unat_index)
  have "split_slashes rest \<noteq> []" by (subst split_slashes.simps) simp
  then have "i \<noteq> 0" using d'(5) by (metis path_elems_root)
  then have "(of_nat i :: dword) \<noteq> 0" using i by (simp add: word_unat_eq_iff)
  then have "GetPath d' slack reserved (of_nat i) = Some (Return (SLASH # rest))"
    using GetPath_joins [OF d'(2), of "of_nat i"] assms(3-5) d'(4,5) by (simp add: i join_split)
  moreover have "parse_loop w d' 0 0 None rest = Some (Return (d', of_nat i, None))"
    using parse_loop_finds [OF d'(2) pa_okD(3) [OF d'(2)] d'(4), of rest w 0 None] d'(5) by simp
  ultimately show ?thesis
    using d'(1,2) by (intro exI [of _ "of_nat i"] exI [of _ d']) (simp add: ParsePath_def)
qed

theorem path_string_roundtrip_witness:
  "\<exists>d i d'. new_path_dict = Some (Return d) \<and>
     ParsePath True d 0 [47, 97, 47, 98] None = Some (Return (d', i, None)) \<and>
     GetPath d' (replicate 8 0) (replicate 8 0) i = Some (Return [47, 97, 47, 98])"
proof -
  obtain d where d: "new_path_dict = Some (Return d)" "pa_ok d" "path_count d = 1" "elements_of d = [[]]"
    using new_path_dict_ok by blast
  then have "parse_room d [97, 47, 98]"
    using pa_okD(1) [OF d(2)] by (simp add: parse_room_def sd_ok_def)
  moreover have "length (split_slashes [97, 47, 98]) \<le> MAX_PATH"
    by (simp add: split_slashes.simps [of "[97, 47, 98]"] split_slashes.simps [of "[98]"] MAX_PATH_def)
  ultimately obtain i d' where "ParsePath True d 0 [47, 97, 47, 98] None = Some (Return (d', i, None))"
    "GetPath d' (replicate 8 0) (replicate 8 0) i = Some (Return [47, 97, 47, 98])"
    using path_string_roundtrip [OF d(2), of "[97, 47, 98]" "replicate 8 0" "replicate 8 0" True] by auto
  with d(1) show ?thesis by (intro exI [of _ d] exI [of _ i] exI [of _ d']) simp
qed

text \<open>The loop that drops elements: sizes are subtracted, slashes are not.\<close>

lemma trim_loop_cases:
  "depth \<le> length sizes \<Longrightarrow>
   (if maxSize < n then trim_loop sizes maxSize (sum_list (take depth sizes) + n) depth = None
    else \<exists>j \<le> depth. trim_loop sizes maxSize (sum_list (take depth sizes) + n) depth = Some (sum_list (take j sizes) + n, j) \<and>
      sum_list (take j sizes) + n \<le> maxSize \<and> (\<forall>i. j < i \<and> i \<le> depth \<longrightarrow> maxSize < sum_list (take i sizes) + n))"
proof (induction depth)
  case 0
  then show ?case by (simp add: trim_loop.simps)
next
  case (Suc depth)
  let ?total = "sum_list (take (Suc depth) sizes) + n"
  have step: "?total - sizes ! depth = sum_list (take depth sizes) + n"
    using Suc.prems by (simp add: take_Suc_conv_app_nth)
  have unf: "trim_loop sizes maxSize ?total (Suc depth) =
      (if ?total > maxSize then trim_loop sizes maxSize (sum_list (take depth sizes) + n) depth else Some (?total, Suc depth))"
    by (subst trim_loop.simps) (simp add: step)
  show ?case
  proof (cases "?total > maxSize")
    case True
    with Suc unf show ?thesis by (auto intro: le_SucI simp: le_Suc_eq)
  next
    case False
    then show ?thesis by (simp add: unf not_less)
  qed
qed

text \<open>
  C30. The variant of \<^verbatim>\<open>GetPath\<close> for a buffer of the caller drops elements from the front of a path that is
  too long, but its idea of the length is wrong when it does: for every path of at most 260 elements it
  drops \<open>k\<close> elements, writes exactly the others to the beginning of the buffer and returns a length that is
  \<open>k\<close> too large; \<open>k\<close> is the first number for which this too large length is at most \<^verbatim>\<open>maxSize\<close>. If there
  are more elements than \<^verbatim>\<open>maxSize\<close>, there is none, and the loop runs off the front of its arrays.
\<close>

theorem path_buffer_trim:
  assumes "pa_ok d" and "valid_index d x" and "length (elems d x) \<le> MAX_PATH"
    and "8 \<le> length slack" and "maxSize + 8 \<le> length buffer"
  shows "if maxSize < length (elems d x) then GetPath_buffer d slack buffer maxSize x = None
    else \<exists>k mem. let written = (\<lambda>k. concat (map ((#) SLASH) (drop k (elems d x)))) in
      GetPath_buffer d slack buffer maxSize x = Some (Return (mem, length (written k) + k)) \<and>
      k \<le> length (elems d x) \<and> take (length (written k)) mem = written k \<and>
      length (written k) + k \<le> maxSize \<and> (\<forall>j < k. maxSize < length (written j) + j)"
proof -
  define ids where "ids = collect_ids d MAX_PATH x"
  define sizes where "sizes = map (element_size d) ids"
  let ?n = "length ids" and ?w = "\<lambda>k. concat (map ((#) SLASH) (drop k (elems d x)))"
  have ids: "map (element d) (rev ids) = elems d x" "\<forall>e \<in> set ids. valid_element d e"
    using collect_ids_elems [OF assms(1-3)] by (simp_all add: ids_def)
  have n: "length (elems d x) = ?n" using arg_cong [OF ids(1), of length] by simp
  have no: "x \<noteq> NO_INDEX" by (rule valid_not_NO_INDEX [OF assms(1,2)])
  have len: "length (concat (map ((#) SLASH) (map (element d) es))) = collected_size d es"
    if "\<forall>e \<in> set es. valid_element d e" for es
    using that by (induction es) (simp_all add: collected_size_def element_size_length [OF assms(1)])
  have total: "collected_size d ids = sum_list (take ?n sizes) + ?n" by (simp add: collected_size_def sizes_def)
  have unf: "GetPath_buffer d slack buffer maxSize x =
      Option.bind (trim_loop sizes maxSize (sum_list (take ?n sizes) + ?n) ?n)
        (\<lambda>(size, depth). map_option (\<lambda>mem. Return (mem, size)) (CopyPathElements d slack (rev (take depth ids)) buffer 0))"
    using no by (simp add: GetPath_buffer_def Let_def ids_def [symmetric] sizes_def [symmetric] total)
  have kept: "drop k (elems d x) = map (element d) (rev (take (?n - k) ids))" if "k \<le> ?n" for k
    using that unfolding ids(1) [symmetric] by (simp only: rev_take drop_map diff_diff_cancel)
  have valid: "\<forall>e \<in> set (rev (take j ids)). valid_element d e" for j using ids(2) by (auto dest: in_set_takeD)
  have size: "collected_size d (rev (take j ids)) = sum_list (take j sizes) + j" if "j \<le> ?n" for j
    using that by (simp add: collected_size_def sizes_def take_map sum_list_rev rev_map [symmetric])
  have length_w: "length (?w k) = sum_list (take (?n - k) sizes) + (?n - k)" if "k \<le> ?n" for k
    using len [OF valid] size [of "?n - k"] by (simp only: kept [OF that] diff_le_self)
  have "?n \<le> length sizes" by (simp add: sizes_def)
  note trim = trim_loop_cases [OF this, of maxSize ?n]
  show ?thesis
  proof (cases "maxSize < ?n")
    case True
    with trim show ?thesis by (simp add: unf n)
  next
    case False
    with trim obtain j where j: "j \<le> ?n"
      "trim_loop sizes maxSize (sum_list (take ?n sizes) + ?n) ?n = Some (sum_list (take j sizes) + ?n, j)"
      "sum_list (take j sizes) + ?n \<le> maxSize" "\<forall>i. j < i \<and> i \<le> ?n \<longrightarrow> maxSize < sum_list (take i sizes) + ?n" by auto
    let ?es = "rev (take j ids)" and ?k = "?n - j"
    have k: "?k \<le> ?n" "?n - ?k = j" using j(1) by simp_all
    have written: "?w ?k = concat (map (\<lambda>e. SLASH # element d e) ?es)"
      unfolding kept [OF k(1)] k(2) by (simp add: comp_def)
    have wlen: "length (?w ?k) = collected_size d ?es" "length (?w ?k) + ?k = sum_list (take j sizes) + ?n"
      using length_w [OF k(1)] size [OF j(1)] j(1) unfolding k(2) by simp_all
    have "0 + collected_size d ?es + 8 \<le> length buffer" using j(3) assms(5) wlen by simp
    then obtain mem where mem: "CopyPathElements d slack ?es buffer 0 = Some mem"
      "take (collected_size d ?es) mem = concat (map (\<lambda>e. SLASH # element d e) ?es)"
      using copy_path_elements [OF assms(1,4) valid, of 0 j buffer] by auto
    have "GetPath_buffer d slack buffer maxSize x = Some (Return (mem, length (?w ?k) + ?k))"
      by (simp only: unf j(2) wlen(2)) (simp add: mem(1))
    moreover have "take (length (?w ?k)) mem = ?w ?k" using mem(2) unfolding written [symmetric] wlen(1) [symmetric] .
    moreover have "maxSize < length (?w i) + i" if "i < ?k" for i
    proof -
      have "maxSize < sum_list (take (?n - i) sizes) + ?n" using j(4) that by auto
      then show ?thesis using length_w [of i] that by simp
    qed
    moreover have "?k \<le> length (elems d x)" "length (?w ?k) + ?k \<le> maxSize" using n wlen(2) j(3) by simp_all
    ultimately have "\<exists>k mem. let written = ?w in
        GetPath_buffer d slack buffer maxSize x = Some (Return (mem, length (written k) + k)) \<and>
        k \<le> length (elems d x) \<and> take (length (written k)) mem = written k \<and>
        length (written k) + k \<le> maxSize \<and> (\<forall>j < k. maxSize < length (written j) + j)"
      unfolding Let_def by (intro exI [of _ ?k] exI [of _ mem] conjI allI impI)
    moreover have "\<not> maxSize < length (elems d x)" using False n by simp
    ultimately show ?thesis by (simp only: if_False)
  qed
qed

text \<open>The path \<^verbatim>\<open>/aaaa/b\<close>, seven characters, in a buffer of five: \<^verbatim>\<open>/b\<close> is written, and a length of three returned.\<close>

theorem path_buffer_trim_witness:
  "\<exists>d x mem. pa_ok d \<and> elems d x = [[97, 97, 97, 97], [98]] \<and>
     GetPath_buffer d (replicate 8 0) (replicate 13 0) 5 x = Some (Return (mem, 3)) \<and> take 2 mem = [47, 98]"
proof -
  obtain d0 where d0: "pa_ok d0" "path_count d0 = 1" "elements_of d0 = [[]]" using new_path_dict_ok by blast
  let ?rest = "[97, 97, 97, 97, 47, 98] :: byte list"
  have "parse_room d0 ?rest" using d0 pa_okD(1) [OF d0(1)] by (simp add: parse_room_def sd_ok_def)
  then obtain i d where d: "pa_ok d" "i < path_count d" "path_elems d i = split_slashes ?rest"
    using parse_loop_writable [OF d0(1) pa_okD(3) [OF d0(1)], of ?rest 0 None] by auto
  let ?x = "of_nat i :: dword"
  have i: "unat ?x = i" using d(2) pa_okD(7) [OF d(1)] by (simp add: unat_index)
  have split: "split_slashes ?rest = [[97, 97, 97, 97], [98]]"
    by (simp add: split_slashes.simps [of ?rest] split_slashes.simps [of "[98]"])
  have e: "elems d ?x = [[97, 97, 97, 97], [98]]" using d(3) by (simp add: i split)
  have h: "valid_index d ?x" "length (elems d ?x) \<le> MAX_PATH" "8 \<le> length (replicate 8 0 :: byte list)"
    "5 + 8 \<le> length (replicate 13 0 :: byte list)" using d(2) by (simp_all add: i d(3) split MAX_PATH_def)
  have two: "\<not> 5 < length [[97, 97, 97, 97], [98 :: byte]]" by simp
  note trim = path_buffer_trim [OF d(1) h, unfolded e if_not_P [OF two] Let_def]
  then obtain k mem where t: "GetPath_buffer d (replicate 8 0) (replicate 13 0) 5 ?x =
      Some (Return (mem, length (concat (map ((#) SLASH) (drop k [[97, 97, 97, 97], [98]]))) + k))"
    "k \<le> length [[97, 97, 97, 97], [98 :: byte]]"
    "take (length (concat (map ((#) SLASH) (drop k [[97, 97, 97, 97], [98]])))) mem = concat (map ((#) SLASH) (drop k [[97, 97, 97, 97], [98]]))"
    "length (concat (map ((#) SLASH) (drop k [[97, 97, 97, 97], [98]]))) + k \<le> 5"
    "\<forall>j < k. 5 < length (concat (map ((#) SLASH) (drop j [[97, 97, 97, 97], [98]]))) + j"
    by (elim exE conjE)
  have "k \<noteq> 0" by (rule notI) (use t(4) in simp)
  moreover have "\<not> 1 < k" using t(5) by (auto dest: spec [of _ 1])
  ultimately have k: "k = 1" by simp
  have "take 2 mem = [47, 98]" using t(3) by (simp add: k numeral_2_eq_2)
  moreover have "GetPath_buffer d (replicate 8 0) (replicate 13 0) 5 ?x = Some (Return (mem, 3))" using t(1) by (simp add: k)
  ultimately show ?thesis using d(1) e by blast
qed

end
