(* ===== verification/SkipRevisions.thy ===== *)
theory SkipRevisions
  imports SkipRanges PathDictionary "HOL-Library.Multiset"
begin

text \<open>
  The skip information of the log cache
  (\<^verbatim>\<open>src/src/LogCache/Containers/SkipRevisionInfo.h\<close>, \<^verbatim>\<open>SkipRevisionInfo.cpp\<close>): per path, the
  ranges of revisions that are known to hold no change of the path or of anything below it. Paths,
  revision index and revision data are references in the code and arguments here. \<open>None\<close> is a loop
  that does not end or a hash that can not grow; assertions are not part of the model. Not modelled:
  the assignment operator, which copies the owning pointers.
\<close>

section \<open>The skip information of all paths\<close>

record path_ranges =
  pr_ranges :: ranges
  pr_pathID :: dword

record skip_info =
  sk_data :: "path_ranges list"
  sk_index :: quick_hash

definition skip_functor :: "path_ranges list \<Rightarrow> dword hash_function" where
  "skip_functor data =
     \<lparr>hf_hash = unat, hf_value = (\<lambda>i. pr_pathID (data ! unat i)),
      hf_equal = (\<lambda>value i. pr_pathID (data ! unat i) = value)\<rparr>"

definition new_skip_info :: skip_info where
  "new_skip_info = \<lparr>sk_data = [], sk_index = new_quick_hash\<rparr>"

abbreviation path_ids :: "path_ranges list \<Rightarrow> dword list" where
  "path_ids data \<equiv> map pr_pathID data"

definition HAS_CHANGEDPATHS :: byte where "HAS_CHANGEDPATHS = 0x10"

text \<open>The revision data enter through their presence flags only.\<close>

definition DataAvailable :: "revision_index \<Rightarrow> byte list \<Rightarrow> dword \<Rightarrow> bool" where
  "DataAvailable revisions presenceFlags revision =
     (let ind = ri_lookup revisions revision in
      if ind = NO_INDEX then False else presenceFlags ! unat ind AND HAS_CHANGEDPATHS \<noteq> 0)"

lemma unat_decreases: "x > 0 \<Longrightarrow> unat (x - 1) < unat x" for x :: dword
  by (simp add: unat_minus_wrap word_less_nat_alt)

function raise_lower :: "(dword \<Rightarrow> bool) \<Rightarrow> dword \<Rightarrow> dword \<Rightarrow> dword \<times> dword" where
  "raise_lower available revision extent =
     (if extent > 0 \<and> available revision then raise_lower available (revision + 1) (extent - 1)
      else (revision, extent))"
  by pat_completeness auto
termination by (relation "measure (\<lambda>(a, r, n). unat n)") (auto simp: unat_decreases)

function drop_upper :: "(dword \<Rightarrow> bool) \<Rightarrow> dword \<Rightarrow> dword \<Rightarrow> dword" where
  "drop_upper available revision extent =
     (if extent > 0 \<and> available (revision + extent - 1) then drop_upper available revision (extent - 1)
      else extent)"
  by pat_completeness auto
termination by (relation "measure (\<lambda>(a, r, n). unat n)") (auto simp: unat_decreases)

declare raise_lower.simps [simp del] drop_upper.simps [simp del]

definition TryReduceRange :: "(dword \<Rightarrow> bool) \<Rightarrow> dword \<Rightarrow> dword \<Rightarrow> dword \<times> dword" where
  "TryReduceRange available revision extent =
     (let (revision, extent) = raise_lower available revision extent in
      (revision, drop_upper available revision extent))"

definition lookup_ranges :: "skip_info \<Rightarrow> dword \<Rightarrow> ranges option option" where
  "lookup_ranges sk path =
     map_option (\<lambda>dataIndex. if dataIndex = NO_INDEX then None else Some (pr_ranges (sk_data sk ! unat dataIndex)))
       (qh_find (skip_functor (sk_data sk)) (sk_index sk) path)"

text \<open>
  \<^verbatim>\<open>GetPreviousRevision\<close>. The loop asks the parent path and then the ranges of the path itself, until
  neither finds an earlier revision; the call for the parent is the loop with the parent's ranges,
  behind the guard of the function.
\<close>

definition improve :: "dword \<Rightarrow> dword \<Rightarrow> dword" where
  "improve revision next_revision = (if next_revision \<noteq> NO_REVISION then next_revision else revision)"

partial_function (option) previous_loop ::
  "path_dict \<Rightarrow> skip_info \<Rightarrow> dword \<Rightarrow> ranges option \<Rightarrow> dword \<Rightarrow> dword \<Rightarrow> dword option"
where
  "previous_loop d sk path m startRevision result =
     Option.bind
       (if GetParent d path = NO_INDEX \<or> result = NO_REVISION then Some NO_REVISION
        else Option.bind (lookup_ranges sk (GetParent d path))
               (\<lambda>m'. previous_loop d sk (GetParent d path) m' result result))
       (\<lambda>parentNext.
          let revision = improve result parentNext;
              revision = (case m of None \<Rightarrow> revision | Some m \<Rightarrow> improve revision (FindPrevious m revision))
          in
            if revision < result then previous_loop d sk path m startRevision revision
            else Some (if revision = startRevision then NO_REVISION else result))"

definition GetPreviousRevision :: "path_dict \<Rightarrow> skip_info \<Rightarrow> dword \<Rightarrow> dword \<Rightarrow> dword option" where
  "GetPreviousRevision d sk path revision =
     (if path = NO_INDEX \<or> revision = NO_REVISION then Some NO_REVISION
      else Option.bind (lookup_ranges sk path) (\<lambda>m. previous_loop d sk path m revision revision))"

definition sk_Add ::
  "(dword \<Rightarrow> bool) \<Rightarrow> skip_info \<Rightarrow> dword \<Rightarrow> dword \<Rightarrow> dword \<Rightarrow> skip_info option"
where
  "sk_Add available sk path revision extent =
     (let (revision, extent) = TryReduceRange available revision extent in
      if extent = 0 then Some sk
      else
        Option.bind (qh_find (skip_functor (sk_data sk)) (sk_index sk) path) (\<lambda>dataIndex.
          if dataIndex = NO_INDEX
          then
            (let data = sk_data sk @ [\<lparr>pr_ranges = range_Add [] revision extent, pr_pathID = path\<rparr>] in
             map_option (\<lambda>h. \<lparr>sk_data = data, sk_index = h\<rparr>)
               (qh_insert (skip_functor data) (sk_index sk) path (of_nat (length data) - 1)))
          else
            (let e = sk_data sk ! unat dataIndex in
             Some (sk\<lparr>sk_data := (sk_data sk)[unat dataIndex := e\<lparr>pr_ranges := range_Add (pr_ranges e) revision extent\<rparr>]\<rparr>))))"

definition sk_Clear :: "skip_info \<Rightarrow> skip_info" where
  "sk_Clear sk = \<lparr>sk_data = [], sk_index = qh_clear (sk_index sk)\<rparr>"

definition GetPathCount :: "skip_info \<Rightarrow> nat" where
  "GetPathCount sk = length (sk_data sk)"

definition sk_GetPath :: "skip_info \<Rightarrow> nat \<Rightarrow> dword" where
  "sk_GetPath sk ind = pr_pathID (sk_data sk ! ind)"

definition GetRanges :: "skip_info \<Rightarrow> nat \<Rightarrow> (dword \<times> dword) list" where
  "GetRanges sk ind = pr_ranges (sk_data sk ! ind)"

text \<open>
  Compression: ranges are shortened to what is not available, paths without ranges are dropped, and
  the hash is built anew. A range whose start moves is entered again at its new start, and the
  iterator goes on behind it.
\<close>

partial_function (option) pack_ranges :: "(dword \<Rightarrow> bool) \<Rightarrow> ranges \<Rightarrow> nat \<Rightarrow> ranges option" where
  "pack_ranges available m i =
     (if i < length m
      then
        (let (start, len) = TryReduceRange available (fst (m ! i)) (snd (m ! i)) in
         if len = 0 then pack_ranges available (erase m i) i
         else if start \<noteq> fst (m ! i)
         then pack_ranges available (fst (emplace m start len)) (fst (snd (emplace m start len)) + 1)
         else pack_ranges available (m[i := (start, len)]) (i + 1))
      else Some m)"

fun pack_paths :: "(dword \<Rightarrow> bool) \<Rightarrow> path_ranges list \<Rightarrow> nat \<Rightarrow> path_ranges list option" where
  "pack_paths available data 0 = Some data"
| "pack_paths available data (Suc i) =
     Option.bind (pack_ranges available (pr_ranges (data ! i)) 0) (\<lambda>m.
       let data = data[i := (data ! i)\<lparr>pr_ranges := m\<rparr>] in
       pack_paths available (if m = [] then butlast (data[i := last data]) else data) i)"

fun rebuild_loop :: "path_ranges list \<Rightarrow> nat \<Rightarrow> nat \<Rightarrow> quick_hash \<Rightarrow> quick_hash option" where
  "rebuild_loop data i 0 ind = Some ind"
| "rebuild_loop data i (Suc n) ind =
     Option.bind (qh_insert (skip_functor data) ind (pr_pathID (data ! i)) (of_nat i)) (rebuild_loop data (Suc i) n)"

definition sk_RebuildHash :: "skip_info \<Rightarrow> skip_info option" where
  "sk_RebuildHash sk =
     (let data = sk_data sk in
      Option.bind (qh_reserve (skip_functor data) (length data) (qh_clear (sk_index sk))) (\<lambda>ind.
        map_option (\<lambda>ind. sk\<lparr>sk_index := ind\<rparr>) (rebuild_loop data 0 (length data) ind)))"

definition Compress :: "(dword \<Rightarrow> bool) \<Rightarrow> skip_info \<Rightarrow> skip_info option" where
  "Compress available sk =
     Option.bind (pack_paths available (sk_data sk) (length (sk_data sk)))
       (\<lambda>data. sk_RebuildHash (sk\<lparr>sk_data := data\<rparr>))"

text \<open>
  The cache file: four streams with the path indices behind their number, the numbers of ranges,
  the starts and the sizes.
\<close>

type_synonym skip_streams = "byte list \<times> byte list \<times> byte list \<times> byte list"

definition skip_streams :: "path_ranges list \<Rightarrow> skip_streams" where
  "skip_streams data =
     (FlushData (foldl Add new_packed_out (of_nat (length data) # path_ids data)),
      FlushData (foldl Add new_packed_out (map (\<lambda>e. of_nat (length (pr_ranges e))) data)),
      Diff_Flush FlushData (foldl (Diff_Add Add) (new_diff_out new_packed_out) (concat (map (map fst \<circ> pr_ranges) data))),
      Diff_Flush FlushData (foldl (Diff_Add Integer_Add) (new_diff_out new_packed_out) (concat (map (map snd \<circ> pr_ranges) data))))"

definition write_skip_info :: "(dword \<Rightarrow> bool) \<Rightarrow> skip_info \<Rightarrow> skip_streams option" where
  "write_skip_info available sk = map_option (\<lambda>sk. skip_streams (sk_data sk)) (Compress available sk)"

fun read_ranges ::
  "nat \<Rightarrow> ranges \<Rightarrow> packed_in diff_in \<Rightarrow> packed_in diff_in \<Rightarrow>
   (stream_error, ranges \<times> packed_in diff_in \<times> packed_in diff_in) result"
where
  "read_ranges 0 m revisions sizes = Return (m, revisions, sizes)"
| "read_ranges (Suc n) m revisions sizes =
     bind_result (Diff_GetValue GetValue revisions) (\<lambda>(first, revisions).
       bind_result (Diff_GetValue Integer_GetValue sizes) (\<lambda>(second, sizes).
         read_ranges n (fst (emplace m first second)) revisions sizes))"

fun read_paths ::
  "nat \<Rightarrow> skip_info \<Rightarrow> packed_in \<Rightarrow> packed_in \<Rightarrow> packed_in diff_in \<Rightarrow> packed_in diff_in \<Rightarrow>
   (stream_error, skip_info) result option"
where
  "read_paths 0 sk ids counts revisions sizes = Some (Return sk)"
| "read_paths (Suc n) sk ids counts revisions sizes =
     (case bind_result (GetValue ids) (\<lambda>(pathID, ids).
             bind_result (GetValue counts) (\<lambda>(entryCount, counts).
               bind_result (read_ranges (unat entryCount) [] revisions sizes) (\<lambda>(m, revisions, sizes).
                 Return (pathID, m, ids, counts, revisions, sizes)))) of
        Inl e \<Rightarrow> Some (Raise e)
      | Inr (pathID, m, ids, counts, revisions, sizes) \<Rightarrow>
          Option.bind (qh_insert (skip_functor (sk_data sk)) (sk_index sk) pathID (of_nat (length (sk_data sk)))) (\<lambda>h.
            read_paths n \<lparr>sk_data = sk_data sk @ [\<lparr>pr_ranges = m, pr_pathID = pathID\<rparr>], sk_index = h\<rparr>
              ids counts revisions sizes))"

definition read_skip_info :: "skip_info \<Rightarrow> skip_streams \<Rightarrow> (stream_error, skip_info) result option" where
  "read_skip_info container streams =
     (case streams of (s1, s2, s3, s4) \<Rightarrow>
        (case GetValue (AutoOpen s1) of
           Inl e \<Rightarrow> Some (Raise e)
         | Inr (extent, ids) \<Rightarrow>
             read_paths (unat extent) (sk_Clear container) ids (AutoOpen s2) (Diff_Open AutoOpen s3) (Diff_Open AutoOpen s4)))"

subsection \<open>Looking up a path\<close>

interpretation skip_functor: hash_functor unat skip_functor path_ids "\<lambda>data. True"
  by unfold_locales (simp_all add: skip_functor_def unat_index)

definition sk_ok :: "skip_info \<Rightarrow> bool" where
  "sk_ok sk \<longleftrightarrow> index_ok unat (path_ids (sk_data sk)) (sk_index sk)"

definition ranges_of :: "skip_info \<Rightarrow> dword \<Rightarrow> ranges option" where
  "ranges_of sk = map_of (map (\<lambda>e. (pr_pathID e, pr_ranges e)) (sk_data sk))"

lemma sk_ok_distinct: "sk_ok sk \<Longrightarrow> distinct (path_ids (sk_data sk)) \<and> length (sk_data sk) \<le> 2 ^ 28"
  unfolding sk_ok_def using index_ok_distinct by (fastforce simp: index_ok_def)

lemma sk_find: "sk_ok sk \<Longrightarrow> qh_find (skip_functor (sk_data sk)) (sk_index sk) p = Some (position (path_ids (sk_data sk)) p)"
  by (simp add: sk_ok_def skip_functor.find_position)

lemma ranges_of_nth:
  assumes "sk_ok sk" and "i < length (sk_data sk)"
  shows "ranges_of sk (pr_pathID (sk_data sk ! i)) = Some (pr_ranges (sk_data sk ! i))"
  unfolding ranges_of_def using assms sk_ok_distinct [OF assms(1)]
  by (intro map_of_is_SomeI) (auto simp: comp_def intro: rev_image_eqI [OF nth_mem])

lemma position_path:
  assumes "sk_ok sk" and "p \<in> set (path_ids (sk_data sk))"
  obtains i where "position (path_ids (sk_data sk)) p = of_nat i" "i < length (sk_data sk)" "pr_pathID (sk_data sk ! i) = p"
    "(of_nat i :: dword) \<noteq> NO_INDEX" "unat (of_nat i :: dword) = i"
proof -
  let ?i = "length (takeWhile (\<lambda>w. w \<noteq> p) (path_ids (sk_data sk)))"
  have i: "?i < length (sk_data sk)" "path_ids (sk_data sk) ! ?i = p"
    using takeWhile_position [OF assms(2)] by simp_all
  with sk_ok_distinct [OF assms(1)] assms(2) show ?thesis
    by (intro that [of ?i]) (auto simp: position_def NO_INDEX_not_position unat_index)
qed

lemma ranges_of_absent: "p \<notin> set (path_ids (sk_data sk)) \<Longrightarrow> ranges_of sk p = None"
  by (auto simp: ranges_of_def map_of_eq_None_iff)

lemma lookup_ranges_of:
  assumes "sk_ok sk"
  shows "lookup_ranges sk p = Some (ranges_of sk p)"
proof (cases "p \<in> set (path_ids (sk_data sk))")
  case True
  obtain i where "position (path_ids (sk_data sk)) p = of_nat i" "i < length (sk_data sk)" "pr_pathID (sk_data sk ! i) = p"
    "(of_nat i :: dword) \<noteq> NO_INDEX" "unat (of_nat i :: dword) = i"
    using position_path [OF assms True] .
  with ranges_of_nth [OF assms, of i] show ?thesis
    by (simp add: lookup_ranges_def sk_find [OF assms])
next
  case False
  then show ?thesis by (simp add: lookup_ranges_def sk_find [OF assms] ranges_of_absent)
qed

subsection \<open>The next gap of a path\<close>

definition own_skipped :: "skip_info \<Rightarrow> dword \<Rightarrow> nat set" where
  "own_skipped sk p = (case ranges_of sk p of None \<Rightarrow> {} | Some m \<Rightarrow> skipped m)"

text \<open>The revisions to skip for a path: those of the path and of all its parents.\<close>

definition path_skipped :: "path_dict \<Rightarrow> skip_info \<Rightarrow> dword \<Rightarrow> nat set" where
  "path_skipped d sk p = (\<Union>q \<in> {q. valid_index d q \<and> prefix (elems d q) (elems d p)}. own_skipped sk q)"

definition gap_below :: "nat set \<Rightarrow> dword \<Rightarrow> dword \<Rightarrow> bool" where
  "gap_below C revision r \<longleftrightarrow>
     (if unat revision \<in> C
      then r \<noteq> NO_REVISION \<and> unat r < unat revision \<and> unat r \<notin> C \<and> (\<forall>k. unat r < k \<and> k \<le> unat revision \<longrightarrow> k \<in> C)
      else r = NO_REVISION)"

lemma path_skipped_root:
  assumes "pa_ok d"
  shows "path_skipped d sk 0 = own_skipped sk 0"
proof -
  have "{q. valid_index d q \<and> prefix (elems d q) (elems d 0)} = {0}"
    using elems_empty [OF assms] pa_okD(3) [OF assms] by auto
  then show ?thesis by (simp add: path_skipped_def)
qed

lemma path_skipped_parent:
  assumes "pa_ok d" and "valid_index d p" and "p \<noteq> 0"
  shows "path_skipped d sk p = path_skipped d sk (GetParent d p) \<union> own_skipped sk p"
  using assms prefix_parent [OF assms(1) _ assms(2,3)] by (auto simp: path_skipped_def)

lemma own_gap:
  assumes "\<And>mm. m = Some mm \<Longrightarrow> no_overlap mm" and "revision \<noteq> NO_REVISION"
    and own: "own = (case m of None \<Rightarrow> {} | Some mm \<Rightarrow> skipped mm)"
    and r: "r = (case m of None \<Rightarrow> revision | Some mm \<Rightarrow> improve revision (FindPrevious mm revision))"
  shows "r \<noteq> NO_REVISION \<and> unat r \<le> unat revision \<and> (\<forall>k. unat r < k \<and> k \<le> unat revision \<longrightarrow> k \<in> own) \<and>
    (unat r = unat revision \<longrightarrow> unat revision \<notin> own)"
proof (cases m)
  case (Some mm)
  with FindPrevious_gap [OF assms(1) [OF Some], of revision] assms(2) show ?thesis
    by (auto simp: own r improve_def split: if_splits)
qed (use assms in auto)

lemma previous_loop_gap:
  assumes par: "\<And>r. r \<noteq> NO_REVISION \<Longrightarrow>
      \<exists>x. (if GetParent d p = NO_INDEX \<or> r = NO_REVISION then Some NO_REVISION
           else Option.bind (lookup_ranges sk (GetParent d p)) (\<lambda>m'. previous_loop d sk (GetParent d p) m' r r)) = Some x \<and>
        gap_below Cp r x"
    and ranges: "\<And>mm. m = Some mm \<Longrightarrow> no_overlap mm"
    and C: "C = Cp \<union> (case m of None \<Rightarrow> {} | Some mm \<Rightarrow> skipped mm)"
  shows "revision \<noteq> NO_REVISION \<Longrightarrow> start \<noteq> NO_REVISION \<Longrightarrow> unat revision \<le> unat start \<Longrightarrow>
    \<forall>k. unat revision < k \<and> k \<le> unat start \<longrightarrow> k \<in> C \<Longrightarrow>
    \<exists>x. previous_loop d sk p m start revision = Some x \<and> gap_below C start x"
proof (induction "unat revision" arbitrary: revision rule: less_induct)
  case less
  obtain x where x: "(if GetParent d p = NO_INDEX \<or> revision = NO_REVISION then Some NO_REVISION
      else Option.bind (lookup_ranges sk (GetParent d p)) (\<lambda>m'. previous_loop d sk (GetParent d p) m' revision revision)) = Some x"
    "gap_below Cp revision x"
    using par [OF less.prems(1)] by blast
  define r1 where "r1 = improve revision x"
  have r1: "r1 \<noteq> NO_REVISION" "unat r1 \<le> unat revision" "\<forall>k. unat r1 < k \<and> k \<le> unat revision \<longrightarrow> k \<in> Cp"
    "unat r1 = unat revision \<longrightarrow> unat revision \<notin> Cp"
    using x(2) less.prems(1) by (auto simp: r1_def improve_def gap_below_def split: if_splits)
  define r2 where "r2 = (case m of None \<Rightarrow> r1 | Some mm \<Rightarrow> improve r1 (FindPrevious mm r1))"
  let ?own = "case m of None \<Rightarrow> {} | Some mm \<Rightarrow> skipped mm"
  have r2: "r2 \<noteq> NO_REVISION" "unat r2 \<le> unat r1" "\<forall>k. unat r2 < k \<and> k \<le> unat r1 \<longrightarrow> k \<in> ?own"
    "unat r2 = unat r1 \<longrightarrow> unat r1 \<notin> ?own"
    using own_gap [OF ranges r1(1) refl r2_def] by blast+
  have step: "previous_loop d sk p m start revision =
      (if r2 < revision then previous_loop d sk p m start r2
       else Some (if r2 = start then NO_REVISION else revision))"
    by (subst previous_loop.simps) (simp only: x(1) Option.bind.simps Let_def r1_def [symmetric] r2_def [symmetric])
  show ?case
  proof (cases "unat r2 < unat revision")
    case True
    have "\<forall>k. unat r2 < k \<and> k \<le> unat start \<longrightarrow> k \<in> C"
      using r1(3) r2(3) less.prems(4) by (auto simp: C) (meson not_le)+
    with less.hyps [OF True r2(1) less.prems(2)] r1(2) r2(2) less.prems(3) True step show ?thesis
      by (simp add: word_less_nat_alt)
  next
    case False
    with r1(2) r2(2) have same: "unat r2 = unat revision" "unat r1 = unat revision" by linarith+
    with r1(4) r2(4) have out: "unat revision \<notin> C" by (simp add: C)
    have "r2 = revision" using same by (simp add: word_unat_eq_iff)
    with False step have res: "previous_loop d sk p m start revision = Some (if revision = start then NO_REVISION else revision)"
      by (simp add: word_less_nat_alt)
    show ?thesis
    proof (cases "revision = start")
      case True
      with res out show ?thesis by (simp add: gap_below_def)
    next
      case False
      with less.prems(3) have "unat revision < unat start" by (simp add: word_unat_eq_iff)
      with False res out less.prems show ?thesis by (simp add: gap_below_def)
    qed
  qed
qed

lemma GetPreviousRevision_gap:
  assumes ok: "pa_ok d" "sk_ok sk" and ranges: "\<And>e. e \<in> set (sk_data sk) \<Longrightarrow> no_overlap (pr_ranges e)"
  shows "valid_index d p \<Longrightarrow> revision \<noteq> NO_REVISION \<Longrightarrow>
    \<exists>x. GetPreviousRevision d sk p revision = Some x \<and> gap_below (path_skipped d sk p) revision x"
proof (induction "unat p" arbitrary: p revision rule: less_induct)
  case less
  have ok_ranges: "no_overlap mm" if "ranges_of sk q = Some mm" for q mm
    using that ranges by (auto simp: ranges_of_def dest!: map_of_SomeD)
  have p: "p \<noteq> NO_INDEX" by (rule valid_not_NO_INDEX [OF ok(1) less.prems(1)])
  define Cp where "Cp = (if p = 0 then {} else path_skipped d sk (GetParent d p))"
  have C: "path_skipped d sk p = Cp \<union> (case ranges_of sk p of None \<Rightarrow> {} | Some mm \<Rightarrow> skipped mm)"
    using path_skipped_root [OF ok(1)] path_skipped_parent [OF ok(1) less.prems(1)]
    by (simp add: Cp_def own_skipped_def)
  have par: "\<exists>x. (if GetParent d p = NO_INDEX \<or> r = NO_REVISION then Some NO_REVISION
      else Option.bind (lookup_ranges sk (GetParent d p)) (\<lambda>m'. previous_loop d sk (GetParent d p) m' r r)) = Some x \<and>
    gap_below Cp r x" if r: "r \<noteq> NO_REVISION" for r
  proof (cases "p = 0")
    case True
    then have "GetParent d p = NO_INDEX" using pa_okD(4) [OF ok(1)] by (simp add: GetParent_def pd_get_def)
    with True show ?thesis by (simp add: Cp_def gap_below_def)
  next
    case False
    note par = parent_valid [OF ok(1) less.prems(1) False]
    from less.hyps [of "GetParent d p" r] par r obtain x where
      "GetPreviousRevision d sk (GetParent d p) r = Some x" "gap_below Cp r x"
      using False by (auto simp: Cp_def)
    with r show ?thesis by (simp add: GetPreviousRevision_def)
  qed
  have "\<exists>x. previous_loop d sk p (ranges_of sk p) revision revision = Some x \<and> gap_below (path_skipped d sk p) revision x"
    by (rule previous_loop_gap [OF par ok_ranges C less.prems(2) less.prems(2)]) auto
  with less.prems p show ?case by (simp add: GetPreviousRevision_def lookup_ranges_of [OF ok(2)])
qed

subsection \<open>Adding to a path\<close>

lemma raise_lower_ok:
  "raise_lower available r c = (r', c') \<Longrightarrow> unat r + unat c < 2 ^ 32 \<Longrightarrow>
   unat r \<le> unat r' \<and> unat r' + unat c' = unat r + unat c \<and>
   (\<forall>k. unat r \<le> k \<and> k < unat r' \<longrightarrow> available (of_nat k)) \<and> (c' = 0 \<or> \<not> available r')"
proof (induction available r c rule: raise_lower.induct)
  case (1 available r c)
  show ?case
  proof (cases "c > 0 \<and> available r")
    case True
    then have c: "unat c = Suc (unat (c - 1))" by (simp add: unat_minus_wrap word_less_nat_alt)
    then have r: "unat (r + 1) = unat r + 1" using "1.prems"(2) by (simp add: unat_plus_small)
    have IH: "unat r + 1 \<le> unat r' \<and> unat r' + unat c' = unat r + unat c \<and>
        (\<forall>k. unat r + 1 \<le> k \<and> k < unat r' \<longrightarrow> available (of_nat k)) \<and> (c' = 0 \<or> \<not> available r')"
      using "1.IH" [OF True] "1.prems" True c r by (simp add: raise_lower.simps [of available r c])
    have "available (of_nat k)" if "unat r \<le> k" "k < unat r'" for k
      using that IH True by (cases "k = unat r") auto
    with IH show ?thesis by simp
  next
    case False
    then have "raise_lower available r c = (r, c)" by (simp only: raise_lower.simps [of available r c] if_False)
    with False "1.prems" show ?thesis by (auto simp: word_gt_0)
  qed
qed

lemma drop_upper_ok:
  "unat r + unat c < 2 ^ 32 \<Longrightarrow>
   unat (drop_upper available r c) \<le> unat c \<and>
   (\<forall>k. unat r + unat (drop_upper available r c) \<le> k \<and> k < unat r + unat c \<longrightarrow> available (of_nat k))"
proof (induction available r c rule: drop_upper.induct)
  case (1 available r c)
  show ?case
  proof (cases "c > 0 \<and> available (r + c - 1)")
    case True
    then have c: "unat c = Suc (unat (c - 1))" by (simp add: unat_minus_wrap word_less_nat_alt)
    have top: "r + c - 1 = of_nat (unat r + unat (c - 1))" by simp
    have IH: "unat (drop_upper available r c) \<le> unat (c - 1) \<and>
        (\<forall>k. unat r + unat (drop_upper available r c) \<le> k \<and> k < unat r + unat (c - 1) \<longrightarrow> available (of_nat k))"
      using "1.IH" [OF True] "1.prems" True c by (simp add: drop_upper.simps [of available r c])
    have "available (of_nat k)" if "unat r + unat (drop_upper available r c) \<le> k" "k < unat r + unat c" for k
    proof (cases "k = unat r + unat (c - 1)")
      case True
      with \<open>c > 0 \<and> available (r + c - 1)\<close> top show ?thesis by simp
    next
      case False
      with that c IH show ?thesis by simp
    qed
    with IH c show ?thesis by simp
  next
    case False
    then have "drop_upper available r c = c" by (simp only: drop_upper.simps [of available r c] if_False)
    then show ?thesis by auto
  qed
qed

lemma TryReduceRange_ok:
  assumes "TryReduceRange available r c = (r', c')" and "unat r + unat c < 2 ^ 32"
  shows "unat r \<le> unat r'" "unat r' + unat c' \<le> unat r + unat c"
    "\<forall>k. unat r \<le> k \<and> k < unat r + unat c \<and> \<not> available (of_nat k) \<longrightarrow> unat r' \<le> k \<and> k < unat r' + unat c'"
proof -
  obtain c1 where 1: "raise_lower available r c = (r', c1)" "c' = drop_upper available r' c1"
    using assms(1) by (auto simp: TryReduceRange_def split: prod.splits)
  note up = raise_lower_ok [OF 1(1) assms(2)]
  then have sum: "unat r' + unat c1 < 2 ^ 32" using assms(2) by simp
  note down = drop_upper_ok [OF sum, of available, folded 1(2)]
  show "unat r \<le> unat r'" "unat r' + unat c' \<le> unat r + unat c" using up down by simp_all
  show "\<forall>k. unat r \<le> k \<and> k < unat r + unat c \<and> \<not> available (of_nat k) \<longrightarrow> unat r' \<le> k \<and> k < unat r' + unat c'"
    using up down by (metis not_le)
qed

text \<open>What is left begins and ends with revisions whose data are missing.\<close>

lemma raise_lower_missing: "raise_lower available r c = (r', c') \<Longrightarrow> c' = 0 \<or> \<not> available r'"
proof (induction available r c rule: raise_lower.induct)
  case (1 available r c)
  then show ?case by (cases "c > 0 \<and> available r") (auto simp: raise_lower.simps [of available r c] word_gt_0)
qed

lemma drop_upper_missing: "drop_upper available r c = 0 \<or> \<not> available (r + drop_upper available r c - 1)"
proof (induction available r c rule: drop_upper.induct)
  case (1 available r c)
  then show ?case by (cases "c > 0 \<and> available (r + c - 1)") (auto simp: drop_upper.simps [of available r c] word_gt_0)
qed

definition missing :: "(dword \<Rightarrow> bool) \<Rightarrow> dword \<Rightarrow> dword \<Rightarrow> nat set" where
  "missing available revision extent = {k \<in> {unat revision..<unat revision + unat extent}. \<not> available (of_nat k)}"

text \<open>The revisions from the first to the last one whose data are missing.\<close>

definition missing_span :: "(dword \<Rightarrow> bool) \<Rightarrow> dword \<Rightarrow> dword \<Rightarrow> nat set" where
  "missing_span available revision extent =
     (let ks = missing available revision extent in if ks = {} then {} else {Min ks..Max ks})"

lemma TryReduceRange_span:
  assumes "TryReduceRange available r c = (r', c')" and "unat r + unat c < 2 ^ 32"
  shows "missing_span available r c = {unat r'..<unat r' + unat c'}"
proof -
  note T = TryReduceRange_ok [OF assms]
  let ?ks = "missing available r c"
  have sub: "k \<in> ?ks \<Longrightarrow> unat r' \<le> k \<and> k < unat r' + unat c'" for k using T(3) by (simp add: missing_def)
  show ?thesis
  proof (cases "c' = 0")
    case True
    then have "k \<notin> ?ks" for k using sub [of k] by auto
    then have "?ks = {}" by blast
    with True show ?thesis by (simp add: missing_span_def)
  next
    case False
    obtain c1 where 1: "raise_lower available r c = (r', c1)" "c' = drop_upper available r' c1"
      using assms(1) by (auto simp: TryReduceRange_def split: prod.splits)
    have pos: "0 < unat c'" using False by (simp add: unat_gt_0)
    have "c1 \<noteq> 0" using False 1(2) by (auto simp: drop_upper.simps)
    then have low: "\<not> available r'" using raise_lower_missing [OF 1(1)] by simp
    have high: "\<not> available (r' + c' - 1)" using drop_upper_missing [of available r' c1] False 1(2) by simp
    have top: "(of_nat (unat r' + unat c' - 1) :: dword) = r' + c' - 1"
      using pos by (simp add: of_nat_diff)
    have mem: "unat r' \<in> ?ks" "unat r' + unat c' - 1 \<in> ?ks"
      using T(1,2) pos low high by (auto simp: missing_def top)
    have fin: "finite ?ks" by (simp add: missing_def)
    have "Min ?ks = unat r'" using sub mem(1) fin by (intro Min_eqI) auto
    moreover have "Max ?ks = unat r' + unat c' - 1" using sub mem(2) fin by (intro Max_eqI) fastforce+
    moreover have "?ks \<noteq> {}" using mem(1) by blast
    ultimately show ?thesis using pos by (auto simp: missing_span_def Let_def)
  qed
qed

definition ranges_at :: "skip_info \<Rightarrow> dword \<Rightarrow> ranges" where
  "ranges_at sk p = (case ranges_of sk p of None \<Rightarrow> [] | Some m \<Rightarrow> m)"

lemma sk_Add_ranges:
  assumes ok: "sk_ok sk" and room: "length (sk_data sk) < 2 ^ 28"
    and reduced: "TryReduceRange available revision extent = (r, c)"
  shows "\<exists>sk'. sk_Add available sk p revision extent = Some sk' \<and> sk_ok sk' \<and>
    ranges_of sk' = (if c = 0 then ranges_of sk else (ranges_of sk)(p \<mapsto> range_Add (ranges_at sk p) r c))"
proof (cases "c = 0")
  case True
  with ok reduced show ?thesis by (simp add: sk_Add_def)
next
  case False
  show ?thesis
  proof (cases "p \<in> set (path_ids (sk_data sk))")
    case True
    obtain i where i: "position (path_ids (sk_data sk)) p = of_nat i" "i < length (sk_data sk)" "pr_pathID (sk_data sk ! i) = p"
      "(of_nat i :: dword) \<noteq> NO_INDEX" "unat (of_nat i :: dword) = i"
      using position_path [OF ok True] .
    let ?e = "sk_data sk ! i"
    let ?sk = "sk\<lparr>sk_data := (sk_data sk)[i := ?e\<lparr>pr_ranges := range_Add (pr_ranges ?e) r c\<rparr>]\<rparr>"
    have add: "sk_Add available sk p revision extent = Some ?sk"
      using reduced False i by (simp add: sk_Add_def sk_find [OF ok] Let_def)
    have ids: "path_ids (sk_data ?sk) = path_ids (sk_data sk)"
      using i(2,3) by (simp add: map_update list_update_same_conv)
    with ok have ok': "sk_ok ?sk" by (simp add: sk_ok_def)
    have "ranges_of ?sk q = ((ranges_of sk)(p \<mapsto> range_Add (ranges_at sk p) r c)) q" for q
    proof (cases "q \<in> set (path_ids (sk_data sk))")
      case True
      obtain j where j: "j < length (sk_data sk)" "pr_pathID (sk_data sk ! j) = q"
        by (rule position_path [OF ok True])
      have "i = j \<longleftrightarrow> p = q"
        using nth_eq_iff_index_eq [of "path_ids (sk_data sk)" i j] sk_ok_distinct [OF ok] i(2,3) j by auto
      have "ranges_of ?sk (pr_pathID (sk_data ?sk ! j)) = Some (pr_ranges (sk_data ?sk ! j))"
        using j(1) by (intro ranges_of_nth [OF ok']) simp
      moreover have "pr_pathID (sk_data ?sk ! j) = q" using i(2,3) j by (simp add: nth_list_update)
      moreover have "ranges_at sk p = pr_ranges ?e" using ranges_of_nth [OF ok i(2)] i(3) by (simp add: ranges_at_def)
      moreover have "ranges_of sk q = Some (pr_ranges (sk_data sk ! j))" using ranges_of_nth [OF ok j(1)] j(2) by simp
      ultimately show ?thesis using \<open>i = j \<longleftrightarrow> p = q\<close> i(2) by (cases "i = j") simp_all
    next
      case False
      with True have "p \<noteq> q" by blast
      with False ids show ?thesis by (simp add: ranges_of_absent)
    qed
    with add ok' False show ?thesis by (intro exI [of _ ?sk]) (auto simp: fun_eq_iff)
  next
    case new: False
    let ?data = "sk_data sk @ [\<lparr>pr_ranges = range_Add [] r c, pr_pathID = p\<rparr>]"
    have len: "of_nat (length ?data) - 1 = (of_nat (length (path_ids (sk_data sk))) :: dword)" by simp
    have ix: "index_ok unat (path_ids (sk_data sk)) (sk_index sk)" using ok by (simp add: sk_ok_def)
    have agr: "hf_agrees (skip_functor ?data) (\<lambda>i. path_ids (sk_data sk) ! unat i) (entries (sk_index sk))"
      using ix room by (auto simp: hf_agrees_def index_ok_def skip_functor_def unat_index nth_append)
    obtain h where h: "qh_insert (skip_functor ?data) (sk_index sk) p (of_nat (length (path_ids (sk_data sk)))) = Some h"
      "index_ok unat (path_ids (sk_data sk) @ [p]) h"
      using index_ok_insert [OF ix _ agr new] room by (auto simp: skip_functor_def)
    have add: "sk_Add available sk p revision extent = Some \<lparr>sk_data = ?data, sk_index = h\<rparr>"
      using reduced False new h(1) by (simp add: sk_Add_def sk_find [OF ok] Let_def len)
    have "ranges_of \<lparr>sk_data = ?data, sk_index = h\<rparr> = (ranges_of sk)(p \<mapsto> range_Add (ranges_at sk p) r c)"
      using ranges_of_absent [OF new] by (auto simp: fun_eq_iff ranges_of_def ranges_at_def map_add_def split: option.split)
    with add h(2) False show ?thesis by (simp add: sk_ok_def)
  qed
qed

subsection \<open>Compression of one path\<close>

definition map_ok :: "ranges \<Rightarrow> bool" where
  "map_ok m \<longleftrightarrow> list_all range_ok m \<and> sorted_wrt (<) (map fst m)"

lemma no_overlap_map_ok: "no_overlap m \<Longrightarrow> map_ok m"
  by (auto simp: map_ok_def sorted_wrt_iff_nth_less sorted_firsts) (simp add: no_overlap_def)

lemma emplace_sorted:
  assumes "sorted_wrt (<) (map fst m)" and "i < length m" and "fst (m ! i) < key"
  obtains m' j new where "emplace m key value = (m', j, new)" "sorted_wrt (<) (map fst m')"
    "length m' - Suc j < length m - i" "set m \<subseteq> set m'" "set m' \<subseteq> insert (key, value) (set m)"
proof -
  obtain xs ys where m: "m = xs @ ys" and lb: "lower_bound m key = length xs" and low: "\<forall>x \<in> set xs. fst x < key"
    and high: "ys = [] \<or> key \<le> fst (hd ys)"
    by (rule lower_bound_cases)
  have ys: "key \<le> fst y" if "y \<in> set ys" for y
    using that high assms(1) by (cases ys) (auto simp: m sorted_wrt_append)
  have i: "i < length xs"
  proof (rule ccontr)
    assume "\<not> i < length xs"
    with assms(2) have "m ! i \<in> set ys" by (simp add: m nth_append)
    with ys assms(3) show False by (meson not_less)
  qed
  show ?thesis
  proof (cases "\<exists>v zs. ys = (key, v) # zs")
    case True
    then have "length xs < length m \<and> fst (m ! length xs) = key" by (auto simp: m)
    then have "emplace m key value = (m, length xs, False)" by (simp add: emplace_def lb Let_def)
    then show ?thesis by (rule that) (use assms(1,2) i in \<open>auto simp: m\<close>)
  next
    case False
    have less: "key < fst y" if "y \<in> set ys" for y
    proof (cases ys)
      case (Cons z zs)
      with False ys [of z] have "key < fst z" by (cases z) (auto simp: order_less_le)
      with assms(1) Cons that show ?thesis by (auto simp: m sorted_wrt_append)
    qed (use that in simp)
    have "\<not> (length xs < length m \<and> fst (m ! length xs) = key)"
      using less by (cases ys) (auto simp: m)
    then have "emplace m key value = (take (length xs) m @ (key, value) # drop (length xs) m, length xs, True)"
      unfolding emplace_def lb Let_def by (rule if_not_P)
    then have "emplace m key value = (xs @ (key, value) # ys, length xs, True)" by (simp add: m)
    then show ?thesis
      by (rule that) (use assms(1) i low less in \<open>auto simp: m sorted_wrt_append intro: less_trans\<close>)
  qed
qed

lemma covered_set: "set m' \<subseteq> insert e (set m) \<Longrightarrow> set m \<subseteq> set m' \<Longrightarrow>
    {range_first e..<range_end e} \<subseteq> covered m \<Longrightarrow> covered m' = covered m"
  unfolding covered_def by blast

text \<open>Compression of a path only forgets revisions that are available.\<close>

definition packed_from :: "(dword \<Rightarrow> bool) \<Rightarrow> ranges \<Rightarrow> ranges \<Rightarrow> bool" where
  "packed_from available m m' \<longleftrightarrow>
     map_ok m' \<and> covered m' \<subseteq> covered m \<and> (\<forall>k \<in> covered m. available (of_nat k) \<or> k \<in> covered m')"

lemma packed_from_trans: "packed_from a m m' \<Longrightarrow> packed_from a m' m'' \<Longrightarrow> packed_from a m m''"
  by (auto simp: packed_from_def)

lemma packed_part:
  assumes ok: "map_ok (xs @ e # ys)" and reduced: "TryReduceRange available (fst e) (snd e) = (start, len)"
  shows "len = 0 \<Longrightarrow> packed_from available (xs @ e # ys) (xs @ ys)"
    and "start = fst e \<Longrightarrow> len \<noteq> 0 \<Longrightarrow> packed_from available (xs @ e # ys) (xs @ (start, len) # ys)"
    and "len \<noteq> 0 \<Longrightarrow> range_ok (start, len) \<and> {range_first (start, len)..<range_end (start, len)} \<subseteq> covered (xs @ e # ys)"
proof -
  have e: "range_ok e" using ok by (simp add: map_ok_def)
  then have "unat (fst e) + unat (snd e) < 2 ^ 32" by (simp add: range_ok_def)
  note T = TryReduceRange_ok [OF reduced this]
  have gone: "available (of_nat k)" if "range_first e \<le> k" "k < range_end e" "\<not> (unat start \<le> k \<and> k < unat start + unat len)" for k
    using that T(3) by blast
  show "len = 0 \<Longrightarrow> packed_from available (xs @ e # ys) (xs @ ys)"
    using ok gone by (auto simp: packed_from_def map_ok_def sorted_wrt_append)
  show "start = fst e \<Longrightarrow> len \<noteq> 0 \<Longrightarrow> packed_from available (xs @ e # ys) (xs @ (start, len) # ys)"
  proof -
    assume same: "start = fst e" and "len \<noteq> 0"
    with ok e T(1,2) have "map_ok (xs @ (start, len) # ys)"
      by (auto simp: map_ok_def sorted_wrt_append range_ok_def word_nonzero)
    moreover have "covered (xs @ (start, len) # ys) \<subseteq> covered (xs @ e # ys)" using T(1,2) same by auto
    moreover have "{range_first e..<range_end e} \<subseteq> {k. available (of_nat k)} \<union> {range_first (start, len)..<range_end (start, len)}"
      using T(3) by auto
    ultimately show ?thesis unfolding packed_from_def covered_simps by blast
  qed
  show "len \<noteq> 0 \<Longrightarrow> range_ok (start, len) \<and> {range_first (start, len)..<range_end (start, len)} \<subseteq> covered (xs @ e # ys)"
    using e T(1,2) by (auto simp: range_ok_def word_nonzero)
qed

lemma pack_ranges_ok:
  "map_ok m \<Longrightarrow> \<exists>m'. pack_ranges available m i = Some m' \<and> packed_from available m m'"
proof (induction "length m - i" arbitrary: m i rule: less_induct)
  case less
  show ?case
  proof (cases "i < length m")
    case False
    with less.prems show ?thesis by (subst pack_ranges.simps) (simp add: packed_from_def)
  next
    case True
    let ?xs = "take i m" and ?e = "m ! i" and ?ys = "drop (Suc i) m"
    have m: "m = ?xs @ ?e # ?ys" using True by (rule id_take_nth_drop)
    obtain start len where red: "TryReduceRange available (fst ?e) (snd ?e) = (start, len)" by fastforce
    have ok: "map_ok (?xs @ ?e # ?ys)" using less.prems m by simp
    note part = packed_part [OF ok red, folded m]
    note run = pack_ranges.simps [of available m i]
    have go: ?thesis if 1: "packed_from available m m1" and 2: "length m1 - j < length m - i"
      and 3: "pack_ranges available m i = pack_ranges available m1 j" for m1 j
    proof -
      obtain m2 where "pack_ranges available m1 j = Some m2" "packed_from available m1 m2"
        using less.hyps [OF 2] 1 unfolding packed_from_def by blast
      with 1 3 packed_from_trans show ?thesis by metis
    qed
    show ?thesis
    proof (cases "len = 0")
      case zero: True
      show ?thesis
        using True zero part(1) by (intro go [of "?xs @ ?ys" i]) (simp_all add: run red erase_def)
    next
      case nonzero: False
      show ?thesis
      proof (cases "start = fst ?e")
        case same: True
        have "m[i := (start, len)] = ?xs @ (start, len) # ?ys" using True by (rule upd_conv_take_nth_drop)
        with True nonzero same part(2) show ?thesis
          by (intro go [of "?xs @ (start, len) # ?ys" "i + 1"]) (simp_all add: run red)
      next
        case moved: False
        have "fst ?e \<le> start"
          using TryReduceRange_ok(1) [OF red] ok by (simp add: map_ok_def range_ok_def word_le_nat_alt)
        with moved have less': "fst ?e < start" by simp
        have sorted_m: "sorted_wrt (<) (map fst m)" using less.prems by (simp add: map_ok_def)
        obtain m' j new where em: "emplace m start len = (m', j, new)" "sorted_wrt (<) (map fst m')"
          "length m' - Suc j < length m - i" "set m \<subseteq> set m'" "set m' \<subseteq> insert (start, len) (set m)"
          by (rule emplace_sorted [OF sorted_m True less', of len])
        have "covered m' = covered m" using covered_set [OF em(5,4)] part(3) nonzero by blast
        moreover have "list_all range_ok m'"
          using em(5) part(3) nonzero less.prems by (auto simp: map_ok_def list_all_iff)
        ultimately have "packed_from available m m'" using em(2) by (simp add: packed_from_def map_ok_def)
        with True nonzero moved em(1,3) show ?thesis by (intro go [of m' "j + 1"]) (simp_all add: run red)
      qed
    qed
  qed
qed

subsection \<open>Compression of the container\<close>

lemma remove_at:
  obtains zs' where "butlast ((ys @ e # zs)[length ys := last (ys @ e # zs)]) = ys @ zs'" "mset zs' = mset zs"
  by (cases zs rule: rev_cases) (auto simp: butlast_append intro: that)

definition packed_path :: "(dword \<Rightarrow> bool) \<Rightarrow> path_ranges \<Rightarrow> path_ranges" where
  "packed_path available e = e\<lparr>pr_ranges := the (pack_ranges available (pr_ranges e) 0)\<rparr>"

lemma pack_paths_ok:
  "\<forall>e \<in> set ys. map_ok (pr_ranges e) \<Longrightarrow>
   \<exists>data. pack_paths available (ys @ zs) (length ys) = Some data \<and>
     mset data = mset (filter (\<lambda>e. pr_ranges e \<noteq> []) (map (packed_path available) ys)) + mset zs"
proof (induction ys arbitrary: zs rule: rev_induct)
  case (snoc e ys)
  obtain m where m: "pack_ranges available (pr_ranges e) 0 = Some m"
    using snoc.prems pack_ranges_ok [of "pr_ranges e" available 0] by auto
  have IH: "\<exists>data. pack_paths available (ys @ zs') (length ys) = Some data \<and>
      mset data = mset (filter (\<lambda>e. pr_ranges e \<noteq> []) (map (packed_path available) ys)) + mset zs'" for zs'
    using snoc by simp
  have e: "packed_path available e = e\<lparr>pr_ranges := m\<rparr>" by (simp add: packed_path_def m)
  show ?case
  proof (cases "m = []")
    case True
    obtain zs' where "butlast ((ys @ (e\<lparr>pr_ranges := m\<rparr>) # zs)[length ys := last (ys @ (e\<lparr>pr_ranges := m\<rparr>) # zs)]) = ys @ zs'"
      "mset zs' = mset zs"
      using remove_at .
    with True IH [of zs'] show ?thesis by (simp add: m e nth_append list_update_append)
  next
    case False
    with IH [of "e\<lparr>pr_ranges := m\<rparr> # zs"] show ?thesis by (simp add: m e nth_append list_update_append)
  qed
qed simp

lemma rebuild_loop_ok:
  "index_ok unat (path_ids (take i data)) h \<Longrightarrow> distinct (path_ids data) \<Longrightarrow> length data \<le> 2 ^ 28 \<Longrightarrow>
   i + n = length data \<Longrightarrow> \<exists>h'. rebuild_loop data i n h = Some h' \<and> index_ok unat (path_ids data) h'"
proof (induction n arbitrary: i h)
  case (Suc n)
  have i: "i < length data" using Suc.prems(4) by simp
  then have next_take: "path_ids (take (Suc i) data) = path_ids (take i data) @ [pr_pathID (data ! i)]"
    by (simp add: take_Suc_conv_app_nth)
  have fresh: "pr_pathID (data ! i) \<notin> set (path_ids (take i data))"
  proof -
    have "distinct (path_ids (take (Suc i) data))" using Suc.prems(2) by (simp add: take_map distinct_take flip: take_map)
    then show ?thesis unfolding next_take by simp
  qed
  have "hf_agrees (skip_functor data) (\<lambda>k. path_ids (take i data) ! unat k) (entries h)"
    using Suc.prems(1) i Suc.prems(3) by (auto simp: hf_agrees_def index_ok_def skip_functor_def unat_index)
  from index_ok_insert [OF Suc.prems(1) _ this fresh] i Suc.prems(3) obtain h' where
    "qh_insert (skip_functor data) h (pr_pathID (data ! i)) (of_nat i) = Some h'"
    "index_ok unat (path_ids (take (Suc i) data)) h'"
    unfolding next_take by (auto simp: skip_functor_def)
  with Suc.IH [of "Suc i" h'] Suc.prems show ?case by simp
qed simp

lemma reserve_empty:
  assumes "index_ok hash [] h" and "hf_hash hf = hash" and "n \<le> 2 ^ 28"
  shows "\<exists>h'. qh_reserve hf n h = Some h' \<and> index_ok hash [] h'"
proof -
  have inv: "qh_inv (hf_hash hf) (\<lambda>i. [] ! unat i) h" and none: "entries h = {}"
    using assms(1,2) by (auto simp: index_ok_def)
  have "hf_agrees hf (\<lambda>i. [] ! unat i) (entries h)" unfolding hf_agrees_def none by simp
  moreover have "n + n div 2 \<le> 1073741827" using assms(3) by simp
  ultimately show ?thesis using qh_reserve_inv [OF inv, of n] assms none
    by (auto simp: index_ok_def)
qed

lemma Compress_ok:
  assumes ok: "sk_ok sk" and maps: "\<forall>e \<in> set (sk_data sk). map_ok (pr_ranges e)"
  obtains sk' where "Compress available sk = Some sk'" "sk_ok sk'"
    "mset (sk_data sk') = mset (filter (\<lambda>e. pr_ranges e \<noteq> []) (map (packed_path available) (sk_data sk)))"
proof -
  obtain data where data: "pack_paths available (sk_data sk) (length (sk_data sk)) = Some data"
    "mset data = mset (filter (\<lambda>e. pr_ranges e \<noteq> []) (map (packed_path available) (sk_data sk)))"
    using pack_paths_ok [OF maps, of available "[]"] by auto
  have kept: "path_ids (filter P (map (packed_path available) xs)) =
      map pr_pathID (filter (P \<circ> packed_path available) xs)" for P xs
    by (induction xs) (simp_all add: packed_path_def)
  have "mset (path_ids data) = mset (path_ids (filter (\<lambda>e. pr_ranges e \<noteq> []) (map (packed_path available) (sk_data sk))))"
    using data(2) by (simp only: mset_map)
  then have "distinct (path_ids data)"
    using sk_ok_distinct [OF ok] distinct_map_filter unfolding kept by (metis mset_eq_imp_distinct_iff)
  moreover have len: "length data \<le> 2 ^ 28"
  proof -
    have "length data = length (filter (\<lambda>e. pr_ranges e \<noteq> []) (map (packed_path available) (sk_data sk)))"
      using data(2) by (metis size_mset)
    also have "\<dots> \<le> length (sk_data sk)" by (metis length_filter_le length_map)
    finally show ?thesis using sk_ok_distinct [OF ok] by linarith
  qed
  moreover have clear: "index_ok unat ([] :: dword list) (qh_clear (sk_index sk))"
    using ok by (auto simp: sk_ok_def intro: index_ok_clear)
  moreover obtain h0 where h0: "qh_reserve (skip_functor data) (length data) (qh_clear (sk_index sk)) = Some h0"
    "index_ok unat ([] :: dword list) h0"
    using reserve_empty [OF clear skip_functor.hashes len, of data] by auto
  ultimately obtain h where "rebuild_loop data 0 (length data) h0 = Some h" "index_ok unat (path_ids data) h"
    using rebuild_loop_ok [of 0 data h0 "length data"] by auto
  with h0 data show ?thesis
    by (intro that [of "sk\<lparr>sk_data := data, sk_index := h\<rparr>"])
      (simp_all add: Compress_def sk_RebuildHash_def Let_def sk_ok_def)
qed

subsection \<open>The cache file\<close>

definition all_starts :: "path_ranges list \<Rightarrow> dword list" where
  "all_starts data = concat (map (map fst \<circ> pr_ranges) data)"

definition all_sizes :: "path_ranges list \<Rightarrow> dword list" where
  "all_sizes data = concat (map (map snd \<circ> pr_ranges) data)"

abbreviation starts_ready :: "packed_in diff_in \<Rightarrow> dword list \<Rightarrow> bool" where
  "starts_ready r vs \<equiv> reads (di_base r) (diffs (di_lastValue r) vs)"

abbreviation sizes_ready :: "packed_in diff_in \<Rightarrow> dword list \<Rightarrow> bool" where
  "sizes_ready r vs \<equiv> list_all int_value_ok (diffs (di_lastValue r) vs) \<and>
     reads (di_base r) (map fold_sign (diffs (di_lastValue r) vs))"

lemma emplace_last: "\<forall>x \<in> set m. fst x < key \<Longrightarrow> emplace m key value = (m @ [(key, value)], length m, True)"
  using lower_bound_append [of m key "[]"] by (simp add: emplace_def Let_def)

lemma read_ranges_ready:
  "sorted_wrt (<) (map fst (old @ m)) \<Longrightarrow> starts_ready r (map fst m @ vs) \<Longrightarrow> sizes_ready s (map snd m @ ws) \<Longrightarrow>
   \<exists>r' s'. read_ranges (length m) old r s = Return (old @ m, r', s') \<and> starts_ready r' vs \<and> sizes_ready s' ws"
proof (induction m arbitrary: old r s)
  case (Cons e m)
  from diff_dword_stream.get [of r "fst e" "map fst m @ vs"] Cons.prems(2) obtain r1 where
    r1: "Diff_GetValue GetValue r = Return (fst e, r1)" "starts_ready r1 (map fst m @ vs)" by auto
  from diff_int_stream.get [of s "snd e" "map snd m @ ws"] Cons.prems(3) obtain s1 where
    s1: "Diff_GetValue Integer_GetValue s = Return (snd e, s1)" "sizes_ready s1 (map snd m @ ws)" by auto
  have "\<forall>x \<in> set old. fst x < fst e" using Cons.prems(1) by (auto simp: sorted_wrt_append)
  then have "fst (emplace old (fst e) (snd e)) = old @ [e]" by (simp add: emplace_last)
  moreover have "sorted_wrt (<) (map fst ((old @ [e]) @ m))" using Cons.prems(1) by simp
  ultimately show ?case using Cons.IH [OF _ r1(2) s1(2), of "old @ [e]"] r1(1) s1(1) by auto
qed simp

lemma read_paths_ready:
  "sk_ok sk \<Longrightarrow> distinct (path_ids (sk_data sk @ data)) \<Longrightarrow> length (sk_data sk @ data) \<le> 2 ^ 28 \<Longrightarrow>
   \<forall>e \<in> set data. sorted_wrt (<) (map fst (pr_ranges e)) \<and> length (pr_ranges e) < 2 ^ 31 \<Longrightarrow>
   reads ids (path_ids data) \<Longrightarrow> reads counts (map (\<lambda>e. of_nat (length (pr_ranges e))) data) \<Longrightarrow>
   starts_ready r (all_starts data) \<Longrightarrow> sizes_ready s (all_sizes data) \<Longrightarrow>
   \<exists>sk'. read_paths (length data) sk ids counts r s = Some (Return sk') \<and> sk_ok sk' \<and> sk_data sk' = sk_data sk @ data"
proof (induction data arbitrary: sk ids counts r s)
  case (Cons e data)
  obtain ids1 where ids: "GetValue ids = Return (pr_pathID e, ids1)" "reads ids1 (path_ids data)"
    using GetValue_reads [of ids "pr_pathID e" "path_ids data"] Cons.prems(5) by auto
  obtain counts1 where counts: "GetValue counts = Return (of_nat (length (pr_ranges e)), counts1)"
    "reads counts1 (map (\<lambda>e. of_nat (length (pr_ranges e))) data)"
    using GetValue_reads [of counts] Cons.prems(6) by fastforce
  have len: "unat (of_nat (length (pr_ranges e)) :: dword) = length (pr_ranges e)"
    using Cons.prems(4) by (simp add: unat_of_nat)
  obtain r1 s1 where ranges: "read_ranges (length (pr_ranges e)) [] r s = Return (pr_ranges e, r1, s1)"
    "starts_ready r1 (all_starts data)" "sizes_ready s1 (all_sizes data)"
    using read_ranges_ready [of "[]" "pr_ranges e" r "all_starts data" s "all_sizes data"] Cons.prems(4,7,8)
    by (auto simp: all_starts_def all_sizes_def)
  have ix: "index_ok unat (path_ids (sk_data sk)) (sk_index sk)" using Cons.prems(1) by (simp add: sk_ok_def)
  have fresh: "pr_pathID e \<notin> set (path_ids (sk_data sk))" "length (path_ids (sk_data sk)) < 2 ^ 28"
    using Cons.prems(2,3) by auto
  obtain h where h: "qh_insert (skip_functor (sk_data sk)) (sk_index sk) (pr_pathID e) (of_nat (length (sk_data sk))) = Some h"
    "index_ok unat (path_ids (sk_data sk @ [e])) h"
    using skip_functor.insert_position [OF _ ix fresh] by auto
  let ?sk = "\<lparr>sk_data = sk_data sk @ [e], sk_index = h\<rparr>"
  have whole: "\<lparr>pr_ranges = pr_ranges e, pr_pathID = pr_pathID e\<rparr> = e" by simp
  have step: "read_paths (length (e # data)) sk ids counts r s = read_paths (length data) ?sk ids1 counts1 r1 s1"
    using ids(1) counts(1) ranges(1) h(1) len by (simp add: whole)
  have "\<exists>sk'. read_paths (length data) ?sk ids1 counts1 r1 s1 = Some (Return sk') \<and> sk_ok sk' \<and>
      sk_data sk' = sk_data ?sk @ data"
    using Cons.prems(2-4) ids(2) counts(2) ranges(2,3) h(2)
    by (intro Cons.IH) (auto simp: sk_ok_def)
  with step show ?case by simp
qed simp

lemma sk_ok_Clear: "sk_ok sk \<Longrightarrow> sk_ok (sk_Clear sk)"
  by (auto simp: sk_ok_def sk_Clear_def intro: index_ok_clear)

lemma sk_ok_new: "sk_ok new_skip_info"
  by (simp add: sk_ok_def new_skip_info_def index_ok_new)

lemma count_not_minus_one: "n < 2 ^ 31 \<Longrightarrow> (of_nat n :: dword) \<noteq> - 1"
proof
  assume n: "n < 2 ^ 31" and "(of_nat n :: dword) = - 1"
  then have "unat (of_nat n :: dword) = unat (- 1 :: dword)" by simp
  with n show False by (simp add: unat_of_nat)
qed

text \<open>The readers of the identifiers, the counts and the sizes.\<close>

lemma skip_readers:
  assumes data: "length data \<le> 2 ^ 28" "NO_INDEX \<notin> set (path_ids data)" and len: "length (all_starts data) < 2 ^ 31"
    and sizes: "list_all int_value_ok (diffs 0 (all_sizes data))"
  obtains ids where "GetValue (AutoOpen (fst (skip_streams data))) = Return (of_nat (length data), ids)" "reads ids (path_ids data)"
    "reads (AutoOpen (fst (snd (skip_streams data)))) (map (\<lambda>e. of_nat (length (pr_ranges e))) data)"
    "sizes_ready (Diff_Open AutoOpen (snd (snd (snd (skip_streams data))))) (all_sizes data)"
    "\<forall>e \<in> set data. length (pr_ranges e) < 2 ^ 31"
proof -
  have same: "length (all_sizes data) = length (all_starts data)"
    by (simp add: all_sizes_def all_starts_def length_concat comp_def)
  have small: "length (pr_ranges e) < 2 ^ 31" if "e \<in> set data" for e
  proof -
    have "length (pr_ranges e) \<le> length (all_starts data)"
      using member_le_sum_list [of "length (pr_ranges e)" "map (length \<circ> pr_ranges) data"] that
      by (simp add: all_starts_def length_concat comp_def)
    with len show ?thesis by simp
  qed
  let ?sizes = "map (\<lambda>e. of_nat (length (pr_ranges e))) data :: dword list"
  have "dword_storable (of_nat (length data) # path_ids data)"
    using data count_not_minus_one [of "length data"] by (auto simp: dword_storable_def NO_INDEX_def)
  from dword_stream.values_ready [OF this]
  have "reads (AutoOpen (fst (skip_streams data))) (of_nat (length data) # path_ids data)"
    by (simp only: skip_streams_def fst_conv)
  then obtain ids where ids: "GetValue (AutoOpen (fst (skip_streams data))) = Return (of_nat (length data), ids)"
    "reads ids (path_ids data)"
    using GetValue_reads by blast
  have "dword_storable ?sizes"
    using data(1) small count_not_minus_one by (auto simp: dword_storable_def) metis
  then have counts: "reads (AutoOpen (fst (snd (skip_streams data)))) ?sizes"
    using dword_stream.values_ready by (simp add: skip_streams_def)
  have "int_storable (diffs 0 (all_sizes data))"
    using sizes len same by (simp add: int_storable_def)
  then have "sizes_ready (Diff_Open AutoOpen (snd (snd (snd (skip_streams data))))) (all_sizes data)"
    using diff_int_stream.values_ready by (simp add: skip_streams_def all_sizes_def)
  with ids counts small show ?thesis by (intro that) blast+
qed

lemma read_skip_streams:
  assumes data: "distinct (path_ids data)" "length data \<le> 2 ^ 28" "NO_INDEX \<notin> set (path_ids data)"
    and ranges: "\<forall>e \<in> set data. sorted_wrt (<) (map fst (pr_ranges e))" "length (all_starts data) < 2 ^ 31"
    and storable: "- 1 \<notin> set (diffs 0 (all_starts data))" "list_all int_value_ok (diffs 0 (all_sizes data))"
    and container: "sk_ok container"
  shows "\<exists>sk'. read_skip_info container (skip_streams data) = Some (Return sk') \<and> sk_ok sk' \<and> sk_data sk' = data"
proof -
  obtain ids where ids: "GetValue (AutoOpen (fst (skip_streams data))) = Return (of_nat (length data), ids)" "reads ids (path_ids data)"
    and counts: "reads (AutoOpen (fst (snd (skip_streams data)))) (map (\<lambda>e. of_nat (length (pr_ranges e))) data)"
    and sizes: "sizes_ready (Diff_Open AutoOpen (snd (snd (snd (skip_streams data))))) (all_sizes data)"
    and small: "\<forall>e \<in> set data. length (pr_ranges e) < 2 ^ 31"
    by (rule skip_readers [OF data(2,3) ranges(2) storable(2)])
  have "dword_storable (diffs 0 (all_starts data))"
    using storable(1) ranges(2) by (simp add: dword_storable_def)
  then have starts: "starts_ready (Diff_Open AutoOpen (fst (snd (snd (skip_streams data))))) (all_starts data)"
    using diff_dword_stream.values_ready by (simp add: skip_streams_def all_starts_def)
  have "unat (of_nat (length data) :: dword) = length data" using data(2) by (simp add: unat_index)
  with read_paths_ready [OF sk_ok_Clear [OF container] _ _ _ ids(2) counts starts sizes] data ranges(1) small ids(1)
  show ?thesis by (auto simp: read_skip_info_def sk_Clear_def split: prod.splits)
qed

text \<open>Where nothing is available, compression changes no ranges.\<close>

lemma TryReduceRange_none: "TryReduceRange (\<lambda>_. False) r c = (r, c)"
  by (simp add: TryReduceRange_def raise_lower.simps drop_upper.simps)

lemma pack_ranges_none: "list_all range_ok m \<Longrightarrow> pack_ranges (\<lambda>_. False) m i = Some m"
proof (induction "length m - i" arbitrary: i rule: less_induct)
  case less
  have "i < length m \<Longrightarrow> snd (m ! i) \<noteq> 0"
    using less.prems by (auto simp: list_all_length range_ok_def word_nonzero)
  moreover have "i < length m \<Longrightarrow> m[i := (fst (m ! i), snd (m ! i))] = m" by simp
  ultimately show ?case
    using less.hyps [of "Suc i"] less.prems
    by (cases "m ! i") (subst pack_ranges.simps, auto simp: TryReduceRange_none)
qed

lemma pack_paths_none:
  "\<forall>e \<in> set data. list_all range_ok (pr_ranges e) \<and> pr_ranges e \<noteq> [] \<Longrightarrow> n \<le> length data \<Longrightarrow>
   pack_paths (\<lambda>_. False) data n = Some data"
proof (induction n)
  case (Suc n)
  then have "data ! n \<in> set data" by simp
  with Suc.prems(1) have "list_all range_ok (pr_ranges (data ! n))" "pr_ranges (data ! n) \<noteq> []" by blast+
  with Suc show ?case by (simp add: pack_ranges_none Let_def)
qed simp

lemma Compress_nothing_available:
  assumes "sk_ok sk" and ranges: "\<forall>e \<in> set (sk_data sk). list_all range_ok (pr_ranges e) \<and> pr_ranges e \<noteq> []"
  shows "\<exists>packed. Compress (\<lambda>_. False) sk = Some packed \<and> sk_data packed = sk_data sk"
proof -
  have clear: "index_ok unat ([] :: dword list) (qh_clear (sk_index sk))"
    using assms(1) by (auto simp: sk_ok_def intro: index_ok_clear)
  note D = sk_ok_distinct [OF assms(1)]
  obtain h0 where h0: "qh_reserve (skip_functor (sk_data sk)) (length (sk_data sk)) (qh_clear (sk_index sk)) = Some h0"
    "index_ok unat ([] :: dword list) h0"
    using reserve_empty [OF clear skip_functor.hashes, of "length (sk_data sk)" "sk_data sk"] D by auto
  then obtain h where "rebuild_loop (sk_data sk) 0 (length (sk_data sk)) h0 = Some h"
    using rebuild_loop_ok [of 0 "sk_data sk" h0 "length (sk_data sk)"] D by auto
  with h0 pack_paths_none [OF ranges] show ?thesis
    by (simp add: Compress_def sk_RebuildHash_def Let_def)
qed

lemma ranges_of_entry: "sk_ok sk \<Longrightarrow> e \<in> set (sk_data sk) \<Longrightarrow> ranges_of sk (pr_pathID e) = Some (pr_ranges e)"
  using ranges_of_nth by (auto simp: in_set_conv_nth)

text \<open>A container with given entries.\<close>

lemma container_exists:
  assumes "distinct (path_ids data)" and "length data \<le> 2 ^ 28"
  obtains sk where "sk_data sk = data" "sk_ok sk"
proof -
  obtain h where "index_ok unat (path_ids data) h"
    using rebuild_loop_ok [of 0 data new_quick_hash "length data"] assms by (auto simp: index_ok_new)
  then show ?thesis by (intro that [of "\<lparr>sk_data = data, sk_index = h\<rparr>"]) (simp_all add: sk_ok_def)
qed

lemma packed_path_ok:
  "map_ok (pr_ranges e) \<Longrightarrow> packed_from available (pr_ranges e) (pr_ranges (packed_path available e))"
  using pack_ranges_ok [of "pr_ranges e" available 0] by (auto simp: packed_path_def)

lemma Compress_data:
  assumes "sk_ok sk" and "\<forall>e \<in> set (sk_data sk). map_ok (pr_ranges e)"
  obtains sk' where "Compress available sk = Some sk'" "sk_ok sk'"
    "set (sk_data sk') = {e \<in> packed_path available ` set (sk_data sk). pr_ranges e \<noteq> []}"
    "\<forall>e \<in> set (sk_data sk'). pr_ranges e \<noteq> [] \<and> map_ok (pr_ranges e)"
proof -
  obtain sk' where sk': "Compress available sk = Some sk'" "sk_ok sk'"
    "mset (sk_data sk') = mset (filter (\<lambda>e. pr_ranges e \<noteq> []) (map (packed_path available) (sk_data sk)))"
    by (rule Compress_ok [OF assms])
  have data: "set (sk_data sk') = {e \<in> packed_path available ` set (sk_data sk). pr_ranges e \<noteq> []}"
    unfolding mset_eq_setD [OF sk'(3)] by simp
  have "\<forall>e \<in> set (sk_data sk'). pr_ranges e \<noteq> [] \<and> map_ok (pr_ranges e)"
    using packed_path_ok assms(2) unfolding data by (auto simp: packed_from_def)
  with sk'(1,2) data show ?thesis by (rule that)
qed

section \<open>The properties\<close>

text \<open>
  C22. Provided that the ranges of each path do not overlap, \<^verbatim>\<open>GetPreviousRevision\<close> returns, and it returns
  exactly the next gap: for a revision inside a skip range of the path or of one of its parents it is the
  largest earlier revision that lies in none of these ranges, all revisions in between being covered; for
  every other revision it is \<^verbatim>\<open>NO_REVISION\<close>. A range that begins at revision 0 counts as none: the code
  reads the number before its start, \<^verbatim>\<open>NO_REVISION\<close>, as no answer. That ranges do not overlap is what the
  header demands; adding a range over two others (\<open>skip_range_add\<close> of \<open>SkipRanges\<close>) and compression
  (\<open>skip_compress_overlaps\<close>) can break it.
\<close>

theorem skip_previous_revision:
  assumes "pa_ok d" and "sk_ok sk" and "\<forall>e \<in> set (sk_data sk). no_overlap (pr_ranges e)"
    and "valid_index d p" and "revision \<noteq> NO_REVISION"
  shows "\<exists>r. GetPreviousRevision d sk p revision = Some r \<and>
    (if unat revision \<in> path_skipped d sk p
     then unat r < unat revision \<and> unat r \<notin> path_skipped d sk p \<and>
       (\<forall>k. unat r < k \<and> k \<le> unat revision \<longrightarrow> k \<in> path_skipped d sk p)
     else r = NO_REVISION)"
proof -
  obtain r where "GetPreviousRevision d sk p revision = Some r" "gap_below (path_skipped d sk p) revision r"
    using GetPreviousRevision_gap [OF assms(1,2) _ assms(4,5)] assms(3) by blast
  then show ?thesis by (auto simp: gap_below_def split: if_splits)
qed

text \<open>The root of a new dictionary with the ranges 5 to 14 and 30 to 31: the gap below 12 is 4.\<close>

theorem skip_previous_revision_witness:
  "\<exists>d sk. new_path_dict = Some (Return d) \<and> sk_data sk = [\<lparr>pr_ranges = [(5, 10), (30, 2)], pr_pathID = 0\<rparr>] \<and>
     GetPreviousRevision d sk 0 12 = Some 4"
proof -
  let ?data = "[\<lparr>pr_ranges = [(5, 10), (30, 2)], pr_pathID = 0\<rparr>]"
  obtain d where d: "new_path_dict = Some (Return d)" "pa_ok d" "path_count d = 1"
    using new_path_dict_ok by blast
  obtain sk where sk: "sk_data sk = ?data" "sk_ok sk" using container_exists [of ?data] by auto
  have skip: "path_skipped d sk 0 = {5..<15} \<union> {30..<32}"
    by (auto simp: path_skipped_root [OF d(2)] own_skipped_def ranges_of_def sk)
  have "no_overlap [(5, 10), (30, 2)]" by (simp add: no_overlap_def range_ok_def)
  then obtain r where r: "GetPreviousRevision d sk 0 12 = Some r" "unat r < 12" "unat r \<notin> {5..<15} \<union> {30..<32}"
    "\<forall>k. unat r < k \<and> k \<le> 12 \<longrightarrow> k \<in> {5..<15} \<union> {30..<32}"
    using skip_previous_revision [OF d(2) sk(2), of 0 12] d(3) by (auto simp: sk(1) skip NO_REVISION_def)
  have "unat r = 4"
    using r(2,3) r(4) [rule_format, of "Suc (unat r)"] by auto
  then have "r = 4" by (simp add: word_unat_eq_iff)
  with d(1) sk(1) r(1) show ?thesis by blast
qed

text \<open>
  C25. Adding to a path. The operation returns, finds or makes the entry of the path and leaves all
  other paths alone. Afterwards the path's ranges cover exactly what they covered before and the
  revisions of the new range from the first to the last one whose data are not available: revisions
  with data are taken off at both ends of the new range, but not from within. A range that has data for all
  its revisions adds nothing. The ranges of the path must have been separated, as the header demands, and the
  new range must not wrap around the revision numbers.
\<close>

theorem skip_add_covers:
  assumes "sk_ok sk" and "length (sk_data sk) < 2 ^ 28" and "separated (ranges_at sk p)"
    and "unat revision + unat extent < 2 ^ 32"
  shows "\<exists>sk'. sk_Add available sk p revision extent = Some sk' \<and> sk_ok sk' \<and>
    (\<forall>q. q \<noteq> p \<longrightarrow> ranges_of sk' q = ranges_of sk q) \<and>
    covered (ranges_at sk' p) = covered (ranges_at sk p) \<union> missing_span available revision extent"
proof -
  obtain r c where red: "TryReduceRange available revision extent = (r, c)" by fastforce
  note T = TryReduceRange_ok [OF red assms(4)]
  obtain sk' where sk': "sk_Add available sk p revision extent = Some sk'" "sk_ok sk'"
    "ranges_of sk' = (if c = 0 then ranges_of sk else (ranges_of sk)(p \<mapsto> range_Add (ranges_at sk p) r c))"
    using sk_Add_ranges [OF assms(1,2) red] by blast
  have "covered (ranges_at sk' p) = covered (ranges_at sk p) \<union> {unat r..<unat r + unat c}"
  proof (cases "c = 0")
    case False
    then have "covered (range_Add (ranges_at sk p) r c) = covered (ranges_at sk p) \<union> {unat r..<unat r + unat c}"
      using range_Add_covers [OF assms(3), of c r] T(2) assms(4) by (simp add: word_nonzero)
    with False sk'(3) show ?thesis by (simp add: ranges_at_def)
  qed (use sk'(3) in \<open>simp add: ranges_at_def\<close>)
  with sk' show ?thesis unfolding TryReduceRange_span [OF red assms(4)] by (intro exI [of _ sk']) auto
qed

text \<open>Of the revisions 7 to 11, with data for 7, 9 and 11, the revisions 8 to 10 are skipped.\<close>

theorem skip_add_covers_witness:
  "\<exists>sk. sk_Add (\<lambda>r. r \<in> {7, 9, 11}) new_skip_info 3 7 5 = Some sk \<and> covered (ranges_at sk 3) = {8, 9, 10}"
proof -
  have none: "ranges_at new_skip_info 3 = []" by (simp add: new_skip_info_def ranges_at_def ranges_of_def)
  then obtain sk where sk: "sk_Add (\<lambda>r. r \<in> {7, 9, 11}) new_skip_info 3 7 5 = Some sk"
    "covered (ranges_at sk 3) = covered [] \<union> missing_span (\<lambda>r. r \<in> {7, 9, 11}) 7 5"
    using skip_add_covers [OF sk_ok_new, of 3 7 5 "\<lambda>r. r \<in> {7, 9, 11}"] by (auto simp: new_skip_info_def separated_simps)
  have "missing (\<lambda>r. r \<in> {7, 9, 11}) 7 5 = {8, 10}"
  proof -
    have "filter (\<lambda>k. \<not> (of_nat k :: dword) \<in> {7, 9, 11}) [7..<12] = [8, 10]" by code_simp
    then have "set (filter (\<lambda>k. \<not> (of_nat k :: dword) \<in> {7, 9, 11}) [7..<12]) = {8, 10}" by (simp only: list.set)
    moreover have "unat (7 :: dword) = 7" "unat (7 :: dword) + unat (5 :: dword) = 12" by simp_all
    ultimately show ?thesis by (simp only: missing_def set_filter set_upt)
  qed
  then have "missing_span (\<lambda>r. r \<in> {7, 9, 11}) 7 5 = {8..10}" by (simp add: missing_span_def)
  also have "{8..10} = {8, 9, 10 :: nat}" by auto
  finally have "missing_span (\<lambda>r. r \<in> {7, 9, 11}) 7 5 = {8, 9, 10}" .
  with sk show ?thesis by (intro exI [of _ sk]) (simp add: covered_def)
qed

text \<open>
  C27. Compression returns a container with a valid hash, in which every path still covers nothing but
  what it covered, has lost only revisions whose data are available, and has a range at all.
\<close>

theorem skip_compress_safe:
  assumes "sk_ok sk" and "\<forall>e \<in> set (sk_data sk). map_ok (pr_ranges e)"
  shows "\<exists>sk'. Compress available sk = Some sk' \<and> sk_ok sk' \<and>
    (\<forall>e \<in> set (sk_data sk'). pr_ranges e \<noteq> [] \<and> map_ok (pr_ranges e)) \<and>
    (\<forall>p. covered (ranges_at sk' p) \<subseteq> covered (ranges_at sk p) \<and>
       (\<forall>k \<in> covered (ranges_at sk p). available (of_nat k) \<or> k \<in> covered (ranges_at sk' p)))"
proof -
  obtain sk' where sk': "Compress available sk = Some sk'" "sk_ok sk'"
    and data: "set (sk_data sk') = {e \<in> packed_path available ` set (sk_data sk). pr_ranges e \<noteq> []}"
    and maps: "\<forall>e \<in> set (sk_data sk'). pr_ranges e \<noteq> [] \<and> map_ok (pr_ranges e)"
    by (rule Compress_data [OF assms])
  have "packed_from available (ranges_at sk p) (ranges_at sk' p)" for p
  proof (cases "p \<in> set (path_ids (sk_data sk))")
    case True
    then obtain e where e: "e \<in> set (sk_data sk)" "pr_pathID e = p" by auto
    have here: "ranges_at sk p = pr_ranges e" using ranges_of_entry [OF assms(1) e(1)] e(2) by (simp add: ranges_at_def)
    have "ranges_at sk' p = pr_ranges (packed_path available e)"
    proof (cases "pr_ranges (packed_path available e) = []")
      case True
      have "p \<notin> set (path_ids (sk_data sk'))"
      proof
        assume "p \<in> set (path_ids (sk_data sk'))"
        then obtain e' where e': "e' \<in> set (sk_data sk)" "pr_pathID e' = p" "pr_ranges (packed_path available e') \<noteq> []"
          by (auto simp: data packed_path_def)
        have "pr_ranges e' = pr_ranges e"
          using ranges_of_entry [OF assms(1) e(1)] ranges_of_entry [OF assms(1) e'(1)] e(2) e'(2) by simp
        with e'(3) True show False by (simp add: packed_path_def)
      qed
      with True show ?thesis by (simp add: ranges_at_def ranges_of_absent)
    next
      case False
      with e(1) have "packed_path available e \<in> set (sk_data sk')" by (auto simp: data)
      from ranges_of_entry [OF sk'(2) this] e(2) show ?thesis by (simp add: ranges_at_def packed_path_def)
    qed
    with packed_path_ok assms(2) e(1) here show ?thesis by simp
  next
    case False
    then have "p \<notin> set (path_ids (sk_data sk'))" by (auto simp: data packed_path_def)
    with False show ?thesis by (simp add: ranges_at_def ranges_of_absent packed_from_def map_ok_def)
  qed
  then have "\<forall>p. covered (ranges_at sk' p) \<subseteq> covered (ranges_at sk p) \<and>
       (\<forall>k \<in> covered (ranges_at sk p). available (of_nat k) \<or> k \<in> covered (ranges_at sk' p))"
    by (simp add: packed_from_def)
  with sk' maps show ?thesis by blast
qed

theorem skip_compress_safe_witness:
  "\<exists>sk sk'. sk_data sk = [\<lparr>pr_ranges = [(5, 10)], pr_pathID = 3\<rparr>] \<and> Compress (\<lambda>r. r = 5) sk = Some sk' \<and>
     9 \<in> covered (ranges_at sk' 3)"
proof -
  let ?data = "[\<lparr>pr_ranges = [(5, 10)], pr_pathID = 3\<rparr>]"
  obtain sk where sk: "sk_data sk = ?data" "sk_ok sk" using container_exists [of ?data] by auto
  have "map_ok [(5, 10)]" by (simp add: map_ok_def range_ok_def)
  then obtain sk' where "Compress (\<lambda>r. r = 5) sk = Some sk'"
    "\<forall>k \<in> covered (ranges_at sk 3). of_nat k = (5 :: dword) \<or> k \<in> covered (ranges_at sk' 3)"
    using skip_compress_safe [OF sk(2), of "\<lambda>r. r = 5"] by (auto simp: sk(1))
  then show ?thesis
    using sk(1) by (intro exI [of _ sk] exI [of _ sk']) (auto simp: ranges_at_def ranges_of_def dest: bspec [of _ _ 9])
qed

text \<open>
  What compression does not do: a range that begins with available revisions is not shortened.
  The shorter range is entered behind the old one, which stays, so that the two overlap, although
  the header asks for ranges that do not.
\<close>

theorem skip_compress_overlaps:
  assumes "range_ok (start, len)" and "TryReduceRange available start len = (start', len')"
    and "start' \<noteq> start" and "len' \<noteq> 0"
  shows "pack_ranges available [(start, len)] 0 = Some [(start, len), (start', len')] \<and>
    \<not> no_overlap [(start, len), (start', len')]"
proof -
  have "unat start + unat len < 2 ^ 32" using assms(1) by (simp add: range_ok_def)
  note T = TryReduceRange_ok [OF assms(2) this]
  from T(1) assms(3) have "start < start'" by (auto simp: word_le_nat_alt order_less_le)
  then have "emplace [(start, len)] start' len' = ([(start, len), (start', len')], 1, True)"
    by (simp add: emplace_last)
  then have "pack_ranges available [(start, len)] 0 = pack_ranges available [(start, len), (start', len')] 2"
    using assms(2-4) by (subst pack_ranges.simps) (simp add: numeral_2_eq_2)
  also have "\<dots> = Some [(start, len), (start', len')]" by (subst pack_ranges.simps) simp
  finally show ?thesis using T(2) assms(4) by (simp add: no_overlap_def word_nonzero)
qed

theorem skip_compress_overlaps_witness:
  "pack_ranges (\<lambda>r. r < 8) [(5, 10)] 0 = Some [(5, 10), (8, 7)]"
proof -
  have "TryReduceRange (\<lambda>r. r < 8) 5 10 = (8, 7)" by code_simp
  from skip_compress_overlaps [OF _ this] show ?thesis by (simp add: range_ok_def)
qed

text \<open>
  C23. The skip information survives the cache file: writing compresses the container, and what is
  read back has the same entries in the same order and a valid hash, whatever container it is read
  into, provided that the streams can hold the numbers: no start is by one lower than the start
  written before it, and the differences of the sizes fit.
\<close>

theorem skip_stream_roundtrip:
  assumes "sk_ok sk" and "\<forall>e \<in> set (sk_data sk). map_ok (pr_ranges e)" and "NO_INDEX \<notin> set (path_ids (sk_data sk))"
    and "Compress available sk = Some packed" and "length (all_starts (sk_data packed)) < 2 ^ 31"
    and "- 1 \<notin> set (diffs 0 (all_starts (sk_data packed)))"
    and "list_all int_value_ok (diffs 0 (all_sizes (sk_data packed)))" and "sk_ok container"
  shows "\<exists>streams sk'. write_skip_info available sk = Some streams \<and>
    read_skip_info container streams = Some (Return sk') \<and> sk_ok sk' \<and> sk_data sk' = sk_data packed"
proof -
  obtain sk1 where "Compress available sk = Some sk1" "sk_ok sk1"
    "set (sk_data sk1) = {e \<in> packed_path available ` set (sk_data sk). pr_ranges e \<noteq> []}"
    "\<forall>e \<in> set (sk_data sk1). pr_ranges e \<noteq> [] \<and> map_ok (pr_ranges e)"
    by (rule Compress_data [OF assms(1,2), of available])
  with assms(4) have packed: "sk_ok packed"
    "set (sk_data packed) = {e \<in> packed_path available ` set (sk_data sk). pr_ranges e \<noteq> []}"
    "\<forall>e \<in> set (sk_data packed). pr_ranges e \<noteq> [] \<and> map_ok (pr_ranges e)"
    by simp_all
  have "NO_INDEX \<notin> set (path_ids (sk_data packed))"
    using assms(3) by (auto simp: packed(2) packed_path_def)
  moreover have "\<forall>e \<in> set (sk_data packed). sorted_wrt (<) (map fst (pr_ranges e))"
    using packed(3) by (simp add: map_ok_def)
  ultimately have "\<exists>sk'. read_skip_info container (skip_streams (sk_data packed)) = Some (Return sk') \<and> sk_ok sk' \<and>
      sk_data sk' = sk_data packed"
    using sk_ok_distinct [OF packed(1)] assms(5-8) by (intro read_skip_streams) blast+
  with assms(4) show ?thesis by (simp add: write_skip_info_def)
qed

theorem skip_stream_roundtrip_witness:
  "\<exists>packed streams sk'. Compress (\<lambda>_. False) new_skip_info = Some packed \<and>
     write_skip_info (\<lambda>_. False) new_skip_info = Some streams \<and>
     read_skip_info new_skip_info streams = Some (Return sk') \<and> sk_data sk' = sk_data packed"
proof -
  obtain packed where p: "Compress (\<lambda>_. False) new_skip_info = Some packed"
    "set (sk_data packed) = {e \<in> packed_path (\<lambda>_. False) ` set (sk_data new_skip_info). pr_ranges e \<noteq> []}"
    using Compress_data [OF sk_ok_new, of "\<lambda>_. False"] by (auto simp: new_skip_info_def)
  then have "sk_data packed = []" by (simp add: new_skip_info_def)
  then show ?thesis
    using skip_stream_roundtrip [OF sk_ok_new _ _ p(1) _ _ _ sk_ok_new] p(1)
    by (auto simp: new_skip_info_def all_starts_def all_sizes_def)
qed

end
