(* ===== verification/SkipErrors.thy ===== *)
theory SkipErrors
  imports SkipRevisions
begin

text \<open>
  Skip information that is written without an error to a file that can not be read. The starts of the ranges
  go to a stream of differences on top of the run-length layer, which can not hold the difference -1: it is
  coded as the zero that announces a run.
\<close>

section \<open>A stream that ends too early\<close>













section \<open>Reading the ranges\<close>




section \<open>The property\<close>



end
