(* ===== verification/DictionaryStreams.thy ===== *)
theory DictionaryStreams
  imports PathDictionary RevisionIndex QuickHashBatch
begin

text \<open>
  The dictionaries in the cache file, and what else fills their hashes in one batch (the stream operators of
  \<^verbatim>\<open>IndexPairDictionary.cpp\<close>, \<^verbatim>\<open>StringDictonary.cpp\<close> and \<^verbatim>\<open>PathDictionary.cpp\<close>, \<^verbatim>\<open>RebuildIndexes\<close> and
  \<^verbatim>\<open>Reorder\<close> of the string dictionary). Streams are the lists of their bytes. The contents of the
  buffer of the batch insertion before its first use are a parameter. \<open>None\<close> is undefined behaviour
  or a hash that can not grow. An exception leaves a dictionary behind that is in between; it is not
  modelled.
\<close>

section \<open>Positions as a batch\<close>

lemma hash_values:
  assumes "length vs \<le> 2 ^ 28"
  shows "map (\<lambda>i. vs ! unat i) (batch_indices 0 (length vs)) = vs" and "set (batch_indices 0 (length vs)) = of_nat ` {..<length vs}"
    and "distinct (batch_indices 0 (length vs))" and "NO_INDEX \<notin> set (batch_indices 0 (length vs))"
proof -
  have eq: "batch_indices 0 (length vs) = map of_nat [0..<length vs]"
    by (rule nth_equalityI) (simp_all add: batch_indices_nth)
  show "map (\<lambda>i. vs ! unat i) (batch_indices 0 (length vs)) = vs"
    using assms by (intro nth_equalityI) (simp_all add: eq unat_index)
  show "set (batch_indices 0 (length vs)) = of_nat ` {..<length vs}" by (simp add: eq lessThan_atLeast0)
  show "distinct (batch_indices 0 (length vs))"
    using assms of_nat_inj_on [of "length vs"] by (simp add: eq distinct_map lessThan_atLeast0)
  show "NO_INDEX \<notin> set (batch_indices 0 (length vs))"
  proof
    assume "NO_INDEX \<in> set (batch_indices 0 (length vs))"
    then obtain i where "i < length vs" "(of_nat i :: dword) = NO_INDEX" by (auto simp: eq)
    with assms NO_INDEX_not_position [of i] show False by simp
  qed
qed

text \<open>Entering all values of a pool into an empty hash makes it an index of the pool.\<close>

lemma build_index:
  assumes "index_ok (hf_hash hf) ([] :: 'v list) h" and "distinct vs" and "length vs \<le> 2 ^ 28" and "capacity (qh_grower h) \<le> 2 ^ 26"
  shows "\<exists>h'. qh_insert_range fresh hf vs 0 h = Some h' \<and> index_ok (hf_hash hf) vs h'"
proof -
  let ?val = "\<lambda>i :: dword. vs ! unat i"
  have inv0: "qh_inv (hf_hash hf) (\<lambda>i. ([] :: 'v list) ! unat i) h" and none: "entries h = {}"
    using assms(1) by (auto simp: index_ok_def)
  have inv: "qh_inv (hf_hash hf) ?val h" by (rule qh_inv_cong [OF inv0]) (simp add: none)
  have "hf_agrees hf ?val (entries h)" by (simp only: hf_agrees_def none ball_empty)
  moreover have "set vs \<inter> ?val ` entries h = {}" "set (batch_indices 0 (length vs)) \<inter> entries h = {}" by (simp_all only: none image_empty Int_empty_right)
  moreover have "capacity (qh_grower h) + length vs + (capacity (qh_grower h) + length vs) div 2 \<le> 536870909"
  proof -
    have "length vs \<le> 268435456" "capacity (qh_grower h) \<le> 67108864" using assms(3,4) by simp_all
    then show ?thesis by linarith
  qed
  moreover note V = hash_values [OF assms(3)]
  ultimately obtain h' where "qh_insert_range fresh hf vs 0 h = Some h'" "qh_inv (hf_hash hf) ?val h'" "entries h' = of_nat ` {..<length vs}"
    using qh_insert_range_inv [where fresh = fresh, OF inv _ V(1) assms(2) _ V(3) _ V(4)] none by (auto simp: V(2))
  with assms(3) show ?thesis by (simp add: index_ok_def)
qed

lemma new_capacity: "capacity (qh_grower new_quick_hash) \<le> 2 ^ 26"
  by (simp add: new_quick_hash_def new_prime_grower_def primes_def)

lemma assign_new: "qh_assign target new_quick_hash = new_quick_hash"
  by (simp add: qh_assign_def new_quick_hash_def create_data_def)

section \<open>Pairs\<close>

definition write_pair_dict :: "pair_dict \<Rightarrow> byte list \<times> byte list" where
  "write_pair_dict d =
     (Diff_Flush FlushData (foldl (Diff_Add Integer_Add) (new_diff_out new_packed_out) (of_nat (length (pd_data d)) # map fst (pd_data d))),
      Diff_Flush FlushData (foldl (Diff_Add Integer_Add) (new_diff_out new_packed_out) (map snd (pd_data d))))"

definition read_pairs :: "byte list \<times> byte list \<Rightarrow> (stream_error, (dword \<times> dword) list) result" where
  "read_pairs streams =
     bind_result (Diff_GetValue Integer_GetValue (Diff_Open AutoOpen (fst streams))) (\<lambda>(count, firstStream).
       bind_result (read_values (Diff_GetValue Integer_GetValue) (unat count) firstStream) (\<lambda>(firsts, _).
         bind_result (read_values (Diff_GetValue Integer_GetValue) (unat count) (Diff_Open AutoOpen (snd streams))) (\<lambda>(seconds, _).
           Return (zip firsts seconds))))"

definition read_pair_dict ::
  "(nat \<Rightarrow> nat \<times> dword) \<Rightarrow> pair_dict \<Rightarrow> byte list \<times> byte list \<Rightarrow> (stream_error, pair_dict) result option"
where
  "read_pair_dict fresh target streams =
     (case read_pairs streams of
        Inl e \<Rightarrow> Some (Raise e)
      | Inr data \<Rightarrow>
          map_option (\<lambda>h. Return \<lparr>pd_data = data, pd_index = h\<rparr>)
            (qh_insert_range fresh (pair_functor data) data 0 (qh_assign (pd_index target) new_quick_hash)))"

lemma read_pairs_ok:
  assumes "length (pd_data d) \<le> 2 ^ 28" and "\<forall>(a, b) \<in> set (pd_data d). (a = NO_INDEX \<or> unat a < 2 ^ 30) \<and> (b = NO_INDEX \<or> unat b < 2 ^ 30)"
  shows "read_pairs (write_pair_dict d) = Return (pd_data d)"
proof -
  let ?n = "of_nat (length (pd_data d)) :: dword"
  have n: "unat ?n = length (pd_data d)" using assms(1) by (simp add: unat_index)
  then have "\<forall>i \<in> set (?n # map fst (pd_data d)). i = NO_INDEX \<or> unat i < 2 ^ 30" "\<forall>i \<in> set (map snd (pd_data d)). i = NO_INDEX \<or> unat i < 2 ^ 30"
    using assms by fastforce+
  with assms(1) have "int_storable (diffs 0 (?n # map fst (pd_data d)))" "int_storable (diffs 0 (map snd (pd_data d)))"
    using diffs_storable [of 0 "?n # map fst (pd_data d)"] diffs_storable [of 0 "map snd (pd_data d)"]
    by (auto simp: int_storable_def simp del: diffs.simps)
  note ready = this [THEN diff_int_stream.values_ready]
  obtain r1 where r1: "Diff_GetValue Integer_GetValue (Diff_Open AutoOpen (fst (write_pair_dict d))) = Return (?n, r1)"
    "list_all int_value_ok (diffs (di_lastValue r1) (map fst (pd_data d))) \<and>
     reads (di_base r1) (map fold_sign (diffs (di_lastValue r1) (map fst (pd_data d))))"
    using diff_int_stream.get [OF ready(1)] by (auto simp: write_pair_dict_def)
  obtain r2 where r2: "read_values (Diff_GetValue Integer_GetValue) (length (pd_data d)) r1 = Return (map fst (pd_data d), r2)"
    using diff_int_stream.read_values_ready [OF r1(2)] by auto
  obtain r3 where r3: "read_values (Diff_GetValue Integer_GetValue) (length (pd_data d)) (Diff_Open AutoOpen (snd (write_pair_dict d))) =
      Return (map snd (pd_data d), r3)"
    using diff_int_stream.read_values_ready [OF ready(2)] by (auto simp: write_pair_dict_def)
  show ?thesis by (simp add: read_pairs_def r1(1) n r2 r3 zip_map_fst_snd)
qed

lemma read_pair_dict_ok:
  assumes "pair_dict_ok d" and "\<forall>(a, b) \<in> set (pd_data d). (a = NO_INDEX \<or> unat a < 2 ^ 30) \<and> (b = NO_INDEX \<or> unat b < 2 ^ 30)"
  shows "\<exists>d'. read_pair_dict fresh target (write_pair_dict d) = Some (Return d') \<and> pair_dict_ok d' \<and> pd_data d' = pd_data d"
proof -
  have D: "distinct (pd_data d)" "length (pd_data d) \<le> 2 ^ 28" using pairs.bounded [OF assms(1)] by blast+
  obtain h where "qh_insert_range fresh (pair_functor (pd_data d)) (pd_data d) 0 new_quick_hash = Some h" "index_ok pair_hash (pd_data d) h"
    using build_index [OF _ D new_capacity, of "pair_functor (pd_data d)" fresh] index_ok_new [of pair_hash] pair_functor.hashes by auto
  with read_pairs_ok [OF D(2) assms(2)] show ?thesis by (simp add: read_pair_dict_def assign_new pair_dict_ok_def)
qed

section \<open>Strings\<close>

text \<open>The errors while a dictionary is read: those of the streams and the exceptions of the containers.\<close>

datatype load_error = StreamError stream_error | ContainerError string

definition strnlen :: "byte list \<Rightarrow> nat \<Rightarrow> nat" where
  "strnlen mem n = length (takeWhile (\<lambda>c. c \<noteq> 0) (take n mem))"

text \<open>The offsets of the strings and the strings that are found there, for the hash.\<close>

fun rebuild_offsets :: "byte list \<Rightarrow> nat \<Rightarrow> dword \<Rightarrow> (string, (dword \<times> byte list) list) result" where
  "rebuild_offsets packed 0 offset = Return []"
| "rebuild_offsets packed (Suc n) offset =
     (let len = strnlen (drop (unat offset) packed) (length packed - unat offset);
          behind = offset + of_nat (len + 1) in
      if unat behind > length packed then Raise ''missing nul terminator in string dictionary''
      else map_sum id ((#) (offset, c_string packed (unat offset))) (rebuild_offsets packed n behind))"

text \<open>Without any offsets, the number of strings wraps around and the loop writes outside of the array.\<close>

definition RebuildIndexes :: "(nat \<Rightarrow> nat \<times> dword) \<Rightarrow> string_dict \<Rightarrow> (string, string_dict) result option" where
  "RebuildIndexes fresh d =
     (if offsets d = [] then None
      else
        (case rebuild_offsets (packedStrings d) (unat (of_nat (length (offsets d)) - 1 :: dword)) 0 of
           Inl e \<Rightarrow> Some (Raise e)
         | Inr rebuilt \<Rightarrow>
             (let offs = map fst rebuilt @ drop (length rebuilt) (offsets d) in
              map_option
                (\<lambda>h. Return \<lparr>packedStrings = packedStrings d,
                              offsets = butlast offs @ [of_nat (length (packedStrings d))], sd_index = h\<rparr>)
                (qh_insert_range fresh (string_functor (packedStrings d, offs)) (map snd rebuilt) 0 (qh_clear (sd_index d))))))"

text \<open>The copying loop of \<^verbatim>\<open>Reorder\<close>.\<close>

fun reorder_loop :: "string_dict \<Rightarrow> dword list \<Rightarrow> byte list \<Rightarrow> nat \<Rightarrow> byte list option" where
  "reorder_loop d [] target targetString = Some target"
| "reorder_loop d (sourceIndex # sourceIndices) target targetString =
     (if unat sourceIndex < length (offsets d) \<and> unat (sourceIndex + 1) < length (offsets d)
      then
        (let sourceOffset = offsets d ! unat sourceIndex;
             len = unat (offsets d ! unat (sourceIndex + 1) - sourceOffset) in
         if unat sourceOffset + len \<le> length (packedStrings d)
         then Option.bind (store target targetString (take len (drop (unat sourceOffset) (packedStrings d))))
                (\<lambda>target. reorder_loop d sourceIndices target (targetString + len))
         else None)
      else None)"

definition sd_Reorder :: "(nat \<Rightarrow> nat \<times> dword) \<Rightarrow> string_dict \<Rightarrow> dword list \<Rightarrow> (string, string_dict) result option" where
  "sd_Reorder fresh d sourceIndices =
     (if packedStrings d = [] \<or> length sourceIndices < unat (sd_size d) then None
      else
        Option.bind (reorder_loop d (take (unat (sd_size d)) sourceIndices) (replicate (length (packedStrings d)) 0) 0)
          (\<lambda>target. RebuildIndexes fresh (d\<lparr>packedStrings := target\<rparr>)))"

definition sd_swap :: "string_dict \<Rightarrow> string_dict \<Rightarrow> string_dict \<times> string_dict" where
  "sd_swap d rhs =
     (let (h1, h2) = qh_swap (sd_index d) (sd_index rhs) in
      (\<lparr>packedStrings = packedStrings rhs, offsets = offsets rhs, sd_index = h1\<rparr>,
       \<lparr>packedStrings = packedStrings d, offsets = offsets d, sd_index = h2\<rparr>))"

text \<open>The first stream is a BLOB with the strings, the second has nothing but the number of offsets.\<close>

definition write_string_dict :: "string_dict \<Rightarrow> byte list \<times> byte list" where
  "write_string_dict d =
     (packedStrings d, Diff_Flush FlushData (Diff_AddSizeValue AddSizeValue (new_diff_out new_packed_out) (length (offsets d))))"

definition read_string_dict ::
  "(nat \<Rightarrow> nat \<times> dword) \<Rightarrow> string_dict \<Rightarrow> byte list \<times> byte list \<Rightarrow> (load_error, string_dict) result option"
where
  "read_string_dict fresh target streams =
     (let packed = fst streams in
      if length packed \<ge> unat NO_INDEX then Some (Raise (ContainerError ''data stream to large''))
      else if packed = [] then None
      else
        (case Diff_GetSizeValue GetSizeValue (Diff_Open AutoOpen (snd streams)) of
           Inl e \<Rightarrow> Some (Raise (StreamError e))
         | Inr (offsetCount, _) \<Rightarrow>
             map_option (map_sum ContainerError id)
               (RebuildIndexes fresh
                 \<lparr>packedStrings = packed, offsets = take offsetCount (offsets target) @ replicate (offsetCount - length (offsets target)) 0,
                  sd_index = qh_assign (sd_index target) new_quick_hash\<rparr>)))"

lemma strnlen_at:
  "i < length strs \<Longrightarrow> 0 \<notin> set (strs ! i) \<Longrightarrow>
   strnlen (drop (length (flatten (take i strs))) (flatten strs)) (length (flatten strs) - length (flatten (take i strs))) = length (strs ! i)"
proof -
  assume i: "i < length strs" "0 \<notin> set (strs ! i)"
  have "takeWhile (\<lambda>c. c \<noteq> 0) (strs ! i @ 0 # flatten (drop (Suc i) strs)) = strs ! i"
    using i(2) by (subst takeWhile_append2) auto
  moreover have whole: "take (length (flatten strs) - k) (drop k (flatten strs)) = drop k (flatten strs)" for k by simp
  ultimately show ?thesis using drop_flatten [OF i(1), of "[]"] unfolding strnlen_def whole by (simp only: append_Nil2)
qed

lemma rebuild_offsets_ok:
  assumes len: "length (flatten strs) < 2 ^ 32" and nul: "\<forall>s \<in> set strs. 0 \<notin> set s"
  shows "i + n = length strs \<Longrightarrow>
    rebuild_offsets (flatten strs) n (offset_of strs i) = Return (map (\<lambda>i. (offset_of strs i, strs ! i)) [i..<length strs])"
proof (induction n arbitrary: i)
  case (Suc n)
  then have i: "i < length strs" "0 \<notin> set (strs ! i)" using nul by auto
  have at: "unat (offset_of strs i) = length (flatten (take i strs))" using len by (rule unat_offset_of)
  have "offset_of strs (Suc i) = offset_of strs i + of_nat (length (strs ! i) + 1)"
    using i(1) by (simp add: offset_of_def flatten_take_Suc)
  moreover have "unat (offset_of strs (Suc i)) \<le> length (flatten strs)"
    using unat_offset_of [OF len, of "Suc i"] length_flatten_take [of "Suc i" strs] by simp
  moreover have "c_string (flatten strs) (length (flatten (take i strs))) = strs ! i" using c_string_at [OF i, of "[]"] by simp
  moreover have "[i..<length strs] = i # [Suc i..<length strs]" using i(1) by (rule upt_conv_Cons)
  ultimately show ?case
    using Suc.IH [of "Suc i"] Suc.prems strnlen_at [OF i] by (simp add: Let_def at)
qed simp

lemma offset_of_end: "offset_of strs (length strs) = of_nat (length (flatten strs))"
  by (simp add: offset_of_def)

lemma RebuildIndexes_ok:
  assumes packed: "packedStrings d = flatten strs" "length (flatten strs) < 2 ^ 32" and nul: "\<forall>s \<in> set strs. 0 \<notin> set s"
    and strs: "strs \<noteq> []" "strs ! 0 = []" "distinct strs" "length strs \<le> 2 ^ 28" and offs: "length (offsets d) = length strs + 1"
    and h: "qh_clear (sd_index d) = new_quick_hash"
  shows "\<exists>d'. RebuildIndexes fresh d = Some (Return d') \<and> sd_ok d' \<and> sd_contents d' = strs"
proof -
  let ?rebuilt = "map (\<lambda>i. (offset_of strs i, strs ! i)) [0..<length strs]"
  let ?offs = "map fst ?rebuilt @ drop (length ?rebuilt) (offsets d)"
  have count: "unat (of_nat (length (offsets d)) - 1 :: dword) = length strs" using strs(4) by (simp add: offs unat_index)
  have loop: "rebuild_offsets (packedStrings d) (length strs) 0 = Return ?rebuilt"
    using rebuild_offsets_ok [OF packed(2) nul, of 0 "length strs"] by (simp add: packed(1) offset_of_def)
  have vals: "map snd ?rebuilt = strs" by (simp add: comp_def map_nth)
  obtain h where h': "qh_insert_range fresh (string_functor (packedStrings d, ?offs)) strs 0 new_quick_hash = Some h" "index_ok string_hash strs h"
    using build_index [OF _ strs(3,4) new_capacity, of "string_functor (packedStrings d, ?offs)" fresh] index_ok_new [of string_hash]
      string_functor.hashes [of "(packedStrings d, ?offs)"] by metis
  have "length (drop (length strs) (offsets d)) = Suc 0" by (simp add: offs)
  then obtain x where "drop (length ?rebuilt) (offsets d) = [x]" by (auto simp: length_Suc_conv simp del: length_drop)
  then have "butlast ?offs = map fst ?rebuilt" by (simp only: butlast_snoc)
  then have all: "butlast ?offs @ [of_nat (length (packedStrings d))] = map (offset_of strs) [0..<length strs + 1]"
    by (simp add: comp_def packed(1) offset_of_end)
  let ?d = "\<lparr>packedStrings = packedStrings d, offsets = butlast ?offs @ [of_nat (length (packedStrings d))], sd_index = h\<rparr>"
  have "layout (packedStrings d) (map (offset_of strs) [0..<length strs + 1]) strs"
    using packed nul by (auto simp: layout_def)
  from sd_okI [OF this packed(1) strs(1,2) h'(2)] have ok: "sd_ok ?d" "sd_contents ?d = strs" unfolding all by simp_all
  have "offsets d \<noteq> []" using offs by auto
  then have "RebuildIndexes fresh d = map_option (\<lambda>h. Return \<lparr>packedStrings = packedStrings d,
      offsets = butlast ?offs @ [of_nat (length (packedStrings d))], sd_index = h\<rparr>)
      (qh_insert_range fresh (string_functor (packedStrings d, ?offs)) (map snd ?rebuilt) 0 (qh_clear (sd_index d)))"
    by (simp only: RebuildIndexes_def count loop if_False sum.case Let_def)
  then have "RebuildIndexes fresh d = Some (Return ?d)" unfolding vals h h'(1) by simp
  with ok show ?thesis by blast
qed

lemma sd_okD:
  assumes "sd_ok d"
  shows "packedStrings d = flatten (sd_contents d)" "length (flatten (sd_contents d)) < 2 ^ 32" "\<forall>s \<in> set (sd_contents d). 0 \<notin> set s"
    "sd_contents d \<noteq> []" "sd_contents d ! 0 = []" "distinct (sd_contents d)" "length (sd_contents d) \<le> 2 ^ 28"
    "length (offsets d) = length (sd_contents d) + 1"
  using assms strings.bounded [OF assms] layout_length [of "packedStrings d" "offsets d"] unfolding sd_ok_def layout_def by auto

lemma clear_new [simp]: "qh_clear new_quick_hash = new_quick_hash"
  by (simp add: qh_clear_def)

lemma read_string_dict_ok:
  assumes ok: "sd_ok d" and large: "length (packedStrings d) < 2 ^ 32 - 1"
  shows "\<exists>d'. read_string_dict fresh target (write_string_dict d) = Some (Return d') \<and> sd_ok d' \<and> sd_contents d' = sd_contents d"
proof -
  note D = sd_okD [OF ok]
  let ?n = "length (offsets d)"
  have n: "?n < 2 ^ 32" using D(7,8) by simp
  obtain bs where bs: "snd (write_string_dict d) = InternalAdd (of_nat ?n) @ bs"
    using diff_dword_stream.sizes [of "[?n]"] diff_dword_stream.flush [of _ _ "[]"]
    by (simp add: write_string_dict_def dword_storable_def) blast
  have size: "Diff_GetSizeValue GetSizeValue (Diff_Open AutoOpen (snd (write_string_dict d))) = Return (?n, Diff_Open AutoOpen bs)"
    unfolding bs by (rule diff_dword_stream.getSize [OF n])
  have packed: "fst (write_string_dict d) = packedStrings d" by (simp add: write_string_dict_def)
  have "length (packedStrings d) < unat NO_INDEX" using large by (simp add: NO_INDEX_def)
  moreover have "packedStrings d \<noteq> []" using D(1,4) by (cases "sd_contents d") simp_all
  moreover
  let ?d = "\<lparr>packedStrings = packedStrings d, offsets = take ?n (offsets target) @ replicate (?n - length (offsets target)) 0,
      sd_index = qh_assign (sd_index target) new_quick_hash\<rparr>"
  have "length (offsets ?d) = length (sd_contents d) + 1" by (simp add: D(8) min_def)
  then obtain d' where d': "RebuildIndexes fresh ?d = Some (Return d')" "sd_ok d'" "sd_contents d' = sd_contents d"
    using RebuildIndexes_ok [where fresh = fresh and d = ?d, OF _ D(2-7)] by (auto simp: D(1,8) assign_new)
  ultimately have "read_string_dict fresh target (write_string_dict d) = Some (Return d')"
    by (simp add: read_string_dict_def packed size)
  with d' show ?thesis by blast
qed

subsection \<open>A new order\<close>

lemma sd_span:
  assumes ok: "sd_ok d" and i: "unat (i :: dword) < length (sd_contents d)"
  shows "unat (i + 1) = unat i + 1"
    and "unat (offsets d ! unat i) = length (flatten (take (unat i) (sd_contents d)))"
    and "unat (offsets d ! unat (i + 1) - offsets d ! unat i) = length (sd_contents d ! unat i) + 1"
    and "take (length (sd_contents d ! unat i) + 1) (drop (unat (offsets d ! unat i)) (packedStrings d)) = sd_contents d ! unat i @ [0]"
    and "length (flatten (take (unat i) (sd_contents d))) + length (sd_contents d ! unat i) + 1 \<le> length (packedStrings d)"
proof -
  let ?strs = "sd_contents d"
  note D = sd_okD [OF ok]
  show next_i: "unat (i + 1) = unat i + 1"
    using i D(7) by (simp add: unat_word_ariths)
  have at: "unat (offsets d ! j) = length (flatten (take j ?strs))" if "j \<le> length ?strs" for j using sd_offset [OF ok that] .
  from at i show off: "unat (offsets d ! unat i) = length (flatten (take (unat i) ?strs))" by simp
  have step: "length (flatten (take (Suc (unat i)) ?strs)) = length (flatten (take (unat i) ?strs)) + length (?strs ! unat i) + 1"
    using i by (simp add: flatten_take_Suc)
  have "unat (offsets d ! Suc (unat i)) = length (flatten (take (Suc (unat i)) ?strs))" using at i by simp
  then show "unat (offsets d ! unat (i + 1) - offsets d ! unat i) = length (?strs ! unat i) + 1"
    using off step by (simp add: next_i unat_sub word_le_nat_alt)
  show "take (length (?strs ! unat i) + 1) (drop (unat (offsets d ! unat i)) (packedStrings d)) = ?strs ! unat i @ [0]"
    using drop_flatten [OF i, of "[]"] by (simp add: off D(1))
  show "length (flatten (take (unat i) ?strs)) + length (?strs ! unat i) + 1 \<le> length (packedStrings d)"
    using step length_flatten_take [of "Suc (unat i)" ?strs] D(1) by simp
qed

lemma reorder_loop_ok:
  assumes ok: "sd_ok d"
  shows "\<forall>i \<in> set src. unat i < length (sd_contents d) \<Longrightarrow>
    length rest = length (flatten (map (\<lambda>i. sd_contents d ! unat i) src)) \<Longrightarrow>
    reorder_loop d src (flatten old @ rest) (length (flatten old)) = Some (flatten (old @ map (\<lambda>i. sd_contents d ! unat i) src))"
proof (induction src arbitrary: old rest)
  case (Cons i src)
  let ?s = "sd_contents d ! unat i"
  have i: "unat i < length (sd_contents d)" using Cons.prems(1) by simp
  note S = sd_span [OF ok i]
  have off: "unat i < length (offsets d)" "unat (i + 1) < length (offsets d)" using i S(1) sd_okD(8) [OF ok] by simp_all
  have "store (flatten old @ rest) (length (flatten old)) (?s @ [0]) = Some (flatten (old @ [?s]) @ drop (length ?s + 1) rest)"
    using Cons.prems(2) by (subst store_ok) simp_all
  moreover have "length (drop (length ?s + 1) rest) = length (flatten (map (\<lambda>i. sd_contents d ! unat i) src))" using Cons.prems(2) by simp
  then have "reorder_loop d src (flatten (old @ [?s]) @ drop (length ?s + 1) rest) (length (flatten (old @ [?s]))) =
      Some (flatten ((old @ [?s]) @ map (\<lambda>i. sd_contents d ! unat i) src))"
    using Cons.prems(1) by (intro Cons.IH) simp_all
  ultimately show ?case
    using off S(5) unfolding reorder_loop.simps Let_def S(3,4) by (simp add: S(2))
qed simp

lemma length_flatten: "length (flatten strs) = sum_list (map (\<lambda>s. length s + 1) strs)"
  by (induction strs) simp_all

lemma length_flatten_perm: "mset as = mset bs \<Longrightarrow> length (flatten as) = length (flatten bs)"
  by (metis length_flatten mset_map sum_mset_sum_list)

text \<open>
  C13. Reordering the strings of a dictionary. For every order of the indices that keeps the empty
  string in front, the string array is rewritten without an access outside of it, the offsets and the
  hash are rebuilt, and the dictionary is well-formed again; index i now has the string that index
  \<open>sourceIndices[i]\<close> had, with its length, and is found under it.
\<close>

theorem string_dictionary_reorder:
  assumes ok: "sd_ok d" and order: "distinct src" "set src = of_nat ` {..<length (sd_contents d)}" "src ! 0 = 0"
  shows "\<exists>d'. sd_Reorder fresh d src = Some (Return d') \<and> sd_ok d' \<and> sd_size d' = sd_size d \<and>
    (\<forall>i < length src. sd_get d' (of_nat i) = sd_get d (src ! i) \<and> sd_GetLength d' (of_nat i) = sd_GetLength d (src ! i) \<and>
      sd_Find d' (sd_get d (src ! i)) = Some (of_nat i))"
proof -
  let ?strs = "sd_contents d"
  let ?new = "map (\<lambda>i. ?strs ! unat i) src"
  note D = sd_okD [OF ok]
  have inside: "\<forall>i \<in> set src. unat i < length ?strs"
    using D(7) unfolding order(2) by (auto simp: unat_index)
  have n: "length src = length ?strs"
  proof -
    have "length src = card (of_nat ` {..<length ?strs} :: dword set)" using distinct_card [OF order(1)] order(2) by simp
    also have "\<dots> = length ?strs" using D(7) by (subst card_image) (simp_all add: of_nat_inj_on)
    finally show ?thesis .
  qed
  have "mset src = mset (map of_nat [0..<length ?strs])"
    using order D(7) of_nat_inj_on [of "length ?strs"]
    by (subst set_eq_iff_mset_eq_distinct [symmetric]) (simp_all add: distinct_map lessThan_atLeast0)
  then have "mset ?new = mset (map (\<lambda>i. ?strs ! unat (of_nat i :: dword)) [0..<length ?strs])"
    by (simp only: mset_map image_mset.compositionality comp_def)
  also have "map (\<lambda>i. ?strs ! unat (of_nat i :: dword)) [0..<length ?strs] = ?strs"
    using D(7) by (intro nth_equalityI) (simp_all add: unat_index)
  finally have perm: "mset ?new = mset ?strs" .
  then have same: "set ?new = set ?strs" "distinct ?new" "length (flatten ?new) = length (flatten ?strs)"
    using D(6) mset_eq_setD [OF perm] mset_eq_imp_distinct_iff [OF perm] length_flatten_perm [OF perm] by blast+
  have "0 < length ?strs" using D(4) by simp
  then have first: "?new \<noteq> []" "?new ! 0 = []" using n order(3) D(5) by auto
  have size: "unat (sd_size d) = length ?strs" using D(7,8) by (simp add: sd_size_def unat_index)
  have "length (packedStrings d) = length (flatten ?new)" by (simp only: D(1) same(3))
  then have "reorder_loop d src (replicate (length (packedStrings d)) 0) 0 = Some (flatten ?new)"
    using reorder_loop_ok [OF ok inside, of "replicate (length (packedStrings d)) 0" "[]"] by simp
  moreover obtain d' where d': "RebuildIndexes fresh (d\<lparr>packedStrings := flatten ?new\<rparr>) = Some (Return d')" "sd_ok d'" "sd_contents d' = ?new"
  proof -
    have "qh_clear (sd_index d) = new_quick_hash"
    proof -
      have ix: "index_ok string_hash ?strs (sd_index d)" using ok by (simp add: sd_ok_def)
      then have "entries (sd_index d) \<noteq> {}" using D(4) by (auto simp: index_ok_def)
      then have "used (qh_grower (sd_index d)) > 0" using ix qh_invD(3) by (fastforce simp: index_ok_def)
      then show ?thesis by (simp add: qh_clear_def)
    qed
    then show ?thesis
      using RebuildIndexes_ok [where fresh = fresh and d = "d\<lparr>packedStrings := flatten ?new\<rparr>" and strs = ?new] D same first n that by auto
  qed
  moreover have "packedStrings d \<noteq> []" using D(1,4) by (cases ?strs) simp_all
  ultimately have run: "sd_Reorder fresh d src = Some (Return d')" using n size by (simp add: sd_Reorder_def)
  have len: "length (sd_contents d') = length ?strs" by (simp add: d'(3) n)
  then have "sd_size d' = sd_size d" using sd_okD(8) [OF d'(2)] D(8) by (simp add: sd_size_def)
  moreover have "sd_get d' (of_nat i) = sd_get d (src ! i) \<and> sd_GetLength d' (of_nat i) = sd_GetLength d (src ! i) \<and>
      sd_Find d' (sd_get d (src ! i)) = Some (of_nat i)" if i: "i < length src" for i
  proof -
    have s: "unat (src ! i) < length ?strs" using inside i by simp
    have i': "i < length (sd_contents d')" "i < length ?new" using i len n by simp_all
    note old = sd_get_at [OF ok s] and new = sd_read [OF d'(2) i'(1)]
    have str: "sd_contents d' ! i = ?strs ! unat (src ! i)" using i by (simp add: d'(3))
    have "sd_Find d' (?new ! i) = Some (position ?new (?new ! i))" using strings.finds [OF d'(2)] by (simp only: d'(3))
    then have "sd_Find d' (?strs ! unat (src ! i)) = Some (of_nat i)" using position_nth [OF same(2) i'(2)] i by simp
    with old new str show ?thesis by (simp add: word_unat_eq_iff)
  qed
  ultimately show ?thesis using run d'(2) by blast
qed

theorem string_dictionary_reorder_witness:
  "\<exists>d d'. new_string_dict = Some d \<and> sd_Reorder (\<lambda>i. (0, 0)) d [0] = Some (Return d') \<and> sd_get d' 0 = [] \<and> sd_Find d' [] = Some 0"
proof -
  obtain d where d: "new_string_dict = Some d" "sd_ok d" "sd_contents d = [[]]"
    using new_string_dict_ok by blast
  have order: "distinct [0 :: dword]" "set [0 :: dword] = of_nat ` {..<length (sd_contents d)}" "[0 :: dword] ! 0 = 0"
    by (simp_all add: d(3) lessThan_Suc)
  have "sd_get d 0 = []" using sd_read(1) [OF d(2), of 0] d(3) by simp
  with string_dictionary_reorder [OF d(2) order] d(1) show ?thesis by fastforce
qed

section \<open>Paths\<close>

definition write_path_dict :: "path_dict \<Rightarrow> (byte list \<times> byte list) \<times> (byte list \<times> byte list)" where
  "write_path_dict d = (write_string_dict (pathElements d), write_pair_dict (paths d))"

definition read_path_dict ::
  "(nat \<Rightarrow> nat \<times> dword) \<Rightarrow> path_dict \<Rightarrow> (byte list \<times> byte list) \<times> (byte list \<times> byte list) \<Rightarrow> (load_error, path_dict) result option"
where
  "read_path_dict fresh target streams =
     and_then (read_string_dict fresh (pathElements target) (fst streams)) (\<lambda>elements.
       and_then (map_option (map_sum StreamError id) (read_pair_dict fresh (paths target) (snd streams))) (\<lambda>p.
         let d = \<lparr>pathElements = elements, paths = p\<rparr> in
         case pa_Validate d of Inl e \<Rightarrow> Some (Raise (ContainerError e)) | Inr _ \<Rightarrow> Some (Return d)))"

lemma pa_ok_valid: "pa_ok d \<Longrightarrow> pa_Validate d = Return ()"
proof -
  assume ok: "pa_ok d"
  note D = pa_okD [OF ok]
  have sizes: "unat (pa_size d) = path_count d" "unat (sd_size (pathElements d)) = length (elements_of d)"
    using D(7) sd_okD(7,8) [OF D(1)] by (simp_all add: pa_size_def pd_size_def sd_size_def unat_index)
  have "entry_valid d (entry d i)" if i: "i < path_count d" for i
  proof (cases "i = 0")
    case True
    have "0 < length (elements_of d)" using sd_okD(4) [OF D(1)] by simp
    then show ?thesis using True D(4) sizes by (simp add: entry_valid_def word_le_nat_alt)
  next
    case False
    with D(5) [of i] D(6) [of i] i show ?thesis by (simp add: entry_valid_def word_le_nat_alt sizes)
  qed
  then show ?thesis by (simp add: pa_Validate_def list_all_length)
qed

text \<open>
  C11. A path dictionary survives the cache file. Written to its four streams and read back, into any
  other dictionary, with the hashes rebuilt in batches, it passes the validation, is well-formed, has the same
  paths at the same indices, and finds every child of every path at the index where the original
  dictionary does.
\<close>

theorem path_dictionary_file_roundtrip:
  assumes "pa_ok d" and "length (packedStrings (pathElements d)) < 2 ^ 32 - 1"
  shows "\<exists>d'. read_path_dict fresh target (write_path_dict d) = Some (Return d') \<and> pa_ok d' \<and> pa_size d' = pa_size d \<and>
    (\<forall>i < path_count d. path_elems d' i = path_elems d i) \<and> (\<forall>parent element. pa_Find d' parent element = pa_Find d parent element)"
proof -
  note D = pa_okD [OF assms(1)]
  obtain s where s: "read_string_dict fresh (pathElements target) (write_string_dict (pathElements d)) = Some (Return s)" "sd_ok s"
    "sd_contents s = elements_of d"
    using read_string_dict_ok [OF D(1) assms(2)] by blast
  have "\<forall>(a, b) \<in> set (pd_data (paths d)). (a = NO_INDEX \<or> unat a < 2 ^ 30) \<and> (b = NO_INDEX \<or> unat b < 2 ^ 30)"
  proof (clarsimp simp: in_set_conv_nth)
    fix a b i
    assume i: "i < path_count d" "entry d i = (a, b)"
    show "(a = NO_INDEX \<or> unat a < 1073741824) \<and> (b = NO_INDEX \<or> unat b < 1073741824)"
      using i D(4) D(5,6) [of i] D(7) sd_okD(7) [OF D(1)] by (cases "i = 0") auto
  qed
  then obtain p where p: "read_pair_dict fresh (paths target) (write_pair_dict (paths d)) = Some (Return p)" "pair_dict_ok p" "pd_data p = pd_data (paths d)"
    using read_pair_dict_ok [OF D(2)] by blast
  let ?d = "\<lparr>pathElements = s, paths = p\<rparr>"
  have ok: "pa_ok ?d" using assms(1) s(2,3) p(2,3) by (simp add: pa_ok_def)
  have "path_elems ?d i = path_elems d i" if "i < path_count d" for i
    using that s(3) p(3) by (intro extends_elems [OF assms(1) ok]) (simp_all add: extends_def)
  moreover have "pa_Find ?d parent element = pa_Find d parent element" for parent element
    by (simp add: pa_Find_def strings.finds s(2,3) D(1) pairs.finds p(2,3) D(2))
  moreover have "read_path_dict fresh target (write_path_dict d) = Some (Return ?d)"
    using s(1) p(1) pa_ok_valid [OF ok] by (simp add: read_path_dict_def write_path_dict_def)
  moreover have "pa_size ?d = pa_size d" by (simp add: pa_size_def pd_size_def p(3))
  ultimately show ?thesis using ok by blast
qed

theorem path_dictionary_file_roundtrip_witness:
  "\<exists>d d'. new_path_dict = Some (Return d) \<and> read_path_dict (\<lambda>i. (0, 0)) d (write_path_dict d) = Some (Return d') \<and>
     pa_size d' = 1 \<and> path_elems d' 0 = []"
proof -
  obtain d where d: "new_path_dict = Some (Return d)" "pa_ok d" "path_count d = 1" "elements_of d = [[]]"
    using new_path_dict_ok by blast
  then have "length (packedStrings (pathElements d)) < 2 ^ 32 - 1" using sd_okD(1) [OF pa_okD(1) [OF d(2)]] by simp
  from path_dictionary_file_roundtrip [OF d(2) this, of "\<lambda>i. (0, 0)" d] d(1,3) show ?thesis
    by (fastforce simp: pa_size_def pd_size_def)
qed

end
