(* ===== verification/DictionaryMerge.thy ===== *)
theory DictionaryMerge
  imports PathDictionary QuickHashMap
begin

text \<open>
  Merging the dictionaries of two log caches (\<^verbatim>\<open>CStringDictionary::Merge\<close>, \<^verbatim>\<open>CPathDictionary::Merge\<close> in
  \<^verbatim>\<open>src/src/LogCache/Containers\<close>): the entries of the source are added to the destination, and a map
  from the indices of the source to those of the destination is returned. \<open>None\<close> is a hash that can not grow,
  or an entry of the source that refers to an index that has not been mapped: the end of the map is
  dereferenced.
\<close>

section \<open>The operations\<close>

type_synonym index_mapping = "dword hash_map"

fun sd_merge_loop ::
  "string_dict \<Rightarrow> nat \<Rightarrow> dword \<Rightarrow> index_mapping \<Rightarrow> string_dict \<Rightarrow> (string, index_mapping \<times> string_dict) result option"
where
  "sd_merge_loop source 0 i mapping d = Some (Return (mapping, d))"
| "sd_merge_loop source (Suc n) i mapping d =
     and_then (sd_AutoInsert d (sd_get source i)) (\<lambda>(j, d).
       Option.bind (qm_insert mapping i j) (\<lambda>mapping. sd_merge_loop source n (i + 1) mapping d))"

definition sd_Merge :: "string_dict \<Rightarrow> string_dict \<Rightarrow> (string, index_mapping \<times> string_dict) result option" where
  "sd_Merge d source =
     Option.bind (qm_insert new_hash_map NO_INDEX NO_INDEX) (\<lambda>mapping. sd_merge_loop source (unat (sd_size source)) 0 mapping d)"

definition mapped :: "index_mapping \<Rightarrow> dword \<Rightarrow> dword option" where
  "mapped mapping index = Option.bind (qm_find mapping index) (qm_value mapping)"

fun pa_merge_loop ::
  "path_dict \<Rightarrow> index_mapping \<Rightarrow> nat \<Rightarrow> dword \<Rightarrow> index_mapping \<Rightarrow> pair_dict \<Rightarrow> (string, index_mapping \<times> pair_dict) result option"
where
  "pa_merge_loop source elementMapping 0 i mapping p = Some (Return (mapping, p))"
| "pa_merge_loop source elementMapping (Suc n) i mapping p =
     (let sourcePath = pd_get (paths source) i in
      Option.bind (mapped mapping (fst sourcePath)) (\<lambda>parent.
      Option.bind (mapped elementMapping (snd sourcePath)) (\<lambda>element.
        and_then (pd_AutoInsert p (parent, element)) (\<lambda>(j, p).
          Option.bind (qm_insert mapping i j) (\<lambda>mapping. pa_merge_loop source elementMapping n (i + 1) mapping p)))))"

definition pa_Merge :: "path_dict \<Rightarrow> path_dict \<Rightarrow> (string, index_mapping \<times> path_dict) result option" where
  "pa_Merge d source =
     Option.bind (qm_insert new_hash_map 0 0) (\<lambda>mapping.
     Option.bind (qm_insert mapping NO_INDEX NO_INDEX) (\<lambda>mapping.
       and_then (sd_Merge (pathElements d) (pathElements source)) (\<lambda>(elementMapping, elements).
         and_then (pa_merge_loop source elementMapping (unat (pa_size source) - 1) 1 mapping (paths d)) (\<lambda>(mapping, p).
           Some (Return (mapping, \<lparr>pathElements = elements, paths = p\<rparr>))))))"

section \<open>Mappings\<close>

text \<open>A mapping of the first \<open>n\<close> indices and of \<^verbatim>\<open>NO_INDEX\<close>.\<close>

definition mapping_ok :: "nat \<Rightarrow> (nat \<Rightarrow> dword \<Rightarrow> bool) \<Rightarrow> index_mapping \<Rightarrow> bool" where
  "mapping_ok n R m \<longleftrightarrow>
     qm_ok m \<and> length (qm_data m) = n + 1 \<and> qm_map m NO_INDEX = Some NO_INDEX \<and>
     (\<forall>i. qm_map m i \<noteq> None \<longrightarrow> i = NO_INDEX \<or> unat i < n) \<and> (\<forall>i < n. \<exists>j. qm_map m (of_nat i) = Some j \<and> R i j)"

lemma mapping_ok_mono: "mapping_ok n R m \<Longrightarrow> (\<And>i j. i < n \<Longrightarrow> R i j \<Longrightarrow> R' i j) \<Longrightarrow> mapping_ok n R' m"
  unfolding mapping_ok_def by blast

lemma mapping_ok_none: "\<exists>m. qm_insert new_hash_map NO_INDEX NO_INDEX = Some m \<and> mapping_ok 0 R m"
  using qm_insert_ok [OF qm_ok_new(1), of NO_INDEX NO_INDEX] by (auto simp: qm_ok_new(2,3) mapping_ok_def split: if_splits)

lemma mapping_ok_Suc:
  assumes m: "mapping_ok n R m" and n: "n + 1 < 2 ^ 28" and j: "R n j"
  shows "\<exists>m'. qm_insert m (of_nat n) j = Some m' \<and> mapping_ok (Suc n) R m'"
proof -
  have un: "unat (of_nat n :: dword) = n" "(of_nat n :: dword) \<noteq> NO_INDEX" using n by (simp_all add: unat_index NO_INDEX_not_position)
  have none: "qm_map m (of_nat n) = None"
    using m un unfolding mapping_ok_def by (metis less_irrefl)
  obtain m' where m': "qm_insert m (of_nat n) j = Some m'" "qm_ok m'" "qm_data m' = qm_data m @ [(of_nat n, j)]"
    "qm_map m' = (qm_map m)(of_nat n \<mapsto> j)"
    using qm_insert_ok [OF _ none, of j] m n by (auto simp: mapping_ok_def)
  have "\<exists>k. qm_map m' (of_nat i) = Some k \<and> R i k" if i: "i < Suc n" for i
  proof (cases "i = n")
    case True
    with j show ?thesis by (simp add: m'(4))
  next
    case False
    then have "(of_nat i :: dword) \<noteq> of_nat n" using i n by (simp add: of_nat_eq_index)
    moreover have "\<exists>k. qm_map m (of_nat i) = Some k \<and> R i k" using m i False by (auto simp: mapping_ok_def)
    ultimately show ?thesis by (simp add: m'(4))
  qed
  moreover have "i = NO_INDEX \<or> unat i < Suc n" if "qm_map m' i \<noteq> None" for i
    using that m un(1) unfolding mapping_ok_def m'(4) by (cases "i = of_nat n") (auto intro: less_SucI)
  moreover have "qm_map m' NO_INDEX = Some NO_INDEX" using m un(2) by (simp add: m'(4) mapping_ok_def)
  ultimately show ?thesis using m m'(1-3) by (auto simp: mapping_ok_def)
qed

lemma mapped_ok: "qm_ok m \<Longrightarrow> mapped m i = qm_map m i"
  by (rule qm_find_cases [of m i]) (simp_all add: mapped_def qm_value_def)

section \<open>Strings\<close>

definition string_room :: "string_dict \<Rightarrow> nat \<Rightarrow> nat \<Rightarrow> bool" where
  "string_room d strs chars \<longleftrightarrow> length (sd_contents d) + strs \<le> 2 ^ 28 \<and> length (packedStrings d) + chars + 8 < 2 ^ 32 - 1"

lemma sd_auto_insert_room:
  assumes "sd_ok d" and "0 \<notin> set s" and "string_room d (Suc n) (length s + 1 + chars)"
  obtains j d' where "sd_AutoInsert d s = Some (Return (of_nat j, d'))" "sd_ok d'" "j < length (sd_contents d')" "sd_contents d' ! j = s"
    "take (length (sd_contents d)) (sd_contents d') = sd_contents d" "string_room d' n chars"
proof -
  have "sd_room d s" using assms(2,3) by (simp add: string_room_def sd_room_def)
  then obtain j d' where d': "sd_AutoInsert d s = Some (Return (of_nat j, d'))" "sd_ok d'"
    "sd_contents d' = (if s \<in> set (sd_contents d) then sd_contents d else sd_contents d @ [s])" "j < length (sd_contents d')" "sd_contents d' ! j = s"
    using strings.auto_inserts [OF assms(1)] by (auto simp: sd_AutoInsert_def)
  have "packedStrings d' = flatten (sd_contents d')" "packedStrings d = flatten (sd_contents d)" using d'(2) assms(1) by (auto simp: sd_ok_def)
  then have "string_room d' n chars" using assms(3) by (auto simp: string_room_def d'(3))
  with d' show thesis by (intro that) simp_all
qed

lemma sd_merge_loop_ok:
  assumes src: "sd_ok source"
  shows "i + n = length (sd_contents source) \<Longrightarrow> sd_ok d \<Longrightarrow> string_room d n (length (flatten (drop i (sd_contents source)))) \<Longrightarrow>
    mapping_ok i (\<lambda>i j. unat j < length (sd_contents d) \<and> sd_contents d ! unat j = sd_contents source ! i) m \<Longrightarrow>
    length (sd_contents source) + 1 < 2 ^ 28 \<Longrightarrow>
    \<exists>m' d'. sd_merge_loop source n (of_nat i) m d = Some (Return (m', d')) \<and> sd_ok d' \<and>
      take (length (sd_contents d)) (sd_contents d') = sd_contents d \<and>
      mapping_ok (length (sd_contents source)) (\<lambda>i j. unat j < length (sd_contents d') \<and> sd_contents d' ! unat j = sd_contents source ! i) m'"
proof (induction n arbitrary: i d m)
  case (Suc n)
  let ?strs = "sd_contents source"
  have i: "i < length ?strs" using Suc.prems(1) by simp
  have flat: "length (flatten (drop i ?strs)) = length (?strs ! i) + 1 + length (flatten (drop (Suc i) ?strs))"
    using i by (simp add: Cons_nth_drop_Suc [symmetric])
  have nul: "0 \<notin> set (?strs ! i)" using src i by (auto simp: sd_ok_def layout_def)
  obtain j d1 where d1: "sd_AutoInsert d (?strs ! i) = Some (Return (of_nat j, d1))" "sd_ok d1" "j < length (sd_contents d1)"
    "sd_contents d1 ! j = ?strs ! i" "take (length (sd_contents d)) (sd_contents d1) = sd_contents d"
    "string_room d1 n (length (flatten (drop (Suc i) ?strs)))"
    using sd_auto_insert_room [OF Suc.prems(2) nul] Suc.prems(3) unfolding flat by blast
  have j: "unat (of_nat j :: dword) = j" using d1(3) strings.bounded [OF d1(2)] by (simp add: unat_index)
  let ?R = "\<lambda>i j. unat j < length (sd_contents d1) \<and> sd_contents d1 ! unat j = ?strs ! i"
  have "mapping_ok i ?R m"
    using Suc.prems(4) by (rule mapping_ok_mono) (use take_eq_nth [OF d1(5)] in auto)
  then obtain m1 where m1: "qm_insert m (of_nat i) (of_nat j) = Some m1" "mapping_ok (Suc i) ?R m1"
    using mapping_ok_Suc [of i ?R m "of_nat j"] i Suc.prems(5) d1(3,4) j by auto
  have "Suc i + n = length ?strs" using Suc.prems(1) by simp
  from Suc.IH [OF this d1(2,6) m1(2) Suc.prems(5)] obtain m' d' where
    d': "sd_merge_loop source n (of_nat (Suc i)) m1 d1 = Some (Return (m', d'))" "sd_ok d'"
      "take (length (sd_contents d1)) (sd_contents d') = sd_contents d1"
      "mapping_ok (length ?strs) (\<lambda>i j. unat j < length (sd_contents d') \<and> sd_contents d' ! unat j = ?strs ! i) m'" by blast
  have "sd_get source (of_nat i) = ?strs ! i" by (rule sd_read(1) [OF src i])
  then have "sd_merge_loop source (Suc n) (of_nat i) m d = Some (Return (m', d'))"
    using d1(1) m1(1) d'(1) by (simp add: add.commute)
  moreover have "take (length (sd_contents d)) (sd_contents d') = sd_contents d"
    using d1(5) d'(3) by (rule take_trans)
  ultimately show ?case using d'(2,4) by blast
qed simp

lemma sd_Merge_ok:
  assumes src: "sd_ok source" and d: "sd_ok d" and room: "string_room d (length (sd_contents source)) (length (packedStrings source))"
    and small: "length (sd_contents source) + 1 < 2 ^ 28"
  shows "\<exists>m' d'. sd_Merge d source = Some (Return (m', d')) \<and> sd_ok d' \<and>
      take (length (sd_contents d)) (sd_contents d') = sd_contents d \<and>
      mapping_ok (length (sd_contents source)) (\<lambda>i j. unat j < length (sd_contents d') \<and> sd_contents d' ! unat j = sd_contents source ! i) m'"
proof -
  let ?R = "\<lambda>i j. unat j < length (sd_contents d) \<and> sd_contents d ! unat j = sd_contents source ! i"
  obtain m where m: "qm_insert new_hash_map NO_INDEX NO_INDEX = Some m" "mapping_ok 0 ?R m"
    using mapping_ok_none by blast
  have "packedStrings source = flatten (sd_contents source)" "length (offsets source) = length (sd_contents source) + 1"
    using src layout_length by (auto simp: sd_ok_def)
  moreover from this(2) small have "unat (sd_size source) = length (sd_contents source)" by (simp add: sd_size_def unat_index)
  ultimately show ?thesis
    using sd_merge_loop_ok [OF src, of 0 "length (sd_contents source)" d m] d room m small by (simp add: sd_Merge_def)
qed

section \<open>Paths\<close>

text \<open>An entry whose parent and element are in the dictionary: found, or added at the end.\<close>

lemma pair_auto_child:
  assumes ok: "pa_ok d" and p: "unat p < path_count d" and e: "unat e < length (elements_of d)" and room: "path_count d < 2 ^ 28"
  shows "\<exists>j p'. pd_AutoInsert (paths d) (p, e) = Some (Return (of_nat j, p')) \<and> pa_ok (d\<lparr>paths := p'\<rparr>) \<and> extends d (d\<lparr>paths := p'\<rparr>) \<and>
    j < length (pd_data p') \<and> length (pd_data p') \<le> path_count d + 1 \<and>
    path_elems (d\<lparr>paths := p'\<rparr>) j = path_elems d (unat p) @ [elements_of d ! unat e]"
proof -
  note D = pa_okD [OF ok]
  have p_eq: "of_nat (unat p) = p" by simp
  have same: "d\<lparr>paths := p'\<rparr> = \<lparr>pathElements = pathElements d, paths = p'\<rparr>" for p' by simp
  show ?thesis
  proof (cases "(p, e) \<in> set (pd_data (paths d))")
    case True
    then obtain j where j: "j < path_count d" "entry d j = (p, e)" by (auto simp: in_set_conv_nth)
    then have "pd_AutoInsert (paths d) (p, e) = Some (Return (of_nat j, paths d))"
      using position_nth [of "pd_data (paths d)" j] pairs.bounded [OF D(2)]
      by (simp add: pd_AutoInsert_def pairs.auto_insert_again [OF D(2) True])
    with child_entry [OF ok p j(1), unfolded p_eq, OF j(2)] ok j show ?thesis
      by (intro exI [of _ j] exI [of _ "paths d"]) (simp add: extends_def)
  next
    case False
    then obtain p' where p': "pd_Insert (paths d) (p, e) = Some (Return (of_nat (path_count d), p'))" "pair_dict_ok p'"
      "pd_data p' = pd_data (paths d) @ [(p, e)]"
      using pairs.inserts [OF D(2) False] room by (auto simp: pair_room_def)
    have "pd_AutoInsert (paths d) (p, e) = Some (Return (of_nat (path_count d), p'))"
      using False p'(1) by (simp add: pd_AutoInsert_def auto_insert_def pairs.finds [OF D(2)])
    moreover have "take (length (elements_of d)) (elements_of d) = elements_of d" by simp
    note ext = pa_ok_extended [OF ok D(1) p'(2) this _ p e, unfolded p_eq, OF p'(3), folded same]
    moreover have "path_elems (d\<lparr>paths := p'\<rparr>) (path_count d) = path_elems d (unat p) @ [elements_of d ! unat e]"
      using path_elems_last [OF ext ok p, of e] p'(3) by simp
    ultimately show ?thesis using p'(3) by (intro exI [of _ "path_count d"] exI [of _ p']) simp
  qed
qed

abbreviation same_path :: "path_dict \<Rightarrow> path_dict \<Rightarrow> nat \<Rightarrow> dword \<Rightarrow> bool" where
  "same_path source d i j \<equiv> unat j < path_count d \<and> path_elems d (unat j) = path_elems source i"

lemma pa_merge_loop_ok:
  assumes src: "pa_ok source" and small: "path_count source + 1 < 2 ^ 28"
    and elements: "mapping_ok (length (elements_of source)) (\<lambda>i j. unat j < length strs \<and> strs ! unat j = elements_of source ! i) em"
  shows "i + n = path_count source \<Longrightarrow> 0 < i \<Longrightarrow> pa_ok d \<Longrightarrow> elements_of d = strs \<Longrightarrow> path_count d + n \<le> 2 ^ 28 \<Longrightarrow>
    mapping_ok i (same_path source d) m \<Longrightarrow>
    \<exists>m' p'. pa_merge_loop source em n (of_nat i) m (paths d) = Some (Return (m', p')) \<and> pa_ok (d\<lparr>paths := p'\<rparr>) \<and>
      extends d (d\<lparr>paths := p'\<rparr>) \<and> mapping_ok (path_count source) (same_path source (d\<lparr>paths := p'\<rparr>)) m'"
proof (induction n arbitrary: i d m)
  case 0
  then show ?case by (simp add: extends_def)
next
  case (Suc n)
  note S = pa_okD [OF src]
  have i: "i < path_count source" "unat (of_nat i :: dword) = i" using Suc.prems(1) S(7) by (simp_all add: unat_index)
  obtain a b where e: "entry source i = (a, b)" by fastforce
  have a: "unat a < i" and b: "unat b < length (elements_of source)" using S(5,6) [of i] Suc.prems(2) i(1) e by simp_all
  have oks: "qm_ok m" "qm_ok em" using Suc.prems(6) elements by (simp_all add: mapping_ok_def)
  obtain parent where parent: "qm_map m a = Some parent" "same_path source d (unat a) parent"
    using Suc.prems(6) a unfolding mapping_ok_def by fastforce
  obtain element where element: "qm_map em b = Some element" "unat element < length strs" "strs ! unat element = elements_of source ! unat b"
    using elements b unfolding mapping_ok_def by fastforce
  obtain j p1 where p1: "pd_AutoInsert (paths d) (parent, element) = Some (Return (of_nat j, p1))" "pa_ok (d\<lparr>paths := p1\<rparr>)"
    "extends d (d\<lparr>paths := p1\<rparr>)" "j < length (pd_data p1)" "length (pd_data p1) \<le> path_count d + 1"
    "path_elems (d\<lparr>paths := p1\<rparr>) j = path_elems d (unat parent) @ [elements_of d ! unat element]"
    using pair_auto_child [OF Suc.prems(3), of parent element] parent(2) element(2) Suc.prems(4,5) by auto
  let ?d = "d\<lparr>paths := p1\<rparr>"
  have j: "unat (of_nat j :: dword) = j" using p1(4) pa_okD(7) [OF p1(2)] by (simp add: unat_index)
  have here: "same_path source ?d i (of_nat j)"
    using path_elems_child [OF src Suc.prems(2) i(1)] p1(4,6) parent(2) element(3) Suc.prems(4) by (simp add: j e)
  have "path_count d \<le> path_count ?d" using p1(3) by (metis extends_def length_take min.cobounded1)
  then have "mapping_ok i (same_path source ?d) m"
    using Suc.prems(6) extends_elems [OF Suc.prems(3) p1(2,3)] by (elim mapping_ok_mono) (auto intro: less_le_trans)
  then obtain m1 where m1: "qm_insert m (of_nat i) (of_nat j) = Some m1" "mapping_ok (Suc i) (same_path source ?d) m1"
    using mapping_ok_Suc [of i "same_path source ?d" m "of_nat j"] here i(1) small by auto
  have "Suc i + n = path_count source" "0 < Suc i" "elements_of ?d = strs" "path_count ?d + n \<le> 2 ^ 28"
    using Suc.prems(1,4,5) p1(5) by simp_all
  from Suc.IH [OF this(1,2) p1(2) this(3,4) m1(2)] obtain m' p' where
    p': "pa_merge_loop source em n (of_nat (Suc i)) m1 p1 = Some (Return (m', p'))" "pa_ok (d\<lparr>paths := p'\<rparr>)"
      "extends ?d (d\<lparr>paths := p'\<rparr>)" "mapping_ok (path_count source) (same_path source (d\<lparr>paths := p'\<rparr>)) m'"
    by auto
  have "pa_merge_loop source em (Suc n) (of_nat i) m (paths d) = Some (Return (m', p'))"
    using p1(1) m1(1) p'(1) parent(1) element(1)
    by (simp add: pd_get_def i(2) e mapped_ok [OF oks(1)] mapped_ok [OF oks(2)] add.commute Let_def)
  moreover have "extends d (d\<lparr>paths := p'\<rparr>)"
    using p1(3) p'(3) by (rule extends_trans)
  ultimately show ?case using p'(2,4) by blast
qed

text \<open>
  C12. Merging a path dictionary into another. As long as both together stay below 2^28 paths
  and elements and the string data fit, the merge succeeds, the destination stays well-formed and keeps every path at
  its index, and the returned map takes the index of every path of the source to the index of the
  same path in the destination, and \<^verbatim>\<open>NO_INDEX\<close> to itself.
\<close>

theorem path_dictionary_merge:
  assumes d: "pa_ok d" and src: "pa_ok source"
    and room: "path_count d + path_count source < 2 ^ 28" "length (elements_of d) + length (elements_of source) < 2 ^ 28"
      "length (packedStrings (pathElements d)) + length (packedStrings (pathElements source)) + 8 < 2 ^ 32 - 1"
  shows "\<exists>m d'. pa_Merge d source = Some (Return (m, d')) \<and> pa_ok d' \<and> qm_map m NO_INDEX = Some NO_INDEX \<and>
    (\<forall>i < path_count d. i < path_count d' \<and> path_elems d' i = path_elems d i) \<and>
    (\<forall>i < path_count source. \<exists>j. qm_map m (of_nat i) = Some j \<and> unat j < path_count d' \<and> path_elems d' (unat j) = path_elems source i)"
proof -
  note S = pa_okD [OF src] and D = pa_okD [OF d]
  have "length (elements_of d) > 0" using D(1) by (simp add: sd_ok_def)
  then have small: "length (elements_of source) + 1 < 2 ^ 28" "path_count source + 1 < 2 ^ 28" using room(1,2) D(3) by linarith+
  obtain em elements where em: "sd_Merge (pathElements d) (pathElements source) = Some (Return (em, elements))" "sd_ok elements"
    "take (length (elements_of d)) (sd_contents elements) = elements_of d"
    "mapping_ok (length (elements_of source)) (\<lambda>i j. unat j < length (sd_contents elements) \<and> sd_contents elements ! unat j = elements_of source ! i) em"
    using sd_Merge_ok [OF S(1) D(1) _ small(1)] room(2,3) by (auto simp: string_room_def)
  let ?d = "d\<lparr>pathElements := elements\<rparr>"
  have "length (elements_of d) \<le> length (sd_contents elements)" using em(3) by (metis length_take min.cobounded1)
  then have ok: "pa_ok ?d" and ext: "extends d ?d" using d em(2,3) by (auto simp: pa_ok_def extends_def intro: less_le_trans)
  obtain m1 where m1: "qm_insert new_hash_map 0 (0 :: dword) = Some m1" "qm_ok m1" "qm_data m1 = [(0, 0)]" "qm_map m1 = [0 \<mapsto> 0]"
    using qm_insert_ok [OF qm_ok_new(1), of 0 "0 :: dword"] by (auto simp: qm_ok_new(2,3))
  have no: "(0 :: dword) \<noteq> NO_INDEX" by (simp add: NO_INDEX_def)
  obtain m2 where m2: "qm_insert m1 NO_INDEX NO_INDEX = Some m2" "qm_ok m2" "qm_data m2 = [(0, 0), (NO_INDEX, NO_INDEX)]"
    "qm_map m2 = [0 \<mapsto> 0, NO_INDEX \<mapsto> NO_INDEX]"
    using qm_insert_ok [OF m1(2), of NO_INDEX NO_INDEX] no by (auto simp: m1(3,4))
  have "mapping_ok 1 (same_path source ?d) m2"
    using m2(2-4) no D(3) by (auto simp: mapping_ok_def split: if_splits)
  moreover have count: "unat (pa_size source) = path_count source" using S(7) by (simp add: pa_size_def pd_size_def unat_index)
  moreover have "1 + (path_count source - 1) = path_count source" "path_count ?d + (path_count source - 1) \<le> 2 ^ 28"
    using S(3) room(1) by simp_all
  note loop = pa_merge_loop_ok [OF src small(2) em(4) this(1) zero_less_one ok _ this(2), of m2]
  ultimately obtain m p where m: "pa_merge_loop source em (path_count source - 1) (of_nat 1) m2 (paths ?d) = Some (Return (m, p))"
    "pa_ok (?d\<lparr>paths := p\<rparr>)" "extends ?d (?d\<lparr>paths := p\<rparr>)" "mapping_ok (path_count source) (same_path source (?d\<lparr>paths := p\<rparr>)) m"
    using loop by auto
  let ?r = "\<lparr>pathElements = elements, paths = p\<rparr>"
  have r: "?d\<lparr>paths := p\<rparr> = ?r" by simp
  note m = m [unfolded r]
  have "pa_Merge d source = Some (Return (m, ?r))"
    using m1(1) m2(1) em(1) m(1) by (simp add: pa_Merge_def count)
  moreover have "i < path_count ?r \<and> path_elems ?r i = path_elems d i" if i: "i < path_count d" for i
  proof -
    have "path_elems ?r i = path_elems ?d i" using i by (intro extends_elems [OF ok m(2,3)]) simp
    also have "\<dots> = path_elems d i" by (rule extends_elems [OF d ok ext i])
    finally have same: "path_elems ?r i = path_elems d i" .
    have "take (path_count ?d) (pd_data p) = pd_data (paths ?d)" using m(3) by (simp add: extends_def)
    then have "path_count d \<le> length (pd_data p)" by simp (metis length_take min.cobounded1)
    with same i show ?thesis by simp
  qed
  ultimately show ?thesis using m(2,4) unfolding mapping_ok_def by blast
qed

theorem path_dictionary_merge_witness:
  "\<exists>d m d'. new_path_dict = Some (Return d) \<and> pa_Merge d d = Some (Return (m, d')) \<and> pa_ok d' \<and>
     (\<exists>j. qm_map m 0 = Some j \<and> path_elems d' (unat j) = [])"
proof -
  obtain d where d: "new_path_dict = Some (Return d)" "pa_ok d" "path_count d = 1" "elements_of d = [[]]"
    using new_path_dict_ok by blast
  then have "packedStrings (pathElements d) = [0]" by (auto simp: pa_ok_def sd_ok_def)
  with path_dictionary_merge [OF d(2,2)] d show ?thesis by fastforce
qed

end
