(* ===== verification/OffsetLists.thy ===== *)
theory OffsetLists
  imports IndexPairDictionary
begin

text \<open>
  Lists of lists in two arrays, as many containers of the log cache keep them: the elements of all lists
  back to back, and the offsets at which the lists begin, with the end of the last one as an additional
  offset. The representation is unique.
\<close>

definition offsets_for :: "'a list list \<Rightarrow> dword list" where
  "offsets_for xss = map (\<lambda>i. of_nat (length (concat (take i xss)))) [0..<length xss + 1]"

definition parts :: "'a list \<Rightarrow> dword list \<Rightarrow> 'a list list" where
  "parts data offs = map (\<lambda>i. take (unat (offs ! Suc i) - unat (offs ! i)) (drop (unat (offs ! i)) data)) [0..<length offs - 1]"

lemma length_offsets_for [simp]: "length (offsets_for xss) = length xss + 1"
  by (simp add: offsets_for_def)

lemma offsets_for_nth: "i \<le> length xss \<Longrightarrow> offsets_for xss ! i = of_nat (length (concat (take i xss)))"
  by (auto simp: offsets_for_def nth_append simp del: upt_Suc)

lemma length_concat_take: "length (concat (take i xss)) \<le> length (concat xss)"
  by (metis append_take_drop_id concat_append length_append le_add1)

lemma unat_offsets_for:
  "length (concat xss) < 2 ^ 32 \<Longrightarrow> i \<le> length xss \<Longrightarrow> unat (offsets_for xss ! i) = length (concat (take i xss))"
  using length_concat_take [of i xss] by (simp add: offsets_for_nth unat_of_nat)

lemma concat_take_Suc: "i < length xss \<Longrightarrow> concat (take (Suc i) xss) = concat (take i xss) @ xss ! i"
  by (simp add: take_Suc_conv_app_nth)

lemma drop_concat: "i < length xss \<Longrightarrow> drop (length (concat (take i xss))) (concat xss) = xss ! i @ concat (drop (Suc i) xss)"
  by (metis append_eq_conv_conj append_take_drop_id concat.simps(2) concat_append Cons_nth_drop_Suc)

lemma length_parts [simp]: "length (parts data offs) = length offs - 1"
  by (simp add: parts_def)

lemma parts_nth: "i < length offs - 1 \<Longrightarrow> parts data offs ! i = take (unat (offs ! Suc i) - unat (offs ! i)) (drop (unat (offs ! i)) data)"
  by (simp add: parts_def)

lemma parts_concat: "length (concat xss) < 2 ^ 32 \<Longrightarrow> parts (concat xss) (offsets_for xss) = xss"
proof (rule nth_equalityI)
  fix i
  assume len: "length (concat xss) < 2 ^ 32" and "i < length (parts (concat xss) (offsets_for xss))"
  then have i: "i < length xss" by simp
  then show "parts (concat xss) (offsets_for xss) ! i = xss ! i"
    using drop_concat [OF i] by (simp add: parts_nth unat_offsets_for [OF len] concat_take_Suc)
qed simp

lemma offsets_for_snoc: "offsets_for (xss @ [xs]) = offsets_for xss @ [of_nat (length (concat (xss @ [xs])))]"
proof -
  have "map (\<lambda>i. of_nat (length (concat (take i (xss @ [xs]))))) [0..<length xss + 1] = offsets_for xss"
    unfolding offsets_for_def by (rule map_cong) auto
  then show ?thesis unfolding offsets_for_def by simp
qed

lemma offsets_for_Nil: "offsets_for [] = [0]"
  by (simp add: offsets_for_def)

lemma last_offsets_for: "last (offsets_for xss) = of_nat (length (concat xss))"
  by (simp add: last_conv_nth offsets_for_nth flip: length_0_conv)

end
