(* ===== verification/TokenStrings.thy ===== *)
theory TokenStrings
  imports OffsetLists DictionaryMerge
begin

text \<open>
  The container for log messages and property values (\<^verbatim>\<open>TokenizedStringContainer.h\<close> and
  \<^verbatim>\<open>TokenizedStringContainer.cpp\<close> in \<^verbatim>\<open>src/src/LogCache/Containers\<close>): strings are cut into words, the
  words are kept in a string dictionary, frequent pairs of tokens in a pair dictionary, and a string
  is the list of the tokens that remain. Recursive functions over pairs are partial: \<open>None\<close> is a
  recursion that does not end, an access outside of an array, or a hash that can not grow.
\<close>

section \<open>Tokens\<close>

record token_container =
  tc_words :: string_dict
  tc_pairs :: pair_dict
  stringData :: "dword list"
  tc_offsets :: "dword list"

definition EMPTY_TOKEN :: dword where "EMPTY_TOKEN = NO_INDEX"
definition LAST_PAIR_TOKEN :: dword where "LAST_PAIR_TOKEN = NO_INDEX div 2"

definition IsToken :: "dword \<Rightarrow> bool" where "IsToken token \<longleftrightarrow> token \<noteq> EMPTY_TOKEN"
definition IsDictionaryWord :: "dword \<Rightarrow> bool" where "IsDictionaryWord token \<longleftrightarrow> token > LAST_PAIR_TOKEN"
definition GetWordIndex :: "dword \<Rightarrow> dword" where "GetWordIndex token = EMPTY_TOKEN - token"
definition GetPairIndex :: "dword \<Rightarrow> dword" where "GetPairIndex token = token"
definition GetWordToken :: "dword \<Rightarrow> dword" where "GetWordToken wordIndex = EMPTY_TOKEN - wordIndex"
definition GetPairToken :: "dword \<Rightarrow> dword" where "GetPairToken pairIndex = pairIndex"

definition IsValidTokenIndex :: "token_container \<Rightarrow> dword \<Rightarrow> bool" where
  "IsValidTokenIndex c token \<longleftrightarrow>
     (if \<not> IsToken token then True
      else if IsDictionaryWord token then GetWordIndex token < sd_size (tc_words c)
      else GetPairIndex token < pd_size (tc_pairs c))"

section \<open>Reading strings\<close>

partial_function (option) GetTokenLength :: "token_container \<Rightarrow> dword \<Rightarrow> qword option" where
  "GetTokenLength c token =
     (if IsDictionaryWord token then Some (ucast (sd_GetLength (tc_words c) (GetWordIndex token)))
      else
        Option.bind (GetTokenLength c (fst (pd_get (tc_pairs c) (GetPairIndex token)))) (\<lambda>first.
        Option.bind (GetTokenLength c (snd (pd_get (tc_pairs c) (GetPairIndex token)))) (\<lambda>second.
          Some (first + second))))"

text \<open>A pointer into the result is the memory of the result and a position in it.\<close>

partial_function (option) AppendToken :: "token_container \<Rightarrow> byte list \<times> nat \<Rightarrow> dword \<Rightarrow> (byte list \<times> nat) option" where
  "AppendToken c target token =
     (if IsDictionaryWord token
      then
        (let s = sd_CopyTo (tc_words c) (GetWordIndex token) in
         Option.bind (store (fst target) (snd target) s) (\<lambda>mem. Some (mem, snd target + length s)))
      else
        Option.bind (AppendToken c target (fst (pd_get (tc_pairs c) (GetPairIndex token)))) (\<lambda>target.
          AppendToken c target (snd (pd_get (tc_pairs c) (GetPairIndex token)))))"

declare GetTokenLength.simps [code] AppendToken.simps [code]

text \<open>The tokens of a string, up to its end or the first empty token.\<close>

function tokens_from :: "dword list \<Rightarrow> nat \<Rightarrow> nat \<Rightarrow> dword list option" where
  "tokens_from data first behind =
     (if first = behind then Some []
      else if first < length data
      then (if IsToken (data ! first) then map_option ((#) (data ! first)) (tokens_from data (Suc first) behind) else Some [])
      else None)"
  by pat_completeness auto
termination by (relation "measure (\<lambda>(data, first, behind). length data - first)") auto

declare tokens_from.simps [simp del]

fun sum_lengths :: "token_container \<Rightarrow> dword list \<Rightarrow> qword option" where
  "sum_lengths c [] = Some 0"
| "sum_lengths c (t # ts) =
     Option.bind (GetTokenLength c t) (\<lambda>l. Option.bind (sum_lengths c ts) (\<lambda>len. Some (l + len)))"

fun append_tokens :: "token_container \<Rightarrow> byte list \<times> nat \<Rightarrow> dword list \<Rightarrow> (byte list \<times> nat) option" where
  "append_tokens c buffer [] = Some buffer"
| "append_tokens c buffer (t # ts) = Option.bind (AppendToken c buffer t) (\<lambda>buffer. append_tokens c buffer ts)"

definition tc_size :: "token_container \<Rightarrow> dword" where
  "tc_size c = of_nat (length (tc_offsets c)) - 1"

definition GetAt :: "token_container \<Rightarrow> dword \<Rightarrow> byte list \<Rightarrow> byte list option" where
  "GetAt c index result =
     Option.bind (tokens_from (stringData c) (unat (tc_offsets c ! unat index)) (unat (tc_offsets c ! unat (index + 1)))) (\<lambda>tokens.
     Option.bind (sum_lengths c tokens) (\<lambda>len.
       map_option fst
         (append_tokens c (take (unat len) result @ replicate (unat len - length result) 0, 0) tokens)))"

definition tc_get :: "token_container \<Rightarrow> dword \<Rightarrow> byte list option" where
  "tc_get c index = GetAt c index []"

definition tc_swap :: "token_container \<Rightarrow> token_container \<Rightarrow> token_container \<times> token_container" where
  "tc_swap c rhs = (rhs, c)"

section \<open>Insertion\<close>

definition Append_token :: "dword \<Rightarrow> dword list \<Rightarrow> (string, dword list) result" where
  "Append_token token data =
     (if IsToken token
      then (if length data = unat NO_INDEX then Raise ''string container overflow'' else Return (data @ [token]))
      else Return data)"

text \<open>
  \<^verbatim>\<open>SDelimiterTable\<close> is indexed with a \<^verbatim>\<open>char\<close>, which is signed: for the bytes from 128 on, the memory
  in front of the table is read. Its contents are a parameter.
\<close>

definition delimiters :: "byte list" where
  "delimiters = [32, 9, 10, 92, 47, 40, 41, 60, 62, 123, 125, 34, 39, 46, 58, 61, 45, 43, 42, 94]"

definition delimiter :: "(byte \<Rightarrow> bool) \<Rightarrow> byte \<Rightarrow> bool" where
  "delimiter before c \<longleftrightarrow> (if c < 128 then List.member delimiters c else before c)"

text \<open>The number of bytes of the next word, and the new state, if \<open>rest\<close> is what follows the position.\<close>

definition next_word :: "(byte \<Rightarrow> bool) \<Rightarrow> bool \<Rightarrow> byte list \<Rightarrow> nat \<times> bool" where
  "next_word before inDelimiter rest =
     (let n = 1 + length (takeWhile (\<lambda>c. delimiter before c = inDelimiter) (tl rest)); inDelimiter = (\<not> inDelimiter) in
      if n + 1 < length rest \<and> delimiter before (rest ! (n + 1)) \<noteq> inDelimiter then (n + 1, \<not> inDelimiter) else (n, inDelimiter))"

text \<open>Folding a token with the tokens before it.\<close>

partial_function (option) fold_pairs ::
  "pair_dict \<Rightarrow> nat \<Rightarrow> dword list \<Rightarrow> dword \<Rightarrow> dword \<Rightarrow> (dword list \<times> dword \<times> dword) option"
where
  "fold_pairs p stringStart data lastToken token =
     Option.bind (pd_Find p (lastToken, token)) (\<lambda>pairIndex.
       if pairIndex = NO_INDEX then Some (data, lastToken, token)
       else if length data = stringStart then fold_pairs p stringStart data NO_INDEX (GetPairToken pairIndex)
       else fold_pairs p stringStart (butlast data) (last data) (GetPairToken pairIndex))"

declare fold_pairs.simps [code]

lemma next_word_pos: "0 < fst (next_word before inDelimiter rest)"
  by (simp add: next_word_def Let_def)

function append_words ::
  "(byte \<Rightarrow> bool) \<Rightarrow> nat \<Rightarrow> byte list \<Rightarrow> bool \<Rightarrow> dword \<Rightarrow> token_container \<Rightarrow> (string, dword \<times> token_container) result option"
where
  "append_words before stringStart rest inDelimiter lastToken c =
     (if rest = [] then Some (Return (lastToken, c))
      else
        (let (n, inDelimiter') = next_word before inDelimiter rest; word = takeWhile (\<lambda>ch. ch \<noteq> 0) (take n rest) in
         and_then (sd_AutoInsert (tc_words c) word) (\<lambda>(index, ws).
           Option.bind (fold_pairs (tc_pairs c) stringStart (stringData c) lastToken (GetWordToken index)) (\<lambda>(data, lastToken, token).
             case Append_token lastToken data of
               Inl e \<Rightarrow> Some (Raise e)
             | Inr data \<Rightarrow>
                 append_words before stringStart (drop n rest) inDelimiter' token (c\<lparr>tc_words := ws, stringData := data\<rparr>)))))"
  by pat_completeness auto
termination
  by (relation "measure (\<lambda>(before, stringStart, rest, inDelimiter, lastToken, c). length rest)")
    (auto simp: next_word_def Let_def split: if_splits)

declare append_words.simps [simp del]

definition tc_Append :: "(byte \<Rightarrow> bool) \<Rightarrow> byte list \<Rightarrow> token_container \<Rightarrow> (string, token_container) result option" where
  "tc_Append before s c =
     and_then (append_words before (length (stringData c)) s (s \<noteq> [] \<and> delimiter before (hd s)) EMPTY_TOKEN c) (\<lambda>(lastToken, c).
       case Append_token lastToken (stringData c) of
         Inl e \<Rightarrow> Some (Raise e)
       | Inr data \<Rightarrow> Some (Return (c\<lparr>stringData := data\<rparr>)))"

definition tc_Insert :: "(byte \<Rightarrow> bool) \<Rightarrow> byte list \<Rightarrow> token_container \<Rightarrow> (string, dword \<times> token_container) result option" where
  "tc_Insert before s c =
     and_then (tc_Append before s c) (\<lambda>c.
       let offs = tc_offsets c @ [of_nat (length (stringData c))] in
       Some (Return (of_nat (length offs - 2), c\<lparr>tc_offsets := offs\<rparr>)))"

text \<open>A string is inserted \<open>count\<close> times: its tokens are duplicated, and one offset is added for each step of
  the size of the string.\<close>

fun duplicate :: "nat \<Rightarrow> nat \<Rightarrow> dword list \<Rightarrow> dword list" where
  "duplicate 0 i data = data"
| "duplicate (Suc n) i data = duplicate n (i + 1) (data @ [data ! i])"

partial_function (option) add_offsets :: "dword \<Rightarrow> dword \<Rightarrow> qword \<Rightarrow> dword \<Rightarrow> dword list \<Rightarrow> dword list option" where
  "add_offsets i itemSize copies newSize offs =
     (if (ucast i :: qword) < ucast itemSize * copies then add_offsets (i + itemSize) itemSize copies newSize (offs @ [newSize + i])
      else Some offs)"

declare add_offsets.simps [code]

definition tc_Insert_count ::
  "(byte \<Rightarrow> bool) \<Rightarrow> byte list \<Rightarrow> qword \<Rightarrow> token_container \<Rightarrow> (string, dword \<times> token_container) result option"
where
  "tc_Insert_count before s copies c =
     (let result = of_nat (length (tc_offsets c) - 1) in
      if copies > 0
      then
        (let oldSize = of_nat (length (stringData c)) :: dword in
         and_then (tc_Append before s c) (\<lambda>c.
           let newSize = of_nat (length (stringData c)); itemSize = newSize - oldSize;
               data = duplicate (unat (ucast itemSize * (copies - 1))) (unat oldSize) (stringData c) in
           Option.bind (add_offsets 0 itemSize copies newSize (tc_offsets c)) (\<lambda>offs.
             Some (Return (result, c\<lparr>stringData := data, tc_offsets := offs\<rparr>)))))
      else Some (Return (result, c)))"

definition new_token_container :: "token_container option" where
  "new_token_container =
     map_option (\<lambda>ws. \<lparr>tc_words = ws, tc_pairs = new_pair_dict, stringData = [], tc_offsets = [0]\<rparr>) new_string_dict"

definition tc_Clear :: "token_container \<Rightarrow> token_container option" where
  "tc_Clear c =
     map_option (\<lambda>ws. \<lparr>tc_words = ws, tc_pairs = pd_Clear (tc_pairs c), stringData = [], tc_offsets = take 1 (tc_offsets c)\<rparr>)
       (sd_Clear (tc_words c))"

text \<open>Removing one string: the tokens of the last one stay, those of others are hidden behind an empty token.\<close>

definition tc_Remove_at :: "dword \<Rightarrow> token_container \<Rightarrow> token_container option" where
  "tc_Remove_at index c =
     (if unat (index + 2) = length (tc_offsets c) then Some (c\<lparr>tc_offsets := butlast (tc_offsets c)\<rparr>)
      else
        (let at = unat (tc_offsets c ! unat index) in
         if unat index < length (tc_offsets c) \<and> at < length (stringData c)
         then Some (c\<lparr>stringData := (stringData c)[at := EMPTY_TOKEN],
                      tc_offsets := take (unat index) (tc_offsets c) @ drop (Suc (unat index)) (tc_offsets c)\<rparr>)
         else None))"

definition tc_CanInsertThreadSafely :: "nat \<Rightarrow> nat \<Rightarrow> nat \<Rightarrow> nat \<Rightarrow> token_container \<Rightarrow> byte list \<Rightarrow> bool" where
  "tc_CanInsertThreadSafely offsets_capacity data_capacity packed_capacity words_capacity c s \<longleftrightarrow>
     length (tc_offsets c) + length s + 1 < offsets_capacity \<and> length (stringData c) + length s + 1 < data_capacity \<and>
     sd_CanInsertThreadSafely packed_capacity words_capacity (tc_words c) (unat (of_nat (length s) :: dword)) (length s)"

text \<open>Statistics.\<close>

definition CompressedWordCount :: "token_container \<Rightarrow> nat" where "CompressedWordCount c = length (stringData c)"
definition WorkTokenCount :: "token_container \<Rightarrow> dword" where "WorkTokenCount c = sd_size (tc_words c)"
definition PairTokenCount :: "token_container \<Rightarrow> dword" where "PairTokenCount c = pd_size (tc_pairs c)"
definition WorkTokenSize :: "token_container \<Rightarrow> nat" where "WorkTokenSize c = sd_GetPackedStringSize (tc_words c)"

section \<open>What tokens spell\<close>

inductive spells :: "byte list list \<Rightarrow> (dword \<times> dword) list \<Rightarrow> dword \<Rightarrow> byte list \<Rightarrow> bool" for ws ps where
  word: "IsDictionaryWord t \<Longrightarrow> unat (GetWordIndex t) < length ws \<Longrightarrow> spells ws ps t (ws ! unat (GetWordIndex t))"
| pair: "\<not> IsDictionaryWord t \<Longrightarrow> unat t < length ps \<Longrightarrow> ps ! unat t = (a, b) \<Longrightarrow> spells ws ps a s \<Longrightarrow> spells ws ps b s' \<Longrightarrow>
    spells ws ps t (s @ s')"

inductive_cases spells_word: "spells ws ps t s"

lemma spells_unique: "spells ws ps t s \<Longrightarrow> spells ws ps t s' \<Longrightarrow> s = s'"
proof (induction arbitrary: s' rule: spells.induct)
  case (word t)
  from word.prems word.hyps show ?case by (cases rule: spells.cases) auto
next
  case (pair t a b s1 s2)
  from pair.prems pair.hyps obtain s1' s2' where "spells ws ps a s1'" "spells ws ps b s2'" "s' = s1' @ s2'"
    by (cases rule: spells.cases) auto
  with pair.IH show ?case by blast
qed

text \<open>New words and new pairs at the end change nothing.\<close>

lemma spells_mono:
  "spells ws ps t s \<Longrightarrow> take (length ws) ws' = ws \<Longrightarrow> take (length ps) ps' = ps \<Longrightarrow> spells ws' ps' t s"
proof (induction rule: spells.induct)
  case (word t)
  with take_eq_nth [of ws ws'] spells.word [of t ws' ps'] show ?case by auto
next
  case (pair t a b s1 s2)
  with take_eq_nth [of ps ps'] spells.pair [of t ps' a b ws' s1 s2] show ?case by auto
qed

fun spell_all :: "byte list list \<Rightarrow> (dword \<times> dword) list \<Rightarrow> dword list \<Rightarrow> byte list \<Rightarrow> bool" where
  "spell_all ws ps [] s \<longleftrightarrow> s = []"
| "spell_all ws ps (t # ts) s \<longleftrightarrow> (\<exists>a b. s = a @ b \<and> spells ws ps t a \<and> spell_all ws ps ts b)"

lemma spell_all_append: "spell_all ws ps (xs @ ys) s \<longleftrightarrow> (\<exists>a b. s = a @ b \<and> spell_all ws ps xs a \<and> spell_all ws ps ys b)"
proof (induction xs arbitrary: s)
  case (Cons x xs)
  show ?case
    by (simp add: Cons.IH) (metis append.assoc)
qed simp

lemma spell_all_snoc: "spell_all ws ps (xs @ [t]) s \<longleftrightarrow> (\<exists>a b. s = a @ b \<and> spell_all ws ps xs a \<and> spells ws ps t b)"
  by (simp add: spell_all_append)

lemma spell_all_mono:
  "spell_all ws ps ts s \<Longrightarrow> take (length ws) ws' = ws \<Longrightarrow> take (length ps) ps' = ps \<Longrightarrow> spell_all ws' ps' ts s"
  by (induction ts arbitrary: s) (auto intro: spells_mono)

lemma spell_all_unique: "spell_all ws ps ts s \<Longrightarrow> spell_all ws ps ts s' \<Longrightarrow> s = s'"
  by (induction ts arbitrary: s s') (auto dest: spells_unique)

section \<open>The strings of a container\<close>

definition tc_rep :: "token_container \<Rightarrow> dword list list \<Rightarrow> byte list list \<Rightarrow> bool" where
  "tc_rep c tokss strs \<longleftrightarrow>
     sd_ok (tc_words c) \<and> pair_dict_ok (tc_pairs c) \<and> (\<forall>(a, b) \<in> set (pd_data (tc_pairs c)). IsToken a \<and> IsToken b) \<and>
     stringData c = concat tokss \<and> tc_offsets c = offsets_for tokss \<and> length (concat tokss) < 2 ^ 32 \<and> length tokss < 2 ^ 32 - 1 \<and>
     EMPTY_TOKEN \<notin> set (concat tokss) \<and> list_all2 (spell_all (sd_contents (tc_words c)) (pd_data (tc_pairs c))) tokss strs"

definition tc_shows :: "token_container \<Rightarrow> byte list list \<Rightarrow> bool" where
  "tc_shows c strs \<longleftrightarrow> (\<exists>tokss. tc_rep c tokss strs)"

abbreviation word_list :: "token_container \<Rightarrow> byte list list" where "word_list c \<equiv> sd_contents (tc_words c)"
abbreviation pair_list :: "token_container \<Rightarrow> (dword \<times> dword) list" where "pair_list c \<equiv> pd_data (tc_pairs c)"

lemma tc_repD:
  assumes "tc_rep c tokss strs"
  shows "sd_ok (tc_words c)" "pair_dict_ok (tc_pairs c)" "\<forall>(a, b) \<in> set (pair_list c). IsToken a \<and> IsToken b"
    "stringData c = concat tokss" "tc_offsets c = offsets_for tokss" "length (concat tokss) < 2 ^ 32" "length tokss < 2 ^ 32 - 1"
    "EMPTY_TOKEN \<notin> set (concat tokss)" "list_all2 (spell_all (word_list c) (pair_list c)) tokss strs" "length tokss = length strs"
  using assms list_all2_lengthD unfolding tc_rep_def by blast+

subsection \<open>Reading\<close>

lemma word_length:
  assumes "sd_ok d" and "unat i < length (sd_contents d)"
  shows "(ucast (sd_GetLength d i) :: qword) = of_nat (length (sd_contents d ! unat i))"
proof -
  have "(ucast (sd_GetLength d i) :: qword) = of_nat (unat (sd_GetLength d i))" by simp
  with sd_get_at(2) [OF assms] show ?thesis by simp
qed

lemma GetTokenLength_ok:
  "spells (word_list c) (pair_list c) t s \<Longrightarrow> sd_ok (tc_words c) \<Longrightarrow> GetTokenLength c t = Some (of_nat (length s))"
proof (induction rule: spells.induct)
  case (word t)
  then show ?case by (subst GetTokenLength.simps) (simp add: word_length)
next
  case (pair t a b s1 s2)
  then show ?case by (subst GetTokenLength.simps) (simp add: pd_get_def GetPairIndex_def)
qed

lemma AppendToken_ok:
  "spells (word_list c) (pair_list c) t s \<Longrightarrow> sd_ok (tc_words c) \<Longrightarrow> pos + length s \<le> length mem \<Longrightarrow>
   AppendToken c (mem, pos) t = Some (take pos mem @ s @ drop (pos + length s) mem, pos + length s)"
proof (induction arbitrary: mem pos rule: spells.induct)
  case (word t)
  then have "sd_CopyTo (tc_words c) (GetWordIndex t) = word_list c ! unat (GetWordIndex t)" by (intro sd_get_at(3))
  with word show ?case by (subst AppendToken.simps) (simp add: store_ok Let_def)
next
  case (pair t a b s1 s2)
  let ?mem = "take pos mem @ s1 @ drop (pos + length s1) mem"
  have "AppendToken c (mem, pos) a = Some (?mem, pos + length s1)" using pair.prems by (intro pair.IH(1)) simp_all
  moreover have "AppendToken c (?mem, pos + length s1) b =
      Some (take (pos + length s1) ?mem @ s2 @ drop (pos + length s1 + length s2) ?mem, pos + length s1 + length s2)"
    using pair.prems by (intro pair.IH(2)) simp_all
  moreover have "take (pos + length s1) ?mem = take pos mem @ s1"
    "drop (pos + length s1 + length s2) ?mem = drop (pos + (length s1 + length s2)) mem"
    using pair.prems(2) by (simp_all add: ac_simps)
  ultimately show ?case using pair.hyps
    by (subst AppendToken.simps) (simp add: pd_get_def GetPairIndex_def add.assoc)
qed

lemma sum_lengths_ok:
  "sd_ok (tc_words c) \<Longrightarrow> spell_all (word_list c) (pair_list c) ts s \<Longrightarrow> sum_lengths c ts = Some (of_nat (length s))"
  by (induction ts arbitrary: s) (auto simp: GetTokenLength_ok)

lemma append_tokens_ok:
  "sd_ok (tc_words c) \<Longrightarrow> spell_all (word_list c) (pair_list c) ts s \<Longrightarrow> pos + length s \<le> length mem \<Longrightarrow>
   append_tokens c (mem, pos) ts = Some (take pos mem @ s @ drop (pos + length s) mem, pos + length s)"
proof (induction ts arbitrary: s mem pos)
  case (Cons t ts)
  from Cons.prems(2) obtain a b where ab: "s = a @ b" "spells (word_list c) (pair_list c) t a" "spell_all (word_list c) (pair_list c) ts b" by auto
  let ?mem = "take pos mem @ a @ drop (pos + length a) mem"
  have "AppendToken c (mem, pos) t = Some (?mem, pos + length a)" using Cons.prems ab by (intro AppendToken_ok) simp_all
  moreover have "append_tokens c (?mem, pos + length a) ts =
      Some (take (pos + length a) ?mem @ b @ drop (pos + length a + length b) ?mem, pos + length a + length b)"
    using Cons.prems ab by (intro Cons.IH) simp_all
  moreover have "take (pos + length a) ?mem = take pos mem @ a"
    "drop (pos + length a + length b) ?mem = drop (pos + (length a + length b)) mem"
    using Cons.prems(3) ab(1) by (simp_all add: ac_simps)
  ultimately show ?case by (simp add: ab(1) add.assoc)
qed simp

lemma tokens_from_ok:
  "data = pre @ ts @ post \<Longrightarrow> EMPTY_TOKEN \<notin> set ts \<Longrightarrow> tokens_from data (length pre) (length pre + length ts) = Some ts"
proof (induction ts arbitrary: pre)
  case Nil
  then show ?case by (simp add: tokens_from.simps)
next
  case (Cons t ts)
  then have "tokens_from data (length (pre @ [t])) (length (pre @ [t]) + length ts) = Some ts" by (intro Cons.IH) simp_all
  with Cons.prems show ?case by (subst tokens_from.simps) (auto simp: IsToken_def)
qed

lemma tc_get_ok:
  assumes rep: "tc_rep c tokss strs" and i: "i < length strs" and len: "length (strs ! i) < 2 ^ 64"
  shows "GetAt c (of_nat i) result = Some (strs ! i)"
proof -
  note R = tc_repD [OF rep]
  have i': "i < length tokss" using i R(10) by simp
  have un: "unat (of_nat i :: dword) = i" "unat (of_nat i + 1 :: dword) = Suc i"
    using i' R(7) by (simp_all add: unat_word_ariths unat_of_nat)
  have split: "stringData c = concat (take i tokss) @ tokss ! i @ concat (drop (Suc i) tokss)"
    using drop_concat [OF i'] R(4) by (metis append_take_drop_id concat_append append_eq_conv_conj)
  have "set (tokss ! i) \<subseteq> set (concat tokss)" using nth_mem [OF i'] by auto
  then have tok: "EMPTY_TOKEN \<notin> set (tokss ! i)" using R(8) by blast
  have off: "unat (tc_offsets c ! i) = length (concat (take i tokss))"
    "unat (tc_offsets c ! Suc i) = length (concat (take i tokss)) + length (tokss ! i)"
    using unat_offsets_for [OF R(6)] i' by (simp_all add: R(5) concat_take_Suc)
  have toks: "tokens_from (stringData c) (unat (tc_offsets c ! i)) (unat (tc_offsets c ! Suc i)) = Some (tokss ! i)"
    unfolding off by (rule tokens_from_ok [OF split tok])
  have sp: "spell_all (word_list c) (pair_list c) (tokss ! i) (strs ! i)" using R(9) i' by (rule list_all2_nthD)
  have n: "unat (of_nat (length (strs ! i)) :: qword) = length (strs ! i)" using len by (simp add: unat_of_nat)
  let ?mem = "take (length (strs ! i)) result @ replicate (length (strs ! i) - length result) 0"
  have "length ?mem = length (strs ! i)" by (simp add: min_def)
  then have "append_tokens c (?mem, 0) (tokss ! i) = Some (strs ! i, length (strs ! i))"
    using append_tokens_ok [OF R(1) sp, of 0 ?mem] by simp
  with toks sum_lengths_ok [OF R(1) sp] show ?thesis by (simp add: GetAt_def un n)
qed

subsection \<open>Folding and appending\<close>

lemma EMPTY_is_word [simp]: "IsDictionaryWord EMPTY_TOKEN" "GetWordIndex EMPTY_TOKEN = 0"
  by (simp_all add: IsDictionaryWord_def EMPTY_TOKEN_def LAST_PAIR_TOKEN_def NO_INDEX_def GetWordIndex_def)

lemma small_is_pair: "unat t < 2 ^ 31 - 1 \<Longrightarrow> \<not> IsDictionaryWord t \<and> t \<noteq> EMPTY_TOKEN"
proof -
  assume t: "unat t < 2 ^ 31 - 1"
  have "unat LAST_PAIR_TOKEN = 2 ^ 31 - 1" by (simp add: LAST_PAIR_TOKEN_def NO_INDEX_def unat_div)
  with t have "\<not> IsDictionaryWord t" by (simp add: IsDictionaryWord_def word_less_nat_alt)
  moreover from this have "t \<noteq> EMPTY_TOKEN" by auto
  ultimately show ?thesis ..
qed

lemma word_token:
  assumes "j < 2 ^ 31"
  shows "IsDictionaryWord (GetWordToken (of_nat j))" "GetWordIndex (GetWordToken (of_nat j)) = of_nat j"
    "GetWordToken (of_nat j) = EMPTY_TOKEN \<longleftrightarrow> j = 0"
proof -
  have j: "unat (of_nat j :: dword) = j" using assms by (simp add: unat_of_nat)
  have full: "unat (- 1 :: dword) = 2 ^ 32 - 1" by (simp add: unsigned_minus_1_eq_mask mask_eq_exp_minus_1)
  have "unat (GetWordToken (of_nat j)) = 2 ^ 32 - 1 - j"
    unfolding GetWordToken_def EMPTY_TOKEN_def NO_INDEX_def by (subst unat_sub) (use assms in \<open>simp_all add: word_le_nat_alt j full\<close>)
  then show "IsDictionaryWord (GetWordToken (of_nat j))"
    using assms by (simp add: IsDictionaryWord_def LAST_PAIR_TOKEN_def NO_INDEX_def word_less_nat_alt unat_div)
  show "GetWordIndex (GetWordToken (of_nat j)) = of_nat j" by (simp add: GetWordIndex_def GetWordToken_def)
  have "GetWordToken (of_nat j) = EMPTY_TOKEN \<longleftrightarrow> (of_nat j :: dword) = 0" by (simp add: GetWordToken_def)
  then show "GetWordToken (of_nat j) = EMPTY_TOKEN \<longleftrightarrow> j = 0" using j by (metis unsigned_eq_0_iff)
qed

lemma spells_EMPTY: "sd_ok d \<Longrightarrow> spells (sd_contents d) ps EMPTY_TOKEN s \<longleftrightarrow> s = []"
proof
  assume ok: "sd_ok d"
  have n: "unat (GetWordIndex EMPTY_TOKEN) < length (sd_contents d)" "sd_contents d ! unat (GetWordIndex EMPTY_TOKEN) = []"
    using ok by (simp_all add: sd_ok_def)
  have "spells (sd_contents d) ps EMPTY_TOKEN (sd_contents d ! unat (GetWordIndex EMPTY_TOKEN))"
    by (rule spells.word [OF EMPTY_is_word(1) n(1)])
  then have e: "spells (sd_contents d) ps EMPTY_TOKEN []" unfolding n(2) .
  show "s = []" if "spells (sd_contents d) ps EMPTY_TOKEN s" using spells_unique [OF that e] .
  show "spells (sd_contents d) ps EMPTY_TOKEN s" if "s = []" using e that by simp
qed

text \<open>A found pair stands for the two tokens.\<close>

lemma pd_Find_spells:
  assumes "pair_dict_ok p" and "spells ws (pd_data p) a s" and "spells ws (pd_data p) b s'"
  obtains (none) "pd_Find p (a, b) = Some NO_INDEX" "(a, b) \<notin> set (pd_data p)"
    | (some) i where "pd_Find p (a, b) = Some i" "i \<noteq> NO_INDEX" "(a, b) \<in> set (pd_data p)" "spells ws (pd_data p) i (s @ s')" "i \<noteq> EMPTY_TOKEN"
proof (cases "(a, b) \<in> set (pd_data p)")
  case True
  note B = pairs.bounded [OF assms(1)]
  let ?i = "position (pd_data p) (a, b)"
  have i: "?i \<noteq> NO_INDEX" "unat ?i < length (pd_data p)" "pd_data p ! unat ?i = (a, b)"
    using position_present [OF True] B by simp_all
  then have "\<not> IsDictionaryWord ?i \<and> ?i \<noteq> EMPTY_TOKEN" using B by (intro small_is_pair) simp
  with i assms spells.pair [of ?i "pd_data p" a b ws s s'] True show ?thesis
    by (intro some [of ?i]) (simp_all add: pairs.finds)
next
  case False
  with assms(1) show ?thesis by (intro none) (simp_all add: pairs.finds)
qed

lemma fold_pairs_ok:
  "pair_dict_ok p \<Longrightarrow> \<forall>(a, b) \<in> set (pd_data p). IsToken a \<and> IsToken b \<Longrightarrow> sd_ok d \<Longrightarrow>
   spell_all (sd_contents d) (pd_data p) toks a \<Longrightarrow> spells (sd_contents d) (pd_data p) lastToken b \<Longrightarrow> spells (sd_contents d) (pd_data p) token s \<Longrightarrow>
   EMPTY_TOKEN \<notin> set toks \<Longrightarrow> token \<noteq> EMPTY_TOKEN \<Longrightarrow>
   \<exists>toks' lastToken' token' a' b' s'. fold_pairs p (length pre) (pre @ toks) lastToken token = Some (pre @ toks', lastToken', token') \<and>
     spell_all (sd_contents d) (pd_data p) toks' a' \<and> spells (sd_contents d) (pd_data p) lastToken' b' \<and>
     spells (sd_contents d) (pd_data p) token' s' \<and> a' @ b' @ s' = a @ b @ s \<and> EMPTY_TOKEN \<notin> set toks' \<and> token' \<noteq> EMPTY_TOKEN \<and>
     length toks' \<le> length toks"
proof (induction toks arbitrary: lastToken token a b s rule: rev_induct)
  case Nil
  show ?case
    using Nil.prems(1,5,6)
  proof (cases rule: pd_Find_spells)
    case none
    with Nil.prems show ?thesis by (subst fold_pairs.simps) fastforce
  next
    case (some i)
    have "(EMPTY_TOKEN, i) \<notin> set (pd_data p)" using Nil.prems(2) by (auto simp: IsToken_def)
    then have "pd_Find p (EMPTY_TOKEN, i) = Some NO_INDEX" using Nil.prems(1) by (simp add: pairs.finds)
    then have "fold_pairs p (length pre) pre EMPTY_TOKEN i = Some (pre, EMPTY_TOKEN, i)"
      by (subst fold_pairs.simps) simp
    then have "fold_pairs p (length pre) (pre @ []) lastToken token = Some (pre @ [], EMPTY_TOKEN, i)"
      using some(1,2) by (subst fold_pairs.simps) (simp add: GetPairToken_def EMPTY_TOKEN_def)
    with some(4,5) spells_EMPTY [OF Nil.prems(3), of "pd_data p" "[]"] Nil.prems(4) show ?thesis by fastforce
  qed
next
  case (snoc t toks)
  from snoc.prems(4) obtain a1 a2 where a: "a = a1 @ a2" "spell_all (sd_contents d) (pd_data p) toks a1" "spells (sd_contents d) (pd_data p) t a2"
    by (auto simp: spell_all_snoc)
  show ?case
    using snoc.prems(1,5,6)
  proof (cases rule: pd_Find_spells)
    case none
    with snoc.prems show ?thesis by (subst fold_pairs.simps) (fastforce simp del: append_assoc)
  next
    case (some i)
    have "EMPTY_TOKEN \<notin> set toks" using snoc.prems(7) by simp
    from snoc.IH [OF snoc.prems(1,2,3) a(2,3) some(4) this some(5)] obtain toks' l' t' a' b' s' where
      IH: "fold_pairs p (length pre) (pre @ toks) t i = Some (pre @ toks', l', t')"
        "spell_all (sd_contents d) (pd_data p) toks' a'" "spells (sd_contents d) (pd_data p) l' b'"
        "spells (sd_contents d) (pd_data p) t' s'" "a' @ b' @ s' = a1 @ a2 @ b @ s" "EMPTY_TOKEN \<notin> set toks'" "t' \<noteq> EMPTY_TOKEN"
        "length toks' \<le> length toks" by auto
    have "butlast (pre @ toks @ [t]) = pre @ toks" by (metis append.assoc butlast_snoc)
    then have "fold_pairs p (length pre) (pre @ toks @ [t]) lastToken token = Some (pre @ toks', l', t')"
      using some(1,2) IH(1) by (subst fold_pairs.simps) (simp add: GetPairToken_def)
    moreover have "a' @ b' @ s' = a @ b @ s" using IH(5) a(1) by simp
    moreover have "length toks' \<le> length (toks @ [t])" using IH(8) by simp
    ultimately show ?thesis using IH(2-4,6,7) by blast
  qed
qed

text \<open>Room for the words and tokens of a string: one word for each byte at most.\<close>

definition tc_room :: "token_container \<Rightarrow> nat \<Rightarrow> bool" where
  "tc_room c n \<longleftrightarrow> string_room (tc_words c) n (2 * n) \<and> length (stringData c) + 2 * n + 1 < 2 ^ 32 - 1"

lemma string_room_mono: "string_room d n k \<Longrightarrow> n' \<le> n \<Longrightarrow> k' \<le> k \<Longrightarrow> string_room d n' k'"
  by (auto simp: string_room_def)

lemma takeWhile_nonzero: "(0 :: byte) \<notin> set w \<Longrightarrow> takeWhile (\<lambda>ch. ch \<noteq> 0) w = w"
  by (auto simp: takeWhile_eq_all_conv)

text \<open>The state while a string is appended: what is behind the old tokens, together with the last token,
  spells what has been read of the string.\<close>

definition appending :: "token_container \<Rightarrow> dword list \<Rightarrow> dword list \<Rightarrow> dword \<Rightarrow> byte list \<Rightarrow> token_container \<Rightarrow> bool" where
  "appending c0 pre toks lastToken old_text c \<longleftrightarrow>
     sd_ok (tc_words c) \<and> take (length (word_list c0)) (word_list c) = word_list c0 \<and> tc_pairs c = tc_pairs c0 \<and>
     tc_offsets c = tc_offsets c0 \<and> stringData c = pre @ toks \<and> EMPTY_TOKEN \<notin> set toks \<and>
     (\<exists>a b. old_text = a @ b \<and> spell_all (word_list c) (pair_list c) toks a \<and> spells (word_list c) (pair_list c) lastToken b)"

lemma NO_INDEX_value: "unat NO_INDEX = 2 ^ 32 - 1"
  by (simp add: NO_INDEX_def unsigned_minus_1_eq_mask mask_eq_exp_minus_1)

lemma room_arith: "0 < a \<Longrightarrow> a + b = r \<Longrightarrow> a + 1 + 2 * (b + k) \<le> 2 * (r + (k::nat))"
  "0 < a \<Longrightarrow> d + 2 * (a + k) + 1 < m \<Longrightarrow> e \<le> d + a \<Longrightarrow> e + 1 + 2 * k + 1 < (m::nat)"
  "d \<le> t + 1 \<Longrightarrow> b < r \<Longrightarrow> p + t + 2 * (r + k) + 1 < m \<Longrightarrow> p + d + 2 * (b + k) + 1 < (m::nat)"
  by presburger+

lemma append_words_ok:
  assumes p: "pair_dict_ok (tc_pairs c0)" "\<forall>(a, b) \<in> set (pair_list c0). IsToken a \<and> IsToken b"
  shows "appending c0 pre toks lastToken old_text c \<Longrightarrow> tc_room c (length rest + k) \<Longrightarrow> 0 \<notin> set rest \<Longrightarrow>
    \<exists>toks' lastToken' c'. append_words before (length pre) rest inDelimiter lastToken c = Some (Return (lastToken', c')) \<and>
      appending c0 pre toks' lastToken' (old_text @ rest) c' \<and> tc_room c' k \<and>
      length (stringData c') \<le> length (stringData c) + length rest"
proof (induction "length rest" arbitrary: rest inDelimiter lastToken c toks old_text rule: less_induct)
  case less
  show ?case
  proof (cases "rest = []")
    case True
    with less.prems show ?thesis by (subst append_words.simps) fastforce
  next
    case False
    obtain n inD where nw: "next_word before inDelimiter rest = (n, inD)" by fastforce
    then have n: "0 < n" using next_word_pos [of before inDelimiter rest] by simp
    let ?w = "take n rest"
    have w: "0 \<notin> set ?w" "?w \<noteq> []" using less.prems(3) n False by (auto dest: in_set_takeD)
    have lens: "length (drop n rest) < length rest" "length ?w + length (drop n rest) = length rest" "0 < length ?w"
      using n False by (simp_all add: min_def)
    from less.prems(1) obtain a b where A: "sd_ok (tc_words c)" "take (length (word_list c0)) (word_list c) = word_list c0" "tc_pairs c = tc_pairs c0"
      "tc_offsets c = tc_offsets c0" "stringData c = pre @ toks" "EMPTY_TOKEN \<notin> set toks" "old_text = a @ b"
      "spell_all (word_list c) (pair_list c) toks a" "spells (word_list c) (pair_list c) lastToken b"
      by (auto simp: appending_def)
    have "string_room (tc_words c) (length rest + k) (2 * (length rest + k))" using less.prems(2) by (simp add: tc_room_def)
    then have "string_room (tc_words c) (Suc (length (drop n rest) + k)) (length ?w + 1 + 2 * (length (drop n rest) + k))"
      by (rule string_room_mono) (use lens(1) in linarith, rule room_arith(1) [OF lens(3,2)])
    then obtain j ws where ws: "sd_AutoInsert (tc_words c) ?w = Some (Return (of_nat j, ws))" "sd_ok ws" "j < length (sd_contents ws)"
      "sd_contents ws ! j = ?w" "take (length (word_list c)) (sd_contents ws) = word_list c" "string_room ws (length (drop n rest) + k) (2 * (length (drop n rest) + k))"
      by (rule sd_auto_insert_room [OF A(1) w(1)])
    have j: "unat (of_nat j :: dword) = j" "j < 2 ^ 31" using ws(3) strings.bounded [OF ws(2)] by (simp_all add: unat_index)
    have "j \<noteq> 0" using ws(2,4) w(2) unfolding sd_ok_def by metis
    then have tok: "GetWordToken (of_nat j) \<noteq> EMPTY_TOKEN" using word_token(3) [OF j(2)] by simp
    let ?sp = "spells (sd_contents ws) (pair_list c0)" and ?spa = "spell_all (sd_contents ws) (pair_list c0)"
    have word: "?sp (GetWordToken (of_nat j)) ?w"
      using spells.word [of "GetWordToken (of_nat j)" "sd_contents ws" "pair_list c0"] word_token(1,2) [OF j(2)] ws(3,4) j(1) by simp
    have old: "?spa toks a" "?sp lastToken b"
      using spell_all_mono [OF A(8) ws(5), of "pair_list c"] spells_mono [OF A(9) ws(5), of "pair_list c"] A(3) by simp_all
    obtain toks1 last1 tok1 a1 b1 s1 where f: "fold_pairs (tc_pairs c0) (length pre) (pre @ toks) lastToken (GetWordToken (of_nat j)) = Some (pre @ toks1, last1, tok1)"
      "?spa toks1 a1" "?sp last1 b1" "?sp tok1 s1" "a1 @ b1 @ s1 = a @ b @ ?w" "EMPTY_TOKEN \<notin> set toks1" "tok1 \<noteq> EMPTY_TOKEN"
      "length toks1 \<le> length toks"
      using fold_pairs_ok [OF p ws(2) old word A(6) tok, of pre] by blast
    obtain data where data: "Append_token last1 (pre @ toks1) = Return (pre @ data)" "?spa data (a1 @ b1)" "EMPTY_TOKEN \<notin> set data" "length data \<le> length toks + 1"
    proof (cases "last1 = EMPTY_TOKEN")
      case True
      then have "b1 = []" using f(3) spells_EMPTY [OF ws(2)] by simp
      with True f(2,6,8) show ?thesis by (intro that [of toks1]) (simp_all add: Append_token_def IsToken_def)
    next
      case False
      have "length (pre @ toks) < 2 ^ 32 - 1" using less.prems(2) A(5) by (simp add: tc_room_def)
      then have "length (pre @ toks1) \<noteq> unat NO_INDEX" using f(8) unfolding NO_INDEX_value by simp
      with False f(2,3,6,8) show ?thesis
        by (intro that [of "toks1 @ [last1]"]) (auto simp: Append_token_def IsToken_def spell_all_snoc)
    qed
    let ?c = "c\<lparr>tc_words := ws, stringData := pre @ data\<rparr>"
    have "\<exists>a' b'. old_text @ ?w = a' @ b' \<and> ?spa data a' \<and> ?sp tok1 b'"
      using data(2) f(4,5) A(7) by (metis append.assoc)
    moreover have "take (length (word_list c0)) (sd_contents ws) = word_list c0" using A(2) ws(5) by (rule take_trans)
    ultimately have "appending c0 pre data tok1 (old_text @ ?w) ?c"
      using A(3,4) ws(2) data(3) by (simp add: appending_def)
    moreover have "length pre + length toks + 2 * (length rest + k) + 1 < 2 ^ 32 - 1"
      using less.prems(2) unfolding tc_room_def A(5) length_append by blast
    then have "length pre + length data + 2 * (length (drop n rest) + k) + 1 < 2 ^ 32 - 1" by (rule room_arith(3) [OF data(4) lens(1)])
    then have "tc_room ?c (length (drop n rest) + k)"
      using ws(6) by (simp add: tc_room_def)
    moreover have "0 \<notin> set (drop n rest)" using less.prems(3) by (auto dest: in_set_dropD)
    ultimately obtain toks' last' c' where
      IH: "append_words before (length pre) (drop n rest) inD tok1 ?c = Some (Return (last', c'))"
        "appending c0 pre toks' last' ((old_text @ ?w) @ drop n rest) c'" "tc_room c' k"
        "length (stringData c') \<le> length (stringData ?c) + length (drop n rest)"
      using less.hyps [OF lens(1), of data tok1 "old_text @ ?w" ?c inD] by blast
    have "append_words before (length pre) rest inDelimiter lastToken c = Some (Return (last', c'))"
      using False ws(1) f(1) data(1) IH(1) A(3,5) by (subst append_words.simps) (simp add: nw takeWhile_nonzero [OF w(1)] Let_def)
    moreover have "length (stringData c') \<le> length (stringData c) + length rest" using IH(4) data(4) lens(1) A(5) by simp
    ultimately show ?thesis using IH(2,3) by auto
  qed
qed

lemma tc_Append_ok:
  assumes R: "sd_ok (tc_words c)" "pair_dict_ok (tc_pairs c)" "\<forall>(a, b) \<in> set (pair_list c). IsToken a \<and> IsToken b"
    and room: "tc_room c (length s + k)" and nul: "0 \<notin> set s"
  shows "\<exists>ts c'. tc_Append before s c = Some (Return c') \<and> sd_ok (tc_words c') \<and> take (length (word_list c)) (word_list c') = word_list c \<and>
    tc_pairs c' = tc_pairs c \<and> tc_offsets c' = tc_offsets c \<and> stringData c' = stringData c @ ts \<and> EMPTY_TOKEN \<notin> set ts \<and>
    spell_all (word_list c') (pair_list c') ts s \<and> length (stringData c') < 2 ^ 32 - 1 \<and> tc_room c' k"
proof -
  have "appending c (stringData c) [] EMPTY_TOKEN [] c"
    using R(1) spells_EMPTY [OF R(1)] by (simp add: appending_def)
  from append_words_ok [OF R(2,3) this room nul, of before] obtain toks last1 c1 where
    c1: "append_words before (length (stringData c)) s (s \<noteq> [] \<and> delimiter before (hd s)) EMPTY_TOKEN c = Some (Return (last1, c1))"
      "appending c (stringData c) toks last1 s c1" "tc_room c1 k" "length (stringData c1) \<le> length (stringData c) + length s" by fastforce
  from c1(2) obtain a b where A: "sd_ok (tc_words c1)" "take (length (word_list c)) (word_list c1) = word_list c" "tc_pairs c1 = tc_pairs c"
    "tc_offsets c1 = tc_offsets c" "stringData c1 = stringData c @ toks" "EMPTY_TOKEN \<notin> set toks" "s = a @ b"
    "spell_all (word_list c1) (pair_list c1) toks a" "spells (word_list c1) (pair_list c1) last1 b" by (auto simp: appending_def)
  have len: "length (stringData c1) + 1 < 2 ^ 32 - 1" using c1(3) by (simp add: tc_room_def)
  show ?thesis
  proof (cases "last1 = EMPTY_TOKEN")
    case True
    then have "b = []" using A(9) spells_EMPTY [OF A(1)] by simp
    with True A len c1(1,3) show ?thesis by (intro exI [of _ toks] exI [of _ c1]) (simp add: tc_Append_def Append_token_def IsToken_def)
  next
    case False
    let ?c = "c1\<lparr>stringData := stringData c1 @ [last1]\<rparr>"
    have "s \<noteq> []" using False c1(1) by (auto simp: append_words.simps)
    then have "0 < length s" by simp
    moreover have "length (stringData c) + 2 * (length s + k) + 1 < 2 ^ 32 - 1" "string_room (tc_words c1) k (2 * k)"
      using room c1(3) by (simp_all add: tc_room_def)
    ultimately have "length (stringData c1) + 1 + 2 * k + 1 < 2 ^ 32 - 1 \<and> string_room (tc_words c1) k (2 * k)"
      using room_arith(2) c1(4) by blast
    then have more: "tc_room ?c k" by (simp add: tc_room_def)
    have "length (stringData c1) \<noteq> unat NO_INDEX" using len unfolding NO_INDEX_value by simp
    then have "tc_Append before s c = Some (Return ?c)" using False c1(1) by (simp add: tc_Append_def Append_token_def IsToken_def)
    moreover have "spell_all (word_list ?c) (pair_list ?c) (toks @ [last1]) s" using A(7-9) by (auto simp: spell_all_snoc)
    ultimately show ?thesis using False A len more by (intro exI [of _ "toks @ [last1]"] exI [of _ ?c]) simp
  qed
qed

section \<open>The properties\<close>

lemma spell_lists_mono:
  "list_all2 (spell_all ws ps) tokss strs \<Longrightarrow> take (length ws) ws' = ws \<Longrightarrow> take (length ps) ps' = ps \<Longrightarrow> list_all2 (spell_all ws' ps') tokss strs"
  by (erule list_all2_mono) (blast intro: spell_all_mono)

lemma new_token_container_ok: "\<exists>c. new_token_container = Some c \<and> tc_rep c [] [] \<and> (\<forall>n < 2 ^ 20. tc_room c n)"
proof -
  obtain ws where ws: "new_string_dict = Some ws" "sd_ok ws" "sd_contents ws = [[]]" using new_string_dict_ok by blast
  moreover from this have "packedStrings ws = [0]" by (simp add: sd_ok_def)
  ultimately show ?thesis
    using pair_dict_ok_new
    by (auto simp: new_token_container_def tc_rep_def offsets_for_Nil new_pair_dict_def tc_room_def string_room_def)
qed

lemma tc_Insert_ok:
  assumes rep: "tc_rep c tokss strs" and room: "tc_room c (length s + k)" "length strs < 2 ^ 32 - 2" and nul: "0 \<notin> set s"
  shows "\<exists>ts c'. tc_Insert before s c = Some (Return (of_nat (length strs), c')) \<and> tc_rep c' (tokss @ [ts]) (strs @ [s]) \<and> tc_room c' k"
proof -
  note R = tc_repD [OF rep]
  obtain ts c1 where c1: "tc_Append before s c = Some (Return c1)" "sd_ok (tc_words c1)" "take (length (word_list c)) (word_list c1) = word_list c"
    "tc_pairs c1 = tc_pairs c" "tc_offsets c1 = tc_offsets c" "stringData c1 = stringData c @ ts" "EMPTY_TOKEN \<notin> set ts"
    "spell_all (word_list c1) (pair_list c1) ts s" "length (stringData c1) < 2 ^ 32 - 1" "tc_room c1 k"
    using tc_Append_ok [OF R(1-3) room(1) nul, of before] by blast
  let ?c = "c1\<lparr>tc_offsets := tc_offsets c @ [of_nat (length (stringData c1))]\<rparr>"
  have offs: "tc_offsets c @ [of_nat (length (stringData c1))] = offsets_for (tokss @ [ts])"
    by (simp add: R(5) offsets_for_snoc c1(6) R(4))
  have "list_all2 (spell_all (word_list c1) (pair_list c1)) tokss strs"
    using spell_lists_mono [OF R(9) c1(3), of "pair_list c1"] by (simp add: c1(4))
  then have "tc_rep ?c (tokss @ [ts]) (strs @ [s])"
    unfolding tc_rep_def using R c1 room(2) offs by (auto simp: list_all2_appendI)
  moreover have "tc_Insert before s c = Some (Return (of_nat (length strs), ?c))"
    using c1(1,5) R(10) by (simp add: tc_Insert_def R(5) Let_def)
  moreover have "tc_room ?c k" using c1(10) by (simp add: tc_room_def)
  ultimately show ?thesis by blast
qed

text \<open>
  C15. Every string that is inserted is read back. While there is room for a word and two tokens for
  each of its bytes, the insertion of a string without zero bytes succeeds whatever the table of delimiters
  makes of its bytes, also of those from 128 on, for which it is read out of bounds; the
  index it returns leads to exactly this string, and all strings that were in the container are read
  as before.
\<close>

theorem token_container_insert:
  assumes "tc_shows c strs" and "tc_room c (length s)" and "length strs < 2 ^ 32 - 2" and "0 \<notin> set s" and "length s < 2 ^ 64"
    and "\<forall>s \<in> set strs. length s < 2 ^ 64"
  shows "\<exists>i c'. tc_Insert before s c = Some (Return (i, c')) \<and> tc_shows c' (strs @ [s]) \<and> tc_get c' i = Some s \<and>
    (\<forall>j < length strs. tc_get c' (of_nat j) = Some (strs ! j) \<and> tc_get c (of_nat j) = Some (strs ! j))"
proof -
  from assms(1) obtain tokss where rep: "tc_rep c tokss strs" by (auto simp: tc_shows_def)
  obtain ts c' where c': "tc_Insert before s c = Some (Return (of_nat (length strs), c'))" "tc_rep c' (tokss @ [ts]) (strs @ [s])"
    using tc_Insert_ok [OF rep _ assms(3,4), of 0 before] assms(2) by auto
  have "tc_get c' (of_nat (length strs)) = Some s" using tc_get_ok [OF c'(2), of "length strs"] assms(5) by (simp add: tc_get_def)
  moreover have "tc_get c' (of_nat j) = Some (strs ! j) \<and> tc_get c (of_nat j) = Some (strs ! j)" if j: "j < length strs" for j
    using tc_get_ok [OF c'(2), of j] tc_get_ok [OF rep j] j assms(6) by (simp add: tc_get_def nth_append)
  ultimately show ?thesis using c' unfolding tc_shows_def by blast
qed

theorem token_container_insert_witness:
  "\<exists>c i c'. new_token_container = Some c \<and> tc_Insert (\<lambda>_. False) [70, 105, 120, 32, 195, 164] c = Some (Return (i, c')) \<and>
     tc_get c' i = Some [70, 105, 120, 32, 195, 164]"
proof -
  obtain c where c: "new_token_container = Some c" "tc_rep c [] []" "\<forall>n < 2 ^ 20. tc_room c n"
    using new_token_container_ok by blast
  let ?s = "[70, 105, 120, 32, 195, 164] :: byte list"
  have "tc_shows c []" using c(2) by (auto simp: tc_shows_def)
  moreover have "tc_room c (length ?s)" using c(3) by simp
  ultimately obtain i c' where "tc_Insert (\<lambda>_. False) ?s c = Some (Return (i, c'))" "tc_get c' i = Some ?s"
    using token_container_insert [of c "[]" ?s "\<lambda>_. False"] by auto
  with c(1) show ?thesis by blast
qed

subsection \<open>Several copies\<close>

lemma duplicate_add: "duplicate (m + n) i data = duplicate n (i + m) (duplicate m i data)"
  by (induction m arbitrary: i data) simp_all

lemma duplicate_part: "i + n \<le> length data \<Longrightarrow> duplicate n i data = data @ take n (drop i data)"
proof (induction n arbitrary: i data)
  case (Suc n)
  then have "duplicate n (i + 1) (data @ [data ! i]) = (data @ [data ! i]) @ take n (drop (i + 1) (data @ [data ! i]))"
    by (intro Suc.IH) simp
  moreover have "take (Suc n) (drop i data) = data ! i # take n (drop (Suc i) data)"
    using Suc.prems by (simp add: Cons_nth_drop_Suc [symmetric])
  ultimately show ?case using Suc.prems by simp
qed simp

lemma duplicate_copies: "duplicate (k * length ts) (length pre) (pre @ ts) = pre @ concat (replicate (Suc k) ts)"
proof (induction k arbitrary: pre)
  case (Suc k)
  have "duplicate (length ts) (length pre) (pre @ ts) = pre @ ts @ ts" by (simp add: duplicate_part)
  with Suc.IH [of "pre @ ts"] show ?case by (simp add: duplicate_add)
qed simp

lemma offsets_for_copies:
  "offsets_for (xss @ replicate n ts) = offsets_for xss @ map (\<lambda>k. of_nat (length (concat xss) + Suc k * length ts)) [0..<n]"
proof (induction n)
  case (Suc n)
  have "offsets_for (xss @ replicate (Suc n) ts) = offsets_for ((xss @ replicate n ts) @ [ts])" by (simp add: replicate_append_same)
  also have "\<dots> = offsets_for (xss @ replicate n ts) @ [of_nat (length (concat ((xss @ replicate n ts) @ [ts])))]"
    by (rule offsets_for_snoc)
  also have "length (concat ((xss @ replicate n ts) @ [ts])) = length (concat xss) + Suc n * length ts"
    by (simp add: length_concat sum_list_replicate)
  finally show ?case unfolding Suc.IH by simp
qed simp

lemma unat_wide: "x < 2 ^ 32 \<Longrightarrow> unat (ucast (of_nat x :: dword) :: qword) = x"
  by (simp add: unat_ucast_mod unat_of_nat)

lemma qword_pos: "0 < n \<Longrightarrow> n < 2 ^ 32 \<Longrightarrow> (of_nat n :: qword) > 0"
  by (simp add: word_less_nat_alt unat_of_nat)

lemma add_offsets_test:
  assumes "m < 2 ^ 32" and "m * n < 2 ^ 32" and "n < 2 ^ 32" and "k \<le> n" and "0 < m"
  shows "(ucast (of_nat (k * m) :: dword) :: qword) < ucast (of_nat m :: dword) * of_nat n \<longleftrightarrow> k < n"
proof -
  have km: "k * m < 2 ^ 32" using assms(2,4) by (metis le_less_trans mult.commute mult_le_mono2)
  then have "unat (ucast (of_nat (k * m) :: dword) :: qword) = k * m" by (rule unat_wide)
  moreover have "unat (ucast (of_nat m :: dword) * of_nat n :: qword) = m * n"
    using assms(1-3) by (simp add: unat_word_ariths unat_ucast_mod unat_of_nat)
  ultimately show ?thesis using assms(5) by (simp add: word_less_nat_alt mult.commute [of k])
qed

lemma add_offsets_ok:
  assumes "m < 2 ^ 32" and "m * n < 2 ^ 32" and "n < 2 ^ 32" and "0 < m"
  shows "k \<le> n \<Longrightarrow> add_offsets (of_nat (k * m)) (of_nat m) (of_nat n) newSize offs = Some (offs @ map (\<lambda>k. newSize + of_nat (k * m)) [k..<n])"
proof (induction "n - k" arbitrary: k offs)
  case 0
  then show ?case using add_offsets_test [OF assms(1-3) 0(2) assms(4)] by (subst add_offsets.simps) simp
next
  case (Suc x)
  then have k: "k < n" "Suc k \<le> n" "x = n - Suc k" by simp_all
  have "of_nat (k * m) + of_nat m = (of_nat (Suc k * m) :: dword)" by simp
  moreover have "[k..<n] = k # [Suc k..<n]" using k(1) by (rule upt_conv_Cons)
  ultimately show ?case
    using Suc.hyps(1) [OF k(3,2), of "offs @ [newSize + of_nat (k * m)]"] add_offsets_test [OF assms(1-3) Suc.prems assms(4)] k(1)
    by (subst add_offsets.simps) (simp only: if_True simp_thms append.assoc append_Cons append_Nil list.map)
qed

lemma tc_Append_Nil: "tc_Append before [] c = Some (Return c)"
  by (simp add: tc_Append_def append_words.simps Append_token_def IsToken_def)

text \<open>Every token stands for at least one byte.\<close>

lemma spells_nonempty:
  "spells (sd_contents d) ps t s \<Longrightarrow> sd_ok d \<Longrightarrow> \<forall>(a, b) \<in> set ps. IsToken a \<and> IsToken b \<Longrightarrow> t \<noteq> EMPTY_TOKEN \<Longrightarrow> s \<noteq> []"
proof (induction rule: spells.induct)
  case (word t)
  have "GetWordIndex t \<noteq> 0" using word.prems(3) by (simp add: GetWordIndex_def)
  then have "unat (GetWordIndex t) \<noteq> 0" by (simp add: word_nonzero)
  moreover have "distinct (sd_contents d)" "sd_contents d \<noteq> []" "sd_contents d ! 0 = []"
    using strings.bounded [OF word.prems(1)] word.prems(1) by (auto simp: sd_ok_def)
  ultimately show ?case using word.hyps(2) by (metis length_greater_0_conv nth_eq_iff_index_eq)
next
  case (pair t a b s1 s2)
  have "a \<noteq> EMPTY_TOKEN" using pair.prems(2) nth_mem [OF pair.hyps(2)] pair.hyps(3) by (auto simp: IsToken_def)
  with pair.IH(1) pair.prems show ?case by simp
qed

lemma spell_all_length:
  "spell_all (sd_contents d) ps ts s \<Longrightarrow> sd_ok d \<Longrightarrow> \<forall>(a, b) \<in> set ps. IsToken a \<and> IsToken b \<Longrightarrow> EMPTY_TOKEN \<notin> set ts \<Longrightarrow> length ts \<le> length s"
proof (induction ts arbitrary: s)
  case (Cons t ts)
  then obtain a b where ab: "s = a @ b" "spells (sd_contents d) ps t a" "spell_all (sd_contents d) ps ts b" by auto
  then have "a \<noteq> []" using spells_nonempty [OF ab(2) Cons.prems(2,3)] Cons.prems(4) by auto
  moreover have "length ts \<le> length b" using Cons.IH [OF ab(3) Cons.prems(2,3)] Cons.prems(4) by simp
  ultimately show ?case by (cases a) (simp_all add: ab(1))
qed simp

lemma tc_Insert_count_ok:
  assumes rep: "tc_rep c tokss strs" and room: "tc_room c (length s)" and nul: "0 \<notin> set s" and s: "s \<noteq> []" and n: "0 < n"
    and many: "length strs + n < 2 ^ 32 - 1" "length (stringData c) + n * length s < 2 ^ 32"
  shows "\<exists>c' ts. tc_Insert_count before s (of_nat n) c = Some (Return (of_nat (length strs), c')) \<and>
    tc_rep c' (tokss @ replicate n ts) (strs @ replicate n s)"
proof -
  note R = tc_repD [OF rep]
  obtain ts c1 where c1: "tc_Append before s c = Some (Return c1)" "sd_ok (tc_words c1)" "take (length (word_list c)) (word_list c1) = word_list c"
    "tc_pairs c1 = tc_pairs c" "tc_offsets c1 = tc_offsets c" "stringData c1 = stringData c @ ts" "EMPTY_TOKEN \<notin> set ts"
    "spell_all (word_list c1) (pair_list c1) ts s" "length (stringData c1) < 2 ^ 32 - 1"
    using tc_Append_ok [OF R(1-3) _ nul, of 0 before] room by auto
  have sp: "list_all2 (spell_all (word_list c1) (pair_list c1)) tokss strs"
    using spell_lists_mono [OF R(9) c1(3), of "pair_list c1"] by (simp add: c1(4))
  let ?m = "length ts" and ?pre = "length (stringData c)"
  have "ts \<noteq> []" using c1(8) s by auto
  then have m0: "0 < ?m" by simp
  have m: "?m \<le> length s" using spell_all_length [OF c1(8,2) _ c1(7)] R(3) by (simp add: c1(4))
  have n32: "n < 2 ^ 32" using many(1) by simp
  have "n * ?m \<le> n * length s" using m by (rule mult_le_mono2)
  with many(2) have mn: "?m * n < 2 ^ 32" "?pre + n * ?m < 2 ^ 32" unfolding mult.commute [of ?m] by linarith+
  have m32: "?m < 2 ^ 32" using c1(6,9) by simp
  have pre: "unat (of_nat ?pre :: dword) = ?pre" using R(4,6) by (simp add: unat_of_nat)
  have item: "of_nat (length (stringData c1)) - of_nat ?pre = (of_nat ?m :: dword)" by (simp add: c1(6))
  have copies: "unat (ucast (of_nat ?m :: dword) * (of_nat n - 1) :: qword) = (n - 1) * ?m"
  proof -
    have "(of_nat n - 1 :: qword) = of_nat (n - 1)" using n by (simp add: of_nat_diff)
    moreover have "(n - 1) * ?m < 2 ^ 64"
    proof -
      have "(n - 1) * ?m \<le> n * ?m" by (rule mult_le_mono1) simp
      also have "\<dots> < 2 ^ 32" using mn(1) by (simp only: mult.commute [of n])
      finally show ?thesis by simp
    qed
    ultimately show ?thesis using m32 n32 by (simp add: unat_word_ariths unat_wide unat_of_nat mult.commute)
  qed
  have data: "duplicate ((n - 1) * ?m) ?pre (stringData c1) = stringData c @ concat (replicate n ts)"
    using duplicate_copies [of "n - 1" ts "stringData c"] n by (simp add: c1(6))
  let ?new = "of_nat (length (stringData c1)) :: dword"
  have "add_offsets 0 (of_nat ?m) (of_nat n) ?new (tc_offsets c1) = Some (tc_offsets c @ map (\<lambda>k. ?new + of_nat (k * ?m)) [0..<n])"
    using add_offsets_ok [OF m32 mn(1) n32 m0, of 0 ?new "tc_offsets c1"] by (simp add: c1(5))
  moreover have "map (\<lambda>k. ?new + of_nat (k * ?m)) [0..<n] = map (\<lambda>k. of_nat (length (concat tokss) + Suc k * ?m)) [0..<n]"
    by (rule map_cong) (simp_all add: c1(6) R(4))
  then have "tc_offsets c @ map (\<lambda>k. ?new + of_nat (k * ?m)) [0..<n] = offsets_for (tokss @ replicate n ts)"
    unfolding offsets_for_copies R(5) by simp
  ultimately have offs: "add_offsets 0 (of_nat ?m) (of_nat n) ?new (tc_offsets c1) = Some (offsets_for (tokss @ replicate n ts))" by simp
  let ?c = "c1\<lparr>stringData := stringData c @ concat (replicate n ts), tc_offsets := offsets_for (tokss @ replicate n ts)\<rparr>"
  have "(of_nat n :: qword) > 0" using n n32 by (rule qword_pos)
  then have "tc_Insert_count before s (of_nat n) c = Some (Return (of_nat (length strs), ?c))"
    using c1(1) offs R(10) unfolding tc_Insert_count_def Let_def
    by (simp add: item copies pre data [unfolded One_nat_def] R(5))
  moreover have "list_all2 (spell_all (word_list c1) (pair_list c1)) (replicate n ts) (replicate n s)"
    using c1(8) by (simp add: list_all2_conv_all_nth)
  with sp have "list_all2 (spell_all (word_list c1) (pair_list c1)) (tokss @ replicate n ts) (strs @ replicate n s)" by (rule list_all2_appendI)
  then have "tc_rep ?c (tokss @ replicate n ts) (strs @ replicate n s)"
    using R c1(2,4,7) mn(2) many(1) by (auto simp: tc_rep_def length_concat sum_list_replicate)
  ultimately show ?thesis by blast
qed

text \<open>
  C16. Inserting a string several times adds nothing if the string is empty: the loop that adds the
  offsets makes steps of the number of tokens, and the product that ends it is 0. The index that is returned is
  nevertheless that of the first copy. A string that is not empty is added as often as asked for.
\<close>

theorem token_container_insert_copies:
  assumes "tc_shows c strs" and "tc_room c (length s)" and "0 \<notin> set s" and "0 < n"
    and "length strs + n < 2 ^ 32 - 1" and "length (stringData c) + n * length s < 2 ^ 32"
  shows "\<exists>c'. tc_Insert_count before s (of_nat n) c = Some (Return (of_nat (length strs), c')) \<and>
    (if s = [] then c' = c else tc_shows c' (strs @ replicate n s))"
proof -
  from assms(1) obtain tokss where rep: "tc_rep c tokss strs" by (auto simp: tc_shows_def)
  note R = tc_repD [OF rep]
  show ?thesis
  proof (cases "s = []")
    case True
    have "(of_nat n :: qword) > 0" using assms(4,5) by (intro qword_pos) simp_all
    then have "tc_Insert_count before [] (of_nat n) c = Some (Return (of_nat (length strs), c))"
      using R(5,10) by (simp add: tc_Insert_count_def tc_Append_Nil add_offsets.simps Let_def)
    with True show ?thesis by simp
  next
    case False
    with tc_Insert_count_ok [OF rep assms(2,3) False assms(4-6)] show ?thesis unfolding tc_shows_def by fastforce
  qed
qed

theorem token_container_insert_copies_witness:
  "\<exists>c c'. new_token_container = Some c \<and> tc_Insert_count (\<lambda>_. False) [] (of_nat 3) c = Some (Return (0, c)) \<and>
     tc_Insert_count (\<lambda>_. False) [111, 107] (of_nat 3) c = Some (Return (0, c')) \<and> tc_shows c' [[111, 107], [111, 107], [111, 107]]"
proof -
  obtain c where c: "new_token_container = Some c" "tc_rep c [] []" "\<forall>n < 2 ^ 20. tc_room c n"
    using new_token_container_ok by blast
  have sh: "tc_shows c []" using c(2) by (auto simp: tc_shows_def)
  have data: "stringData c = []" using tc_repD(4) [OF c(2)] by simp
  have room: "tc_room c (length ([] :: byte list))" "tc_room c (length ([111, 107] :: byte list))" using c(3) by simp_all
  from token_container_insert_copies [OF sh room(1), of 3 "\<lambda>_. False"]
  have "tc_Insert_count (\<lambda>_. False) [] (of_nat 3) c = Some (Return (0, c))" by (auto simp: data)
  moreover obtain c' where "tc_Insert_count (\<lambda>_. False) [111, 107] (of_nat 3) c = Some (Return (0, c'))" "tc_shows c' (replicate 3 [111, 107])"
    using token_container_insert_copies [OF sh room(2), of 3 "\<lambda>_. False"] by (auto simp: data)
  ultimately show ?thesis using c(1) by (auto simp: numeral_3_eq_3)
qed

subsection \<open>Removing the last string\<close>

text \<open>
  C17. Removing the last string does not remove its tokens: they become part of the string that is
  inserted next, which then reads as the removed string followed by the new one.
\<close>

theorem token_container_remove_last:
  assumes "tc_shows c (strs @ [old])" and "0 \<notin> set s" and "length (old @ s) < 2 ^ 64" and "tc_room c (length s)"
  shows "\<exists>c1 c2. tc_Remove_at (of_nat (length strs)) c = Some c1 \<and> tc_Insert before s c1 = Some (Return (of_nat (length strs), c2)) \<and>
    tc_shows c2 (strs @ [old @ s]) \<and> tc_get c2 (of_nat (length strs)) = Some (old @ s)"
proof -
  from assms(1) obtain tokss where rep: "tc_rep c tokss (strs @ [old])" by (auto simp: tc_shows_def)
  note R = tc_repD [OF rep]
  obtain xss xs where xs: "tokss = xss @ [xs]" using R(10) by (cases tokss rule: rev_cases) simp_all
  have len: "length xss = length strs" using R(10) xs by simp
  have small: "length strs + 1 < 2 ^ 32 - 1" using R(7) xs len by simp
  have "unat (of_nat (length strs) + 2 :: dword) = length strs + 2"
    using small by (simp add: unat_word_ariths unat_of_nat)
  moreover have "length (tc_offsets c) = length strs + 2" using len by (simp add: R(5) xs)
  ultimately have r: "tc_Remove_at (of_nat (length strs)) c = Some (c\<lparr>tc_offsets := offsets_for xss\<rparr>)" (is "_ = Some ?c1")
    by (simp add: tc_Remove_at_def R(5) xs offsets_for_snoc)
  have "tc_room ?c1 (length s)" using assms(4) by (simp add: tc_room_def)
  then obtain ts c2 where c2: "tc_Append before s ?c1 = Some (Return c2)" "sd_ok (tc_words c2)" "take (length (word_list c)) (word_list c2) = word_list c"
    "tc_pairs c2 = tc_pairs c" "tc_offsets c2 = offsets_for xss" "stringData c2 = stringData c @ ts" "EMPTY_TOKEN \<notin> set ts"
    "spell_all (word_list c2) (pair_list c2) ts s" "length (stringData c2) < 2 ^ 32 - 1"
    using tc_Append_ok [of ?c1 s 0 before] R(1-3) assms(2) by auto
  let ?c2 = "c2\<lparr>tc_offsets := offsets_for xss @ [of_nat (length (stringData c2))]\<rparr>"
  have offs: "offsets_for xss @ [of_nat (length (stringData c2))] = offsets_for (xss @ [xs @ ts])"
    by (simp add: offsets_for_snoc c2(6) R(4) xs)
  have "list_all2 (spell_all (word_list c2) (pair_list c2)) (xss @ [xs]) (strs @ [old])"
    using spell_lists_mono [OF R(9) c2(3), of "pair_list c2"] by (simp add: c2(4) xs)
  then have sp: "list_all2 (spell_all (word_list c2) (pair_list c2)) xss strs" "spell_all (word_list c2) (pair_list c2) xs old"
    using len by (auto simp: list_all2_append)
  then have "spell_all (word_list c2) (pair_list c2) (xs @ ts) (old @ s)" using c2(8) by (auto simp: spell_all_append)
  with sp(1) have "list_all2 (spell_all (word_list c2) (pair_list c2)) (xss @ [xs @ ts]) (strs @ [old @ s])" by (intro list_all2_appendI) simp_all
  then have rep2: "tc_rep ?c2 (xss @ [xs @ ts]) (strs @ [old @ s])"
    using R c2 small offs by (auto simp: tc_rep_def xs)
  have "tc_Insert before s ?c1 = Some (Return (of_nat (length strs), ?c2))"
    using c2(1,5) len by (simp add: tc_Insert_def Let_def)
  moreover have "tc_get ?c2 (of_nat (length strs)) = Some (old @ s)"
    using tc_get_ok [OF rep2, of "length strs"] assms(3) by (simp add: tc_get_def)
  ultimately show ?thesis using r rep2 unfolding tc_shows_def by blast
qed

theorem token_container_remove_last_witness:
  "\<exists>c c1 c2. tc_shows c [[97]] \<and> tc_Remove_at 0 c = Some c1 \<and> tc_Insert (\<lambda>_. False) [98] c1 = Some (Return (0, c2)) \<and> tc_get c2 0 = Some [97, 98]"
proof -
  obtain c0 where c0: "tc_rep c0 [] []" "\<forall>n < 2 ^ 20. tc_room c0 n" using new_token_container_ok by blast
  then have "tc_room c0 (length ([97] :: byte list) + 1)" by simp
  then obtain ts c where c: "tc_rep c ([] @ [ts]) ([] @ [[97]])" "tc_room c 1"
    using tc_Insert_ok [OF c0(1), of "[97]" 1 "\<lambda>_. False"] by auto
  then have sh: "tc_shows c ([] @ [[97]])" "tc_room c (length ([98] :: byte list))" unfolding tc_shows_def by auto
  from token_container_remove_last [OF sh(1) _ _ sh(2), of "\<lambda>_. False"] sh(1) show ?thesis by fastforce
qed

end
