(* ===== verification/PlinkBytes.thy ===== *)
theory PlinkBytes
  imports TSVN_Prelude
begin

text \<open>
  The byte order helpers of \<^verbatim>\<open>src/ext/TortoisePlink/misc.h\<close>: fixed-width integers to and from
  bytes, least or most significant byte first. A pointer argument is the list of the bytes it
  points at; the readers look at as many of them as the C code does.
\<close>

type_synonym word16 = "16 word"

section \<open>Least significant byte first\<close>

definition GET_16BIT_LSB_FIRST :: "byte list \<Rightarrow> word16" where
  "GET_16BIT_LSB_FIRST p = ucast (p ! 0) OR push_bit 8 (ucast (p ! 1))"

definition PUT_16BIT_LSB_FIRST :: "word16 \<Rightarrow> byte list" where
  "PUT_16BIT_LSB_FIRST value = [ucast value, ucast (drop_bit 8 value)]"

definition GET_32BIT_LSB_FIRST :: "byte list \<Rightarrow> dword" where
  "GET_32BIT_LSB_FIRST p =
     ucast (p ! 0) OR push_bit 8 (ucast (p ! 1)) OR
     push_bit 16 (ucast (p ! 2)) OR push_bit 24 (ucast (p ! 3))"

definition PUT_32BIT_LSB_FIRST :: "dword \<Rightarrow> byte list" where
  "PUT_32BIT_LSB_FIRST value =
     [ucast value, ucast (drop_bit 8 value), ucast (drop_bit 16 value), ucast (drop_bit 24 value)]"

definition GET_64BIT_LSB_FIRST :: "byte list \<Rightarrow> qword" where
  "GET_64BIT_LSB_FIRST p =
     ucast (p ! 0) OR push_bit 8 (ucast (p ! 1)) OR
     push_bit 16 (ucast (p ! 2)) OR push_bit 24 (ucast (p ! 3)) OR
     push_bit 32 (ucast (p ! 4)) OR push_bit 40 (ucast (p ! 5)) OR
     push_bit 48 (ucast (p ! 6)) OR push_bit 56 (ucast (p ! 7))"

definition PUT_64BIT_LSB_FIRST :: "qword \<Rightarrow> byte list" where
  "PUT_64BIT_LSB_FIRST value =
     [ucast value, ucast (drop_bit 8 value), ucast (drop_bit 16 value), ucast (drop_bit 24 value),
      ucast (drop_bit 32 value), ucast (drop_bit 40 value), ucast (drop_bit 48 value),
      ucast (drop_bit 56 value)]"

section \<open>Most significant byte first\<close>

definition GET_16BIT_MSB_FIRST :: "byte list \<Rightarrow> word16" where
  "GET_16BIT_MSB_FIRST p = ucast (p ! 1) OR push_bit 8 (ucast (p ! 0))"

definition PUT_16BIT_MSB_FIRST :: "word16 \<Rightarrow> byte list" where
  "PUT_16BIT_MSB_FIRST value = [ucast (drop_bit 8 value), ucast value]"

definition GET_32BIT_MSB_FIRST :: "byte list \<Rightarrow> dword" where
  "GET_32BIT_MSB_FIRST p =
     ucast (p ! 3) OR push_bit 8 (ucast (p ! 2)) OR
     push_bit 16 (ucast (p ! 1)) OR push_bit 24 (ucast (p ! 0))"

definition PUT_32BIT_MSB_FIRST :: "dword \<Rightarrow> byte list" where
  "PUT_32BIT_MSB_FIRST value =
     [ucast (drop_bit 24 value), ucast (drop_bit 16 value), ucast (drop_bit 8 value), ucast value]"

definition GET_64BIT_MSB_FIRST :: "byte list \<Rightarrow> qword" where
  "GET_64BIT_MSB_FIRST p =
     ucast (p ! 7) OR push_bit 8 (ucast (p ! 6)) OR
     push_bit 16 (ucast (p ! 5)) OR push_bit 24 (ucast (p ! 4)) OR
     push_bit 32 (ucast (p ! 3)) OR push_bit 40 (ucast (p ! 2)) OR
     push_bit 48 (ucast (p ! 1)) OR push_bit 56 (ucast (p ! 0))"

definition PUT_64BIT_MSB_FIRST :: "qword \<Rightarrow> byte list" where
  "PUT_64BIT_MSB_FIRST value =
     [ucast (drop_bit 56 value), ucast (drop_bit 48 value), ucast (drop_bit 40 value),
      ucast (drop_bit 32 value), ucast (drop_bit 24 value), ucast (drop_bit 16 value),
      ucast (drop_bit 8 value), ucast value]"

section \<open>Every writer is inverted by its reader\<close>

lemmas byte_order_defs =
  GET_16BIT_LSB_FIRST_def PUT_16BIT_LSB_FIRST_def GET_32BIT_LSB_FIRST_def PUT_32BIT_LSB_FIRST_def
  GET_64BIT_LSB_FIRST_def PUT_64BIT_LSB_FIRST_def GET_16BIT_MSB_FIRST_def PUT_16BIT_MSB_FIRST_def
  GET_32BIT_MSB_FIRST_def PUT_32BIT_MSB_FIRST_def GET_64BIT_MSB_FIRST_def PUT_64BIT_MSB_FIRST_def

lemma byte_of_bit:
  "n < 32 \<Longrightarrow> n < 8 \<or> (8 \<le> n \<and> n < 16) \<or> (16 \<le> n \<and> n < 24) \<or> (24 \<le> n \<and> n < 32)"
  "n < 64 \<Longrightarrow> n < 8 \<or> (8 \<le> n \<and> n < 16) \<or> (16 \<le> n \<and> n < 24) \<or> (24 \<le> n \<and> n < 32) \<or>
    (32 \<le> n \<and> n < 40) \<or> (40 \<le> n \<and> n < 48) \<or> (48 \<le> n \<and> n < 56) \<or> (56 \<le> n \<and> n < 64)"
  for n :: nat
  by linarith+

lemma get_put_16 [simp]:
  "GET_16BIT_LSB_FIRST (PUT_16BIT_LSB_FIRST v @ rest) = v"
  "GET_16BIT_MSB_FIRST (PUT_16BIT_MSB_FIRST v @ rest) = v"
  by (rule bit_word_eqI; auto simp: byte_order_defs bit_simps)+

lemma get_put_32_LSB [simp]: "GET_32BIT_LSB_FIRST (PUT_32BIT_LSB_FIRST v @ rest) = v"
proof (rule bit_word_eqI)
  fix n assume "n < LENGTH(32)"
  then have "n < 32" by simp
  from byte_of_bit(1) [OF this] this
  show "bit (GET_32BIT_LSB_FIRST (PUT_32BIT_LSB_FIRST v @ rest)) n = bit v n"
    by (elim disjE conjE) (simp_all add: byte_order_defs bit_simps less_diff_conv2)
qed

lemma get_put_32_MSB [simp]: "GET_32BIT_MSB_FIRST (PUT_32BIT_MSB_FIRST v @ rest) = v"
  using get_put_32_LSB [of v rest] by (simp add: byte_order_defs)

lemma get_put_64_LSB [simp]: "GET_64BIT_LSB_FIRST (PUT_64BIT_LSB_FIRST v @ rest) = v"
proof (rule bit_word_eqI)
  fix n assume "n < LENGTH(64)"
  then have "n < 64" by simp
  from byte_of_bit(2) [OF this] this
  show "bit (GET_64BIT_LSB_FIRST (PUT_64BIT_LSB_FIRST v @ rest)) n = bit v n"
    by (elim disjE conjE) (simp_all add: byte_order_defs bit_simps less_diff_conv2)
qed

lemma get_put_64_MSB [simp]: "GET_64BIT_MSB_FIRST (PUT_64BIT_MSB_FIRST v @ rest) = v"
  using get_put_64_LSB [of v rest] by (simp add: byte_order_defs)

lemma length_put [simp]:
  "length (PUT_16BIT_LSB_FIRST v) = 2" "length (PUT_16BIT_MSB_FIRST v) = 2"
  "length (PUT_32BIT_LSB_FIRST d) = 4" "length (PUT_32BIT_MSB_FIRST d) = 4"
  "length (PUT_64BIT_LSB_FIRST q) = 8" "length (PUT_64BIT_MSB_FIRST q) = 8"
  by (simp_all add: byte_order_defs)

end
