(* ===== verification/Marshal.thy ===== *)
theory Marshal
  imports PlinkBytes
begin

text \<open>
  Marshalling of the SSH data types (\<^verbatim>\<open>src/ext/TortoisePlink/marshal.c\<close>, \<^verbatim>\<open>marshal.h\<close>). A
  \<^verbatim>\<open>BinarySink\<close> is its write function: it takes the sink's state and a block of bytes and
  returns the new state, or \<open>None\<close> where an assertion aborts. A \<^verbatim>\<open>BinarySource\<close> is a record
  of the data, the position and the sticky error. \<^verbatim>\<open>unsigned long\<close> has 32 bits, as on the
  platform the program is built for.
\<close>

section \<open>Sinks\<close>

type_synonym 's sink_write = "'s \<Rightarrow> byte list \<Rightarrow> 's option"

definition BinarySink_put_data :: "'s sink_write \<Rightarrow> 's \<Rightarrow> byte list \<Rightarrow> 's option" where
  "BinarySink_put_data write bs data = write bs data"

definition BinarySink_put_datapl :: "'s sink_write \<Rightarrow> 's \<Rightarrow> byte list \<Rightarrow> 's option" where
  "BinarySink_put_datapl write bs pl = BinarySink_put_data write bs pl"

function BinarySink_put_padding :: "'s sink_write \<Rightarrow> 's \<Rightarrow> nat \<Rightarrow> byte \<Rightarrow> 's option" where
  "BinarySink_put_padding write bs len padbyte =
     (if 0 < len
      then
        (let thislen = (if len < 16 then len else 16) in
         Option.bind (write bs (replicate thislen padbyte))
           (\<lambda>bs. BinarySink_put_padding write bs (len - thislen) padbyte))
      else Some bs)"
  by pat_completeness auto
termination
  by (relation "measure (\<lambda>(write, bs, len, padbyte). len)") auto

declare BinarySink_put_padding.simps [simp del]

definition BinarySink_put_byte :: "'s sink_write \<Rightarrow> 's \<Rightarrow> byte \<Rightarrow> 's option" where
  "BinarySink_put_byte write bs val = write bs [val]"

definition BinarySink_put_bool :: "'s sink_write \<Rightarrow> 's \<Rightarrow> bool \<Rightarrow> 's option" where
  "BinarySink_put_bool write bs val = write bs [if val then 1 else 0]"

definition BinarySink_put_uint16 :: "'s sink_write \<Rightarrow> 's \<Rightarrow> dword \<Rightarrow> 's option" where
  "BinarySink_put_uint16 write bs val = write bs (PUT_16BIT_MSB_FIRST (ucast val))"

definition BinarySink_put_uint32 :: "'s sink_write \<Rightarrow> 's \<Rightarrow> dword \<Rightarrow> 's option" where
  "BinarySink_put_uint32 write bs val = write bs (PUT_32BIT_MSB_FIRST val)"

definition BinarySink_put_uint64 :: "'s sink_write \<Rightarrow> 's \<Rightarrow> qword \<Rightarrow> 's option" where
  "BinarySink_put_uint64 write bs val = write bs (PUT_64BIT_MSB_FIRST val)"

text \<open>The assertion: the length, shifted right by 31 bits, is below 2.\<close>

definition BinarySink_put_string :: "'s sink_write \<Rightarrow> 's \<Rightarrow> byte list \<Rightarrow> 's option" where
  "BinarySink_put_string write bs data =
     (if length data div 2 ^ 31 < 2
      then Option.bind (BinarySink_put_uint32 write bs (of_nat (length data)))
             (\<lambda>bs. write bs data)
      else None)"

definition BinarySink_put_stringpl :: "'s sink_write \<Rightarrow> 's \<Rightarrow> byte list \<Rightarrow> 's option" where
  "BinarySink_put_stringpl write bs pl = BinarySink_put_string write bs pl"

text \<open>A C string is the list of its bytes before the terminating zero byte.\<close>

definition BinarySink_put_stringz :: "'s sink_write \<Rightarrow> 's \<Rightarrow> byte list \<Rightarrow> 's option" where
  "BinarySink_put_stringz write bs str = BinarySink_put_string write bs str"

definition BinarySink_put_asciz :: "'s sink_write \<Rightarrow> 's \<Rightarrow> byte list \<Rightarrow> 's option" where
  "BinarySink_put_asciz write bs str = write bs (str @ [0])"

definition BinarySink_put_pstring :: "'s sink_write \<Rightarrow> 's \<Rightarrow> byte list \<Rightarrow> (bool \<times> 's) option" where
  "BinarySink_put_pstring write bs str =
     (if length str > 255 then Some (False, bs)
      else Option.bind (BinarySink_put_byte write bs (of_nat (length str)))
             (\<lambda>bs. Option.bind (write bs str) (\<lambda>bs. Some (True, bs))))"

section \<open>Sources\<close>

datatype BinarySourceError = BSE_NO_ERROR | BSE_OUT_OF_DATA | BSE_INVALID

record BinarySource =
  data :: "byte list"
  pos :: nat
  err :: BinarySourceError

abbreviation src_len :: "BinarySource \<Rightarrow> nat" where
  "src_len src \<equiv> length (data src)"

definition BinarySource_init :: "byte list \<Rightarrow> BinarySource" where
  "BinarySource_init d = \<lparr>data = d, pos = 0, err = BSE_NO_ERROR\<rparr>"

definition BinarySource_data_avail :: "BinarySource \<Rightarrow> nat \<Rightarrow> bool \<times> BinarySource" where
  "BinarySource_data_avail src wanted =
     (if err src \<noteq> BSE_NO_ERROR then (False, src)
      else if wanted \<le> src_len src - pos src then (True, src)
      else (False, src\<lparr>err := BSE_OUT_OF_DATA\<rparr>))"

definition consume :: "BinarySource \<Rightarrow> nat \<Rightarrow> byte list \<times> BinarySource" where
  "consume src dist = (drop (pos src) (data src), src\<lparr>pos := pos src + dist\<rparr>)"

text \<open>The shape every fixed-size reader has: check, advance, decode; or the default.\<close>

definition get_fixed :: "nat \<Rightarrow> 'a \<Rightarrow> (byte list \<Rightarrow> 'a) \<Rightarrow> BinarySource \<Rightarrow> 'a \<times> BinarySource" where
  "get_fixed n dflt decode src =
     (let (ok, src) = BinarySource_data_avail src n in
      if \<not> ok then (dflt, src)
      else (let (ucp, src) = consume src n in (decode ucp, src)))"

definition BinarySource_get_data :: "BinarySource \<Rightarrow> nat \<Rightarrow> byte list \<times> BinarySource" where
  "BinarySource_get_data src wanted = get_fixed wanted [] (take wanted) src"

definition BinarySource_get_byte :: "BinarySource \<Rightarrow> byte \<times> BinarySource" where
  "BinarySource_get_byte src = get_fixed 1 0 (\<lambda>ucp. ucp ! 0) src"

definition BinarySource_get_bool :: "BinarySource \<Rightarrow> bool \<times> BinarySource" where
  "BinarySource_get_bool src = get_fixed 1 False (\<lambda>ucp. ucp ! 0 \<noteq> 0) src"

definition BinarySource_get_uint16 :: "BinarySource \<Rightarrow> dword \<times> BinarySource" where
  "BinarySource_get_uint16 src = get_fixed 2 0 (\<lambda>ucp. ucast (GET_16BIT_MSB_FIRST ucp)) src"

definition BinarySource_get_uint32 :: "BinarySource \<Rightarrow> dword \<times> BinarySource" where
  "BinarySource_get_uint32 src = get_fixed 4 0 GET_32BIT_MSB_FIRST src"

definition BinarySource_get_uint64 :: "BinarySource \<Rightarrow> qword \<times> BinarySource" where
  "BinarySource_get_uint64 src = get_fixed 8 0 GET_64BIT_MSB_FIRST src"

text \<open>The shape of the readers of counted strings: a count of \<open>k\<close> bytes, then that many bytes.\<close>

definition get_counted :: "nat \<Rightarrow> (byte list \<Rightarrow> nat) \<Rightarrow> BinarySource \<Rightarrow> byte list \<times> BinarySource" where
  "get_counted k decode src =
     (let (ok, src) = BinarySource_data_avail src k in
      if \<not> ok then ([], src)
      else
        (let (ucp, src) = consume src k;
             len = decode ucp;
             (ok, src) = BinarySource_data_avail src len in
         if \<not> ok then ([], src)
         else (let (p, src) = consume src len in (take len p, src))))"

definition BinarySource_get_string :: "BinarySource \<Rightarrow> byte list \<times> BinarySource" where
  "BinarySource_get_string src = get_counted 4 (\<lambda>ucp. unat (GET_32BIT_MSB_FIRST ucp)) src"

text \<open>\<^verbatim>\<open>memchr\<close> for a zero byte among the remaining bytes; the result is the C string read.\<close>

definition BinarySource_get_asciz :: "BinarySource \<Rightarrow> byte list \<times> BinarySource" where
  "BinarySource_get_asciz src =
     (if err src \<noteq> BSE_NO_ERROR then ([], src)
      else
        (let start = drop (pos src) (data src) in
         if 0 \<notin> set start then ([], src\<lparr>err := BSE_OUT_OF_DATA\<rparr>)
         else
           (let s = takeWhile (\<lambda>b. b \<noteq> 0) start in
            (s, src\<lparr>pos := pos src + (length s + 1)\<rparr>))))"

definition BinarySource_get_pstring :: "BinarySource \<Rightarrow> byte list \<times> BinarySource" where
  "BinarySource_get_pstring src = get_counted 1 (\<lambda>ucp. unat (ucp ! 0)) src"

section \<open>What a sink promises\<close>

text \<open>
  The contract of a \<^verbatim>\<open>write\<close> function: the object stands for the bytes it has been given, and
  a block it accepts (\<open>ok\<close>) is appended to them. Every \<^verbatim>\<open>put_\<close> function then appends the wire
  encoding of its value, whatever the sink.
\<close>

locale byte_sink =
  fixes wr :: "'s sink_write" and holds :: "'s \<Rightarrow> byte list \<Rightarrow> bool"
    and ok :: "byte list \<Rightarrow> bool"
  assumes write_holds: "holds s m \<Longrightarrow> ok d \<Longrightarrow> \<exists>s'. wr s d = Some s' \<and> holds s' (m @ d)"
    and small_ok: "length d \<le> 16 \<Longrightarrow> ok d"
begin

definition appends :: "'s option \<Rightarrow> byte list \<Rightarrow> bool" where
  "appends r m \<longleftrightarrow> (\<exists>s'. r = Some s' \<and> holds s' m)"

lemma write_appends: "holds s m \<Longrightarrow> ok d \<Longrightarrow> appends (wr s d) (m @ d)"
  unfolding appends_def by (rule write_holds)

lemma bind_appends:
  "appends r m \<Longrightarrow> (\<And>s. holds s m \<Longrightarrow> appends (f s) m') \<Longrightarrow> appends (Option.bind r f) m'"
  by (auto simp: appends_def)

lemma put_small_appends:
  assumes "holds s m"
  shows "appends (BinarySink_put_byte wr s b) (m @ [b])"
    and "appends (BinarySink_put_bool wr s c) (m @ [if c then 1 else 0])"
    and "appends (BinarySink_put_uint16 wr s d) (m @ PUT_16BIT_MSB_FIRST (ucast d))"
    and "appends (BinarySink_put_uint32 wr s d) (m @ PUT_32BIT_MSB_FIRST d)"
    and "appends (BinarySink_put_uint64 wr s q) (m @ PUT_64BIT_MSB_FIRST q)"
  using assms
  by (simp_all add: BinarySink_put_byte_def BinarySink_put_bool_def BinarySink_put_uint16_def
      BinarySink_put_uint32_def BinarySink_put_uint64_def write_appends small_ok)

lemma put_padding_appends:
  "holds s m \<Longrightarrow> appends (BinarySink_put_padding wr s n b) (m @ replicate n b)"
proof (induction n arbitrary: s m rule: less_induct)
  case (less n)
  show ?case
  proof (cases "n = 0")
    case True
    with less.prems show ?thesis by (simp add: BinarySink_put_padding.simps [of _ _ 0] appends_def)
  next
    case False
    let ?k = "if n < 16 then n else 16"
    have split: "replicate n b = replicate ?k b @ replicate (n - ?k) b"
      by (simp flip: replicate_add)
    have first: "appends (wr s (replicate ?k b)) (m @ replicate ?k b)"
      using less.prems by (intro write_appends small_ok) auto
    have "appends (Option.bind (wr s (replicate ?k b))
        (\<lambda>s. BinarySink_put_padding wr s (n - ?k) b)) ((m @ replicate ?k b) @ replicate (n - ?k) b)"
      using False by (intro bind_appends [OF first] less.IH) auto
    with False show ?thesis
      by (subst BinarySink_put_padding.simps, subst split) (simp add: Let_def)
  qed
qed

lemma put_string_appends:
  assumes "holds s m" and "ok d" and "length d < 2 ^ 32"
  shows "appends (BinarySink_put_string wr s d)
    (m @ PUT_32BIT_MSB_FIRST (of_nat (length d)) @ d)"
proof -
  have "length d div 2147483648 < 2" using assms(3) by (simp add: div_less_iff_less_mult)
  then have "BinarySink_put_string wr s d =
    Option.bind (BinarySink_put_uint32 wr s (of_nat (length d))) (\<lambda>s. wr s d)"
    by (simp add: BinarySink_put_string_def)
  moreover have "appends (Option.bind (BinarySink_put_uint32 wr s (of_nat (length d)))
      (\<lambda>s. wr s d)) ((m @ PUT_32BIT_MSB_FIRST (of_nat (length d))) @ d)"
    by (rule bind_appends [OF put_small_appends(4) [OF assms(1)]]) (rule write_appends [OF _ assms(2)])
  ultimately show ?thesis by simp
qed

end

text \<open>A \<^verbatim>\<open>strbuf\<close> and a \<^verbatim>\<open>bufchain\<close> accept every block and append it.\<close>

definition strbuf_sink_write :: "byte list sink_write" where
  "strbuf_sink_write buf d = Some (buf @ d)"

interpretation strbuf_sink: byte_sink strbuf_sink_write "(=)" "\<lambda>d. True"
  by unfold_locales (simp_all add: strbuf_sink_write_def)

section \<open>Reading back\<close>

datatype ssh_item =
    Byte byte | Boolean bool | Uint16 word16 | Uint32 dword | Uint64 qword
  | Str "byte list" | Asciz "byte list" | Pstring "byte list"

fun item_ok :: "ssh_item \<Rightarrow> bool" where
  "item_ok (Str d) \<longleftrightarrow> length d < 2 ^ 32"
| "item_ok (Asciz d) \<longleftrightarrow> 0 \<notin> set d"
| "item_ok (Pstring d) \<longleftrightarrow> length d \<le> 255"
| "item_ok _ \<longleftrightarrow> True"

fun put_item :: "'s sink_write \<Rightarrow> 's \<Rightarrow> ssh_item \<Rightarrow> 's option" where
  "put_item write bs (Byte b) = BinarySink_put_byte write bs b"
| "put_item write bs (Boolean b) = BinarySink_put_bool write bs b"
| "put_item write bs (Uint16 v) = BinarySink_put_uint16 write bs (ucast v)"
| "put_item write bs (Uint32 v) = BinarySink_put_uint32 write bs v"
| "put_item write bs (Uint64 v) = BinarySink_put_uint64 write bs v"
| "put_item write bs (Str d) = BinarySink_put_stringpl write bs d"
| "put_item write bs (Asciz d) = BinarySink_put_asciz write bs d"
| "put_item write bs (Pstring d) = map_option snd (BinarySink_put_pstring write bs d)"

fun put_items :: "'s sink_write \<Rightarrow> 's \<Rightarrow> ssh_item list \<Rightarrow> 's option" where
  "put_items write bs [] = Some bs"
| "put_items write bs (it # its) = Option.bind (put_item write bs it) (\<lambda>bs. put_items write bs its)"

text \<open>\<open>get_item\<close> reads an item of the same type as its first argument.\<close>

fun get_item :: "ssh_item \<Rightarrow> BinarySource \<Rightarrow> ssh_item \<times> BinarySource" where
  "get_item (Byte _) src = map_prod Byte id (BinarySource_get_byte src)"
| "get_item (Boolean _) src = map_prod Boolean id (BinarySource_get_bool src)"
| "get_item (Uint16 _) src = map_prod (\<lambda>v. Uint16 (ucast v)) id (BinarySource_get_uint16 src)"
| "get_item (Uint32 _) src = map_prod Uint32 id (BinarySource_get_uint32 src)"
| "get_item (Uint64 _) src = map_prod Uint64 id (BinarySource_get_uint64 src)"
| "get_item (Str _) src = map_prod Str id (BinarySource_get_string src)"
| "get_item (Asciz _) src = map_prod Asciz id (BinarySource_get_asciz src)"
| "get_item (Pstring _) src = map_prod Pstring id (BinarySource_get_pstring src)"

fun get_items :: "ssh_item list \<Rightarrow> BinarySource \<Rightarrow> ssh_item list \<times> BinarySource" where
  "get_items [] src = ([], src)"
| "get_items (t # ts) src =
     (let (it, src) = get_item t src; (its, src) = get_items ts src in (it # its, src))"

fun encode_item :: "ssh_item \<Rightarrow> byte list" where
  "encode_item (Byte b) = [b]"
| "encode_item (Boolean b) = [if b then 1 else 0]"
| "encode_item (Uint16 v) = PUT_16BIT_MSB_FIRST v"
| "encode_item (Uint32 v) = PUT_32BIT_MSB_FIRST v"
| "encode_item (Uint64 v) = PUT_64BIT_MSB_FIRST v"
| "encode_item (Str d) = PUT_32BIT_MSB_FIRST (of_nat (length d)) @ d"
| "encode_item (Asciz d) = d @ [0]"
| "encode_item (Pstring d) = of_nat (length d) # d"

lemma ucast_16_32_16 [simp]: "ucast (ucast (v :: word16) :: dword) = v"
  by (rule bit_word_eqI) (simp add: bit_simps)

lemma put_item_appends:
  assumes "item_ok it"
  shows "put_item strbuf_sink_write buf it = Some (buf @ encode_item it)"
proof (cases it)
  case (Str d)
  with assms show ?thesis
    using strbuf_sink.put_string_appends [of buf buf d]
    by (simp add: BinarySink_put_stringpl_def strbuf_sink.appends_def)
next
  case (Pstring d)
  with assms show ?thesis
    by (simp add: BinarySink_put_pstring_def BinarySink_put_byte_def strbuf_sink_write_def)
qed (simp_all add: BinarySink_put_byte_def BinarySink_put_bool_def BinarySink_put_uint16_def
    BinarySink_put_uint32_def BinarySink_put_uint64_def BinarySink_put_asciz_def
    strbuf_sink_write_def)

lemma put_items_appends:
  "list_all item_ok its \<Longrightarrow>
   put_items strbuf_sink_write buf its = Some (buf @ concat (map encode_item its))"
  by (induction its arbitrary: buf) (simp_all add: put_item_appends)

abbreviation reading :: "byte list \<Rightarrow> byte list \<Rightarrow> BinarySource" where
  "reading done rest \<equiv> \<lparr>data = done @ rest, pos = length done, err = BSE_NO_ERROR\<rparr>"

lemma avail_reading [simp]:
  "BinarySource_data_avail (reading pre rest) n =
    (if n \<le> length rest then (True, reading pre rest)
     else (False, (reading pre rest)\<lparr>err := BSE_OUT_OF_DATA\<rparr>))"
  by (simp add: BinarySource_data_avail_def)

lemma consume_reading:
  "consume (reading pre (d @ rest)) (length d) = (d @ rest, reading (pre @ d) rest)"
  by (simp add: consume_def)

lemma get_fixed_reading:
  "length d = n \<Longrightarrow> get_fixed n dflt f (reading pre (d @ rest)) = (f (d @ rest), reading (pre @ d) rest)"
  using consume_reading [of pre d rest] by (simp add: get_fixed_def del: append_assoc)

lemma get_counted_reading:
  "length h = k \<Longrightarrow> decode (h @ d @ rest) = length d \<Longrightarrow>
   get_counted k decode (reading pre (h @ d @ rest)) = (d, reading (pre @ h @ d) rest)"
  by (auto simp: get_counted_def BinarySource_data_avail_def consume_def Let_def)

lemma get_item_encode:
  assumes "item_ok it"
  shows "get_item it (reading pre (encode_item it @ rest)) = (it, reading (pre @ encode_item it) rest)"
proof (cases it)
  case (Byte b)
  then show ?thesis
    using get_fixed_reading [of "[b]" 1 0 "\<lambda>ucp. ucp ! 0" pre rest]
    by (simp add: BinarySource_get_byte_def)
next
  case (Boolean b)
  then show ?thesis
    using get_fixed_reading [of "[if b then 1 else 0]" 1 False "\<lambda>ucp. ucp ! 0 \<noteq> 0" pre rest]
    by (simp add: BinarySource_get_bool_def)
next
  case (Uint16 v)
  then show ?thesis
    by (simp add: BinarySource_get_uint16_def get_fixed_reading del: append_assoc)
next
  case (Uint32 v)
  then show ?thesis
    by (simp add: BinarySource_get_uint32_def get_fixed_reading del: append_assoc)
next
  case (Uint64 v)
  then show ?thesis
    by (simp add: BinarySource_get_uint64_def get_fixed_reading del: append_assoc)
next
  case (Str d)
  let ?h = "PUT_32BIT_MSB_FIRST (of_nat (length d))"
  have len: "unat (of_nat (length d) :: dword) = length d"
    using assms Str by (simp add: unsigned_of_nat take_bit_nat_eq_self)
  show ?thesis
    using get_counted_reading [of ?h 4 "\<lambda>ucp. unat (GET_32BIT_MSB_FIRST ucp)" d rest pre] len
    by (simp add: Str BinarySource_get_string_def)
next
  case (Asciz d)
  then have "0 \<notin> set d" using assms by simp
  then have "takeWhile (\<lambda>b. b \<noteq> 0) (d @ 0 # rest) = d" by (induction d) auto
  then show ?thesis by (simp add: Asciz BinarySource_get_asciz_def Let_def)
next
  case (Pstring d)
  have len: "unat (of_nat (length d) :: byte) = length d"
    using assms Pstring by (simp add: unsigned_of_nat take_bit_nat_eq_self)
  show ?thesis
    using get_counted_reading [of "[of_nat (length d)]" 1 "\<lambda>ucp. unat (ucp ! 0)" d rest pre] len
    by (simp add: Pstring BinarySource_get_pstring_def)
qed

lemma get_items_encode:
  "list_all item_ok its \<Longrightarrow>
   get_items its (reading pre (concat (map encode_item its) @ rest)) =
     (its, reading (pre @ concat (map encode_item its)) rest)"
proof (induction its arbitrary: pre)
  case (Cons it its)
  then show ?case
    using get_item_encode [of it pre "concat (map encode_item its) @ rest"]
      Cons.IH [of "pre @ encode_item it"] by simp
qed simp

text \<open>
  C31. Marshalling round trip: any sequence of SSH values whose lengths fit their length fields
  is written without an abort, and reading the same types back from the buffer returns exactly
  those values, ends at the end of the data and raises no error.
\<close>

theorem marshal_roundtrip:
  assumes "list_all item_ok its"
  shows "\<exists>buf. put_items strbuf_sink_write [] its = Some buf \<and>
    get_items its (BinarySource_init buf) =
      (its, \<lparr>data = buf, pos = length buf, err = BSE_NO_ERROR\<rparr>)"
  using put_items_appends [OF assms, of "[]"] get_items_encode [OF assms, of "[]" "[]"]
  by (simp add: BinarySource_init_def)

lemma marshal_roundtrip_witness:
  "\<exists>buf. put_items strbuf_sink_write [] [Uint32 7, Str [1, 2], Pstring [9]] = Some buf \<and>
    get_items [Uint32 7, Str [1, 2], Pstring [9]] (BinarySource_init buf) =
      ([Uint32 7, Str [1, 2], Pstring [9]], \<lparr>data = buf, pos = length buf, err = BSE_NO_ERROR\<rparr>)"
  by (rule marshal_roundtrip) simp

section \<open>Reading never leaves the buffer\<close>

text \<open>What any reader may do: move forward inside the data, and nothing after an error.\<close>

definition src_step :: "BinarySource \<Rightarrow> BinarySource \<Rightarrow> bool" where
  "src_step src src' \<longleftrightarrow> data src' = data src \<and> pos src \<le> pos src' \<and>
     (pos src \<le> src_len src \<longrightarrow> pos src' \<le> src_len src') \<and>
     (err src \<noteq> BSE_NO_ERROR \<longrightarrow> src' = src)"

lemma src_step_trans: "src_step a b \<Longrightarrow> src_step b c \<Longrightarrow> src_step a c"
  by (auto simp: src_step_def)

lemma avail_step: "BinarySource_data_avail src n = (ok, src') \<Longrightarrow> src_step src src'"
  by (auto simp: BinarySource_data_avail_def src_step_def split: if_splits)

lemma avail_consume_step:
  "BinarySource_data_avail src n = (True, src1) \<Longrightarrow> consume src1 n = (p, src') \<Longrightarrow> src_step src src'"
  by (auto simp: BinarySource_data_avail_def consume_def src_step_def split: if_splits)

lemma get_fixed_step: "src_step src (snd (get_fixed n dflt f src))"
proof -
  obtain ok s1 where s1: "BinarySource_data_avail src n = (ok, s1)" by fastforce
  obtain p s2 where s2: "consume s1 n = (p, s2)" by fastforce
  show ?thesis
    using avail_step [OF s1] avail_consume_step [OF _ s2, of src] s1 s2
    by (cases ok) (simp_all add: get_fixed_def)
qed

lemma get_counted_step: "src_step src (snd (get_counted k g src))"
proof -
  obtain ok s1 where s1: "BinarySource_data_avail src k = (ok, s1)" by fastforce
  obtain u s2 where s2: "consume s1 k = (u, s2)" by fastforce
  obtain ok' s3 where s3: "BinarySource_data_avail s2 (g u) = (ok', s3)" by fastforce
  obtain p s4 where s4: "consume s3 (g u) = (p, s4)" by fastforce
  show ?thesis
  proof (cases ok)
    case True
    with s1 s2 have "src_step src s2" by (intro avail_consume_step) simp_all
    moreover have "src_step s2 s3" by (rule avail_step [OF s3])
    moreover have "src_step s2 s4" if ok' using that s3 s4 by (intro avail_consume_step) simp_all
    ultimately show ?thesis
      using True s1 s2 s3 s4 by (cases ok') (auto simp: get_counted_def intro: src_step_trans)
  next
    case False
    then show ?thesis using s1 avail_step [OF s1] by (simp add: get_counted_def)
  qed
qed

lemma get_asciz_step: "src_step src (snd (BinarySource_get_asciz src))"
proof -
  have "length (takeWhile (\<lambda>b. b \<noteq> 0) xs) < length xs" if "0 \<in> set xs" for xs :: "byte list"
    using that by (induction xs) auto
  from this [of "drop (pos src) (data src)"] show ?thesis
    by (auto simp: BinarySource_get_asciz_def src_step_def Let_def)
qed

text \<open>
  C37. No reader steps outside its buffer, moves backwards or changes the data, and once the
  error is set no reader changes the source again, so a whole sequence of reads can be checked
  by looking at the error once at its end.
\<close>

theorem readers_stay_inside:
  "src_step src (snd (BinarySource_get_data src n)) \<and>
   src_step src (snd (get_item t src)) \<and> src_step src (snd (get_items ts src))"
proof -
  have item: "src_step src (snd (get_item t src))" for t src
    by (cases t) (simp_all add: BinarySource_get_byte_def BinarySource_get_bool_def
        BinarySource_get_uint16_def BinarySource_get_uint32_def BinarySource_get_uint64_def
        get_fixed_step BinarySource_get_string_def BinarySource_get_pstring_def
        get_counted_step get_asciz_step snd_map_prod)
  have "src_step src (snd (get_items ts src))" for ts
  proof (induction ts arbitrary: src)
    case (Cons t ts)
    show ?case
      using src_step_trans [OF item [of src t] Cons.IH]
      by (simp add: case_prod_beta)
  qed (simp add: src_step_def)
  with item show ?thesis by (simp add: BinarySource_get_data_def get_fixed_step)
qed

end
