(* ===== verification/BlockHash.thy ===== *)
theory BlockHash
  imports Marshal
begin

text \<open>
  What the hash functions of TortoisePlink share: cutting a message into blocks, the block
  buffer that collects the bytes of an unfinished block, and the contract of a hash object (a
  \<^verbatim>\<open>BinarySink\<close> with a \<^verbatim>\<open>final\<close> operation, the \<^verbatim>\<open>ssh_hash\<close> of \<^verbatim>\<open>src/ext/TortoisePlink/ssh.h\<close>).
\<close>

section \<open>Copying into a buffer\<close>

definition memcpy_at :: "nat \<Rightarrow> byte list \<Rightarrow> byte list \<Rightarrow> byte list" where
  "memcpy_at off src dst = take off dst @ src @ drop (off + length src) dst"

lemma length_memcpy_at [simp]:
  "off + length src \<le> length dst \<Longrightarrow> length (memcpy_at off src dst) = length dst"
  by (simp add: memcpy_at_def)

lemma take_memcpy_at:
  "off + length src \<le> length dst \<Longrightarrow> take (off + length src) (memcpy_at off src dst) = take off dst @ src"
  by (simp add: memcpy_at_def)

section \<open>Blocks of a message\<close>

function blocks :: "nat \<Rightarrow> 'a list \<Rightarrow> 'a list list" where
  "blocks n m = (if 0 < n \<and> n \<le> length m then take n m # blocks n (drop n m) else [])"
  by pat_completeness auto
termination by (relation "measure (\<lambda>(n, m). length m)") auto

function leftover :: "nat \<Rightarrow> 'a list \<Rightarrow> 'a list" where
  "leftover n m = (if 0 < n \<and> n \<le> length m then leftover n (drop n m) else m)"
  by pat_completeness auto
termination by (relation "measure (\<lambda>(n, m). length m)") auto

declare blocks.simps [simp del] leftover.simps [simp del]

lemma blocks_short [simp]:
  "length m < n \<Longrightarrow> blocks n m = []" "length m < n \<Longrightarrow> leftover n m = m"
  by (simp_all add: blocks.simps [of n m] leftover.simps [of n m])

lemma blocks_full [simp]:
  "0 < n \<Longrightarrow> length m = n \<Longrightarrow> blocks n m = [m]" "0 < n \<Longrightarrow> length m = n \<Longrightarrow> leftover n m = []"
  by (simp_all add: blocks.simps [of n m] leftover.simps [of n m])

lemma length_leftover: "0 < n \<Longrightarrow> length (leftover n m) = length m mod n"
  by (induction n m rule: leftover.induct)
     (subst leftover.simps, auto simp: le_mod_geq)

lemma blocks_append:
  assumes "0 < n"
  shows "blocks n (m @ d) = blocks n m @ blocks n (leftover n m @ d)"
    and "leftover n (m @ d) = leftover n (leftover n m @ d)"
  using assms
proof (induction n m rule: leftover.induct)
  case (1 n m)
  { case 1
    then show ?case
      using "1.IH"(1) by (cases "n \<le> length m")
        (simp_all add: blocks.simps [of n m] blocks.simps [of n "m @ d"] leftover.simps [of n m])
  next
    case 2
    then show ?case
      using "1.IH"(2) by (cases "n \<le> length m")
        (simp_all add: leftover.simps [of n "m @ d"] leftover.simps [of n m])
  }
qed

section \<open>The block buffer\<close>

text \<open>
  After a message \<open>m\<close> the chaining value has absorbed the full blocks of \<open>m\<close> and the buffer
  starts with the bytes left over; what lies beyond them is stale.
\<close>

definition block_state ::
    "nat \<Rightarrow> ('c \<Rightarrow> byte list \<Rightarrow> 'c) \<Rightarrow> 'c \<Rightarrow> 'c \<Rightarrow> byte list \<Rightarrow> nat \<Rightarrow> byte list \<Rightarrow> bool" where
  "block_state n compress iv core buf used m \<longleftrightarrow>
     core = foldl compress iv (blocks n m) \<and> length buf = n \<and>
     used = length (leftover n m) \<and> take used buf = leftover n m"

lemma block_state_init: "0 < n \<Longrightarrow> length buf = n \<Longrightarrow> block_state n compress iv iv buf 0 []"
  by (simp add: block_state_def)

lemma block_state_used: "block_state n compress iv core buf used m \<Longrightarrow> 0 < n \<Longrightarrow> used < n"
  by (simp add: block_state_def length_leftover)

lemma block_state_mod: "block_state n compress iv core buf used m \<Longrightarrow> 0 < n \<Longrightarrow> used = length m mod n"
  by (simp add: block_state_def length_leftover)

lemma block_state_partial:
  assumes "block_state n compress iv core buf used m" and "used + length q < n"
  shows "block_state n compress iv core (memcpy_at used q buf) (used + length q) (m @ q)"
  using assms by (auto simp: block_state_def blocks_append take_memcpy_at)

lemma block_state_fill:
  assumes st: "block_state n compress iv core buf used m" and n: "0 < n"
    and q: "length q = n - used"
  shows "block_state n compress iv (compress core (memcpy_at used q buf)) (memcpy_at used q buf) 0 (m @ q)"
proof -
  have "used < n" using block_state_used [OF st n] .
  then have full: "memcpy_at used q buf = leftover n m @ q"
    using st q by (auto simp: block_state_def memcpy_at_def)
  moreover have "length (leftover n m @ q) = n"
    using st q \<open>used < n\<close> by (simp add: block_state_def)
  ultimately show ?thesis
    using st n by (simp add: block_state_def blocks_append)
qed

section \<open>Hash objects\<close>

record 's ssh_hashalg =
  ha_new :: 's
  ha_write :: "'s sink_write"
  ha_final :: "'s \<Rightarrow> byte list option"
  hlen :: nat
  blocklen :: nat

text \<open>Feeding a list of blocks to a hash object of a given algorithm, one \<^verbatim>\<open>put_data\<close> each.\<close>

fun put_chunks :: "'s sink_write \<Rightarrow> byte list list \<Rightarrow> 's \<Rightarrow> 's option" where
  "put_chunks write [] s = Some s"
| "put_chunks write (d # ds) s = Option.bind (BinarySink_put_data write s d) (put_chunks write ds)"

text \<open>
  The contract: feeding an object keeps track of the message, and \<^verbatim>\<open>final\<close> returns the digest
  of the whole message, for the messages the algorithm is right on (\<open>fits\<close>).
\<close>

locale hash_object = byte_sink wr holds ok
  for wr :: "'s sink_write" and holds :: "'s \<Rightarrow> byte list \<Rightarrow> bool" and ok :: "byte list \<Rightarrow> bool" +
  fixes fin :: "'s \<Rightarrow> byte list option" and digest :: "byte list \<Rightarrow> byte list"
    and fits :: "byte list \<Rightarrow> bool"
  assumes final_digest: "holds s m \<Longrightarrow> fits m \<Longrightarrow> fin s = Some (digest m)"
begin

lemma put_chunks_appends:
  "holds s m \<Longrightarrow> list_all ok ds \<Longrightarrow> appends (put_chunks wr ds s) (m @ concat ds)"
proof (induction ds arbitrary: s m)
  case Nil
  then show ?case by (simp add: appends_def)
next
  case (Cons d ds)
  have rest: "appends (put_chunks wr ds s') (m @ d @ concat ds)" if "holds s' (m @ d)" for s'
    using Cons.IH [OF that] Cons.prems(2) by simp
  have "appends (Option.bind (wr s d) (put_chunks wr ds)) (m @ d @ concat ds)"
    by (rule bind_appends [OF write_appends [OF Cons.prems(1), of d] rest]) (use Cons.prems(2) in simp_all)
  then show ?case by (simp add: BinarySink_put_data_def)
qed

lemma chunked_digest:
  assumes "holds s []" and "list_all ok ds" and "fits (concat ds)"
  shows "Option.bind (put_chunks wr ds s) fin = Some (digest (concat ds))"
  using put_chunks_appends [OF assms(1,2)] final_digest [OF _ assms(3)]
  by (auto simp: appends_def)

end

end
