(* ===== verification/MD5.thy ===== *)
theory MD5
  imports BlockHash
begin

text \<open>
  MD5 (\<^verbatim>\<open>src/ext/TortoisePlink/sshmd5.c\<close>). The four rotating variables of \<^verbatim>\<open>MD5_Block\<close> are a
  tuple whose components change roles from one \<^verbatim>\<open>subround\<close> line to the next, so the 64 lines are
  one list of the line's function, block index, shift and constant.
\<close>

section \<open>Core\<close>

record MD5Context =
  md5_h :: "dword list"
  md5_block :: "byte list"
  md5_blkused :: nat
  md5_len :: qword

definition md5_F :: "dword \<Rightarrow> dword \<Rightarrow> dword \<Rightarrow> dword" where
  "md5_F x y z = (x AND y) OR (NOT x AND z)"

definition md5_G :: "dword \<Rightarrow> dword \<Rightarrow> dword \<Rightarrow> dword" where
  "md5_G x y z = (x AND z) OR (NOT z AND y)"

definition md5_H :: "dword \<Rightarrow> dword \<Rightarrow> dword \<Rightarrow> dword" where
  "md5_H x y z = x XOR y XOR z"

definition md5_I :: "dword \<Rightarrow> dword \<Rightarrow> dword \<Rightarrow> dword" where
  "md5_I x y z = y XOR (x OR NOT z)"

definition md5_rol :: "dword \<Rightarrow> nat \<Rightarrow> dword" where
  "md5_rol x y = push_bit y x OR drop_bit (32 - y) x"

text \<open>\<^verbatim>\<open>subround(f,w,x,y,z,k,s,ti)\<close>, returning the variables in the roles of the next line.\<close>

fun md5_subround ::
    "dword list \<Rightarrow> dword \<times> dword \<times> dword \<times> dword \<Rightarrow>
     (dword \<Rightarrow> dword \<Rightarrow> dword \<Rightarrow> dword) \<times> nat \<times> nat \<times> dword \<Rightarrow> dword \<times> dword \<times> dword \<times> dword" where
  "md5_subround block (w, x, y, z) (f, k, s, ti) =
     (let w = x + md5_rol (w + f x y z + block ! k + ti) s in (z, w, x, y))"

definition md5_steps :: "((dword \<Rightarrow> dword \<Rightarrow> dword \<Rightarrow> dword) \<times> nat \<times> nat \<times> dword) list" where
  "md5_steps = [
     (md5_F, 0, 7, 0xd76aa478), (md5_F, 1, 12, 0xe8c7b756),
     (md5_F, 2, 17, 0x242070db), (md5_F, 3, 22, 0xc1bdceee),
     (md5_F, 4, 7, 0xf57c0faf), (md5_F, 5, 12, 0x4787c62a),
     (md5_F, 6, 17, 0xa8304613), (md5_F, 7, 22, 0xfd469501),
     (md5_F, 8, 7, 0x698098d8), (md5_F, 9, 12, 0x8b44f7af),
     (md5_F, 10, 17, 0xffff5bb1), (md5_F, 11, 22, 0x895cd7be),
     (md5_F, 12, 7, 0x6b901122), (md5_F, 13, 12, 0xfd987193),
     (md5_F, 14, 17, 0xa679438e), (md5_F, 15, 22, 0x49b40821),
     (md5_G, 1, 5, 0xf61e2562), (md5_G, 6, 9, 0xc040b340),
     (md5_G, 11, 14, 0x265e5a51), (md5_G, 0, 20, 0xe9b6c7aa),
     (md5_G, 5, 5, 0xd62f105d), (md5_G, 10, 9, 0x02441453),
     (md5_G, 15, 14, 0xd8a1e681), (md5_G, 4, 20, 0xe7d3fbc8),
     (md5_G, 9, 5, 0x21e1cde6), (md5_G, 14, 9, 0xc33707d6),
     (md5_G, 3, 14, 0xf4d50d87), (md5_G, 8, 20, 0x455a14ed),
     (md5_G, 13, 5, 0xa9e3e905), (md5_G, 2, 9, 0xfcefa3f8),
     (md5_G, 7, 14, 0x676f02d9), (md5_G, 12, 20, 0x8d2a4c8a),
     (md5_H, 5, 4, 0xfffa3942), (md5_H, 8, 11, 0x8771f681),
     (md5_H, 11, 16, 0x6d9d6122), (md5_H, 14, 23, 0xfde5380c),
     (md5_H, 1, 4, 0xa4beea44), (md5_H, 4, 11, 0x4bdecfa9),
     (md5_H, 7, 16, 0xf6bb4b60), (md5_H, 10, 23, 0xbebfbc70),
     (md5_H, 13, 4, 0x289b7ec6), (md5_H, 0, 11, 0xeaa127fa),
     (md5_H, 3, 16, 0xd4ef3085), (md5_H, 6, 23, 0x04881d05),
     (md5_H, 9, 4, 0xd9d4d039), (md5_H, 12, 11, 0xe6db99e5),
     (md5_H, 15, 16, 0x1fa27cf8), (md5_H, 2, 23, 0xc4ac5665),
     (md5_I, 0, 6, 0xf4292244), (md5_I, 7, 10, 0x432aff97),
     (md5_I, 14, 15, 0xab9423a7), (md5_I, 5, 21, 0xfc93a039),
     (md5_I, 12, 6, 0x655b59c3), (md5_I, 3, 10, 0x8f0ccc92),
     (md5_I, 10, 15, 0xffeff47d), (md5_I, 1, 21, 0x85845dd1),
     (md5_I, 8, 6, 0x6fa87e4f), (md5_I, 15, 10, 0xfe2ce6e0),
     (md5_I, 6, 15, 0xa3014314), (md5_I, 13, 21, 0x4e0811a1),
     (md5_I, 4, 6, 0xf7537e82), (md5_I, 11, 10, 0xbd3af235),
     (md5_I, 2, 15, 0x2ad7d2bb), (md5_I, 9, 21, 0xeb86d391)]"

definition MD5_Core_Init :: "dword list" where
  "MD5_Core_Init = [0x67452301, 0xefcdab89, 0x98badcfe, 0x10325476]"

definition MD5_Block :: "dword list \<Rightarrow> dword list \<Rightarrow> dword list" where
  "MD5_Block h block =
     (case foldl (md5_subround block) (h ! 0, h ! 1, h ! 2, h ! 3) md5_steps of
        (a, b, c, d) \<Rightarrow> [h ! 0 + a, h ! 1 + b, h ! 2 + c, h ! 3 + d])"

section \<open>Messages\<close>

definition MD5Init :: "MD5Context \<Rightarrow> MD5Context" where
  "MD5Init s = s\<lparr>md5_h := MD5_Core_Init, md5_blkused := 0, md5_len := 0\<rparr>"

definition md5_wordblock :: "byte list \<Rightarrow> dword list" where
  "md5_wordblock block = map (\<lambda>i.
     push_bit 24 (ucast (block ! (i * 4 + 3))) OR push_bit 16 (ucast (block ! (i * 4 + 2))) OR
     push_bit 8 (ucast (block ! (i * 4 + 1))) OR push_bit 0 (ucast (block ! (i * 4 + 0)))) [0..<16]"

text \<open>The \<^verbatim>\<open>while\<close> loop of \<^verbatim>\<open>MD5_BinarySink_write\<close>: the context and the bytes not yet copied.\<close>

function MD5_write_loop :: "MD5Context \<Rightarrow> byte list \<Rightarrow> MD5Context \<times> byte list" where
  "MD5_write_loop s q =
     (if md5_blkused s + length q \<ge> 64
      then
        (let n = 64 - md5_blkused s;
             blk = memcpy_at (md5_blkused s) (take n q) (md5_block s) in
         MD5_write_loop
           (s\<lparr>md5_block := blk, md5_h := MD5_Block (md5_h s) (md5_wordblock blk), md5_blkused := 0\<rparr>)
           (drop n q))
      else (s, q))"
  by pat_completeness auto
termination
  by (relation "measure (\<lambda>(s, q). md5_blkused s + length q)") auto

declare MD5_write_loop.simps [simp del]

definition MD5_write :: "MD5Context \<Rightarrow> byte list \<Rightarrow> MD5Context option" where
  "MD5_write s q =
     (let lenw = of_nat (length q) :: dword in
      if unat lenw \<noteq> length q then None
      else
        (let s = s\<lparr>md5_len := md5_len s + ucast lenw\<rparr> in
         if md5_blkused s + length q < 64
         then Some (s\<lparr>md5_block := memcpy_at (md5_blkused s) q (md5_block s),
                      md5_blkused := md5_blkused s + length q\<rparr>)
         else
           (case MD5_write_loop s q of
              (s, q) \<Rightarrow> Some (s\<lparr>md5_block := memcpy_at 0 q (md5_block s), md5_blkused := length q\<rparr>))))"

definition MD5_output :: "dword list \<Rightarrow> byte list" where
  "MD5_output h = concat (map PUT_32BIT_LSB_FIRST (take 4 h))"

definition MD5Final :: "MD5Context \<Rightarrow> byte list option" where
  "MD5Final s =
     (let pad = (if md5_blkused s \<ge> 56 then 56 + 64 - md5_blkused s else 56 - md5_blkused s);
          len = push_bit 3 (md5_len s);
          c = 0x80 # replicate (pad - 1) 0 in
      Option.bind (BinarySink_put_data MD5_write s c) (\<lambda>s.
      Option.bind (BinarySink_put_data MD5_write s (PUT_64BIT_LSB_FIRST len)) (\<lambda>s.
      Some (MD5_output (md5_h s)))))"

definition MD5Simple :: "MD5Context \<Rightarrow> byte list \<Rightarrow> byte list option" where
  "MD5Simple s p = Option.bind (BinarySink_put_data MD5_write (MD5Init s) p) MD5Final"

definition ssh_md5 :: "MD5Context \<Rightarrow> MD5Context ssh_hashalg" where
  "ssh_md5 mem =
     \<lparr>ha_new = MD5Init mem, ha_write = MD5_write, ha_final = MD5Final, hlen = 16, blocklen = 64\<rparr>"

section \<open>The digest of a message\<close>

text \<open>The standard's padding: a one bit, zeros to 56 modulo 64, and the bit length.\<close>

definition md5_padding :: "byte list \<Rightarrow> byte list" where
  "md5_padding m =
     0x80 # replicate ((119 - length m mod 64) mod 64) 0 @ PUT_64BIT_LSB_FIRST (of_nat (8 * length m))"

definition md5_compress :: "dword list \<Rightarrow> byte list \<Rightarrow> dword list" where
  "md5_compress h b = MD5_Block h (md5_wordblock b)"

definition md5_digest :: "byte list \<Rightarrow> byte list" where
  "md5_digest m = MD5_output (foldl md5_compress MD5_Core_Init (blocks 64 (m @ md5_padding m)))"

definition md5_holds :: "MD5Context \<Rightarrow> byte list \<Rightarrow> bool" where
  "md5_holds s m \<longleftrightarrow>
     block_state 64 md5_compress MD5_Core_Init (md5_h s) (md5_block s) (md5_blkused s) m \<and>
     md5_len s = of_nat (length m)"

lemma MD5Init_holds: "length (md5_block mem) = 64 \<Longrightarrow> md5_holds (MD5Init mem) []"
  by (simp add: md5_holds_def MD5Init_def block_state_init)

lemma MD5_write_loop_state:
  "block_state 64 md5_compress iv (md5_h s) (md5_block s) (md5_blkused s) m \<Longrightarrow>
   MD5_write_loop s q = (s', q') \<Longrightarrow>
   \<exists>d. q = d @ q' \<and> block_state 64 md5_compress iv (md5_h s') (md5_block s') (md5_blkused s') (m @ d) \<and>
     md5_len s' = md5_len s \<and> md5_blkused s' + length q' < 64 \<and>
     (md5_blkused s + length q \<ge> 64 \<longrightarrow> md5_blkused s' = 0)"
proof (induction s q arbitrary: m s' q' rule: MD5_write_loop.induct)
  case (1 s q)
  show ?case
  proof (cases "64 \<le> md5_blkused s + length q")
    case False
    with "1.prems" show ?thesis by (simp add: MD5_write_loop.simps [of s q])
  next
    case True
    define n where "n = 64 - md5_blkused s"
    define blk where "blk = memcpy_at (md5_blkused s) (take n q) (md5_block s)"
    let ?s = "s\<lparr>md5_block := blk, md5_h := MD5_Block (md5_h s) (md5_wordblock blk), md5_blkused := 0\<rparr>"
    have "length (take n q) = 64 - md5_blkused s" using True by (simp add: n_def)
    from block_state_fill [OF "1.prems"(1) _ this]
    have st: "block_state 64 md5_compress iv (md5_h ?s) (md5_block ?s) (md5_blkused ?s) (m @ take n q)"
      by (simp add: blk_def flip: md5_compress_def)
    have loop: "MD5_write_loop ?s (drop n q) = (s', q')"
      using "1.prems"(2) True by (simp add: MD5_write_loop.simps [of s q] n_def blk_def Let_def)
    from "1.IH" [OF True n_def blk_def st loop] obtain d where
      d: "drop n q = d @ q'"
        "block_state 64 md5_compress iv (md5_h s') (md5_block s') (md5_blkused s') ((m @ take n q) @ d)"
        "md5_len s' = md5_len ?s" "md5_blkused s' + length q' < 64"
        "64 \<le> md5_blkused ?s + length (drop n q) \<longrightarrow> md5_blkused s' = 0" by blast
    have "md5_blkused s' = 0"
      using d(5) loop by (cases "64 \<le> length (drop n q)") (auto simp: MD5_write_loop.simps [of ?s])
    moreover have "q = (take n q @ d) @ q'" using d(1) by (metis append_assoc append_take_drop_id)
    ultimately show ?thesis using d by (intro exI [of _ "take n q @ d"]) simp
  qed
qed

lemma MD5_write_holds:
  assumes "md5_holds s m" and "length q < 2 ^ 32"
  shows "\<exists>s'. MD5_write s q = Some s' \<and> md5_holds s' (m @ q)"
proof -
  have lenw: "unat (of_nat (length q) :: dword) = length q"
    using assms(2) by (simp add: unsigned_of_nat take_bit_nat_eq_self)
  have len: "ucast (of_nat (length q) :: dword) = (of_nat (length q) :: qword)"
    by (rule word_unat_eq_iff [THEN iffD2])
       (use assms(2) lenw in \<open>simp add: unsigned_ucast_eq unsigned_of_nat take_bit_nat_eq_self\<close>)
  let ?s = "s\<lparr>md5_len := md5_len s + of_nat (length q)\<rparr>"
  note st = assms(1) [unfolded md5_holds_def]
  show ?thesis
  proof (cases "md5_blkused s + length q < 64")
    case True
    with block_state_partial [OF conjunct1 [OF st] True] st show ?thesis
      by (simp add: MD5_write_def lenw len Let_def md5_holds_def)
  next
    case False
    obtain s' q' where loop: "MD5_write_loop ?s q = (s', q')" by fastforce
    from MD5_write_loop_state [OF _ loop, of MD5_Core_Init m] st False obtain d where
      d: "q = d @ q'" "block_state 64 md5_compress MD5_Core_Init (md5_h s') (md5_block s') 0 (m @ d)"
        "md5_len s' = md5_len ?s" "length q' < 64" "md5_blkused s' = 0" by auto
    have "block_state 64 md5_compress MD5_Core_Init (md5_h s') (memcpy_at 0 q' (md5_block s'))
      (0 + length q') ((m @ d) @ q')"
      by (rule block_state_partial [OF d(2)]) (simp add: d(4))
    moreover have "MD5_write s q =
        Some (s'\<lparr>md5_block := memcpy_at 0 q' (md5_block s'), md5_blkused := length q'\<rparr>)"
      using False loop by (simp add: MD5_write_def lenw len Let_def)
    moreover have "md5_len s' = of_nat (length (m @ q))" using d(3) st by simp
    ultimately show ?thesis using d(1) by (simp add: md5_holds_def)
  qed
qed

lemma MD5Final_holds:
  assumes "md5_holds s m"
  shows "MD5Final s = Some (md5_digest m)"
proof -
  have used: "md5_blkused s = length m mod 64" "md5_blkused s < 64"
    using assms block_state_mod [of 64] block_state_used [of 64] by (auto simp: md5_holds_def)
  define pad where "pad = (if md5_blkused s \<ge> 56 then 56 + 64 - md5_blkused s else 56 - md5_blkused s)"
  have "pad - 1 = (119 - md5_blkused s) mod 64"
    using used(2) by (cases "md5_blkused s \<ge> 56") (simp_all add: pad_def le_mod_geq)
  then have pad: "pad - 1 = (119 - length m mod 64) mod 64" "pad \<le> 64"
    using used(2) by (simp_all add: used(1) [symmetric] pad_def)
  let ?c = "0x80 # replicate (pad - 1) 0 :: byte list"
  let ?l = "PUT_64BIT_LSB_FIRST (push_bit 3 (md5_len s))"
  have len: "push_bit 3 (md5_len s) = of_nat (8 * length m)"
    using assms by (simp add: md5_holds_def push_bit_eq_mult)
  have "length ?c < 2 ^ 32" using pad(2) by simp
  then obtain s1 where s1: "MD5_write s ?c = Some s1" "md5_holds s1 (m @ ?c)"
    using MD5_write_holds [OF assms, of ?c] by blast
  obtain s2 where s2: "MD5_write s1 ?l = Some s2" "md5_holds s2 ((m @ ?c) @ ?l)"
    using MD5_write_holds [OF s1(2), of ?l] by auto
  have pm: "(m @ ?c) @ ?l = m @ md5_padding m"
    using pad(1) len by (simp add: md5_padding_def)
  have "MD5Final s = Some (MD5_output (md5_h s2))"
    using s1(1) s2(1) by (simp add: MD5Final_def BinarySink_put_data_def Let_def flip: pad_def)
  moreover have "md5_h s2 = foldl md5_compress MD5_Core_Init (blocks 64 (m @ md5_padding m))"
    using s2(2) unfolding pm by (simp add: md5_holds_def block_state_def)
  ultimately show ?thesis by (simp add: md5_digest_def)
qed

interpretation md5: hash_object MD5_write md5_holds "\<lambda>d. length d < 2 ^ 32" MD5Final md5_digest "\<lambda>m. True"
  by unfold_locales (simp_all add: MD5_write_holds MD5Final_holds)

text \<open>
  MD5 does not depend on how the message is cut up: whatever the sizes of the blocks handed
  to \<^verbatim>\<open>put_data\<close> (each below 4 GB), \<^verbatim>\<open>MD5Final\<close> returns the MD5 digest of their concatenation.
\<close>

theorem md5_chunk_independent:
  assumes "length (md5_block mem) = 64" and "list_all (\<lambda>d. length d < 2 ^ 32) ds"
  shows "Option.bind (put_chunks MD5_write ds (MD5Init mem)) MD5Final = Some (md5_digest (concat ds))"
  using md5.chunked_digest [OF MD5Init_holds [OF assms(1)] assms(2)] by simp

lemma md5_chunk_independent_witness:
  "Option.bind (put_chunks MD5_write [[97], [98, 99]]
     (MD5Init \<lparr>md5_h = [], md5_block = replicate 64 0, md5_blkused = 7, md5_len = 3\<rparr>)) MD5Final =
   Some (md5_digest (concat [[97], [98, 99]]))"
  by (rule md5_chunk_independent) simp_all

text \<open>The digests of the empty string and of \<^verbatim>\<open>"abc"\<close> are those of RFC 1321.\<close>

lemma md5_test_vectors:
  "md5_digest [] =
    [0xd4, 0x1d, 0x8c, 0xd9, 0x8f, 0x00, 0xb2, 0x04, 0xe9, 0x80, 0x09, 0x98, 0xec, 0xf8, 0x42, 0x7e]"
  "md5_digest [97, 98, 99] =
    [0x90, 0x01, 0x50, 0x98, 0x3c, 0xd2, 0x4f, 0xb0, 0xd6, 0x96, 0x3f, 0x7d, 0x28, 0xe1, 0x7f, 0x72]"
  by code_simp+

end
