(* ===== verification/SHA1.thy ===== *)
theory SHA1
  imports BlockHash
begin

text \<open>
  The block buffer and padding that SHA-1 and SHA-256 share, and the software SHA-1 of
  \<^verbatim>\<open>src/ext/TortoisePlink/sshsha.c\<close>. The write loop returns \<open>None\<close> when it would run forever;
  the contract proved for it shows that it always returns.
\<close>


section \<open>The block buffer\<close>

record sha_block =
  sb_block :: "byte list"
  sb_used :: nat
  sb_len :: qword

fun put_zeros :: "'s sink_write \<Rightarrow> nat \<Rightarrow> 's \<Rightarrow> 's option" where
  "put_zeros write 0 bs = Some bs"
| "put_zeros write (Suc n) bs = Option.bind (BinarySink_put_byte write bs 0) (put_zeros write n)"

context byte_sink
begin

lemma put_zeros_appends: "holds s m \<Longrightarrow> appends (put_zeros wr n s) (m @ replicate n 0)"
proof (induction n arbitrary: s m)
  case 0
  then show ?case by (simp add: appends_def)
next
  case (Suc n)
  have rest: "appends (put_zeros wr n s') (m @ 0 # replicate n 0)" if "holds s' (m @ [0])" for s'
    using Suc.IH [OF that] by simp
  show ?case
    using bind_appends [OF put_small_appends(1) [OF Suc.prems] rest] by simp
qed

end

definition sha_padding :: "byte list \<Rightarrow> byte list" where
  "sha_padding m =
     0x80 # replicate ((119 - length m mod 64) mod 64) 0 @ PUT_64BIT_MSB_FIRST (of_nat (8 * length m))"

text \<open>\<^verbatim>\<open>63 & (55 - used)\<close> with unsigned wrap-around is reduction modulo 64.\<close>

lemma sha_pad_count: "nat ((55 - int (n mod 64)) mod 64) = (119 - n mod 64) mod 64"
proof -
  define u where "u = n mod 64"
  have "u < 64" by (simp add: u_def)
  have "(55 - int u) mod 64 = (119 - int u) mod 64" by (simp add: mod_eq_dvd_iff)
  also have "\<dots> = int ((119 - u) mod 64)" using \<open>u < 64\<close> by (simp add: of_nat_diff zmod_int)
  finally show ?thesis by (simp add: u_def)
qed

lemma sha_padding_length: "length (m @ sha_padding m) mod 64 = 0"
proof -
  define q u where "q = length m div 64" and "u = length m mod 64"
  have m: "length m = 64 * q + u" and "u < 64" by (simp_all add: q_def u_def)
  have "(u + 9 + (119 - u) mod 64) mod 64 = 0"
    using \<open>u < 64\<close> by (cases "u < 56") (simp_all add: le_mod_geq)
  moreover have "length (m @ sha_padding m) = 64 * q + (u + 9 + (119 - u) mod 64)"
    using \<open>u < 64\<close> by (simp add: sha_padding_def m)
  ultimately show ?thesis by (simp only: mod_mult_self4)
qed

section \<open>SHA-1\<close>

definition sha1_initial_state :: "dword list" where
  "sha1_initial_state = [0x67452301, 0xefcdab89, 0x98badcfe, 0x10325476, 0xc3d2e1f0]"

definition sha1_block_setup :: "sha_block \<Rightarrow> sha_block" where
  "sha1_block_setup blk = blk\<lparr>sb_used := 0, sb_len := 0\<rparr>"

text \<open>One step of filling the block: whether it is now full, the block and the bytes that remain.\<close>

definition sha1_block_write :: "sha_block \<Rightarrow> byte list \<Rightarrow> bool \<times> sha_block \<times> byte list" where
  "sha1_block_write blk vdata =
     (let blkleft = 64 - sb_used blk;
          chunk = (if length vdata < blkleft then length vdata else blkleft);
          blk = blk\<lparr>sb_block := memcpy_at (sb_used blk) (take chunk vdata) (sb_block blk)\<rparr>;
          blk = blk\<lparr>sb_used := sb_used blk + chunk, sb_len := sb_len blk + of_nat chunk\<rparr> in
      if sb_used blk = 64 then (True, blk\<lparr>sb_used := 0\<rparr>, drop chunk vdata)
      else (False, blk, drop chunk vdata))"

definition sha1_block_pad :: "'s sink_write \<Rightarrow> sha_block \<Rightarrow> 's \<Rightarrow> 's option" where
  "sha1_block_pad write blk bs =
     (let final_len = push_bit 3 (sb_len blk);
          pad = 1 + nat ((55 - int (sb_used blk)) mod 64) in
      Option.bind (BinarySink_put_byte write bs 0x80) (\<lambda>bs.
      Option.bind (put_zeros write (pad - 1) bs) (\<lambda>bs.
      BinarySink_put_uint64 write bs final_len)))"

definition sha1_rol :: "dword \<Rightarrow> nat \<Rightarrow> dword" where
  "sha1_rol x y = push_bit (y mod 32) x OR drop_bit ((32 - y mod 32) mod 32) x"

definition sha_Ch :: "dword \<Rightarrow> dword \<Rightarrow> dword \<Rightarrow> dword" where
  "sha_Ch ctrl if1 if0 = if0 XOR (ctrl AND (if1 XOR if0))"

definition sha_Maj :: "dword \<Rightarrow> dword \<Rightarrow> dword \<Rightarrow> dword" where
  "sha_Maj x y z = (x AND y) OR (z AND (x OR y))"

definition sha_Par :: "dword \<Rightarrow> dword \<Rightarrow> dword \<Rightarrow> dword" where
  "sha_Par x y z = x XOR y XOR z"

text \<open>A round, returning the variables in the roles of the next round.\<close>

fun sha1_sw_round ::
    "dword list \<Rightarrow> (dword \<Rightarrow> dword \<Rightarrow> dword \<Rightarrow> dword) \<Rightarrow> dword \<Rightarrow>
     dword \<times> dword \<times> dword \<times> dword \<times> dword \<Rightarrow> nat \<Rightarrow> dword \<times> dword \<times> dword \<times> dword \<times> dword" where
  "sha1_sw_round schedule f constant (a, b, c, d, e) round_index =
     (sha1_rol a 5 + f b c d + e + schedule ! round_index + constant, a, sha1_rol b 30, c, d)"

text \<open>The schedule loop: \<^verbatim>\<open>w[t]\<close> for \<^verbatim>\<open>t\<close> from 16, appended to the words before it.\<close>

fun sha1_schedule :: "nat \<Rightarrow> dword list \<Rightarrow> dword list" where
  "sha1_schedule 0 w = w"
| "sha1_schedule (Suc n) w =
     (let t = length w in
      sha1_schedule n (w @ [sha1_rol (w ! (t - 3) XOR w ! (t - 8) XOR w ! (t - 14) XOR w ! (t - 16)) 1]))"

definition sha1_sw_block :: "dword list \<Rightarrow> byte list \<Rightarrow> dword list" where
  "sha1_sw_block core block =
     (let w = sha1_schedule (80 - 16) (map (\<lambda>t. GET_32BIT_MSB_FIRST (drop (4 * t) block)) [0..<16]);
          st = (core ! 0, core ! 1, core ! 2, core ! 3, core ! 4);
          st = foldl (sha1_sw_round w sha_Ch 0x5a827999) st [0..<20];
          st = foldl (sha1_sw_round w sha_Par 0x6ed9eba1) st [20..<40];
          st = foldl (sha1_sw_round w sha_Maj 0x8f1bbcdc) st [40..<60];
          st = foldl (sha1_sw_round w sha_Par 0xca62c1d6) st [60..<80] in
      case st of (a, b, c, d, e) \<Rightarrow>
        [core ! 0 + a, core ! 1 + b, core ! 2 + c, core ! 3 + d, core ! 4 + e])"

record sha1_sw =
  sha1_core :: "dword list"
  sha1_blk :: sha_block

definition sha1_sw_new :: "sha1_sw \<Rightarrow> sha1_sw" where
  "sha1_sw_new s = \<lparr>sha1_core = sha1_initial_state, sha1_blk = sha1_block_setup (sha1_blk s)\<rparr>"

partial_function (option) sha1_sw_write :: "sha1_sw \<Rightarrow> byte list \<Rightarrow> sha1_sw option" where
  "sha1_sw_write s vp =
     (if length vp > 0
      then
        (let r = sha1_block_write (sha1_blk s) vp in
         if fst r
         then sha1_sw_write
                \<lparr>sha1_core = sha1_sw_block (sha1_core s) (sb_block (fst (snd r))), sha1_blk = fst (snd r)\<rparr>
                (snd (snd r))
         else sha1_sw_write (s\<lparr>sha1_blk := fst (snd r)\<rparr>) (snd (snd r)))
      else Some s)"

definition sha1_output :: "dword list \<Rightarrow> byte list" where
  "sha1_output core = concat (map PUT_32BIT_MSB_FIRST (take 5 core))"

text \<open>The assertion: padding ends exactly at a block boundary.\<close>

definition sha1_sw_final :: "sha1_sw \<Rightarrow> byte list option" where
  "sha1_sw_final s =
     Option.bind (sha1_block_pad sha1_sw_write (sha1_blk s) s) (\<lambda>s.
     if sb_used (sha1_blk s) = 0 then Some (sha1_output (sha1_core s)) else None)"

definition ssh_sha1_sw :: "sha1_sw \<Rightarrow> sha1_sw ssh_hashalg" where
  "ssh_sha1_sw mem =
     \<lparr>ha_new = sha1_sw_new mem, ha_write = sha1_sw_write, ha_final = sha1_sw_final, hlen = 4 * 5,
      blocklen = 64\<rparr>"

definition sha1_digest :: "byte list \<Rightarrow> byte list" where
  "sha1_digest m = sha1_output (foldl sha1_sw_block sha1_initial_state (blocks 64 (m @ sha_padding m)))"

definition sha1_holds :: "sha1_sw \<Rightarrow> byte list \<Rightarrow> bool" where
  "sha1_holds s m \<longleftrightarrow>
     block_state 64 sha1_sw_block sha1_initial_state
       (sha1_core s) (sb_block (sha1_blk s)) (sb_used (sha1_blk s)) m \<and>
     sb_len (sha1_blk s) = of_nat (length m)"

lemma sha1_new_holds: "length (sb_block (sha1_blk mem)) = 64 \<Longrightarrow> sha1_holds (sha1_sw_new mem) []"
  by (simp add: sha1_holds_def sha1_sw_new_def sha1_block_setup_def block_state_init)

lemma sha1_write_holds:
  "sha1_holds s m \<Longrightarrow> \<exists>s'. sha1_sw_write s d = Some s' \<and> sha1_holds s' (m @ d)"
proof (induction d arbitrary: s m rule: length_induct)
  case (1 d)
  note st = "1.prems" [unfolded sha1_holds_def]
  have used: "sb_used (sha1_blk s) < 64" using st block_state_used [of 64] by auto
  consider (nil) "d = []" | (part) "d \<noteq> []" "length d < 64 - sb_used (sha1_blk s)"
    | (full) "64 - sb_used (sha1_blk s) \<le> length d" by linarith
  then show ?case
  proof cases
    case nil
    then show ?thesis using "1.prems" by (subst sha1_sw_write.simps) simp
  next
    case part
    let ?b = "(sha1_blk s)\<lparr>sb_block := memcpy_at (sb_used (sha1_blk s)) d (sb_block (sha1_blk s)),
       sb_used := sb_used (sha1_blk s) + length d, sb_len := sb_len (sha1_blk s) + of_nat (length d)\<rparr>"
    have "sha1_block_write (sha1_blk s) d = (False, ?b, [])"
      using part by (simp add: sha1_block_write_def Let_def)
    then have "sha1_sw_write s d = Some (s\<lparr>sha1_blk := ?b\<rparr>)"
      using part(1) by (simp add: sha1_sw_write.simps [of s d] sha1_sw_write.simps [of _ "[]"])
    moreover have "sha1_holds (s\<lparr>sha1_blk := ?b\<rparr>) (m @ d)"
      using block_state_partial [OF conjunct1 [OF st], of d] part(2) st by (simp add: sha1_holds_def)
    ultimately show ?thesis by blast
  next
    case full
    define k where "k = 64 - sb_used (sha1_blk s)"
    have k: "0 < k" "length (take k d) = k" using used full by (simp_all add: k_def)
    let ?blk = "memcpy_at (sb_used (sha1_blk s)) (take k d) (sb_block (sha1_blk s))"
    let ?b = "(sha1_blk s)\<lparr>sb_block := ?blk, sb_used := 0, sb_len := sb_len (sha1_blk s) + of_nat k\<rparr>"
    let ?s = "\<lparr>sha1_core = sha1_sw_block (sha1_core s) ?blk, sha1_blk = ?b\<rparr>"
    have "sha1_block_write (sha1_blk s) d = (True, ?b, drop k d)"
      using full used by (simp add: sha1_block_write_def Let_def k_def)
    moreover have "0 < length d" using full used by linarith
    ultimately have step: "sha1_sw_write s d = sha1_sw_write ?s (drop k d)"
      by (simp add: sha1_sw_write.simps [of s d])
    have "sha1_holds ?s (m @ take k d)"
      using block_state_fill [OF conjunct1 [OF st], of "take k d"] st k by (simp add: sha1_holds_def k_def)
    moreover have "length (drop k d) < length d" using k(1) \<open>0 < length d\<close> by simp
    ultimately have "\<exists>s'. sha1_sw_write ?s (drop k d) = Some s' \<and> sha1_holds s' ((m @ take k d) @ drop k d)"
      using "1.IH" by blast
    with step show ?thesis by simp
  qed
qed

interpretation sha1_sink: byte_sink sha1_sw_write sha1_holds "\<lambda>d. True"
  by unfold_locales (simp_all add: sha1_write_holds)

lemma sha1_final_holds:
  assumes "sha1_holds s m"
  shows "sha1_sw_final s = Some (sha1_digest m)"
proof -
  have used: "sb_used (sha1_blk s) = length m mod 64" and len: "sb_len (sha1_blk s) = of_nat (length m)"
    using assms block_state_mod [of 64] by (auto simp: sha1_holds_def)
  define n where "n = nat ((55 - int (sb_used (sha1_blk s))) mod 64)"
  have n: "n = (119 - length m mod 64) mod 64" by (simp add: n_def used sha_pad_count)
  have "sha1_sink.appends (Option.bind (BinarySink_put_byte sha1_sw_write s 0x80) (\<lambda>bs.
      Option.bind (put_zeros sha1_sw_write n bs) (\<lambda>bs.
      BinarySink_put_uint64 sha1_sw_write bs (push_bit 3 (sb_len (sha1_blk s))))))
    (((m @ [0x80]) @ replicate n 0) @ PUT_64BIT_MSB_FIRST (push_bit 3 (sb_len (sha1_blk s))))"
    by (intro sha1_sink.bind_appends [OF sha1_sink.put_small_appends(1) [OF assms]]
          sha1_sink.bind_appends [OF sha1_sink.put_zeros_appends] sha1_sink.put_small_appends(5))
  moreover have "((m @ [0x80]) @ replicate n 0) @ PUT_64BIT_MSB_FIRST (push_bit 3 (sb_len (sha1_blk s))) =
      m @ sha_padding m"
    by (simp add: sha_padding_def n len push_bit_eq_mult mult.commute)
  ultimately obtain s' where s': "sha1_block_pad sha1_sw_write (sha1_blk s) s = Some s'" "sha1_holds s' (m @ sha_padding m)"
    by (auto simp: sha1_block_pad_def sha1_sink.appends_def Let_def n_def)
  have "sb_used (sha1_blk s') = 0"
    using block_state_mod [OF conjunct1 [OF s'(2) [unfolded sha1_holds_def]]]
    by (simp only: sha_padding_length)
  with s' show ?thesis by (simp add: sha1_sw_final_def sha1_digest_def sha1_holds_def block_state_def)
qed

interpretation sha1: hash_object sha1_sw_write sha1_holds "\<lambda>d. True" sha1_sw_final sha1_digest "\<lambda>m. True"
  by unfold_locales (rule sha1_final_holds)

text \<open>
  SHA-1 does not depend on how the message is cut up: feeding any list of blocks through
  \<^verbatim>\<open>sha1_sw_write\<close>, which never loops, and finalising returns the SHA-1 digest of their
  concatenation; the boundary assertion of the padding never fires.
\<close>

theorem sha1_chunk_independent:
  assumes "length (sb_block (sha1_blk mem)) = 64"
  shows "Option.bind (put_chunks sha1_sw_write ds (sha1_sw_new mem)) sha1_sw_final =
    Some (sha1_digest (concat ds))"
  using sha1.chunked_digest [OF sha1_new_holds [OF assms], of ds] by (simp add: list_all_def)

lemma sha1_chunk_independent_witness:
  "Option.bind (put_chunks sha1_sw_write [[1, 2], [3]]
     (sha1_sw_new \<lparr>sha1_core = [], sha1_blk = \<lparr>sb_block = replicate 64 0, sb_used = 5, sb_len = 1\<rparr>\<rparr>))
     sha1_sw_final = Some (sha1_digest (concat [[1, 2], [3]]))"
  by (rule sha1_chunk_independent) simp

end
