(* ===== verification/SHA256.thy ===== *)
theory SHA256
  imports SHA1
begin

text \<open>
  The software SHA-256 of \<^verbatim>\<open>src/ext/TortoisePlink/sshsh256.c\<close>. The block buffer is a copy of
  SHA-1's in the source and is modelled by its own definitions on the shared record.
\<close>

definition sha256_initial_state :: "dword list" where
  "sha256_initial_state =
    [0x6a09e667, 0xbb67ae85, 0x3c6ef372, 0xa54ff53a,
     0x510e527f, 0x9b05688c, 0x1f83d9ab, 0x5be0cd19]"

definition sha256_round_constants :: "dword list" where
  "sha256_round_constants = [
     0x428a2f98, 0x71374491, 0xb5c0fbcf, 0xe9b5dba5,
     0x3956c25b, 0x59f111f1, 0x923f82a4, 0xab1c5ed5,
     0xd807aa98, 0x12835b01, 0x243185be, 0x550c7dc3,
     0x72be5d74, 0x80deb1fe, 0x9bdc06a7, 0xc19bf174,
     0xe49b69c1, 0xefbe4786, 0x0fc19dc6, 0x240ca1cc,
     0x2de92c6f, 0x4a7484aa, 0x5cb0a9dc, 0x76f988da,
     0x983e5152, 0xa831c66d, 0xb00327c8, 0xbf597fc7,
     0xc6e00bf3, 0xd5a79147, 0x06ca6351, 0x14292967,
     0x27b70a85, 0x2e1b2138, 0x4d2c6dfc, 0x53380d13,
     0x650a7354, 0x766a0abb, 0x81c2c92e, 0x92722c85,
     0xa2bfe8a1, 0xa81a664b, 0xc24b8b70, 0xc76c51a3,
     0xd192e819, 0xd6990624, 0xf40e3585, 0x106aa070,
     0x19a4c116, 0x1e376c08, 0x2748774c, 0x34b0bcb5,
     0x391c0cb3, 0x4ed8aa4a, 0x5b9cca4f, 0x682e6ff3,
     0x748f82ee, 0x78a5636f, 0x84c87814, 0x8cc70208,
     0x90befffa, 0xa4506ceb, 0xbef9a3f7, 0xc67178f2]"

definition sha256_block_setup :: "sha_block \<Rightarrow> sha_block" where
  "sha256_block_setup blk = blk\<lparr>sb_used := 0, sb_len := 0\<rparr>"

text \<open>One step of filling the block: whether it is now full, the block and the bytes that remain.\<close>

definition sha256_block_write :: "sha_block \<Rightarrow> byte list \<Rightarrow> bool \<times> sha_block \<times> byte list" where
  "sha256_block_write blk vdata =
     (let blkleft = 64 - sb_used blk;
          chunk = (if length vdata < blkleft then length vdata else blkleft);
          blk = blk\<lparr>sb_block := memcpy_at (sb_used blk) (take chunk vdata) (sb_block blk)\<rparr>;
          blk = blk\<lparr>sb_used := sb_used blk + chunk, sb_len := sb_len blk + of_nat chunk\<rparr> in
      if sb_used blk = 64 then (True, blk\<lparr>sb_used := 0\<rparr>, drop chunk vdata)
      else (False, blk, drop chunk vdata))"

definition sha256_block_pad :: "'s sink_write \<Rightarrow> sha_block \<Rightarrow> 's \<Rightarrow> 's option" where
  "sha256_block_pad write blk bs =
     (let final_len = push_bit 3 (sb_len blk);
          pad = 1 + nat ((55 - int (sb_used blk)) mod 64) in
      Option.bind (BinarySink_put_byte write bs 0x80) (\<lambda>bs.
      Option.bind (put_zeros write (pad - 1) bs) (\<lambda>bs.
      BinarySink_put_uint64 write bs final_len)))"

definition sha256_ror :: "dword \<Rightarrow> nat \<Rightarrow> dword" where
  "sha256_ror x y = push_bit ((32 - y mod 32) mod 32) x OR drop_bit (y mod 32) x"

definition sha256_Sigma_0 :: "dword \<Rightarrow> dword" where
  "sha256_Sigma_0 x = sha256_ror x 2 XOR sha256_ror x 13 XOR sha256_ror x 22"

definition sha256_Sigma_1 :: "dword \<Rightarrow> dword" where
  "sha256_Sigma_1 x = sha256_ror x 6 XOR sha256_ror x 11 XOR sha256_ror x 25"

definition sha256_sigma_0 :: "dword \<Rightarrow> dword" where
  "sha256_sigma_0 x = sha256_ror x 7 XOR sha256_ror x 18 XOR drop_bit 3 x"

definition sha256_sigma_1 :: "dword \<Rightarrow> dword" where
  "sha256_sigma_1 x = sha256_ror x 17 XOR sha256_ror x 19 XOR drop_bit 10 x"

type_synonym sha256_vars = "dword \<times> dword \<times> dword \<times> dword \<times> dword \<times> dword \<times> dword \<times> dword"

text \<open>A round, returning the variables in the roles of the next round.\<close>

fun sha256_sw_round :: "dword list \<Rightarrow> sha256_vars \<Rightarrow> nat \<Rightarrow> sha256_vars" where
  "sha256_sw_round schedule (a, b, c, d, e, f, g, h) round_index =
     (let t1 = h + sha256_Sigma_1 e + sha_Ch e f g + sha256_round_constants ! round_index +
               schedule ! round_index;
          t2 = sha256_Sigma_0 a + sha_Maj a b c in
      (t1 + t2, a, b, c, d + t1, e, f, g))"

fun sha256_schedule :: "nat \<Rightarrow> dword list \<Rightarrow> dword list" where
  "sha256_schedule 0 w = w"
| "sha256_schedule (Suc n) w =
     (let t = length w in
      sha256_schedule n
        (w @ [sha256_sigma_1 (w ! (t - 2)) + w ! (t - 7) + sha256_sigma_0 (w ! (t - 15)) + w ! (t - 16)]))"

definition sha256_sw_block :: "dword list \<Rightarrow> byte list \<Rightarrow> dword list" where
  "sha256_sw_block core block =
     (let w = sha256_schedule (64 - 16) (map (\<lambda>t. GET_32BIT_MSB_FIRST (drop (4 * t) block)) [0..<16]) in
      case foldl (sha256_sw_round w)
             (core ! 0, core ! 1, core ! 2, core ! 3, core ! 4, core ! 5, core ! 6, core ! 7) [0..<64] of
        (a, b, c, d, e, f, g, h) \<Rightarrow>
          [core ! 0 + a, core ! 1 + b, core ! 2 + c, core ! 3 + d,
           core ! 4 + e, core ! 5 + f, core ! 6 + g, core ! 7 + h])"

record sha256_sw =
  sha256_core :: "dword list"
  sha256_blk :: sha_block

definition sha256_sw_new :: "sha256_sw \<Rightarrow> sha256_sw" where
  "sha256_sw_new s = \<lparr>sha256_core = sha256_initial_state, sha256_blk = sha256_block_setup (sha256_blk s)\<rparr>"

partial_function (option) sha256_sw_write :: "sha256_sw \<Rightarrow> byte list \<Rightarrow> sha256_sw option" where
  "sha256_sw_write s vp =
     (if length vp > 0
      then
        (let r = sha256_block_write (sha256_blk s) vp in
         if fst r
         then sha256_sw_write
                \<lparr>sha256_core = sha256_sw_block (sha256_core s) (sb_block (fst (snd r))), sha256_blk = fst (snd r)\<rparr>
                (snd (snd r))
         else sha256_sw_write (s\<lparr>sha256_blk := fst (snd r)\<rparr>) (snd (snd r)))
      else Some s)"

definition sha256_output :: "dword list \<Rightarrow> byte list" where
  "sha256_output core = concat (map PUT_32BIT_MSB_FIRST (take 8 core))"

text \<open>The assertion: padding ends exactly at a block boundary.\<close>

definition sha256_sw_final :: "sha256_sw \<Rightarrow> byte list option" where
  "sha256_sw_final s =
     Option.bind (sha256_block_pad sha256_sw_write (sha256_blk s) s) (\<lambda>s.
     if sb_used (sha256_blk s) = 0 then Some (sha256_output (sha256_core s)) else None)"

definition ssh_sha256_sw :: "sha256_sw \<Rightarrow> sha256_sw ssh_hashalg" where
  "ssh_sha256_sw mem =
     \<lparr>ha_new = sha256_sw_new mem, ha_write = sha256_sw_write, ha_final = sha256_sw_final, hlen = 4 * 8,
      blocklen = 64\<rparr>"

definition sha256_digest :: "byte list \<Rightarrow> byte list" where
  "sha256_digest m = sha256_output (foldl sha256_sw_block sha256_initial_state (blocks 64 (m @ sha_padding m)))"

definition sha256_holds :: "sha256_sw \<Rightarrow> byte list \<Rightarrow> bool" where
  "sha256_holds s m \<longleftrightarrow>
     block_state 64 sha256_sw_block sha256_initial_state
       (sha256_core s) (sb_block (sha256_blk s)) (sb_used (sha256_blk s)) m \<and>
     sb_len (sha256_blk s) = of_nat (length m)"

lemma sha256_new_holds: "length (sb_block (sha256_blk mem)) = 64 \<Longrightarrow> sha256_holds (sha256_sw_new mem) []"
  by (simp add: sha256_holds_def sha256_sw_new_def sha256_block_setup_def block_state_init)

lemma sha256_write_holds:
  "sha256_holds s m \<Longrightarrow> \<exists>s'. sha256_sw_write s d = Some s' \<and> sha256_holds s' (m @ d)"
proof (induction d arbitrary: s m rule: length_induct)
  case (1 d)
  note st = "1.prems" [unfolded sha256_holds_def]
  have used: "sb_used (sha256_blk s) < 64" using st block_state_used [of 64] by auto
  consider (nil) "d = []" | (part) "d \<noteq> []" "length d < 64 - sb_used (sha256_blk s)"
    | (full) "64 - sb_used (sha256_blk s) \<le> length d" by linarith
  then show ?case
  proof cases
    case nil
    then show ?thesis using "1.prems" by (subst sha256_sw_write.simps) simp
  next
    case part
    let ?b = "(sha256_blk s)\<lparr>sb_block := memcpy_at (sb_used (sha256_blk s)) d (sb_block (sha256_blk s)),
       sb_used := sb_used (sha256_blk s) + length d, sb_len := sb_len (sha256_blk s) + of_nat (length d)\<rparr>"
    have "sha256_block_write (sha256_blk s) d = (False, ?b, [])"
      using part by (simp add: sha256_block_write_def Let_def)
    then have "sha256_sw_write s d = Some (s\<lparr>sha256_blk := ?b\<rparr>)"
      using part(1) by (simp add: sha256_sw_write.simps [of s d] sha256_sw_write.simps [of _ "[]"])
    moreover have "sha256_holds (s\<lparr>sha256_blk := ?b\<rparr>) (m @ d)"
      using block_state_partial [OF conjunct1 [OF st], of d] part(2) st by (simp add: sha256_holds_def)
    ultimately show ?thesis by blast
  next
    case full
    define k where "k = 64 - sb_used (sha256_blk s)"
    have k: "0 < k" "length (take k d) = k" using used full by (simp_all add: k_def)
    let ?blk = "memcpy_at (sb_used (sha256_blk s)) (take k d) (sb_block (sha256_blk s))"
    let ?b = "(sha256_blk s)\<lparr>sb_block := ?blk, sb_used := 0, sb_len := sb_len (sha256_blk s) + of_nat k\<rparr>"
    let ?s = "\<lparr>sha256_core = sha256_sw_block (sha256_core s) ?blk, sha256_blk = ?b\<rparr>"
    have "sha256_block_write (sha256_blk s) d = (True, ?b, drop k d)"
      using full used by (simp add: sha256_block_write_def Let_def k_def)
    moreover have "0 < length d" using full used by linarith
    ultimately have step: "sha256_sw_write s d = sha256_sw_write ?s (drop k d)"
      by (simp add: sha256_sw_write.simps [of s d])
    have "sha256_holds ?s (m @ take k d)"
      using block_state_fill [OF conjunct1 [OF st], of "take k d"] st k by (simp add: sha256_holds_def k_def)
    moreover have "length (drop k d) < length d" using k(1) \<open>0 < length d\<close> by simp
    ultimately have "\<exists>s'. sha256_sw_write ?s (drop k d) = Some s' \<and> sha256_holds s' ((m @ take k d) @ drop k d)"
      using "1.IH" by blast
    with step show ?thesis by simp
  qed
qed

interpretation sha256_sink: byte_sink sha256_sw_write sha256_holds "\<lambda>d. True"
  by unfold_locales (simp_all add: sha256_write_holds)

lemma sha256_final_holds:
  assumes "sha256_holds s m"
  shows "sha256_sw_final s = Some (sha256_digest m)"
proof -
  have used: "sb_used (sha256_blk s) = length m mod 64" and len: "sb_len (sha256_blk s) = of_nat (length m)"
    using assms block_state_mod [of 64] by (auto simp: sha256_holds_def)
  define n where "n = nat ((55 - int (sb_used (sha256_blk s))) mod 64)"
  have n: "n = (119 - length m mod 64) mod 64" by (simp add: n_def used sha_pad_count)
  have "sha256_sink.appends (Option.bind (BinarySink_put_byte sha256_sw_write s 0x80) (\<lambda>bs.
      Option.bind (put_zeros sha256_sw_write n bs) (\<lambda>bs.
      BinarySink_put_uint64 sha256_sw_write bs (push_bit 3 (sb_len (sha256_blk s))))))
    (((m @ [0x80]) @ replicate n 0) @ PUT_64BIT_MSB_FIRST (push_bit 3 (sb_len (sha256_blk s))))"
    by (intro sha256_sink.bind_appends [OF sha256_sink.put_small_appends(1) [OF assms]]
          sha256_sink.bind_appends [OF sha256_sink.put_zeros_appends] sha256_sink.put_small_appends(5))
  moreover have "((m @ [0x80]) @ replicate n 0) @ PUT_64BIT_MSB_FIRST (push_bit 3 (sb_len (sha256_blk s))) =
      m @ sha_padding m"
    by (simp add: sha_padding_def n len push_bit_eq_mult mult.commute)
  ultimately obtain s' where s': "sha256_block_pad sha256_sw_write (sha256_blk s) s = Some s'" "sha256_holds s' (m @ sha_padding m)"
    by (auto simp: sha256_block_pad_def sha256_sink.appends_def Let_def n_def)
  have "sb_used (sha256_blk s') = 0"
    using block_state_mod [OF conjunct1 [OF s'(2) [unfolded sha256_holds_def]]]
    by (simp only: sha_padding_length)
  with s' show ?thesis by (simp add: sha256_sw_final_def sha256_digest_def sha256_holds_def block_state_def)
qed

interpretation sha256: hash_object sha256_sw_write sha256_holds "\<lambda>d. True" sha256_sw_final sha256_digest "\<lambda>m. True"
  by unfold_locales (rule sha256_final_holds)

text \<open>
  SHA-256 does not depend on how the message is cut up: feeding any list of blocks through
  \<^verbatim>\<open>sha256_sw_write\<close>, which never loops, and finalising returns the SHA-256 digest of their
  concatenation; the boundary assertion of the padding never fires.
\<close>

theorem sha256_chunk_independent:
  assumes "length (sb_block (sha256_blk mem)) = 64"
  shows "Option.bind (put_chunks sha256_sw_write ds (sha256_sw_new mem)) sha256_sw_final =
    Some (sha256_digest (concat ds))"
  using sha256.chunked_digest [OF sha256_new_holds [OF assms], of ds] by (simp add: list_all_def)

lemma sha256_chunk_independent_witness:
  "Option.bind (put_chunks sha256_sw_write [[1, 2], [3]]
     (sha256_sw_new \<lparr>sha256_core = [], sha256_blk = \<lparr>sb_block = replicate 64 0, sb_used = 5, sb_len = 1\<rparr>\<rparr>))
     sha256_sw_final = Some (sha256_digest (concat [[1, 2], [3]]))"
  by (rule sha256_chunk_independent) simp

end
