(* ===== verification/SHA512.thy ===== *)
theory SHA512
  imports BlockHash
begin

text \<open>
  SHA-512 and SHA-384 (\<^verbatim>\<open>src/ext/TortoisePlink/sshsh512.c\<close>). The message length is kept in two
  64-bit words; \<^verbatim>\<open>SHA512_Final\<close> shifts the low word into the high one by \<^verbatim>\<open>32 - 3\<close> bits, which is
  the right count for 32-bit words only, and the last property says where that matters.
\<close>

section \<open>Core\<close>

record SHA512_State =
  s512_h :: "qword list"
  s512_block :: "byte list"
  s512_blkused :: nat
  s512_lenhi :: qword
  s512_lenlo :: qword

definition INIT :: "dword \<Rightarrow> dword \<Rightarrow> qword" where
  "INIT h l = push_bit 32 (ucast h) OR ucast l"

definition s512_ror :: "qword \<Rightarrow> nat \<Rightarrow> qword" where
  "s512_ror x y = drop_bit y x OR push_bit (64 - y) x"

definition s512_Ch :: "qword \<Rightarrow> qword \<Rightarrow> qword \<Rightarrow> qword" where
  "s512_Ch x y z = (NOT x AND z) XOR (x AND y)"

definition s512_Maj :: "qword \<Rightarrow> qword \<Rightarrow> qword \<Rightarrow> qword" where
  "s512_Maj x y z = (x AND y) XOR (x AND z) XOR (y AND z)"

definition bigsigma0 :: "qword \<Rightarrow> qword" where
  "bigsigma0 x = s512_ror x 28 XOR s512_ror x 34 XOR s512_ror x 39"

definition bigsigma1 :: "qword \<Rightarrow> qword" where
  "bigsigma1 x = s512_ror x 14 XOR s512_ror x 18 XOR s512_ror x 41"

definition smallsigma0 :: "qword \<Rightarrow> qword" where
  "smallsigma0 x = s512_ror x 1 XOR s512_ror x 8 XOR drop_bit 7 x"

definition smallsigma1 :: "qword \<Rightarrow> qword" where
  "smallsigma1 x = s512_ror x 19 XOR s512_ror x 61 XOR drop_bit 6 x"

definition SHA512_Core_Init :: "qword list" where
  "SHA512_Core_Init = [
     INIT 0x6a09e667 0xf3bcc908, INIT 0xbb67ae85 0x84caa73b,
     INIT 0x3c6ef372 0xfe94f82b, INIT 0xa54ff53a 0x5f1d36f1,
     INIT 0x510e527f 0xade682d1, INIT 0x9b05688c 0x2b3e6c1f,
     INIT 0x1f83d9ab 0xfb41bd6b, INIT 0x5be0cd19 0x137e2179]"

definition SHA384_Core_Init :: "qword list" where
  "SHA384_Core_Init = [
     INIT 0xcbbb9d5d 0xc1059ed8, INIT 0x629a292a 0x367cd507,
     INIT 0x9159015a 0x3070dd17, INIT 0x152fecd8 0xf70e5939,
     INIT 0x67332667 0xffc00b31, INIT 0x8eb44a87 0x68581511,
     INIT 0xdb0c2e0d 0x64f98fa7, INIT 0x47b5481d 0xbefa4fa4]"

definition sha512_k :: "qword list" where
  "sha512_k = [
     INIT 0x428a2f98 0xd728ae22, INIT 0x71374491 0x23ef65cd,
     INIT 0xb5c0fbcf 0xec4d3b2f, INIT 0xe9b5dba5 0x8189dbbc,
     INIT 0x3956c25b 0xf348b538, INIT 0x59f111f1 0xb605d019,
     INIT 0x923f82a4 0xaf194f9b, INIT 0xab1c5ed5 0xda6d8118,
     INIT 0xd807aa98 0xa3030242, INIT 0x12835b01 0x45706fbe,
     INIT 0x243185be 0x4ee4b28c, INIT 0x550c7dc3 0xd5ffb4e2,
     INIT 0x72be5d74 0xf27b896f, INIT 0x80deb1fe 0x3b1696b1,
     INIT 0x9bdc06a7 0x25c71235, INIT 0xc19bf174 0xcf692694,
     INIT 0xe49b69c1 0x9ef14ad2, INIT 0xefbe4786 0x384f25e3,
     INIT 0x0fc19dc6 0x8b8cd5b5, INIT 0x240ca1cc 0x77ac9c65,
     INIT 0x2de92c6f 0x592b0275, INIT 0x4a7484aa 0x6ea6e483,
     INIT 0x5cb0a9dc 0xbd41fbd4, INIT 0x76f988da 0x831153b5,
     INIT 0x983e5152 0xee66dfab, INIT 0xa831c66d 0x2db43210,
     INIT 0xb00327c8 0x98fb213f, INIT 0xbf597fc7 0xbeef0ee4,
     INIT 0xc6e00bf3 0x3da88fc2, INIT 0xd5a79147 0x930aa725,
     INIT 0x06ca6351 0xe003826f, INIT 0x14292967 0x0a0e6e70,
     INIT 0x27b70a85 0x46d22ffc, INIT 0x2e1b2138 0x5c26c926,
     INIT 0x4d2c6dfc 0x5ac42aed, INIT 0x53380d13 0x9d95b3df,
     INIT 0x650a7354 0x8baf63de, INIT 0x766a0abb 0x3c77b2a8,
     INIT 0x81c2c92e 0x47edaee6, INIT 0x92722c85 0x1482353b,
     INIT 0xa2bfe8a1 0x4cf10364, INIT 0xa81a664b 0xbc423001,
     INIT 0xc24b8b70 0xd0f89791, INIT 0xc76c51a3 0x0654be30,
     INIT 0xd192e819 0xd6ef5218, INIT 0xd6990624 0x5565a910,
     INIT 0xf40e3585 0x5771202a, INIT 0x106aa070 0x32bbd1b8,
     INIT 0x19a4c116 0xb8d2d0c8, INIT 0x1e376c08 0x5141ab53,
     INIT 0x2748774c 0xdf8eeb99, INIT 0x34b0bcb5 0xe19b48a8,
     INIT 0x391c0cb3 0xc5c95a63, INIT 0x4ed8aa4a 0xe3418acb,
     INIT 0x5b9cca4f 0x7763e373, INIT 0x682e6ff3 0xd6b2b8a3,
     INIT 0x748f82ee 0x5defb2fc, INIT 0x78a5636f 0x43172f60,
     INIT 0x84c87814 0xa1f0ab72, INIT 0x8cc70208 0x1a6439ec,
     INIT 0x90befffa 0x23631e28, INIT 0xa4506ceb 0xde82bde9,
     INIT 0xbef9a3f7 0xb2c67915, INIT 0xc67178f2 0xe372532b,
     INIT 0xca273ece 0xea26619c, INIT 0xd186b8c7 0x21c0c207,
     INIT 0xeada7dd6 0xcde0eb1e, INIT 0xf57d4f7f 0xee6ed178,
     INIT 0x06f067aa 0x72176fba, INIT 0x0a637dc5 0xa2c898a6,
     INIT 0x113f9804 0xbef90dae, INIT 0x1b710b35 0x131c471b,
     INIT 0x28db77f5 0x23047d84, INIT 0x32caab7b 0x40c72493,
     INIT 0x3c9ebe0a 0x15c9bebc, INIT 0x431d67c4 0x9c100d4c,
     INIT 0x4cc5d4be 0xcb3e42b6, INIT 0x597f299c 0xfc657e2a,
     INIT 0x5fcb6fab 0x3ad6faec, INIT 0x6c44198c 0x4a475817]"

fun sha512_schedule :: "nat \<Rightarrow> qword list \<Rightarrow> qword list" where
  "sha512_schedule 0 w = w"
| "sha512_schedule (Suc n) w =
     (let t = length w in
      sha512_schedule n
        (w @ [smallsigma1 (w ! (t - 2)) + smallsigma0 (w ! (t - 15)) + w ! (t - 7) + w ! (t - 16)]))"

type_synonym sha512_vars = "qword \<times> qword \<times> qword \<times> qword \<times> qword \<times> qword \<times> qword \<times> qword"

text \<open>\<^verbatim>\<open>ROUND(j,a,b,c,d,e,f,g,h)\<close>, returning the variables in the roles of the next round.\<close>

fun sha512_round :: "qword list \<Rightarrow> sha512_vars \<Rightarrow> nat \<Rightarrow> sha512_vars" where
  "sha512_round w (a, b, c, d, e, f, g, h) j =
     (let r = bigsigma1 e + s512_Ch e f g;
          p = r + sha512_k ! j;
          q = p + w ! j;
          r = q + h;
          q = s512_Maj a b c + bigsigma0 a in
      (q + r, a, b, c, r + d, e, f, g))"

definition SHA512_Block :: "qword list \<Rightarrow> qword list \<Rightarrow> qword list" where
  "SHA512_Block s block =
     (let w = sha512_schedule (80 - 16) (take 16 block) in
      case foldl (sha512_round w) (s ! 0, s ! 1, s ! 2, s ! 3, s ! 4, s ! 5, s ! 6, s ! 7) [0..<80] of
        (a, b, c, d, e, f, g, h) \<Rightarrow>
          [s ! 0 + a, s ! 1 + b, s ! 2 + c, s ! 3 + d, s ! 4 + e, s ! 5 + f, s ! 6 + g, s ! 7 + h])"

section \<open>Messages\<close>

definition SHA512_Init :: "SHA512_State \<Rightarrow> SHA512_State" where
  "SHA512_Init s =
     s\<lparr>s512_h := SHA512_Core_Init, s512_blkused := 0, s512_lenhi := 0, s512_lenlo := 0\<rparr>"

definition SHA384_Init :: "SHA512_State \<Rightarrow> SHA512_State" where
  "SHA384_Init s =
     s\<lparr>s512_h := SHA384_Core_Init, s512_blkused := 0, s512_lenhi := 0, s512_lenlo := 0\<rparr>"

definition sha512_wordblock :: "byte list \<Rightarrow> qword list" where
  "sha512_wordblock block = map (\<lambda>i. GET_64BIT_MSB_FIRST (drop (i * 8) block)) [0..<16]"

function SHA512_write_loop :: "SHA512_State \<Rightarrow> byte list \<Rightarrow> SHA512_State \<times> byte list" where
  "SHA512_write_loop s q =
     (if s512_blkused s + length q \<ge> 128
      then
        (let n = 128 - s512_blkused s;
             blk = memcpy_at (s512_blkused s) (take n q) (s512_block s) in
         SHA512_write_loop
           (s\<lparr>s512_block := blk, s512_h := SHA512_Block (s512_h s) (sha512_wordblock blk),
              s512_blkused := 0\<rparr>)
           (drop n q))
      else (s, q))"
  by pat_completeness auto
termination
  by (relation "measure (\<lambda>(s, q). s512_blkused s + length q)") auto

declare SHA512_write_loop.simps [simp del]

definition SHA512_write :: "SHA512_State \<Rightarrow> byte list \<Rightarrow> SHA512_State option" where
  "SHA512_write s q =
     (let len = of_nat (length q);
          s = s\<lparr>s512_lenlo := s512_lenlo s + len\<rparr>;
          s = s\<lparr>s512_lenhi := s512_lenhi s + (if s512_lenlo s < len then 1 else 0)\<rparr> in
      if s512_blkused s \<noteq> 0 \<and> s512_blkused s + length q < 128
      then Some (s\<lparr>s512_block := memcpy_at (s512_blkused s) q (s512_block s),
                   s512_blkused := s512_blkused s + length q\<rparr>)
      else
        (case SHA512_write_loop s q of
           (s, q) \<Rightarrow> Some (s\<lparr>s512_block := memcpy_at 0 q (s512_block s), s512_blkused := length q\<rparr>)))"

text \<open>The high word of the bit length, as \<^verbatim>\<open>SHA512_Final\<close> computes it.\<close>

definition SHA512_final_lenhi :: "SHA512_State \<Rightarrow> qword" where
  "SHA512_final_lenhi s = push_bit 3 (s512_lenhi s) OR drop_bit (32 - 3) (s512_lenlo s)"

definition SHA512_output :: "qword list \<Rightarrow> byte list" where
  "SHA512_output h = concat (map PUT_64BIT_MSB_FIRST (take 8 h))"

definition SHA512_Final :: "SHA512_State \<Rightarrow> byte list option" where
  "SHA512_Final s =
     (let pad = (if s512_blkused s \<ge> 128 - 16 then (128 - 16) + 128 - s512_blkused s
                 else (128 - 16) - s512_blkused s);
          lenhi = SHA512_final_lenhi s;
          lenlo = push_bit 3 (s512_lenlo s);
          c = 0x80 # replicate (pad - 1) 0 in
      Option.bind (BinarySink_put_data SHA512_write s c) (\<lambda>s.
      Option.bind (BinarySink_put_uint64 SHA512_write s lenhi) (\<lambda>s.
      Option.bind (BinarySink_put_uint64 SHA512_write s lenlo) (\<lambda>s.
      Some (SHA512_output (s512_h s))))))"

definition SHA384_Final :: "SHA512_State \<Rightarrow> byte list option" where
  "SHA384_Final s = map_option (take (384 div 8)) (SHA512_Final s)"

definition SHA512_Simple :: "SHA512_State \<Rightarrow> byte list \<Rightarrow> byte list option" where
  "SHA512_Simple s p = Option.bind (BinarySink_put_data SHA512_write (SHA512_Init s) p) SHA512_Final"

definition SHA384_Simple :: "SHA512_State \<Rightarrow> byte list \<Rightarrow> byte list option" where
  "SHA384_Simple s p = Option.bind (BinarySink_put_data SHA512_write (SHA384_Init s) p) SHA384_Final"

definition ssh_sha512 :: "SHA512_State \<Rightarrow> SHA512_State ssh_hashalg" where
  "ssh_sha512 mem =
     \<lparr>ha_new = SHA512_Init mem, ha_write = SHA512_write, ha_final = SHA512_Final, hlen = 64,
      blocklen = 128\<rparr>"

definition ssh_sha384 :: "SHA512_State \<Rightarrow> SHA512_State ssh_hashalg" where
  "ssh_sha384 mem =
     \<lparr>ha_new = SHA384_Init mem, ha_write = SHA512_write, ha_final = SHA384_Final, hlen = 48,
      blocklen = 128\<rparr>"

section \<open>The digest of a message\<close>

definition sha512_padding :: "byte list \<Rightarrow> byte list" where
  "sha512_padding m =
     0x80 # replicate ((239 - length m mod 128) mod 128) 0 @
     PUT_64BIT_MSB_FIRST (of_nat (8 * length m div 2 ^ 64)) @ PUT_64BIT_MSB_FIRST (of_nat (8 * length m))"

definition sha512_compress :: "qword list \<Rightarrow> byte list \<Rightarrow> qword list" where
  "sha512_compress h b = SHA512_Block h (sha512_wordblock b)"

definition sha512_digest :: "qword list \<Rightarrow> byte list \<Rightarrow> byte list" where
  "sha512_digest iv m =
     SHA512_output (foldl sha512_compress iv (blocks 128 (m @ sha512_padding m)))"

definition sha512_holds :: "qword list \<Rightarrow> SHA512_State \<Rightarrow> byte list \<Rightarrow> bool" where
  "sha512_holds iv s m \<longleftrightarrow>
     block_state 128 sha512_compress iv (s512_h s) (s512_block s) (s512_blkused s) m \<and>
     s512_lenlo s = of_nat (length m) \<and> s512_lenhi s = of_nat (length m div 2 ^ 64)"

lemma SHA512_Init_holds:
  "length (s512_block mem) = 128 \<Longrightarrow> sha512_holds SHA512_Core_Init (SHA512_Init mem) []"
  "length (s512_block mem) = 128 \<Longrightarrow> sha512_holds SHA384_Core_Init (SHA384_Init mem) []"
  by (simp_all add: sha512_holds_def SHA512_Init_def SHA384_Init_def block_state_init)

lemma SHA512_write_loop_state:
  "block_state 128 sha512_compress iv (s512_h s) (s512_block s) (s512_blkused s) m \<Longrightarrow>
   SHA512_write_loop s q = (s', q') \<Longrightarrow>
   \<exists>d. q = d @ q' \<and>
     block_state 128 sha512_compress iv (s512_h s') (s512_block s') (s512_blkused s') (m @ d) \<and>
     s512_lenlo s' = s512_lenlo s \<and> s512_lenhi s' = s512_lenhi s \<and>
     s512_blkused s' + length q' < 128 \<and>
     (s512_blkused s = 0 \<or> s512_blkused s + length q \<ge> 128 \<longrightarrow> s512_blkused s' = 0)"
proof (induction s q arbitrary: m s' q' rule: SHA512_write_loop.induct)
  case (1 s q)
  show ?case
  proof (cases "128 \<le> s512_blkused s + length q")
    case False
    with "1.prems" show ?thesis by (simp add: SHA512_write_loop.simps [of s q])
  next
    case True
    define n where "n = 128 - s512_blkused s"
    define blk where "blk = memcpy_at (s512_blkused s) (take n q) (s512_block s)"
    let ?s = "s\<lparr>s512_block := blk, s512_h := SHA512_Block (s512_h s) (sha512_wordblock blk),
      s512_blkused := 0\<rparr>"
    have "length (take n q) = 128 - s512_blkused s" using True by (simp add: n_def)
    from block_state_fill [OF "1.prems"(1) _ this]
    have st: "block_state 128 sha512_compress iv (s512_h ?s) (s512_block ?s) (s512_blkused ?s) (m @ take n q)"
      by (simp add: blk_def flip: sha512_compress_def)
    have loop: "SHA512_write_loop ?s (drop n q) = (s', q')"
      using "1.prems"(2) True by (simp add: SHA512_write_loop.simps [of s q] n_def blk_def Let_def)
    from "1.IH" [OF True n_def blk_def st loop] obtain d where
      d: "drop n q = d @ q'"
        "block_state 128 sha512_compress iv (s512_h s') (s512_block s') (s512_blkused s') ((m @ take n q) @ d)"
        "s512_lenlo s' = s512_lenlo ?s" "s512_lenhi s' = s512_lenhi ?s"
        "s512_blkused s' + length q' < 128"
        "s512_blkused ?s = 0 \<or> 128 \<le> s512_blkused ?s + length (drop n q) \<longrightarrow> s512_blkused s' = 0" by blast
    have "q = (take n q @ d) @ q'" using d(1) by (metis append_assoc append_take_drop_id)
    with d show ?thesis by (intro exI [of _ "take n q @ d"]) simp
  qed
qed

lemma unat_of_nat_64: "unat (of_nat n :: qword) = n mod 2 ^ 64"
  by (simp add: unsigned_of_nat take_bit_eq_mod)

lemma length_carry:
  assumes "d < 2 ^ 64"
  shows "(of_nat ((x + d) div 2 ^ 64) :: qword) =
    of_nat (x div 2 ^ 64) + (if (of_nat (x + d) :: qword) < of_nat d then 1 else 0)"
proof -
  define q r where "q = x div 2 ^ 64" and "r = x mod 2 ^ 64"
  have x: "x = 2 ^ 64 * q + r" and r: "r < 2 ^ 64" by (simp_all add: q_def r_def)
  have "(of_nat (x + d) :: qword) < of_nat d \<longleftrightarrow> (x + d) mod 2 ^ 64 < d"
    using assms by (simp only: word_less_nat_alt unat_of_nat_64 mod_less)
  also have "\<dots> \<longleftrightarrow> 2 ^ 64 \<le> r + d"
    using assms r by (cases "2 ^ 64 \<le> r + d") (simp_all add: x add.assoc le_mod_geq)
  moreover have "(x + d) div 2 ^ 64 = q + (if 2 ^ 64 \<le> r + d then 1 else 0)"
    using assms r by (cases "2 ^ 64 \<le> r + d") (simp_all add: x add.assoc le_div_geq)
  ultimately show ?thesis by (simp add: q_def)
qed

lemma SHA512_write_holds:
  assumes "sha512_holds iv s m" and "length q < 2 ^ 64"
  shows "\<exists>s'. SHA512_write s q = Some s' \<and> sha512_holds iv s' (m @ q)"
proof -
  define s1 where "s1 = s\<lparr>s512_lenlo := of_nat (length (m @ q)),
    s512_lenhi := of_nat (length (m @ q) div 2 ^ 64)\<rparr>"
  note st = assms(1) [unfolded sha512_holds_def]
  have "SHA512_write s q =
     (if s512_blkused s1 \<noteq> 0 \<and> s512_blkused s1 + length q < 128
      then Some (s1\<lparr>s512_block := memcpy_at (s512_blkused s1) q (s512_block s1),
                    s512_blkused := s512_blkused s1 + length q\<rparr>)
      else
        (case SHA512_write_loop s1 q of
           (s, q) \<Rightarrow> Some (s\<lparr>s512_block := memcpy_at 0 q (s512_block s), s512_blkused := length q\<rparr>)))"
    using st length_carry [OF assms(2), of "length m"]
    unfolding SHA512_write_def Let_def by (simp add: s1_def)
  note wr = this
  have st1: "block_state 128 sha512_compress iv (s512_h s1) (s512_block s1) (s512_blkused s1) m"
    using st by (simp add: s1_def)
  have lens: "s512_lenlo s1 = of_nat (length (m @ q))" "s512_lenhi s1 = of_nat (length (m @ q) div 2 ^ 64)"
    by (simp_all add: s1_def)
  show ?thesis
  proof (cases "s512_blkused s1 \<noteq> 0 \<and> s512_blkused s1 + length q < 128")
    case True
    with block_state_partial [OF st1, of q] lens wr show ?thesis
      by (simp add: sha512_holds_def)
  next
    case False
    obtain s' q' where loop: "SHA512_write_loop s1 q = (s', q')" by fastforce
    from SHA512_write_loop_state [OF st1 loop] False obtain d where
      d: "q = d @ q'" "block_state 128 sha512_compress iv (s512_h s') (s512_block s') 0 (m @ d)"
        "s512_lenlo s' = s512_lenlo s1" "s512_lenhi s' = s512_lenhi s1" "length q' < 128"
        "s512_blkused s' = 0" by auto
    have "block_state 128 sha512_compress iv (s512_h s') (memcpy_at 0 q' (s512_block s'))
      (0 + length q') ((m @ d) @ q')"
      by (rule block_state_partial [OF d(2)]) (simp add: d(5))
    moreover have "SHA512_write s q =
        Some (s'\<lparr>s512_block := memcpy_at 0 q' (s512_block s'), s512_blkused := length q'\<rparr>)"
      by (simp only: wr False if_False loop prod.case)
    moreover have "s512_lenlo s' = of_nat (length (m @ q))"
      "s512_lenhi s' = of_nat (length (m @ q) div 2 ^ 64)" using d(3,4) lens by simp_all
    ultimately show ?thesis using d(1) by (simp add: sha512_holds_def)
  qed
qed

interpretation sha512_sink: byte_sink SHA512_write "sha512_holds iv" "\<lambda>d. length d < 2 ^ 64" for iv
  by unfold_locales (simp_all add: SHA512_write_holds)

text \<open>The high length word is right for messages below 2^29 bytes and wrong from there on.\<close>

lemma final_lenhi_value:
  assumes "sha512_holds iv s m" and "length m < 2 ^ 61"
  shows "SHA512_final_lenhi s = of_nat (length m div 2 ^ 29)"
proof -
  have "length m div 2 ^ 64 = 0" using assms(2) by simp
  with assms(1) have hi: "s512_lenhi s = 0" and lo: "s512_lenlo s = of_nat (length m)"
    by (simp_all add: sha512_holds_def)
  have "length m div 2 ^ 29 < 2 ^ 64" using assms(2) by (simp add: div_less_iff_less_mult)
  then have "unat (drop_bit 29 (of_nat (length m) :: qword)) = unat (of_nat (length m div 2 ^ 29) :: qword)"
    using assms(2) by (simp only: unat_drop_bit_div unat_of_nat_64 mod_less) simp
  then show ?thesis
    by (simp add: SHA512_final_lenhi_def hi lo word_unat_eq_iff)
qed

lemma SHA512_Final_holds:
  assumes "sha512_holds iv s m" and "length m < 2 ^ 29"
  shows "SHA512_Final s = Some (sha512_digest iv m)"
proof -
  have used: "s512_blkused s = length m mod 128" "s512_blkused s < 128"
    using assms block_state_mod [of 128] block_state_used [of 128] by (auto simp: sha512_holds_def)
  define pad where "pad = (if s512_blkused s \<ge> 128 - 16 then (128 - 16) + 128 - s512_blkused s
    else (128 - 16) - s512_blkused s)"
  have "pad - 1 = (239 - s512_blkused s) mod 128"
    using used(2) by (cases "s512_blkused s \<ge> 112") (simp_all add: pad_def le_mod_geq)
  then have pad1: "pad - 1 = (239 - length m mod 128) mod 128" by (simp add: used(1))
  have pad2: "pad \<le> 128"
    using used(2) by (cases "s512_blkused s \<ge> 112") (simp_all add: pad_def)
  note pad = pad1 pad2
  have hi: "SHA512_final_lenhi s = of_nat (8 * length m div 2 ^ 64)"
    using final_lenhi_value [OF assms(1)] assms(2) by simp
  have lo: "push_bit 3 (s512_lenlo s) = of_nat (8 * length m)"
    using assms(1) by (simp add: sha512_holds_def push_bit_eq_mult)
  let ?c = "0x80 # replicate (pad - 1) 0 :: byte list"
  have "length ?c < 2 ^ 64" using pad(2) by simp
  then have c: "sha512_sink.appends iv (SHA512_write s ?c) (m @ ?c)"
    using sha512_sink.write_appends [OF assms(1)] by blast
  have "sha512_sink.appends iv (Option.bind (SHA512_write s ?c) (\<lambda>s.
      Option.bind (BinarySink_put_uint64 SHA512_write s (SHA512_final_lenhi s0)) (\<lambda>s.
      BinarySink_put_uint64 SHA512_write s (push_bit 3 (s512_lenlo s0)))))
    (((m @ ?c) @ PUT_64BIT_MSB_FIRST (SHA512_final_lenhi s0)) @ PUT_64BIT_MSB_FIRST (push_bit 3 (s512_lenlo s0)))"
    for s0
    by (intro sha512_sink.bind_appends [OF c] sha512_sink.bind_appends [OF sha512_sink.put_small_appends(5)]
          sha512_sink.put_small_appends(5))
  moreover have "((m @ ?c) @ PUT_64BIT_MSB_FIRST (SHA512_final_lenhi s)) @
      PUT_64BIT_MSB_FIRST (push_bit 3 (s512_lenlo s)) = m @ sha512_padding m"
    unfolding hi lo by (simp only: sha512_padding_def pad(1) append_assoc append_Cons)
  ultimately have "sha512_sink.appends iv (Option.bind (SHA512_write s ?c) (\<lambda>s'.
      Option.bind (BinarySink_put_uint64 SHA512_write s' (SHA512_final_lenhi s)) (\<lambda>s'.
      BinarySink_put_uint64 SHA512_write s' (push_bit 3 (s512_lenlo s))))) (m @ sha512_padding m)"
    by metis
  then obtain s' where s': "Option.bind (SHA512_write s ?c) (\<lambda>s'.
      Option.bind (BinarySink_put_uint64 SHA512_write s' (SHA512_final_lenhi s)) (\<lambda>s'.
      BinarySink_put_uint64 SHA512_write s' (push_bit 3 (s512_lenlo s)))) = Some s'"
      "sha512_holds iv s' (m @ sha512_padding m)"
    unfolding sha512_sink.appends_def by blast
  then have "SHA512_Final s = Some (SHA512_output (s512_h s'))"
    unfolding SHA512_Final_def Let_def pad_def [symmetric] BinarySink_put_data_def
    by (auto simp: Option.bind_eq_Some_conv)
  moreover have "s512_h s' = foldl sha512_compress iv (blocks 128 (m @ sha512_padding m))"
    using s'(2) by (simp add: sha512_holds_def block_state_def)
  ultimately show ?thesis by (simp add: sha512_digest_def)
qed

interpretation sha512: hash_object SHA512_write "sha512_holds SHA512_Core_Init" "\<lambda>d. length d < 2 ^ 64"
    SHA512_Final "sha512_digest SHA512_Core_Init" "\<lambda>m. length m < 2 ^ 29"
  by unfold_locales (rule SHA512_Final_holds)

interpretation sha384: hash_object SHA512_write "sha512_holds SHA384_Core_Init" "\<lambda>d. length d < 2 ^ 64"
    SHA384_Final "\<lambda>m. take 48 (sha512_digest SHA384_Core_Init m)" "\<lambda>m. length m < 2 ^ 29"
  by unfold_locales (simp add: SHA384_Final_def SHA512_Final_holds)

text \<open>
  SHA-512 and SHA-384 do not depend on how the message is cut up: below 2^29 bytes, feeding
  any list of blocks and finalising returns the standard digest of their concatenation.
\<close>

theorem sha512_chunk_independent:
  assumes "length (s512_block mem) = 128" and "length (concat ds) < 2 ^ 29"
  shows "Option.bind (put_chunks SHA512_write ds (SHA512_Init mem)) SHA512_Final =
      Some (sha512_digest SHA512_Core_Init (concat ds)) \<and>
    Option.bind (put_chunks SHA512_write ds (SHA384_Init mem)) SHA384_Final =
      Some (take 48 (sha512_digest SHA384_Core_Init (concat ds)))"
proof -
  have "length d \<le> length (concat ds)" if "d \<in> set ds" for d
    using that by (induction ds) auto
  then have "list_all (\<lambda>d. length d < 2 ^ 64) ds"
    using assms(2) by (fastforce simp: list_all_iff)
  with assms(2) show ?thesis
    using sha512.chunked_digest [OF SHA512_Init_holds(1) [OF assms(1)]]
      sha384.chunked_digest [OF SHA512_Init_holds(2) [OF assms(1)]] by blast
qed

definition sha512_sample :: SHA512_State where
  "sha512_sample = \<lparr>s512_h = [], s512_block = replicate 128 0, s512_blkused = 3, s512_lenhi = 1,
     s512_lenlo = 1\<rparr>"

lemma sha512_chunk_independent_witness:
  "Option.bind (put_chunks SHA512_write [[1, 2], [3]] (SHA512_Init sha512_sample)) SHA512_Final =
      Some (sha512_digest SHA512_Core_Init (concat [[1, 2], [3]])) \<and>
    Option.bind (put_chunks SHA512_write [[1, 2], [3]] (SHA384_Init sha512_sample)) SHA384_Final =
      Some (take 48 (sha512_digest SHA384_Core_Init (concat [[1, 2], [3]])))"
  by (rule sha512_chunk_independent) (simp_all add: sha512_sample_def)

text \<open>
  The length word that SHA-512 hashes at the end is the standard's exactly for messages
  shorter than 2^29 bytes: from 512 MB on (and below 2^61 bytes) the high word is wrong.
\<close>

theorem sha512_length_word:
  assumes "sha512_holds iv s m" and "length m < 2 ^ 61"
  shows "SHA512_final_lenhi s = of_nat (8 * length m div 2 ^ 64) \<longleftrightarrow> length m < 2 ^ 29"
proof -
  have "length m div 2 ^ 29 < 2 ^ 64" using assms(2) by (simp add: div_less_iff_less_mult)
  then have "(of_nat (length m div 2 ^ 29) :: qword) = 0 \<longleftrightarrow> length m div 2 ^ 29 = 0"
    by (simp only: word_unat_eq_iff unat_of_nat_64 mod_less) simp
  moreover have "8 * length m div 2 ^ 64 = 0" using assms(2) by simp
  ultimately show ?thesis
    using final_lenhi_value [OF assms] by (simp add: div_eq_0_iff)
qed

lemma sha512_length_word_witness:
  "SHA512_final_lenhi (SHA512_Init sha512_sample) = of_nat (8 * length ([] :: byte list) div 2 ^ 64) \<longleftrightarrow>
     length ([] :: byte list) < 2 ^ 29"
  by (rule sha512_length_word [OF SHA512_Init_holds(1)]) (simp_all add: sha512_sample_def)

end
