(* ===== verification/HMAC.thy ===== *)
theory HMAC
  imports MD5 SHA256
begin

text \<open>
  HMAC over any hash algorithm (\<^verbatim>\<open>src/ext/TortoisePlink/sshhmac.c\<close>). The hash objects are updated in
  place and freed by \<^verbatim>\<open>ssh_hash_final\<close>, so which of them a function works on, and which it copies, is
  part of its meaning: the objects live in a heap, a list of which an element is \<open>None\<close> once it has been
  freed, and a context holds their addresses. \<open>None\<close> as a result is an abort in the underlying hash
  or an access to an object that has been freed. The scratch buffer \<^verbatim>\<open>digest\<close> of a context is always written
  before it is read and is left out, as is the text name.
\<close>

section \<open>Hash objects in memory\<close>

type_synonym 's heap = "'s option list"

definition deref :: "'s heap \<Rightarrow> nat \<Rightarrow> 's option" where
  "deref h a = (if a < length h then h ! a else None)"

definition ssh_hash_new :: "'s ssh_hashalg \<Rightarrow> 's heap \<Rightarrow> nat \<times> 's heap" where
  "ssh_hash_new alg h = (length h, h @ [Some (ha_new alg)])"

definition ssh_hash_copy :: "nat \<Rightarrow> 's heap \<Rightarrow> (nat \<times> 's heap) option" where
  "ssh_hash_copy a h = map_option (\<lambda>s. (length h, h @ [Some s])) (deref h a)"

definition ssh_hash_free :: "nat \<Rightarrow> 's heap \<Rightarrow> 's heap option" where
  "ssh_hash_free a h = map_option (\<lambda>_. h[a := None]) (deref h a)"

definition ssh_hash_final :: "'s ssh_hashalg \<Rightarrow> nat \<Rightarrow> 's heap \<Rightarrow> (byte list \<times> 's heap) option" where
  "ssh_hash_final alg a h =
     Option.bind (deref h a) (\<lambda>s. map_option (\<lambda>digest. (digest, h[a := None])) (ha_final alg s))"

definition obj_write :: "'s ssh_hashalg \<Rightarrow> nat \<Rightarrow> 's heap sink_write" where
  "obj_write alg a h d = Option.bind (deref h a) (\<lambda>s. map_option (\<lambda>s. h[a := Some s]) (ha_write alg s d))"

section \<open>The MAC\<close>

record hmac =
  h_outer :: nat
  h_inner :: nat
  h_live :: nat
  keyed :: bool

definition PAD_OUTER :: byte where "PAD_OUTER = 0x5C"
definition PAD_INNER :: byte where "PAD_INNER = 0x36"

definition hmac_new :: "'s ssh_hashalg \<Rightarrow> 's heap \<Rightarrow> (hmac \<times> 's heap) option" where
  "hmac_new alg h =
     (let (out, h) = ssh_hash_new alg h; (inn, h) = ssh_hash_new alg h; (live, h) = ssh_hash_new alg h in
      if blocklen alg = 0 then None
      else Some (\<lparr>h_outer = out, h_inner = inn, h_live = live, keyed = False\<rparr>, h))"

definition hmac_free :: "hmac \<Rightarrow> 's heap \<Rightarrow> 's heap option" where
  "hmac_free ctx h =
     Option.bind (ssh_hash_free (h_outer ctx) h) (\<lambda>h. Option.bind (ssh_hash_free (h_inner ctx) h) (ssh_hash_free (h_live ctx)))"

text \<open>The two \<^verbatim>\<open>put_byte\<close> loops that feed a padded key.\<close>

fun put_bytes :: "'s sink_write \<Rightarrow> byte list \<Rightarrow> 's \<Rightarrow> 's option" where
  "put_bytes write [] s = Some s"
| "put_bytes write (b # bs) s = Option.bind (BinarySink_put_byte write s b) (put_bytes write bs)"

definition hmac_feed_key :: "'s ssh_hashalg \<Rightarrow> byte \<Rightarrow> byte list \<Rightarrow> 's heap \<Rightarrow> (nat \<times> 's heap) option" where
  "hmac_feed_key alg pad kp h =
     (let (a, h) = ssh_hash_new alg h in
      Option.bind (put_bytes (obj_write alg a) (map (\<lambda>k. pad XOR k) kp) h) (\<lambda>h.
        map_option (Pair a) (put_bytes (obj_write alg a) (replicate (blocklen alg - length kp) pad) h)))"

definition hmac_true_key :: "'s ssh_hashalg \<Rightarrow> byte list \<Rightarrow> 's heap \<Rightarrow> (byte list \<times> 's heap) option" where
  "hmac_true_key alg key h =
     (if length key > blocklen alg
      then
        (let (htmp, h) = ssh_hash_new alg h in
         Option.bind (BinarySink_put_datapl (obj_write alg htmp) h key) (ssh_hash_final alg htmp))
      else Some (key, h))"

definition hmac_key :: "'s ssh_hashalg \<Rightarrow> byte list \<Rightarrow> hmac \<Rightarrow> 's heap \<Rightarrow> (hmac \<times> 's heap) option" where
  "hmac_key alg key ctx h =
     Option.bind
       (if keyed ctx
        then
          Option.bind (ssh_hash_free (h_outer ctx) h) (\<lambda>h. Option.bind (ssh_hash_free (h_inner ctx) h) (\<lambda>h.
            let (out, h) = ssh_hash_new alg h; (inn, h) = ssh_hash_new alg h in
            Some (ctx\<lparr>h_outer := out, h_inner := inn\<rparr>, h)))
        else Some (ctx, h)) (\<lambda>(ctx, h).
     Option.bind (hmac_true_key alg key h) (\<lambda>(kp, h).
     Option.bind (ssh_hash_free (h_outer ctx) h) (\<lambda>h.
     Option.bind (ssh_hash_free (h_inner ctx) h) (\<lambda>h.
     Option.bind (hmac_feed_key alg PAD_OUTER kp h) (\<lambda>(out, h).
     Option.bind (hmac_feed_key alg PAD_INNER kp h) (\<lambda>(inn, h).
     Some (ctx\<lparr>h_outer := out, h_inner := inn, keyed := True\<rparr>, h)))))))"

definition hmac_start :: "hmac \<Rightarrow> 's heap \<Rightarrow> (hmac \<times> 's heap) option" where
  "hmac_start ctx h =
     Option.bind (ssh_hash_free (h_live ctx) h) (\<lambda>h.
       map_option (\<lambda>(live, h). (ctx\<lparr>h_live := live\<rparr>, h)) (ssh_hash_copy (h_inner ctx) h))"

text \<open>Data is delegated to the live hash object.\<close>

definition hmac_write :: "'s ssh_hashalg \<Rightarrow> hmac \<Rightarrow> 's heap sink_write" where
  "hmac_write alg ctx = obj_write alg (h_live ctx)"

definition hmac_genresult :: "'s ssh_hashalg \<Rightarrow> nat \<Rightarrow> hmac \<Rightarrow> 's heap \<Rightarrow> (byte list \<times> 's heap) option" where
  "hmac_genresult alg len ctx h =
     Option.bind (ssh_hash_copy (h_live ctx) h) (\<lambda>(htmp, h).
     Option.bind (ssh_hash_final alg htmp h) (\<lambda>(digest, h).
     Option.bind (ssh_hash_copy (h_outer ctx) h) (\<lambda>(htmp, h).
     Option.bind (BinarySink_put_data (obj_write alg htmp) h (take (hlen alg) digest)) (\<lambda>h.
     Option.bind (ssh_hash_final alg htmp h) (\<lambda>(digest, h). Some (take len digest, h))))))"

text \<open>The MACs of SSH: the hash and the length of the result.\<close>

record 's ssh2_macalg =
  mac_hash :: "'s ssh_hashalg"
  mac_len :: nat

definition ssh_hmac_md5 :: "MD5Context \<Rightarrow> MD5Context ssh2_macalg" where
  "ssh_hmac_md5 mem = \<lparr>mac_hash = ssh_md5 mem, mac_len = 16\<rparr>"

text \<open>What a client does with a MAC between making and freeing it.\<close>

datatype mac_call = Rekey "byte list" | Restart | Packet "byte list" | Result

fun mac_calls :: "'s ssh2_macalg \<Rightarrow> mac_call list \<Rightarrow> hmac \<Rightarrow> 's heap \<Rightarrow> (byte list list \<times> hmac \<times> 's heap) option" where
  "mac_calls m [] ctx h = Some ([], ctx, h)"
| "mac_calls m (Rekey key # cs) ctx h =
     Option.bind (hmac_key (mac_hash m) key ctx h) (\<lambda>(ctx, h).
       Option.bind (hmac_start ctx h) (\<lambda>(ctx, h). mac_calls m cs ctx h))"
| "mac_calls m (Restart # cs) ctx h = Option.bind (hmac_start ctx h) (\<lambda>(ctx, h). mac_calls m cs ctx h)"
| "mac_calls m (Packet d # cs) ctx h = Option.bind (BinarySink_put_data (hmac_write (mac_hash m) ctx) h d) (mac_calls m cs ctx)"
| "mac_calls m (Result # cs) ctx h =
     Option.bind (hmac_genresult (mac_hash m) (mac_len m) ctx h) (\<lambda>(r, h).
       map_option (\<lambda>(rs, rest). (r # rs, rest)) (mac_calls m cs ctx h))"

definition mac_session :: "'s ssh2_macalg \<Rightarrow> mac_call list \<Rightarrow> 's heap \<Rightarrow> (byte list list \<times> 's heap) option" where
  "mac_session m cs h =
     Option.bind (hmac_new (mac_hash m) h) (\<lambda>(ctx, h).
       Option.bind (mac_calls m cs ctx h) (\<lambda>(rs, ctx, h). map_option (Pair rs) (hmac_free ctx h)))"

section \<open>The RFC 2104 construction\<close>

definition rfc2104 :: "(byte list \<Rightarrow> byte list) \<Rightarrow> nat \<Rightarrow> byte list \<Rightarrow> byte list \<Rightarrow> byte list" where
  "rfc2104 H B key body =
     (let k = (if length key > B then H key else key);
          k = k @ replicate (B - length k) 0 in
      H (map (\<lambda>b. b XOR 0x5C) k @ H (map (\<lambda>b. b XOR 0x36) k @ body)))"

text \<open>The results a client must get, from the key and the data since the last start.\<close>

fun mac_results :: "(byte list \<Rightarrow> byte list) \<Rightarrow> nat \<Rightarrow> nat \<Rightarrow> byte list \<Rightarrow> byte list \<Rightarrow> mac_call list \<Rightarrow> byte list list" where
  "mac_results H B len key body [] = []"
| "mac_results H B len key body (Rekey k # cs) = mac_results H B len k [] cs"
| "mac_results H B len key body (Restart # cs) = mac_results H B len key [] cs"
| "mac_results H B len key body (Packet d # cs) = mac_results H B len key (body @ d) cs"
| "mac_results H B len key body (Result # cs) = take len (rfc2104 H B key body) # mac_results H B len key body cs"

section \<open>Objects and their owners\<close>

lemma deref_append: "deref (h @ [x]) a = (if a = length h then x else deref h a)"
  by (auto simp: deref_def nth_append)

lemma deref_update: "deref (h[a := x]) b = (if a = b \<and> a < length h then x else deref h b)"
  by (auto simp: deref_def)

lemma deref_live: "deref h a = Some s \<Longrightarrow> a < length h"
  by (simp add: deref_def split: if_splits)

text \<open>The objects of \<open>h0\<close> are as they were, and of the others exactly those of \<open>S\<close> are alive.\<close>

definition owned :: "'s heap \<Rightarrow> 's heap \<Rightarrow> nat set \<Rightarrow> bool" where
  "owned h0 h S \<longleftrightarrow> (\<exists>g. h = h0 @ g) \<and> {a. length h0 \<le> a \<and> deref h a \<noteq> None} = S"

lemma owned_self: "owned h h {}"
  by (auto simp: owned_def deref_def)

lemma owned_new: "owned h0 h S \<Longrightarrow> owned h0 (h @ [Some s]) (insert (length h) S) \<and> length h \<notin> S"
  by (auto simp: owned_def deref_append) (auto simp: deref_def)

lemma owned_update: "owned h0 h S \<Longrightarrow> a \<in> S \<Longrightarrow> owned h0 (h[a := Some s]) S"
  by (auto simp: owned_def deref_update list_update_append dest: deref_live)

lemma owned_free: "owned h0 h S \<Longrightarrow> a \<in> S \<Longrightarrow> owned h0 (h[a := None]) (S - {a})"
  by (auto simp: owned_def deref_update list_update_append split: if_splits dest: deref_live)

lemma owned_dead: "owned h0 h S \<Longrightarrow> owned h0 (h @ [None]) S"
  by (auto simp: owned_def deref_append) (auto simp: deref_def)

lemma owned_alive: "owned h0 h S \<Longrightarrow> a \<in> S \<Longrightarrow> \<exists>s. deref h a = Some s"
  by (auto simp: owned_def)

lemma owned_none: "owned h0 h {} \<Longrightarrow> \<exists>n. h = h0 @ replicate n None"
proof -
  assume "owned h0 h {}"
  then obtain g where g: "h = h0 @ g" "\<forall>a. length h0 \<le> a \<longrightarrow> deref h a = None" unfolding owned_def by blast
  have "x = None" if x: "x \<in> set g" for x
  proof -
    obtain i where "i < length g" "g ! i = x" using x unfolding in_set_conv_nth by blast
    with g(2) [rule_format, of "length h0 + i"] show ?thesis by (simp add: g(1) deref_def)
  qed
  then have "replicate (length g) None = g" by (intro replicate_length_same) simp
  with g(1) show ?thesis by (intro exI [of _ "length g"]) simp
qed

context byte_sink
begin

lemma put_bytes_appends: "holds s m \<Longrightarrow> appends (put_bytes wr bs s) (m @ bs)"
proof (induction bs arbitrary: s m)
  case Nil
  then show ?case by (simp add: appends_def)
next
  case (Cons b bs)
  have rest: "appends (put_bytes wr bs s') (m @ b # bs)" if "holds s' (m @ [b])" for s'
    using Cons.IH [OF that] by simp
  show ?case using bind_appends [OF put_small_appends(1) [OF Cons.prems] rest] by simp
qed

end

lemma free_ok:
  "owned h0 h S \<Longrightarrow> a \<in> S \<Longrightarrow> ssh_hash_free a h = Some (h[a := None]) \<and> owned h0 (h[a := None]) (S - {a})"
  using owned_alive [of h0 h S a] owned_free by (fastforce simp: ssh_hash_free_def)

lemma owned_deads: "owned h0 h S \<Longrightarrow> owned h0 (h @ replicate k None) S"
proof (induction k)
  case (Suc k)
  with owned_dead [of h0 "h @ replicate k None" S] show ?case by (simp add: replicate_append_same)
qed simp

text \<open>The three objects of a context.\<close>

definition owns :: "'s heap \<Rightarrow> 's heap \<Rightarrow> hmac \<Rightarrow> bool" where
  "owns h0 h ctx \<longleftrightarrow>
     owned h0 h {h_outer ctx, h_inner ctx, h_live ctx} \<and> distinct [h_outer ctx, h_inner ctx, h_live ctx]"

lemma new_owns: "blocklen alg \<noteq> 0 \<Longrightarrow> \<exists>ctx h. hmac_new alg h0 = Some (ctx, h) \<and> owns h0 h ctx"
  using owned_new [OF conjunct1 [OF owned_new [OF conjunct1 [OF owned_new [OF owned_self]]]], of h0 "ha_new alg" "ha_new alg" "ha_new alg"]
  by (simp add: hmac_new_def ssh_hash_new_def owns_def Let_def insert_commute)

lemma free_owns: "owns h0 h ctx \<Longrightarrow> \<exists>n. hmac_free ctx h = Some (h0 @ replicate n None)"
proof -
  assume own: "owns h0 h ctx"
  let ?o = "h_outer ctx" and ?i = "h_inner ctx" and ?l = "h_live ctx"
  have d: "?o \<noteq> ?i" "?o \<noteq> ?l" "?i \<noteq> ?l" and S: "owned h0 h {?o, ?i, ?l}" using own by (auto simp: owns_def)
  have 1: "ssh_hash_free ?o h = Some (h[?o := None])" "owned h0 (h[?o := None]) {?i, ?l}"
    using free_ok [OF S, of ?o] d by (simp_all add: insert_Diff_if)
  have 2: "ssh_hash_free ?i (h[?o := None]) = Some (h[?o := None, ?i := None])" "owned h0 (h[?o := None, ?i := None]) {?l}"
    using free_ok [OF 1(2), of ?i] d by (simp_all add: insert_Diff_if)
  have 3: "ssh_hash_free ?l (h[?o := None, ?i := None]) = Some (h[?o := None, ?i := None, ?l := None])"
    "owned h0 (h[?o := None, ?i := None, ?l := None]) {}"
    using free_ok [OF 2(2), of ?l] by simp_all
  from owned_none [OF 3(2)] 1(1) 2(1) 3(1) show ?thesis by (simp add: hmac_free_def)
qed

section \<open>The construction over any hash\<close>

text \<open>What HMAC needs of the hash algorithm, beside the contract of its objects.\<close>

locale hmac_hash = hash_object wr holds ok fin digest fits
  for wr :: "'s sink_write" and holds ok fin digest fits +
  fixes alg :: "'s ssh_hashalg"
  assumes alg_write: "ha_write alg = wr" and alg_final: "ha_final alg = fin"
    and alg_new: "holds (ha_new alg) []"
    and digest_length: "length (digest m) = hlen alg"
    and hlen_le: "hlen alg \<le> blocklen alg" and block: "blocklen alg \<noteq> 0"
    and ok_digest: "ok (digest m)"
    and all_fit: "fits m"
begin

definition padded :: "byte list \<Rightarrow> byte list" where
  "padded k = k @ replicate (blocklen alg - length k) 0"

definition true_key :: "byte list \<Rightarrow> byte list" where
  "true_key key = (if length key > blocklen alg then digest key else key)"

definition ipad :: "byte list \<Rightarrow> byte list" where "ipad key = map (\<lambda>b. b XOR 0x36) (padded (true_key key))"
definition opad :: "byte list \<Rightarrow> byte list" where "opad key = map (\<lambda>b. b XOR 0x5C) (padded (true_key key))"

text \<open>An object in memory is a sink as well.\<close>

definition at_obj :: "'s heap \<Rightarrow> nat \<Rightarrow> 's heap \<Rightarrow> byte list \<Rightarrow> bool" where
  "at_obj h a h' m \<longleftrightarrow> (\<exists>s. h' = h[a := Some s] \<and> holds s m)"

lemma obj_sink: "a < length h \<Longrightarrow> byte_sink (obj_write alg a) (at_obj h a) ok"
proof unfold_locales
  fix h' m d
  assume a: "a < length h" and "at_obj h a h' m" and d: "ok d"
  then obtain s where s: "h' = h[a := Some s]" "holds s m" by (auto simp: at_obj_def)
  obtain s' where "wr s d = Some s'" "holds s' (m @ d)" using write_holds [OF s(2) d] by blast
  with s a show "\<exists>s'. obj_write alg a h' d = Some s' \<and> at_obj h a s' (m @ d)"
    by (auto simp: obj_write_def at_obj_def deref_update alg_write)
qed (rule small_ok)

lemma new_obj:
  "at_obj (h @ [Some (ha_new alg)]) (length h) (h @ [Some (ha_new alg)]) []"
  unfolding at_obj_def using alg_new by (intro exI [of _ "ha_new alg"]) simp

lemma feed_key_ok: "\<exists>s. hmac_feed_key alg pad k h = Some (length h, h @ [Some s]) \<and> holds s (map (\<lambda>b. b XOR pad) (padded k))"
proof -
  let ?h = "h @ [Some (ha_new alg)]" and ?w = "obj_write alg (length h)"
  have sink: "byte_sink ?w (at_obj ?h (length h)) ok" by (rule obj_sink) simp
  have pads: "map (\<lambda>b. b XOR pad) (padded k) = ([] @ map (\<lambda>b. pad XOR b) k) @ replicate (blocklen alg - length k) pad"
    by (simp add: padded_def map_replicate_const xor.commute)
  note put = byte_sink.put_bytes_appends [OF sink, unfolded byte_sink.appends_def [OF sink]]
  obtain h1 where h1: "put_bytes ?w (map (\<lambda>b. pad XOR b) k) ?h = Some h1" "at_obj ?h (length h) h1 ([] @ map (\<lambda>b. pad XOR b) k)"
    using put [OF new_obj] by blast
  obtain h2 where h2: "put_bytes ?w (replicate (blocklen alg - length k) pad) h1 = Some h2"
    "at_obj ?h (length h) h2 (map (\<lambda>b. b XOR pad) (padded k))"
    using put [OF h1(2)] unfolding pads by blast
  from h1(1) h2 show ?thesis by (auto simp: hmac_feed_key_def ssh_hash_new_def at_obj_def)
qed

lemma true_key_ok: "ok key \<Longrightarrow> \<exists>n. hmac_true_key alg key h = Some (true_key key, h @ replicate n None)"
proof (cases "length key > blocklen alg")
  case True
  assume ok: "ok key"
  let ?h = "h @ [Some (ha_new alg)]"
  have sink: "byte_sink (obj_write alg (length h)) (at_obj ?h (length h)) ok" by (rule obj_sink) simp
  obtain h1 where "obj_write alg (length h) ?h key = Some h1" "at_obj ?h (length h) h1 ([] @ key)"
    using byte_sink.write_holds [OF sink new_obj ok] by blast
  then obtain s where "obj_write alg (length h) ?h key = Some (h @ [Some s])" "holds s key" by (auto simp: at_obj_def)
  moreover from this(2) have "fin s = Some (digest key)" by (rule final_digest) (rule all_fit)
  ultimately have "hmac_true_key alg key h = Some (true_key key, h @ replicate 1 None)"
    using True by (simp add: hmac_true_key_def ssh_hash_new_def BinarySink_put_datapl_def BinarySink_put_data_def ssh_hash_final_def
        deref_append alg_final true_key_def)
  then show ?thesis by blast
next
  case False
  then have "hmac_true_key alg key h = Some (true_key key, h @ replicate 0 None)" by (simp add: hmac_true_key_def true_key_def)
  then show ?thesis by blast
qed

definition holding :: "'s heap \<Rightarrow> nat \<Rightarrow> byte list \<Rightarrow> bool" where
  "holding h a m \<longleftrightarrow> (\<exists>s. deref h a = Some s \<and> holds s m)"

definition keyed_with :: "'s heap \<Rightarrow> byte list \<Rightarrow> hmac \<Rightarrow> 's heap \<Rightarrow> bool" where
  "keyed_with h0 key ctx h \<longleftrightarrow> owns h0 h ctx \<and> holding h (h_outer ctx) (opad key) \<and> holding h (h_inner ctx) (ipad key)"

definition started :: "'s heap \<Rightarrow> byte list \<Rightarrow> hmac \<Rightarrow> 's heap \<Rightarrow> byte list \<Rightarrow> bool" where
  "started h0 key ctx h body \<longleftrightarrow> keyed_with h0 key ctx h \<and> holding h (h_live ctx) (ipad key @ body)"

lemma holding_append: "holding h a m \<Longrightarrow> holding (h @ [x]) a m"
  by (auto simp: holding_def deref_append dest: deref_live)

lemma holding_update: "holding h a m \<Longrightarrow> a \<noteq> b \<Longrightarrow> holding (h[b := x]) a m"
  by (simp add: holding_def deref_update)

text \<open>Two objects given up and two made.\<close>

lemma drop_two:
  assumes "owns h0 h ctx"
  obtains h' where "Option.bind (ssh_hash_free (h_outer ctx) h) (ssh_hash_free (h_inner ctx)) = Some h'"
    "owned h0 h' {h_live ctx}"
proof -
  let ?o = "h_outer ctx" and ?i = "h_inner ctx" and ?l = "h_live ctx"
  have d: "?o \<noteq> ?i" "?o \<noteq> ?l" "?i \<noteq> ?l" and S: "owned h0 h {?o, ?i, ?l}" using assms by (auto simp: owns_def)
  have 1: "ssh_hash_free ?o h = Some (h[?o := None])" "owned h0 (h[?o := None]) {?i, ?l}"
    using free_ok [OF S, of ?o] d by (simp_all add: insert_Diff_if)
  have "ssh_hash_free ?i (h[?o := None]) = Some (h[?o := None, ?i := None])" "owned h0 (h[?o := None, ?i := None]) {?l}"
    using free_ok [OF 1(2), of ?i] d by (simp_all add: insert_Diff_if)
  with 1 show ?thesis by (intro that [of "h[?o := None, ?i := None]"]) simp_all
qed

lemma add_two:
  assumes "owned h0 h {l}"
  shows "owns h0 (h @ [Some s, Some s']) \<lparr>h_outer = length h, h_inner = Suc (length h), h_live = l, keyed = k\<rparr>"
  using owned_new [OF assms, of s] owned_new [OF conjunct1 [OF owned_new [OF assms, of s]], of s']
  by (simp add: owns_def insert_commute)

lemma key_ok:
  assumes own: "owns h0 h ctx" and key: "ok key"
  shows "\<exists>ctx' h'. hmac_key alg key ctx h = Some (ctx', h') \<and> keyed_with h0 key ctx' h'"
proof -
  obtain ctx1 h1 where 1: "(if keyed ctx
        then
          Option.bind (ssh_hash_free (h_outer ctx) h) (\<lambda>h. Option.bind (ssh_hash_free (h_inner ctx) h) (\<lambda>h.
            let (out, h) = ssh_hash_new alg h; (inn, h) = ssh_hash_new alg h in
            Some (ctx\<lparr>h_outer := out, h_inner := inn\<rparr>, h)))
        else Some (ctx, h)) = Some (ctx1, h1)" (is "?start = _") "owns h0 h1 ctx1"
  proof (cases "keyed ctx")
    case True
    obtain h' where h': "Option.bind (ssh_hash_free (h_outer ctx) h) (ssh_hash_free (h_inner ctx)) = Some h'" "owned h0 h' {h_live ctx}"
      using drop_two [OF own] by blast
    let ?h = "h' @ [Some (ha_new alg), Some (ha_new alg)]"
      and ?ctx = "\<lparr>h_outer = length h', h_inner = Suc (length h'), h_live = h_live ctx, keyed = keyed ctx\<rparr>"
    have "?start = Some (?ctx, ?h)"
      using True h'(1) by (cases ctx) (auto simp: Option.bind_eq_Some_conv ssh_hash_new_def)
    with add_two [OF h'(2)] show ?thesis by (intro that [of ?ctx ?h])
  qed (use own in \<open>auto intro: that\<close>)
  obtain n where n: "hmac_true_key alg key h1 = Some (true_key key, h1 @ replicate n None)" using true_key_ok [OF key] by blast
  let ?h = "h1 @ replicate n None"
  have "owns h0 ?h ctx1" using 1(2) owned_deads by (auto simp: owns_def)
  then obtain h2 where h2: "Option.bind (ssh_hash_free (h_outer ctx1) ?h) (ssh_hash_free (h_inner ctx1)) = Some h2" "owned h0 h2 {h_live ctx1}"
    by (rule drop_two)
  obtain so where so: "hmac_feed_key alg PAD_OUTER (true_key key) h2 = Some (length h2, h2 @ [Some so])" "holds so (opad key)"
    using feed_key_ok [of PAD_OUTER "true_key key" h2] by (auto simp: opad_def PAD_OUTER_def)
  obtain si where si: "hmac_feed_key alg PAD_INNER (true_key key) (h2 @ [Some so]) = Some (Suc (length h2), h2 @ [Some so, Some si])"
    "holds si (ipad key)"
    using feed_key_ok [of PAD_INNER "true_key key" "h2 @ [Some so]"] by (auto simp: ipad_def PAD_INNER_def)
  let ?ctx = "\<lparr>h_outer = length h2, h_inner = Suc (length h2), h_live = h_live ctx1, keyed = True\<rparr>"
  have "hmac_key alg key ctx h = Some (?ctx, h2 @ [Some so, Some si])"
    using h2(1) unfolding hmac_key_def 1(1) by (cases ctx1) (auto simp: n Option.bind_eq_Some_conv so(1) si(1))
  moreover have "keyed_with h0 key ?ctx (h2 @ [Some so, Some si])"
    using add_two [OF h2(2), of so si True] so(2) si(2) by (simp add: keyed_with_def holding_def deref_def nth_append)
  ultimately show ?thesis by blast
qed

lemma start_ok:
  assumes "keyed_with h0 key ctx h"
  shows "\<exists>ctx' h'. hmac_start ctx h = Some (ctx', h') \<and> started h0 key ctx' h' []"
proof -
  let ?o = "h_outer ctx" and ?i = "h_inner ctx" and ?l = "h_live ctx" and ?h = "h[h_live ctx := None]"
  have d: "?o \<noteq> ?i" "?o \<noteq> ?l" "?i \<noteq> ?l" and S: "owned h0 h {?o, ?i, ?l}"
    and H: "holding h ?o (opad key)" "holding h ?i (ipad key)" using assms by (auto simp: keyed_with_def owns_def)
  have 1: "ssh_hash_free ?l h = Some ?h" "owned h0 ?h {?o, ?i}"
    using free_ok [OF S, of ?l] d by (simp_all add: insert_Diff_if)
  have H': "holding ?h ?o (opad key)" "holding ?h ?i (ipad key)" using H d by (simp_all add: holding_update)
  then obtain s where s: "deref ?h ?i = Some s" "holds s (ipad key)" by (auto simp: holding_def)
  let ?ctx = "ctx\<lparr>h_live := length ?h\<rparr>" and ?h' = "?h @ [Some s]"
  have "hmac_start ctx h = Some (?ctx, ?h')" using 1(1) s(1) by (simp add: hmac_start_def ssh_hash_copy_def)
  moreover have "owns h0 ?h' ?ctx"
    using owned_new [OF 1(2), of s] d by (simp add: owns_def insert_commute)
  moreover have "holding ?h' (length ?h) (ipad key)" using s(2) by (simp add: holding_def deref_append)
  ultimately show ?thesis using H' by (simp add: started_def keyed_with_def holding_append)
qed

lemma obj_write_ok:
  assumes "started h0 key ctx h body" and "ok d"
  shows "\<exists>h'. BinarySink_put_data (hmac_write alg ctx) h d = Some h' \<and> started h0 key ctx h' (body @ d)"
proof -
  let ?o = "h_outer ctx" and ?i = "h_inner ctx" and ?l = "h_live ctx"
  have d: "?o \<noteq> ?i" "?o \<noteq> ?l" "?i \<noteq> ?l" and S: "owned h0 h {?o, ?i, ?l}"
    and H: "holding h ?o (opad key)" "holding h ?i (ipad key)" using assms(1) by (auto simp: started_def keyed_with_def owns_def)
  obtain s where s: "deref h ?l = Some s" "holds s (ipad key @ body)" using assms(1) by (auto simp: started_def holding_def)
  obtain s' where s': "wr s d = Some s'" "holds s' (ipad key @ body @ d)" using write_holds [OF s(2) assms(2)] by auto
  have "BinarySink_put_data (hmac_write alg ctx) h d = Some (h[?l := Some s'])"
    using s(1) s'(1) by (simp add: BinarySink_put_data_def hmac_write_def obj_write_def alg_write)
  moreover have "owned h0 (h[?l := Some s']) {?o, ?i, ?l}" using S by (rule owned_update) simp
  ultimately show ?thesis
    using d H s'(2) deref_live [OF s(1)] by (simp add: started_def keyed_with_def owns_def holding_update) (simp add: holding_def deref_update)
qed

lemma genresult_ok:
  assumes "started h0 key ctx h body"
  shows "\<exists>h'. hmac_genresult alg len ctx h = Some (take len (rfc2104 digest (blocklen alg) key body), h') \<and> started h0 key ctx h' body"
proof -
  obtain sl where sl: "deref h (h_live ctx) = Some sl" "holds sl (ipad key @ body)" using assms by (auto simp: started_def holding_def)
  obtain so where so: "deref h (h_outer ctx) = Some so" "holds so (opad key)" using assms by (auto simp: started_def keyed_with_def holding_def)
  let ?d = "digest (ipad key @ body)"
  obtain s where s: "wr so ?d = Some s" "holds s (opad key @ ?d)" using write_holds [OF so(2) ok_digest] by blast
  have fin: "fin sl = Some ?d" "fin s = Some (digest (opad key @ ?d))" 
    by (rule final_digest [OF sl(2) all_fit], rule final_digest [OF s(2) all_fit])
  have old: "h_outer ctx < length h" "h_live ctx < length h" by (rule deref_live [OF so(1)], rule deref_live [OF sl(1)])
  have top: "deref (h @ [None, Some x]) (Suc (length h)) = Some x" for x by (simp add: deref_def nth_append)
  let ?h = "(h @ [None]) @ [None]"
  have "hmac_genresult alg len ctx h = Some (take len (digest (opad key @ ?d)), ?h)"
    using old fin s(1) sl(1) so(1) top digest_length [of "ipad key @ body"]
    by (simp add: hmac_genresult_def ssh_hash_copy_def ssh_hash_final_def deref_append BinarySink_put_data_def obj_write_def
        alg_write alg_final list_update_append)
  moreover have "digest (opad key @ ?d) = rfc2104 digest (blocklen alg) key body"
    by (simp add: rfc2104_def Let_def opad_def ipad_def padded_def true_key_def)
  moreover have "started h0 key ctx ?h body"
    using assms unfolding started_def keyed_with_def owns_def by (intro conjI holding_append owned_dead) simp_all
  ultimately show ?thesis by metis
qed

text \<open>Every sequence of calls.\<close>

fun call_ok :: "mac_call \<Rightarrow> bool" where
  "call_ok (Rekey key) = ok key"
| "call_ok (Packet d) = ok d"
| "call_ok _ = True"

lemma calls_ok:
  assumes "mac_hash m = alg"
  shows "started h0 key ctx h body \<Longrightarrow> list_all call_ok cs \<Longrightarrow>
    \<exists>key' ctx' h' body'. mac_calls m cs ctx h = Some (mac_results digest (blocklen alg) (mac_len m) key body cs, ctx', h') \<and>
      started h0 key' ctx' h' body'"
proof (induction cs arbitrary: key ctx h body)
  case Nil
  then show ?case by auto
next
  case (Cons c cs)
  have cs: "list_all call_ok cs" using Cons.prems(2) by simp
  show ?case
  proof (cases c)
    case (Rekey k)
    obtain ctx1 h1 where 1: "hmac_key alg k ctx h = Some (ctx1, h1)" "keyed_with h0 k ctx1 h1"
      using key_ok [of h0 h ctx k] Cons.prems by (auto simp: Rekey started_def keyed_with_def)
    obtain ctx2 h2 where "hmac_start ctx1 h1 = Some (ctx2, h2)" "started h0 k ctx2 h2 []" using start_ok [OF 1(2)] by blast
    with 1(1) Cons.IH [OF this(2) cs] show ?thesis by (auto simp: Rekey assms)
  next
    case Restart
    obtain ctx2 h2 where "hmac_start ctx h = Some (ctx2, h2)" "started h0 key ctx2 h2 []"
      using start_ok [of h0 key ctx h] Cons.prems(1) by (auto simp: started_def)
    with Cons.IH [OF this(2) cs] show ?thesis by (auto simp: Restart)
  next
    case (Packet d)
    obtain h1 where "BinarySink_put_data (hmac_write alg ctx) h d = Some h1" "started h0 key ctx h1 (body @ d)"
      using obj_write_ok [OF Cons.prems(1), of d] Cons.prems(2) by (auto simp: Packet)
    with Cons.IH [OF this(2) cs] show ?thesis by (auto simp: Packet assms)
  next
    case Result
    obtain h1 where "hmac_genresult alg (mac_len m) ctx h = Some (take (mac_len m) (rfc2104 digest (blocklen alg) key body), h1)"
      "started h0 key ctx h1 body" using genresult_ok [OF Cons.prems(1)] by blast
    with Cons.IH [OF this(2) cs] show ?thesis by (auto simp: Result assms)
  qed
qed

lemma session_ok:
  assumes "mac_hash m = alg" and "ok key" and "list_all call_ok cs"
  shows "\<exists>n. mac_session m (Rekey key # cs) h0 =
    Some (mac_results digest (blocklen alg) (mac_len m) key [] cs, h0 @ replicate n None)"
proof -
  obtain ctx h where new: "hmac_new alg h0 = Some (ctx, h)" "owns h0 h ctx" using new_owns [OF block] by blast
  obtain ctx1 h1 where 1: "hmac_key alg key ctx h = Some (ctx1, h1)" "keyed_with h0 key ctx1 h1" using key_ok [OF new(2) assms(2)] by blast
  obtain ctx2 h2 where 2: "hmac_start ctx1 h1 = Some (ctx2, h2)" "started h0 key ctx2 h2 []" using start_ok [OF 1(2)] by blast
  obtain key' ctx3 h3 body' where 3: "mac_calls m cs ctx2 h2 = Some (mac_results digest (blocklen alg) (mac_len m) key [] cs, ctx3, h3)"
    "started h0 key' ctx3 h3 body'" using calls_ok [OF assms(1) 2(2) assms(3)] by blast
  have "owns h0 h3 ctx3" using 3(2) by (simp add: started_def keyed_with_def)
  then obtain n where "hmac_free ctx3 h3 = Some (h0 @ replicate n None)" using free_owns by blast
  with new(1) 1(1) 2(1) 3(1) show ?thesis by (simp add: mac_session_def assms(1))
qed

end

section \<open>The instances\<close>



lemma length_md5_digest: "length (md5_digest m) = 16"
proof -
  have "length (md5_compress c b) = 4" for c b
    by (simp add: md5_compress_def MD5_Block_def split: prod.splits)
  then have "length (foldl md5_compress c bs) = 4" if "length c = 4" for c bs
    using that by (induction bs arbitrary: c) simp_all
  then have "length (foldl md5_compress MD5_Core_Init bs) = 4" for bs
    by (simp add: MD5_Core_Init_def)
  moreover have "length (concat (map PUT_32BIT_LSB_FIRST ws)) = 4 * length ws" for ws
    by (induction ws) simp_all
  ultimately show ?thesis by (simp add: md5_digest_def MD5_output_def)
qed



definition md5_mem :: MD5Context where
  "md5_mem = \<lparr>md5_h = [], md5_block = replicate 64 0, md5_blkused = 0, md5_len = 0\<rparr>"



interpretation hmac_md5: hmac_hash MD5_write md5_holds "\<lambda>d. length d < 2 ^ 32" MD5Final
    md5_digest "\<lambda>m. True" "ssh_md5 md5_mem"
  by unfold_locales (simp_all add: ssh_md5_def length_md5_digest MD5Init_holds md5_mem_def)



end
