(* ===== verification/CRC32.thy ===== *)
theory CRC32
  imports PlinkBytes
begin

text \<open>
  The CRC of SSH-1 (\<^verbatim>\<open>src/ext/TortoisePlink/sshcrc.c\<close>): four bits at a time by integer
  multiplications whose partial products cannot carry into each other, proved equal to the
  bit-serial division by the CRC polynomial.
\<close>

definition crc32_shift_4 :: "dword \<Rightarrow> dword" where
  "crc32_shift_4 v =
     (let a = 0x11111044; b = 0x08840020; c = 0x04220000;
          m = v AND 0xF in
      drop_bit 4 v XOR (a * m) XOR (b * m) XOR (c * m))"

definition crc32_shift_8 :: "dword \<Rightarrow> dword" where
  "crc32_shift_8 v = crc32_shift_4 (crc32_shift_4 v)"

fun crc32_update :: "dword \<Rightarrow> byte list \<Rightarrow> dword" where
  "crc32_update crc [] = crc"
| "crc32_update crc (p # data) = crc32_update (crc32_shift_8 (crc XOR ucast p)) data"

definition crc32_ssh1 :: "byte list \<Rightarrow> dword" where
  "crc32_ssh1 data = crc32_update 0 data"

definition crc32_rfc1662 :: "byte list \<Rightarrow> dword" where
  "crc32_rfc1662 data = crc32_update 0xFFFFFFFF data XOR 0xFFFFFFFF"

section \<open>The polynomial\<close>

text \<open>Multiplication by \<open>x\<close> modulo the polynomial, bit-reversed as the comment describes it.\<close>

definition crc_mul_x :: "dword \<Rightarrow> dword" where
  "crc_mul_x v = drop_bit 1 v XOR (if bit v 0 then 0xEDB88320 else 0)"

lemma crc_mul_x_xor: "crc_mul_x (u XOR v) = crc_mul_x u XOR crc_mul_x v"
  by (rule bit_word_eqI) (auto simp: crc_mul_x_def bit_simps)

lemma crc_mul_x_low: "\<not> bit v 0 \<Longrightarrow> crc_mul_x v = drop_bit 1 v"
  by (simp add: crc_mul_x_def)

lemma crc_mul_x4_shift:
  assumes "\<And>k. k < 4 \<Longrightarrow> \<not> bit v k"
  shows "(crc_mul_x ^^ 4) v = drop_bit 4 v"
proof -
  have "\<not> bit v 0" "\<not> bit (drop_bit 1 v) 0" "\<not> bit (drop_bit 2 v) 0" "\<not> bit (drop_bit 3 v) 0"
    using assms [of 0] assms [of 1] assms [of 2] assms [of 3] by (simp_all add: bit_simps)
  then show ?thesis
    by (simp add: eval_nat_numeral(2,3) crc_mul_x_low drop_bit_drop_bit)
qed

lemma nibble_cases:
  assumes "m < (16 :: dword)"
  shows "m \<in> set (map of_nat [0..<16])"
proof -
  have "unat m < 16" using assms by (simp add: word_less_nat_alt)
  then have "(of_nat (unat m) :: dword) \<in> of_nat ` {0..<16 :: nat}" by (intro imageI) simp
  then show ?thesis by simp
qed

lemma crc_nibble_table:
  "list_all (\<lambda>m. (crc_mul_x ^^ 4) m =
     0x11111044 * m XOR 0x08840020 * m XOR (0x04220000 * m :: dword)) (map of_nat [0..<16])"
  by code_simp

lemma crc32_shift_4_mul: "crc32_shift_4 v = (crc_mul_x ^^ 4) v"
proof -
  define m u where "m = v AND 0xF" and "u = v AND NOT 0xF"
  have v: "v = u XOR m" by (rule bit_word_eqI) (auto simp: m_def u_def bit_simps)
  have "m = take_bit 4 v" by (simp add: m_def take_bit_eq_mask mask_eq_exp_minus_1)
  then have "unat m < 16" by (simp add: unat_take_bit_mod)
  then have "m < 16" by (simp add: word_less_nat_alt)
  then have low: "(crc_mul_x ^^ 4) m = 0x11111044 * m XOR 0x08840020 * m XOR 0x04220000 * m"
    using nibble_cases crc_nibble_table by (fastforce simp: list_all_iff)
  have F: "(0xF :: dword) = mask 4" by (simp add: mask_eq_exp_minus_1)
  have "\<not> bit u k" if "k < 4" for k using that by (simp add: u_def F bit_simps)
  then have "(crc_mul_x ^^ 4) u = drop_bit 4 u" by (rule crc_mul_x4_shift)
  moreover have "drop_bit 4 v = drop_bit 4 u"
    by (rule bit_word_eqI) (auto simp: u_def F bit_simps dest: bit_imp_le_length)
  moreover have "(crc_mul_x ^^ 4) (u XOR m) = (crc_mul_x ^^ 4) u XOR (crc_mul_x ^^ 4) m"
    by (simp add: eval_nat_numeral(2,3) crc_mul_x_xor)
  ultimately show ?thesis
    by (simp add: crc32_shift_4_def Let_def low flip: m_def) (simp add: v low xor.assoc)
qed

fun crc_reference :: "dword \<Rightarrow> byte list \<Rightarrow> dword" where
  "crc_reference crc [] = crc"
| "crc_reference crc (p # data) = crc_reference ((crc_mul_x ^^ 8) (crc XOR ucast p)) data"

text \<open>
  The carry-free multiplications are polynomial arithmetic: absorbing any data is the
  bit-serial reduction modulo the CRC-32 polynomial, eight bits per byte.
\<close>

theorem crc32_update_is_polynomial_division: "crc32_update crc data = crc_reference crc data"
proof -
  have "crc32_shift_8 v = (crc_mul_x ^^ 8) v" for v
    by (simp add: crc32_shift_8_def crc32_shift_4_mul eval_nat_numeral(2,3))
  then show ?thesis by (induction data arbitrary: crc) simp_all
qed

text \<open>
  The check values the source documents for the two CRC variants, on the nine digits
  \<^verbatim>\<open>"123456789"\<close>.
\<close>

theorem crc32_check_values:
  "crc32_rfc1662 [0x31, 0x32, 0x33, 0x34, 0x35, 0x36, 0x37, 0x38, 0x39] = 0xCBF43926 \<and>
   crc32_ssh1 [0x31, 0x32, 0x33, 0x34, 0x35, 0x36, 0x37, 0x38, 0x39] = 0x2DFD2D88"
  by code_simp

end
