(* ===== verification/BlockModes.thy ===== *)
theory BlockModes
  imports PlinkBytes
begin

text \<open>
  Cipher modes over 8-byte blocks, as the block ciphers of TortoisePlink use them
  (\<^verbatim>\<open>src/ext/TortoisePlink/sshdes.c\<close>): the loop
  \<^verbatim>\<open>for (; len > 0; len -= 8, data += 8)\<close> that rewrites a buffer block by block while it
  updates a context, and the law that makes one such loop undo another.
\<close>

section \<open>The block loop\<close>

text \<open>\<open>None\<close>: the last block is short and the code would run past the end of the buffer.\<close>

function over_blocks :: "('c \<Rightarrow> byte list \<Rightarrow> 'c \<times> byte list) \<Rightarrow> 'c \<Rightarrow> byte list \<Rightarrow> ('c \<times> byte list) option" where
  "over_blocks step c data =
     (if data = [] then Some (c, [])
      else if length data < 8 then None
      else
        (case step c (take 8 data) of
           (c', out) \<Rightarrow> map_option (\<lambda>(c'', rest). (c'', out @ rest)) (over_blocks step c' (drop 8 data))))"
  by pat_completeness auto
termination by (relation "measure (\<lambda>(step, c, data). length data)") auto

declare over_blocks.simps [simp del]

lemma over_blocks_Nil [simp]: "over_blocks step c [] = Some (c, [])"
  by (simp add: over_blocks.simps)

lemma over_blocks_block [simp]:
  assumes "length b = 8"
  shows "over_blocks step c (b @ data) =
    map_option (\<lambda>(c'', rest). (c'', snd (step c b) @ rest)) (over_blocks step (fst (step c b)) data)"
proof -
  have "b @ data \<noteq> []" "\<not> length (b @ data) < 8" using assms by auto
  then show ?thesis
    using over_blocks.simps [of step c "b @ data"] assms by (simp add: split_beta del: append_is_Nil_conv)
qed

lemma block_split:
  assumes "length data mod 8 = 0" and "data \<noteq> []"
  obtains b rest where "data = b @ rest" and "length b = 8" and "length rest mod 8 = 0"
proof -
  have "8 \<le> length data" using assms by (cases "length data < 8") auto
  moreover from this have "(length data - 8) mod 8 = 0"
    using assms(1) le_mod_geq [of 8 "length data"] by simp
  ultimately show thesis by (intro that [of "take 8 data" "drop 8 data"]) simp_all
qed

lemma over_blocks_total:
  assumes "length data mod 8 = 0"
    and "\<And>c b. length b = 8 \<Longrightarrow> length (snd (step c b)) = 8"
  shows "\<exists>c' out. over_blocks step c data = Some (c', out) \<and> length out = length data"
  using assms(1)
proof (induction "length data" arbitrary: c data rule: less_induct)
  case less
  show ?case
  proof (cases "data = []")
    case False
    obtain b rest where d: "data = b @ rest" "length b = 8" "length rest mod 8 = 0"
      by (rule block_split [OF less.prems False])
    then have "length rest < length data" by simp
    from less.hyps [OF this d(3)] obtain c' out where
      "over_blocks step (fst (step c b)) rest = Some (c', out)" "length out = length rest" by blast
    with d assms(2) show ?thesis by simp
  qed simp
qed

section \<open>One loop undoes another\<close>

text \<open>
  The contract of an encrypting step and its decrypting step: on every block they leave the
  same context, and the second gives back the block.
\<close>

locale block_mode =
  fixes estep dstep :: "'c \<Rightarrow> byte list \<Rightarrow> 'c \<times> byte list"
  assumes estep_length: "length b = 8 \<Longrightarrow> length (snd (estep c b)) = 8"
    and dstep_estep: "length b = 8 \<Longrightarrow> dstep c (snd (estep c b)) = (fst (estep c b), b)"
begin

lemma decrypt_encrypt:
  assumes "length data mod 8 = 0"
  shows "\<exists>c' out. over_blocks estep c data = Some (c', out) \<and> length out = length data \<and>
    over_blocks dstep c out = Some (c', data)"
  using assms
proof (induction "length data" arbitrary: c data rule: less_induct)
  case less
  show ?case
  proof (cases "data = []")
    case False
    obtain b rest where d: "data = b @ rest" "length b = 8" "length rest mod 8 = 0"
      by (rule block_split [OF less.prems False])
    then have "length rest < length data" by simp
    from less.hyps [OF this d(3)] obtain c' out where
      r: "over_blocks estep (fst (estep c b)) rest = Some (c', out)" "length out = length rest"
        "over_blocks dstep (fst (estep c b)) out = Some (c', rest)" by blast
    with d estep_length dstep_estep show ?thesis by simp
  qed simp
qed

end

section \<open>Halves of a block\<close>

datatype LR = LR (L: dword) (R: dword)

definition des_load_lr :: "byte list \<Rightarrow> LR" where
  "des_load_lr p = LR (GET_32BIT_MSB_FIRST p) (GET_32BIT_MSB_FIRST (drop 4 p))"

definition des_store_lr :: "LR \<Rightarrow> byte list" where
  "des_store_lr lr = PUT_32BIT_MSB_FIRST (L lr) @ PUT_32BIT_MSB_FIRST (R lr)"

definition des_xor_lr :: "LR \<Rightarrow> LR \<Rightarrow> LR" where
  "des_xor_lr a b = LR (L a XOR L b) (R a XOR R b)"

definition des_swap_lr :: "LR \<Rightarrow> LR" where
  "des_swap_lr inp = LR (R inp) (L inp)"

lemma length_store [simp]: "length (des_store_lr lr) = 8"
  by (simp add: des_store_lr_def)

lemma load_store [simp]: "des_load_lr (des_store_lr lr) = lr"
  using get_put_32_MSB [of "R lr" "[]"] by (cases lr) (simp add: des_load_lr_def des_store_lr_def)

lemma bit_byte_high [simp]:
  "\<not> bit (x :: byte) (8 + n)" "\<not> bit (x :: byte) (16 + n)" "\<not> bit (x :: byte) (24 + n)"
  by (simp_all add: bit_word.rep_eq)

lemma put_get_32:
  "length p = 4 \<Longrightarrow> PUT_32BIT_MSB_FIRST (GET_32BIT_MSB_FIRST p) = p"
proof -
  assume "length p = 4"
  then obtain a b c d where p: "p = [a, b, c, d]"
    by (auto simp: length_Suc_conv eval_nat_numeral)
  have "ucast (drop_bit 24 v) = a" "ucast (drop_bit 16 v) = b" "ucast (drop_bit 8 v) = c" "ucast v = d"
    if "v = ucast d OR push_bit 8 (ucast c) OR push_bit 16 (ucast b) OR push_bit 24 (ucast a :: dword)" for v :: dword
    unfolding that by (auto intro!: bit_word_eqI simp: bit_simps)
  then show ?thesis by (simp add: p PUT_32BIT_MSB_FIRST_def GET_32BIT_MSB_FIRST_def)
qed

lemma get_take: "GET_32BIT_MSB_FIRST (take 4 p) = GET_32BIT_MSB_FIRST p"
  by (simp add: GET_32BIT_MSB_FIRST_def)

lemma store_load [simp]: "length p = 8 \<Longrightarrow> des_store_lr (des_load_lr p) = p"
  using put_get_32 [of "take 4 p"] put_get_32 [of "drop 4 p"]
  by (simp add: des_store_lr_def des_load_lr_def get_take)

lemma xor_lr_cancel [simp]: "des_xor_lr (des_xor_lr a b) b = a"
  by (cases a) (simp add: des_xor_lr_def xor.assoc)

lemma swap_swap [simp]: "des_swap_lr (des_swap_lr a) = a"
  by (simp add: des_swap_lr_def)

end
