(* ===== verification/DES.thy ===== *)
theory DES
  imports BlockModes
begin

text \<open>
  DES and its triple modes (\<^verbatim>\<open>src/ext/TortoisePlink/sshdes.c\<close>, the 64-bit variants of the S-box
  gadget and of the counter): the selection gadget, the Benes network, the key schedule, the
  Feistel rounds, and the four contexts \<^verbatim>\<open>des_cbc\<close>, \<^verbatim>\<open>des3_cbc1\<close>, \<^verbatim>\<open>des3_sdctr\<close> and
  \<^verbatim>\<open>des3_cbc3\<close>. Every mode is proved invertible through one contract of block modes.
\<close>

section \<open>The mixing function\<close>

definition des_rol :: "dword \<Rightarrow> dword \<Rightarrow> dword" where
  "des_rol x c = push_bit (unat (31 AND c)) x OR drop_bit (unat (31 AND - c)) x"

definition des_ror :: "dword \<Rightarrow> dword \<Rightarrow> dword" where
  "des_ror x c = des_rol x (- c)"

definition SBOX_ITERATION :: "(qword \<times> qword) list" where
  "SBOX_ITERATION = [
     (0xf600970083008500, 0x0e00eb007b002e00),
     (0xda00e4009000e000, 0xad00e800a700b400),
     (0x1a009d003f003600, 0xf60054004300cd00),
     (0xaf00c500e900a900, 0x63003d00f2005900),
     (0xf300750079001400, 0x80005000a2008900),
     (0xa100d400d6007b00, 0xd3009000d300e100),
     (0x450087002600ac00, 0xae003c0031009c00),
     (0xd000b100b6003600, 0x3e006f0092005900),
     (0x4d008a0026001000, 0x89007a00b8004a00),
     (0xca00f5003f00ac00, 0x6f00f0003c009400),
     (0x92008d0090001000, 0x8c00c600ce004a00),
     (0xe2005900e9006d00, 0x790078007800fa00),
     (0x1300b10090008d00, 0xa300170027001800),
     (0xc70058005f006a00, 0x9c00c100e0006300),
     (0x9b002000f000f000, 0xf70057001600f900),
     (0xeb00b0009000af00, 0xa9006300b0005800),
     (0xa2001d00cf000000, 0x3800b00066000000),
     (0xf100da007900d000, 0xbc00790094007900),
     (0x570015001900ad00, 0x6f00ef005100cb00),
     (0xc3006100e9006d00, 0xc000b700f800f200),
     (0x1d005800b600d000, 0x67004d00cd002c00),
     (0xf400b800d600e000, 0x5e00a900b000e700),
     (0x5400d1003f009c00, 0xc90069002c005300),
     (0xe200e50060005900, 0x6a00b800c500f200),
     (0xdf0047007900d500, 0x7000ec004c00ea00),
     (0x7100d10060009c00, 0x3f00b10095005e00),
     (0x82008200f0002000, 0x87001d00cd008000),
     (0xd0007000af00c000, 0xe200be006100f200),
     (0x8000930060001000, 0x36006e0081001200),
     (0x6500a300d600ac00, 0xcf003d007d00c000),
     (0x9000700060009800, 0x62008100ad009200),
     (0xe000e4003f00f400, 0x5a00ed009000f200)]"

text \<open>One step of the loop over the table: both gadgets select, then count up.\<close>

fun des_S_step :: "qword \<times> qword \<times> qword \<times> qword \<Rightarrow> qword \<times> qword \<Rightarrow> qword \<times> qword \<times> qword \<times> qword" where
  "des_S_step (c6240, c7351, s6240, s7351) (t6240, t7351) =
     (c6240 + 0x0008000800080008, c7351 + 0x0008000800080008,
      s6240 XOR (c6240 AND t6240), s7351 XOR (c7351 AND t7351))"

definition des_S :: "dword \<Rightarrow> dword \<Rightarrow> dword" where
  "des_S si6420 si7531 =
     (let c6240 = ((ucast si6420 OR push_bit 24 (ucast si6420)) AND 0x00FC00FC00FC00FC) OR 0xFF00FF00FF00FF00;
          c7351 = ((ucast si7531 OR push_bit 24 (ucast si7531)) AND 0x00FC00FC00FC00FC) OR 0xFF00FF00FF00FF00 in
      case foldl des_S_step (c6240, c7351, 0, 0) SBOX_ITERATION of
        (c6240, c7351, s6240, s7351) \<Rightarrow>
          (let s6240 = s6240 XOR (push_bit 4 s6240 AND ((0xf000 div 0x004) * (c6240 AND 0x0004000400040004)));
               s7351 = s7351 XOR (push_bit 4 s7351 AND ((0xf000 div 0x004) * (c7351 AND 0x0004000400040004)));
               s6240 = s6240 AND 0xf000f000f000f000;
               s7351 = s7351 AND 0xf000f000f000f000;
               combined = drop_bit 12 s6240 OR drop_bit 8 s7351 in
           ucast (combined OR drop_bit 24 combined)))"

definition des_benes_step :: "dword \<Rightarrow> nat \<Rightarrow> dword \<Rightarrow> dword" where
  "des_benes_step v D msk =
     (let diff = (v XOR drop_bit D v) AND msk in v XOR diff XOR push_bit D diff)"

definition des_P :: "dword \<Rightarrow> dword" where
  "des_P v_orig =
     (let v = v_orig;
          v = des_benes_step v 4 0x07030702;
          v = des_benes_step v 8 0x004E009E;
          v = des_benes_step v 16 0x0000D9D3;
          v = des_benes_step v 4 0x05040004;
          v = des_benes_step v 1 0x04045015 in v)"

definition des_f :: "dword \<Rightarrow> dword \<Rightarrow> dword \<Rightarrow> dword" where
  "des_f r K7531 K6420 =
     (let s7531 = r XOR K7531; s6420 = des_rol r 4 XOR K6420 in des_P (des_S s6420 s7531))"

section \<open>Key schedule\<close>

record des_keysched =
  k7531 :: "dword list"
  k6420 :: "dword list"

fun bitsel_loop :: "qword \<Rightarrow> qword \<Rightarrow> int list \<Rightarrow> qword" where
  "bitsel_loop input ret [] = ret"
| "bitsel_loop input ret (bitpos # bitnums) =
     (let ret = push_bit 1 ret;
          ret = (if bitpos \<ge> 0 then ret OR (1 AND drop_bit (nat bitpos) input) else ret) in
      bitsel_loop input ret bitnums)"

definition bitsel :: "qword \<Rightarrow> int list \<Rightarrow> qword" where
  "bitsel input bitnums = bitsel_loop input 0 bitnums"

definition PC1 :: "int list" where
  "PC1 = [
      7, 15, 23, 31, 39, 47, 55, 63,  6, 14, 22, 30, 38, 46,
     54, 62,  5, 13, 21, 29, 37, 45, 53, 61,  4, 12, 20, 28,
     -1, -1, -1, -1,
      1,  9, 17, 25, 33, 41, 49, 57,  2, 10, 18, 26, 34, 42,
     50, 58,  3, 11, 19, 27, 35, 43, 51, 59, 36, 44, 52, 60]"

definition PC2_7531 :: "int list" where
  "PC2_7531 = [
     46, 43, 49, 36, 59, 55, -1, -1,
     37, 41, 48, 56, 34, 52, -1, -1,
     15,  4, 25, 19,  9,  1, -1, -1,
     12,  7, 17,  0, 22,  3, -1, -1]"

definition PC2_6420 :: "int list" where
  "PC2_6420 = [
     57, 32, 45, 54, 39, 50, -1, -1,
     44, 53, 33, 40, 47, 58, -1, -1,
     26, 16,  5, 11, 23,  8, -1, -1,
     10, 14,  6, 20, 27, 24, -1, -1]"

definition leftshifts :: "nat list" where
  "leftshifts = [1,1,2,2,2,2,2,2,1,2,2,2,2,2,2,1]"

fun des_key_rounds :: "qword \<Rightarrow> nat list \<Rightarrow> des_keysched \<Rightarrow> des_keysched" where
  "des_key_rounds CD [] sched = sched"
| "des_key_rounds CD (s # ss) sched =
     (let CD = push_bit s CD;
          CD = (CD AND 0x0FFFFFFF0FFFFFFF) OR drop_bit 28 (CD AND 0xF0000000F0000000) in
      des_key_rounds CD ss
        \<lparr>k7531 = k7531 sched @ [ucast (bitsel CD PC2_7531)],
         k6420 = k6420 sched @ [ucast (bitsel CD PC2_6420)]\<rparr>)"

definition des_key_setup :: "qword \<Rightarrow> des_keysched" where
  "des_key_setup key = des_key_rounds (bitsel key PC1) leftshifts \<lparr>k7531 = [], k6420 = []\<rparr>"

section \<open>Initial and final permutation\<close>

definition des_bitswap_IP_FP :: "dword \<Rightarrow> dword \<Rightarrow> nat \<Rightarrow> dword \<Rightarrow> dword \<times> dword" where
  "des_bitswap_IP_FP l r D msk =
     (let diff = msk AND (drop_bit D r XOR l) in (l XOR diff, r XOR push_bit D diff))"

text \<open>The two ways the calls pass the halves: \<^verbatim>\<open>(&lr.L, &lr.R)\<close> and \<^verbatim>\<open>(&lr.R, &lr.L)\<close>.\<close>

definition bitswap_LR :: "nat \<Rightarrow> dword \<Rightarrow> LR \<Rightarrow> LR" where
  "bitswap_LR D msk lr = (case des_bitswap_IP_FP (L lr) (R lr) D msk of (l, r) \<Rightarrow> LR l r)"

definition bitswap_RL :: "nat \<Rightarrow> dword \<Rightarrow> LR \<Rightarrow> LR" where
  "bitswap_RL D msk lr = (case des_bitswap_IP_FP (R lr) (L lr) D msk of (r, l) \<Rightarrow> LR l r)"

definition des_IP :: "LR \<Rightarrow> LR" where
  "des_IP lr =
     (let lr = bitswap_RL 4 0x0F0F0F0F lr;
          lr = bitswap_RL 16 0x0000FFFF lr;
          lr = bitswap_LR 2 0x33333333 lr;
          lr = bitswap_LR 8 0x00FF00FF lr;
          lr = bitswap_RL 1 0x55555555 lr in
      LR (des_ror (L lr) 1) (des_ror (R lr) 1))"

definition des_FP :: "LR \<Rightarrow> LR" where
  "des_FP lr =
     (let lr = LR (des_rol (L lr) 1) (des_rol (R lr) 1);
          lr = bitswap_RL 1 0x55555555 lr;
          lr = bitswap_LR 8 0x00FF00FF lr;
          lr = bitswap_LR 2 0x33333333 lr;
          lr = bitswap_RL 16 0x0000FFFF lr;
          lr = bitswap_RL 4 0x0F0F0F0F lr in lr)"

section \<open>Rounds\<close>

definition des_round :: "des_keysched \<Rightarrow> LR \<Rightarrow> nat \<Rightarrow> LR" where
  "des_round sched inp round =
     LR (R inp) (L inp XOR des_f (R inp) (k7531 sched ! round) (k6420 sched ! round))"

definition des_inner_cipher :: "LR \<Rightarrow> des_keysched \<Rightarrow> int \<Rightarrow> int \<Rightarrow> LR" where
  "des_inner_cipher lr sched start step =
     des_swap_lr (foldl (des_round sched) lr (map (\<lambda>i. nat (start + int i * step)) [0..<16]))"

definition des_full_cipher :: "LR \<Rightarrow> des_keysched \<Rightarrow> int \<Rightarrow> int \<Rightarrow> LR" where
  "des_full_cipher lr sched start step =
     (let lr = des_IP lr; lr = des_inner_cipher lr sched start step; lr = des_FP lr in lr)"

section \<open>Single DES, CBC\<close>

record des_cbc_ctx =
  cbc_sched :: des_keysched
  cbc_iv :: LR

definition des_cbc_setkey :: "byte list \<Rightarrow> des_cbc_ctx \<Rightarrow> des_cbc_ctx" where
  "des_cbc_setkey key ctx = ctx\<lparr>cbc_sched := des_key_setup (GET_64BIT_MSB_FIRST key)\<rparr>"

definition des_cbc_setiv :: "byte list \<Rightarrow> des_cbc_ctx \<Rightarrow> des_cbc_ctx" where
  "des_cbc_setiv iv ctx = ctx\<lparr>cbc_iv := des_load_lr iv\<rparr>"

definition des_cbc_encrypt_step :: "des_cbc_ctx \<Rightarrow> byte list \<Rightarrow> des_cbc_ctx \<times> byte list" where
  "des_cbc_encrypt_step ctx data =
     (let plaintext = des_load_lr data;
          cipher_in = des_xor_lr plaintext (cbc_iv ctx);
          ciphertext = des_full_cipher cipher_in (cbc_sched ctx) 0 1 in
      (ctx\<lparr>cbc_iv := ciphertext\<rparr>, des_store_lr ciphertext))"

definition des_cbc_decrypt_step :: "des_cbc_ctx \<Rightarrow> byte list \<Rightarrow> des_cbc_ctx \<times> byte list" where
  "des_cbc_decrypt_step ctx data =
     (let ciphertext = des_load_lr data;
          cipher_out = des_full_cipher ciphertext (cbc_sched ctx) 15 (-1);
          plaintext = des_xor_lr cipher_out (cbc_iv ctx) in
      (ctx\<lparr>cbc_iv := ciphertext\<rparr>, des_store_lr plaintext))"

definition des_cbc_encrypt :: "des_cbc_ctx \<Rightarrow> byte list \<Rightarrow> (des_cbc_ctx \<times> byte list) option" where
  "des_cbc_encrypt = over_blocks des_cbc_encrypt_step"

definition des_cbc_decrypt :: "des_cbc_ctx \<Rightarrow> byte list \<Rightarrow> (des_cbc_ctx \<times> byte list) option" where
  "des_cbc_decrypt = over_blocks des_cbc_decrypt_step"

section \<open>Triple DES: outer CBC\<close>

record des3_cbc1_ctx =
  cbc1_sched :: "des_keysched list"
  cbc1_iv :: LR

definition des3_key_setup :: "byte list \<Rightarrow> des_keysched list" where
  "des3_key_setup key = map (\<lambda>i. des_key_setup (GET_64BIT_MSB_FIRST (drop (8 * i) key))) [0..<3]"

definition des3_cbc1_setkey :: "byte list \<Rightarrow> des3_cbc1_ctx \<Rightarrow> des3_cbc1_ctx" where
  "des3_cbc1_setkey key ctx = ctx\<lparr>cbc1_sched := des3_key_setup key\<rparr>"

definition des3_cbc1_setiv :: "byte list \<Rightarrow> des3_cbc1_ctx \<Rightarrow> des3_cbc1_ctx" where
  "des3_cbc1_setiv iv ctx = ctx\<lparr>cbc1_iv := des_load_lr iv\<rparr>"

definition des3_cbc1_encrypt_step :: "des3_cbc1_ctx \<Rightarrow> byte list \<Rightarrow> des3_cbc1_ctx \<times> byte list" where
  "des3_cbc1_encrypt_step ctx data =
     (let plaintext = des_load_lr data;
          cipher_in = des_xor_lr plaintext (cbc1_iv ctx);
          lr = des_IP cipher_in;
          lr = des_inner_cipher lr (cbc1_sched ctx ! 0) 0 1;
          lr = des_inner_cipher lr (cbc1_sched ctx ! 1) 15 (-1);
          lr = des_inner_cipher lr (cbc1_sched ctx ! 2) 0 1;
          ciphertext = des_FP lr in
      (ctx\<lparr>cbc1_iv := ciphertext\<rparr>, des_store_lr ciphertext))"

definition des3_cbc1_decrypt_step :: "des3_cbc1_ctx \<Rightarrow> byte list \<Rightarrow> des3_cbc1_ctx \<times> byte list" where
  "des3_cbc1_decrypt_step ctx data =
     (let ciphertext = des_load_lr data;
          lr = des_IP ciphertext;
          lr = des_inner_cipher lr (cbc1_sched ctx ! 2) 15 (-1);
          lr = des_inner_cipher lr (cbc1_sched ctx ! 1) 0 1;
          lr = des_inner_cipher lr (cbc1_sched ctx ! 0) 15 (-1);
          cipher_out = des_FP lr;
          plaintext = des_xor_lr cipher_out (cbc1_iv ctx) in
      (ctx\<lparr>cbc1_iv := ciphertext\<rparr>, des_store_lr plaintext))"

definition des3_cbc1_cbc_encrypt :: "des3_cbc1_ctx \<Rightarrow> byte list \<Rightarrow> (des3_cbc1_ctx \<times> byte list) option" where
  "des3_cbc1_cbc_encrypt = over_blocks des3_cbc1_encrypt_step"

definition des3_cbc1_cbc_decrypt :: "des3_cbc1_ctx \<Rightarrow> byte list \<Rightarrow> (des3_cbc1_ctx \<times> byte list) option" where
  "des3_cbc1_cbc_decrypt = over_blocks des3_cbc1_decrypt_step"

section \<open>Triple DES: counter mode\<close>

record des3_sdctr_ctx =
  sdctr_sched :: "des_keysched list"
  sdctr_counter :: qword

definition des3_sdctr_setkey :: "byte list \<Rightarrow> des3_sdctr_ctx \<Rightarrow> des3_sdctr_ctx" where
  "des3_sdctr_setkey key ctx = ctx\<lparr>sdctr_sched := des3_key_setup key\<rparr>"

definition des3_sdctr_setiv :: "byte list \<Rightarrow> des3_sdctr_ctx \<Rightarrow> des3_sdctr_ctx" where
  "des3_sdctr_setiv iv ctx = ctx\<lparr>sdctr_counter := GET_64BIT_MSB_FIRST iv\<rparr>"

definition des3_sdctr_step :: "des3_sdctr_ctx \<Rightarrow> byte list \<Rightarrow> des3_sdctr_ctx \<times> byte list" where
  "des3_sdctr_step ctx data =
     (let iv_buf = PUT_64BIT_MSB_FIRST (sdctr_counter ctx);
          ctx = ctx\<lparr>sdctr_counter := sdctr_counter ctx + 1\<rparr>;
          lr = des_IP (des_load_lr iv_buf);
          lr = des_inner_cipher lr (sdctr_sched ctx ! 0) 0 1;
          lr = des_inner_cipher lr (sdctr_sched ctx ! 1) 15 (-1);
          lr = des_inner_cipher lr (sdctr_sched ctx ! 2) 0 1;
          keystream = des_FP lr;
          output = des_xor_lr (des_load_lr data) keystream in
      (ctx, des_store_lr output))"

definition des3_sdctr_encrypt_decrypt ::
    "des3_sdctr_ctx \<Rightarrow> byte list \<Rightarrow> (des3_sdctr_ctx \<times> byte list) option" where
  "des3_sdctr_encrypt_decrypt = over_blocks des3_sdctr_step"

section \<open>Triple DES: three CBC layers (SSH-1)\<close>

record des3_cbc3_ctx =
  cbc3_sched :: "des_keysched list"
  cbc3_iv :: "LR list"

definition des3_cbc3_setkey :: "byte list \<Rightarrow> des3_cbc3_ctx \<Rightarrow> des3_cbc3_ctx" where
  "des3_cbc3_setkey key ctx = ctx\<lparr>cbc3_sched := des3_key_setup key\<rparr>"

definition des3_cbc3_setiv :: "byte list \<Rightarrow> des3_cbc3_ctx \<Rightarrow> des3_cbc3_ctx" where
  "des3_cbc3_setiv viv ctx = (let iv = des_IP (des_load_lr viv) in ctx\<lparr>cbc3_iv := [iv, iv, iv]\<rparr>)"

definition des3_cbc3_encrypt_step :: "des3_cbc3_ctx \<Rightarrow> byte list \<Rightarrow> des3_cbc3_ctx \<times> byte list" where
  "des3_cbc3_encrypt_step ctx data =
     (let lr = des_IP (des_load_lr data);
          iv = cbc3_iv ctx;
          lr = des_xor_lr lr (iv ! 0);
          lr = des_inner_cipher lr (cbc3_sched ctx ! 0) 0 1;
          iv = iv[0 := lr];
          ciphertext = lr;
          lr = des_inner_cipher ciphertext (cbc3_sched ctx ! 1) 15 (-1);
          lr = des_xor_lr lr (iv ! 1);
          iv = iv[1 := ciphertext];
          lr = des_xor_lr lr (iv ! 2);
          lr = des_inner_cipher lr (cbc3_sched ctx ! 2) 0 1;
          iv = iv[2 := lr] in
      (ctx\<lparr>cbc3_iv := iv\<rparr>, des_store_lr (des_FP lr)))"

definition des3_cbc3_decrypt_step :: "des3_cbc3_ctx \<Rightarrow> byte list \<Rightarrow> des3_cbc3_ctx \<times> byte list" where
  "des3_cbc3_decrypt_step ctx data =
     (let lr = des_IP (des_load_lr data);
          iv = cbc3_iv ctx;
          ciphertext = lr;
          lr = des_inner_cipher ciphertext (cbc3_sched ctx ! 2) 15 (-1);
          lr = des_xor_lr lr (iv ! 2);
          iv = iv[2 := ciphertext];
          lr = des_xor_lr lr (iv ! 1);
          lr = des_inner_cipher lr (cbc3_sched ctx ! 1) 0 1;
          iv = iv[1 := lr];
          ciphertext = lr;
          lr = des_inner_cipher ciphertext (cbc3_sched ctx ! 0) 15 (-1);
          lr = des_xor_lr lr (iv ! 0);
          iv = iv[0 := ciphertext] in
      (ctx\<lparr>cbc3_iv := iv\<rparr>, des_store_lr (des_FP lr)))"

definition des3_cbc3_cbc_encrypt :: "des3_cbc3_ctx \<Rightarrow> byte list \<Rightarrow> (des3_cbc3_ctx \<times> byte list) option" where
  "des3_cbc3_cbc_encrypt = over_blocks des3_cbc3_encrypt_step"

definition des3_cbc3_cbc_decrypt :: "des3_cbc3_ctx \<Rightarrow> byte list \<Rightarrow> (des3_cbc3_ctx \<times> byte list) option" where
  "des3_cbc3_cbc_decrypt = over_blocks des3_cbc3_decrypt_step"

section \<open>The permutations are inverse\<close>

lemma msk_bits:
  assumes "drop_bit (32 - D) (msk :: dword) = 0" and "bit msk n" and "D \<le> 32"
  shows "n + D < 32"
proof (rule ccontr)
  assume "\<not> n + D < 32"
  then have "n = 32 - D + (n + D - 32)" using assms(3) by simp
  then have "bit (drop_bit (32 - D) msk) (n + D - 32)"
    using assms(2) by (simp add: bit_drop_bit_eq)
  then show False by (simp add: assms(1))
qed

lemma bitswap_involution:
  assumes "drop_bit (32 - D) msk = 0" and "D \<le> 32"
  shows "des_bitswap_IP_FP (fst (des_bitswap_IP_FP l r D msk)) (snd (des_bitswap_IP_FP l r D msk)) D msk =
    (l, r)"
proof -
  define diff where "diff = msk AND (drop_bit D r XOR l)"
  have lt: "D + n < 32" if "bit diff n" for n
    using that msk_bits [OF assms(1) _ assms(2), of n] by (simp add: diff_def bit_and_iff add.commute)
  then have "drop_bit D (push_bit D diff) = diff"
    by (intro bit_word_eqI) (auto simp: bit_drop_bit_eq bit_push_bit_iff)
  then have "msk AND (drop_bit D (r XOR push_bit D diff) XOR (l XOR diff)) =
      msk AND ((drop_bit D r XOR diff) XOR (l XOR diff))"
    by (simp add: drop_bit_xor)
  also have "(drop_bit D r XOR diff) XOR (l XOR diff) = drop_bit D r XOR l"
    by (simp add: xor.assoc xor.left_commute xor.commute)
  finally have again: "msk AND (drop_bit D (r XOR push_bit D diff) XOR (l XOR diff)) = diff"
    by (simp add: diff_def)
  have "des_bitswap_IP_FP l r D msk = (l XOR diff, r XOR push_bit D diff)"
    by (simp only: des_bitswap_IP_FP_def Let_def diff_def)
  then show ?thesis
    by (simp only: fst_conv snd_conv) (simp only: des_bitswap_IP_FP_def Let_def again xor.assoc xor_self_eq xor.right_neutral)
qed

lemma bitswap_twice:
  assumes "drop_bit (32 - D) msk = 0" and "D \<le> 32"
  shows "bitswap_LR D msk (bitswap_LR D msk lr) = lr" "bitswap_RL D msk (bitswap_RL D msk lr) = lr"
  using bitswap_involution [OF assms, of "L lr" "R lr"] bitswap_involution [OF assms, of "R lr" "L lr"]
  by (auto simp: bitswap_LR_def bitswap_RL_def split_beta)

lemmas bitswap_pairs [simp] =
  bitswap_twice(2) [of 4 "0x0F0F0F0F", simplified] bitswap_twice(2) [of 16 "0x0000FFFF", simplified]
  bitswap_twice(1) [of 2 "0x33333333", simplified] bitswap_twice(1) [of 8 "0x00FF00FF", simplified]
  bitswap_twice(2) [of 1 "0x55555555", simplified]

lemma rol_ror [simp]: "des_rol (des_ror x 1) 1 = x" "des_ror (des_rol x 1) 1 = x"
proof -
  have rol: "des_rol x 1 = push_bit 1 x OR drop_bit 31 x" for x
    by (simp add: des_rol_def del: One_nat_def push_bit_Suc)
  have ror: "des_ror x 1 = push_bit 31 x OR drop_bit 1 x" for x
    by (simp add: des_ror_def des_rol_def del: One_nat_def drop_bit_Suc)
  have top: "n = 31" if "31 \<le> n" "n < 32" for n :: nat using that by simp
  show "des_rol (des_ror x 1) 1 = x" "des_ror (des_rol x 1) 1 = x"
    unfolding rol ror
    by (rule bit_word_eqI; auto simp: bit_or_iff bit_push_bit_iff bit_drop_bit_eq not_less
        simp del: push_bit_Suc drop_bit_Suc dest: top bit_imp_le_length)+
qed

lemma FP_IP [simp]: "des_FP (des_IP lr) = lr" "des_IP (des_FP lr) = lr"
  by (simp_all add: des_FP_def des_IP_def Let_def)

section \<open>The Feistel network runs backwards\<close>

lemma round_swap: "des_round sched (des_swap_lr (des_round sched lr k)) k = des_swap_lr lr"
  by (cases lr) (simp add: des_round_def des_swap_lr_def xor.assoc)

lemma rounds_reverse:
  "foldl (des_round sched) (des_swap_lr (foldl (des_round sched) lr ks)) (rev ks) = des_swap_lr lr"
proof (induction ks arbitrary: lr rule: rev_induct)
  case (snoc k ks)
  then show ?case by (simp add: round_swap)
qed simp

lemma round_order: "map (\<lambda>i. nat (15 + int i * - 1)) [0..<16] = rev (map (\<lambda>i. nat (0 + int i * 1)) [0..<16])"
  by (simp add: upt_rec)

lemma inner_cipher_inverse [simp]:
  "des_inner_cipher (des_inner_cipher lr sched 0 1) sched 15 (-1) = lr"
  "des_inner_cipher (des_inner_cipher lr sched 15 (-1)) sched 0 1 = lr"
  unfolding des_inner_cipher_def round_order
  using rounds_reverse [of sched lr "map (\<lambda>i. nat (0 + int i * 1)) [0..<16]"]
    rounds_reverse [of sched lr "rev (map (\<lambda>i. nat (0 + int i * 1)) [0..<16])"]
  by (simp_all only: rev_rev_ident swap_swap)

lemma full_cipher_inverse [simp]: "des_full_cipher (des_full_cipher lr sched 0 1) sched 15 (-1) = lr"
  by (simp add: des_full_cipher_def Let_def)

section \<open>The modes\<close>

interpretation des_cbc: block_mode des_cbc_encrypt_step des_cbc_decrypt_step
  by unfold_locales (simp_all add: des_cbc_encrypt_step_def des_cbc_decrypt_step_def Let_def)

interpretation des3_cbc1: block_mode des3_cbc1_encrypt_step des3_cbc1_decrypt_step
  by unfold_locales (simp_all add: des3_cbc1_encrypt_step_def des3_cbc1_decrypt_step_def Let_def)

interpretation des3_sdctr: block_mode des3_sdctr_step des3_sdctr_step
  by unfold_locales (simp_all add: des3_sdctr_step_def Let_def)

lemma cbc3_step_inverse:
  assumes "length b = 8"
  shows "des3_cbc3_decrypt_step c (snd (des3_cbc3_encrypt_step c b)) = (fst (des3_cbc3_encrypt_step c b), b)"
  using assms
  by (simp add: des3_cbc3_encrypt_step_def des3_cbc3_decrypt_step_def Let_def list_update_swap)

interpretation des3_cbc3: block_mode des3_cbc3_encrypt_step des3_cbc3_decrypt_step
  by unfold_locales (simp_all add: cbc3_step_inverse, simp add: des3_cbc3_encrypt_step_def Let_def)

text \<open>
  C38. Decryption inverts encryption in single-DES CBC, for every key schedule, every initial
  vector and every buffer of whole blocks: the ciphertext has the length of the data, decrypting
  it with an equal context returns the data, and both sides end with the same context, so the
  next packet works too.
\<close>

theorem des_cbc_roundtrip:
  assumes "length data mod 8 = 0"
  shows "\<exists>ctx' out. des_cbc_encrypt ctx data = Some (ctx', out) \<and> length out = length data \<and>
    des_cbc_decrypt ctx out = Some (ctx', data)"
  using des_cbc.decrypt_encrypt [OF assms] by (simp add: des_cbc_encrypt_def des_cbc_decrypt_def)

lemma des_cbc_roundtrip_witness:
  "\<exists>ctx' out. des_cbc_encrypt \<lparr>cbc_sched = des_key_setup 5, cbc_iv = LR 1 2\<rparr> [1, 2, 3, 4, 5, 6, 7, 8] =
      Some (ctx', out) \<and> length out = length [1, 2, 3, 4, 5, 6, 7, 8 :: byte] \<and>
    des_cbc_decrypt \<lparr>cbc_sched = des_key_setup 5, cbc_iv = LR 1 2\<rparr> out =
      Some (ctx', [1, 2, 3, 4, 5, 6, 7, 8])"
  by (rule des_cbc_roundtrip) simp

text \<open>
  Decryption inverts encryption in all three triple-DES modes: outer CBC and counter mode
  of SSH-2, and the three CBC layers of SSH-1, whose middle layer runs DES backwards.
\<close>

theorem des3_roundtrip:
  assumes "length data mod 8 = 0"
  shows "(\<exists>c' out. des3_cbc1_cbc_encrypt c1 data = Some (c', out) \<and> length out = length data \<and>
      des3_cbc1_cbc_decrypt c1 out = Some (c', data)) \<and>
    (\<exists>c' out. des3_sdctr_encrypt_decrypt c2 data = Some (c', out) \<and> length out = length data \<and>
      des3_sdctr_encrypt_decrypt c2 out = Some (c', data)) \<and>
    (\<exists>c' out. des3_cbc3_cbc_encrypt c3 data = Some (c', out) \<and> length out = length data \<and>
      des3_cbc3_cbc_decrypt c3 out = Some (c', data))"
  using des3_cbc1.decrypt_encrypt [OF assms, of c1] des3_sdctr.decrypt_encrypt [OF assms, of c2]
    des3_cbc3.decrypt_encrypt [OF assms, of c3]
  by (simp add: des3_cbc1_cbc_encrypt_def des3_cbc1_cbc_decrypt_def des3_sdctr_encrypt_decrypt_def
      des3_cbc3_cbc_encrypt_def des3_cbc3_cbc_decrypt_def)

lemma des3_roundtrip_witness:
  "\<exists>c' out. des3_cbc3_cbc_encrypt (des3_cbc3_setiv [0, 0, 0, 0, 0, 0, 0, 0]
       \<lparr>cbc3_sched = [], cbc3_iv = []\<rparr>) [1, 2, 3, 4, 5, 6, 7, 8] = Some (c', out) \<and>
    length out = length [1, 2, 3, 4, 5, 6, 7, 8 :: byte] \<and>
    des3_cbc3_cbc_decrypt (des3_cbc3_setiv [0, 0, 0, 0, 0, 0, 0, 0]
       \<lparr>cbc3_sched = [], cbc3_iv = []\<rparr>) out = Some (c', [1, 2, 3, 4, 5, 6, 7, 8])"
  using des3_roundtrip [of "[1, 2, 3, 4, 5, 6, 7, 8]"] by simp

end
