(* ===== verification/Blowfish.thy ===== *)
theory Blowfish
  imports BlockModes SHA512
begin

text \<open>
  Blowfish (\<^verbatim>\<open>src/ext/TortoisePlink/sshblowf.c\<close>) with its three modes, and the bcrypt key
  derivation built on it (\<^verbatim>\<open>sshbcrypt.c\<close>). Rounds, key expansion and modes are functions of the
  context record; an assertion on the buffer length that fails is \<open>None\<close>.
\<close>

section \<open>Tables\<close>

definition bf_parray :: "dword list" where
  "bf_parray = [
     0x243F6A88, 0x85A308D3, 0x13198A2E, 0x03707344, 0xA4093822, 0x299F31D0,
     0x082EFA98, 0xEC4E6C89, 0x452821E6, 0x38D01377, 0xBE5466CF, 0x34E90C6C,
     0xC0AC29B7, 0xC97C50DD, 0x3F84D5B5, 0xB5470917, 0x9216D5D9, 0x8979FB1B]"

definition bf_sbox0 :: "dword list" where
  "bf_sbox0 = [
     0xD1310BA6, 0x98DFB5AC, 0x2FFD72DB, 0xD01ADFB7, 0xB8E1AFED, 0x6A267E96,
     0xBA7C9045, 0xF12C7F99, 0x24A19947, 0xB3916CF7, 0x0801F2E2, 0x858EFC16,
     0x636920D8, 0x71574E69, 0xA458FEA3, 0xF4933D7E, 0x0D95748F, 0x728EB658,
     0x718BCD58, 0x82154AEE, 0x7B54A41D, 0xC25A59B5, 0x9C30D539, 0x2AF26013,
     0xC5D1B023, 0x286085F0, 0xCA417918, 0xB8DB38EF, 0x8E79DCB0, 0x603A180E,
     0x6C9E0E8B, 0xB01E8A3E, 0xD71577C1, 0xBD314B27, 0x78AF2FDA, 0x55605C60,
     0xE65525F3, 0xAA55AB94, 0x57489862, 0x63E81440, 0x55CA396A, 0x2AAB10B6,
     0xB4CC5C34, 0x1141E8CE, 0xA15486AF, 0x7C72E993, 0xB3EE1411, 0x636FBC2A,
     0x2BA9C55D, 0x741831F6, 0xCE5C3E16, 0x9B87931E, 0xAFD6BA33, 0x6C24CF5C,
     0x7A325381, 0x28958677, 0x3B8F4898, 0x6B4BB9AF, 0xC4BFE81B, 0x66282193,
     0x61D809CC, 0xFB21A991, 0x487CAC60, 0x5DEC8032, 0xEF845D5D, 0xE98575B1,
     0xDC262302, 0xEB651B88, 0x23893E81, 0xD396ACC5, 0x0F6D6FF3, 0x83F44239,
     0x2E0B4482, 0xA4842004, 0x69C8F04A, 0x9E1F9B5E, 0x21C66842, 0xF6E96C9A,
     0x670C9C61, 0xABD388F0, 0x6A51A0D2, 0xD8542F68, 0x960FA728, 0xAB5133A3,
     0x6EEF0B6C, 0x137A3BE4, 0xBA3BF050, 0x7EFB2A98, 0xA1F1651D, 0x39AF0176,
     0x66CA593E, 0x82430E88, 0x8CEE8619, 0x456F9FB4, 0x7D84A5C3, 0x3B8B5EBE,
     0xE06F75D8, 0x85C12073, 0x401A449F, 0x56C16AA6, 0x4ED3AA62, 0x363F7706,
     0x1BFEDF72, 0x429B023D, 0x37D0D724, 0xD00A1248, 0xDB0FEAD3, 0x49F1C09B,
     0x075372C9, 0x80991B7B, 0x25D479D8, 0xF6E8DEF7, 0xE3FE501A, 0xB6794C3B,
     0x976CE0BD, 0x04C006BA, 0xC1A94FB6, 0x409F60C4, 0x5E5C9EC2, 0x196A2463,
     0x68FB6FAF, 0x3E6C53B5, 0x1339B2EB, 0x3B52EC6F, 0x6DFC511F, 0x9B30952C,
     0xCC814544, 0xAF5EBD09, 0xBEE3D004, 0xDE334AFD, 0x660F2807, 0x192E4BB3,
     0xC0CBA857, 0x45C8740F, 0xD20B5F39, 0xB9D3FBDB, 0x5579C0BD, 0x1A60320A,
     0xD6A100C6, 0x402C7279, 0x679F25FE, 0xFB1FA3CC, 0x8EA5E9F8, 0xDB3222F8,
     0x3C7516DF, 0xFD616B15, 0x2F501EC8, 0xAD0552AB, 0x323DB5FA, 0xFD238760,
     0x53317B48, 0x3E00DF82, 0x9E5C57BB, 0xCA6F8CA0, 0x1A87562E, 0xDF1769DB,
     0xD542A8F6, 0x287EFFC3, 0xAC6732C6, 0x8C4F5573, 0x695B27B0, 0xBBCA58C8,
     0xE1FFA35D, 0xB8F011A0, 0x10FA3D98, 0xFD2183B8, 0x4AFCB56C, 0x2DD1D35B,
     0x9A53E479, 0xB6F84565, 0xD28E49BC, 0x4BFB9790, 0xE1DDF2DA, 0xA4CB7E33,
     0x62FB1341, 0xCEE4C6E8, 0xEF20CADA, 0x36774C01, 0xD07E9EFE, 0x2BF11FB4,
     0x95DBDA4D, 0xAE909198, 0xEAAD8E71, 0x6B93D5A0, 0xD08ED1D0, 0xAFC725E0,
     0x8E3C5B2F, 0x8E7594B7, 0x8FF6E2FB, 0xF2122B64, 0x8888B812, 0x900DF01C,
     0x4FAD5EA0, 0x688FC31C, 0xD1CFF191, 0xB3A8C1AD, 0x2F2F2218, 0xBE0E1777,
     0xEA752DFE, 0x8B021FA1, 0xE5A0CC0F, 0xB56F74E8, 0x18ACF3D6, 0xCE89E299,
     0xB4A84FE0, 0xFD13E0B7, 0x7CC43B81, 0xD2ADA8D9, 0x165FA266, 0x80957705,
     0x93CC7314, 0x211A1477, 0xE6AD2065, 0x77B5FA86, 0xC75442F5, 0xFB9D35CF,
     0xEBCDAF0C, 0x7B3E89A0, 0xD6411BD3, 0xAE1E7E49, 0x00250E2D, 0x2071B35E,
     0x226800BB, 0x57B8E0AF, 0x2464369B, 0xF009B91E, 0x5563911D, 0x59DFA6AA,
     0x78C14389, 0xD95A537F, 0x207D5BA2, 0x02E5B9C5, 0x83260376, 0x6295CFA9,
     0x11C81968, 0x4E734A41, 0xB3472DCA, 0x7B14A94A, 0x1B510052, 0x9A532915,
     0xD60F573F, 0xBC9BC6E4, 0x2B60A476, 0x81E67400, 0x08BA6FB5, 0x571BE91F,
     0xF296EC6B, 0x2A0DD915, 0xB6636521, 0xE7B9F9B6, 0xFF34052E, 0xC5855664,
     0x53B02D5D, 0xA99F8FA1, 0x08BA4799, 0x6E85076A]"

definition bf_sbox1 :: "dword list" where
  "bf_sbox1 = [
     0x4B7A70E9, 0xB5B32944, 0xDB75092E, 0xC4192623, 0xAD6EA6B0, 0x49A7DF7D,
     0x9CEE60B8, 0x8FEDB266, 0xECAA8C71, 0x699A17FF, 0x5664526C, 0xC2B19EE1,
     0x193602A5, 0x75094C29, 0xA0591340, 0xE4183A3E, 0x3F54989A, 0x5B429D65,
     0x6B8FE4D6, 0x99F73FD6, 0xA1D29C07, 0xEFE830F5, 0x4D2D38E6, 0xF0255DC1,
     0x4CDD2086, 0x8470EB26, 0x6382E9C6, 0x021ECC5E, 0x09686B3F, 0x3EBAEFC9,
     0x3C971814, 0x6B6A70A1, 0x687F3584, 0x52A0E286, 0xB79C5305, 0xAA500737,
     0x3E07841C, 0x7FDEAE5C, 0x8E7D44EC, 0x5716F2B8, 0xB03ADA37, 0xF0500C0D,
     0xF01C1F04, 0x0200B3FF, 0xAE0CF51A, 0x3CB574B2, 0x25837A58, 0xDC0921BD,
     0xD19113F9, 0x7CA92FF6, 0x94324773, 0x22F54701, 0x3AE5E581, 0x37C2DADC,
     0xC8B57634, 0x9AF3DDA7, 0xA9446146, 0x0FD0030E, 0xECC8C73E, 0xA4751E41,
     0xE238CD99, 0x3BEA0E2F, 0x3280BBA1, 0x183EB331, 0x4E548B38, 0x4F6DB908,
     0x6F420D03, 0xF60A04BF, 0x2CB81290, 0x24977C79, 0x5679B072, 0xBCAF89AF,
     0xDE9A771F, 0xD9930810, 0xB38BAE12, 0xDCCF3F2E, 0x5512721F, 0x2E6B7124,
     0x501ADDE6, 0x9F84CD87, 0x7A584718, 0x7408DA17, 0xBC9F9ABC, 0xE94B7D8C,
     0xEC7AEC3A, 0xDB851DFA, 0x63094366, 0xC464C3D2, 0xEF1C1847, 0x3215D908,
     0xDD433B37, 0x24C2BA16, 0x12A14D43, 0x2A65C451, 0x50940002, 0x133AE4DD,
     0x71DFF89E, 0x10314E55, 0x81AC77D6, 0x5F11199B, 0x043556F1, 0xD7A3C76B,
     0x3C11183B, 0x5924A509, 0xF28FE6ED, 0x97F1FBFA, 0x9EBABF2C, 0x1E153C6E,
     0x86E34570, 0xEAE96FB1, 0x860E5E0A, 0x5A3E2AB3, 0x771FE71C, 0x4E3D06FA,
     0x2965DCB9, 0x99E71D0F, 0x803E89D6, 0x5266C825, 0x2E4CC978, 0x9C10B36A,
     0xC6150EBA, 0x94E2EA78, 0xA5FC3C53, 0x1E0A2DF4, 0xF2F74EA7, 0x361D2B3D,
     0x1939260F, 0x19C27960, 0x5223A708, 0xF71312B6, 0xEBADFE6E, 0xEAC31F66,
     0xE3BC4595, 0xA67BC883, 0xB17F37D1, 0x018CFF28, 0xC332DDEF, 0xBE6C5AA5,
     0x65582185, 0x68AB9802, 0xEECEA50F, 0xDB2F953B, 0x2AEF7DAD, 0x5B6E2F84,
     0x1521B628, 0x29076170, 0xECDD4775, 0x619F1510, 0x13CCA830, 0xEB61BD96,
     0x0334FE1E, 0xAA0363CF, 0xB5735C90, 0x4C70A239, 0xD59E9E0B, 0xCBAADE14,
     0xEECC86BC, 0x60622CA7, 0x9CAB5CAB, 0xB2F3846E, 0x648B1EAF, 0x19BDF0CA,
     0xA02369B9, 0x655ABB50, 0x40685A32, 0x3C2AB4B3, 0x319EE9D5, 0xC021B8F7,
     0x9B540B19, 0x875FA099, 0x95F7997E, 0x623D7DA8, 0xF837889A, 0x97E32D77,
     0x11ED935F, 0x16681281, 0x0E358829, 0xC7E61FD6, 0x96DEDFA1, 0x7858BA99,
     0x57F584A5, 0x1B227263, 0x9B83C3FF, 0x1AC24696, 0xCDB30AEB, 0x532E3054,
     0x8FD948E4, 0x6DBC3128, 0x58EBF2EF, 0x34C6FFEA, 0xFE28ED61, 0xEE7C3C73,
     0x5D4A14D9, 0xE864B7E3, 0x42105D14, 0x203E13E0, 0x45EEE2B6, 0xA3AAABEA,
     0xDB6C4F15, 0xFACB4FD0, 0xC742F442, 0xEF6ABBB5, 0x654F3B1D, 0x41CD2105,
     0xD81E799E, 0x86854DC7, 0xE44B476A, 0x3D816250, 0xCF62A1F2, 0x5B8D2646,
     0xFC8883A0, 0xC1C7B6A3, 0x7F1524C3, 0x69CB7492, 0x47848A0B, 0x5692B285,
     0x095BBF00, 0xAD19489D, 0x1462B174, 0x23820E00, 0x58428D2A, 0x0C55F5EA,
     0x1DADF43E, 0x233F7061, 0x3372F092, 0x8D937E41, 0xD65FECF1, 0x6C223BDB,
     0x7CDE3759, 0xCBEE7460, 0x4085F2A7, 0xCE77326E, 0xA6078084, 0x19F8509E,
     0xE8EFD855, 0x61D99735, 0xA969A7AA, 0xC50C06C2, 0x5A04ABFC, 0x800BCADC,
     0x9E447A2E, 0xC3453484, 0xFDD56705, 0x0E1E9EC9, 0xDB73DBD3, 0x105588CD,
     0x675FDA79, 0xE3674340, 0xC5C43465, 0x713E38D8, 0x3D28F89E, 0xF16DFF20,
     0x153E21E7, 0x8FB03D4A, 0xE6E39F2B, 0xDB83ADF7]"

definition bf_sbox2 :: "dword list" where
  "bf_sbox2 = [
     0xE93D5A68, 0x948140F7, 0xF64C261C, 0x94692934, 0x411520F7, 0x7602D4F7,
     0xBCF46B2E, 0xD4A20068, 0xD4082471, 0x3320F46A, 0x43B7D4B7, 0x500061AF,
     0x1E39F62E, 0x97244546, 0x14214F74, 0xBF8B8840, 0x4D95FC1D, 0x96B591AF,
     0x70F4DDD3, 0x66A02F45, 0xBFBC09EC, 0x03BD9785, 0x7FAC6DD0, 0x31CB8504,
     0x96EB27B3, 0x55FD3941, 0xDA2547E6, 0xABCA0A9A, 0x28507825, 0x530429F4,
     0x0A2C86DA, 0xE9B66DFB, 0x68DC1462, 0xD7486900, 0x680EC0A4, 0x27A18DEE,
     0x4F3FFEA2, 0xE887AD8C, 0xB58CE006, 0x7AF4D6B6, 0xAACE1E7C, 0xD3375FEC,
     0xCE78A399, 0x406B2A42, 0x20FE9E35, 0xD9F385B9, 0xEE39D7AB, 0x3B124E8B,
     0x1DC9FAF7, 0x4B6D1856, 0x26A36631, 0xEAE397B2, 0x3A6EFA74, 0xDD5B4332,
     0x6841E7F7, 0xCA7820FB, 0xFB0AF54E, 0xD8FEB397, 0x454056AC, 0xBA489527,
     0x55533A3A, 0x20838D87, 0xFE6BA9B7, 0xD096954B, 0x55A867BC, 0xA1159A58,
     0xCCA92963, 0x99E1DB33, 0xA62A4A56, 0x3F3125F9, 0x5EF47E1C, 0x9029317C,
     0xFDF8E802, 0x04272F70, 0x80BB155C, 0x05282CE3, 0x95C11548, 0xE4C66D22,
     0x48C1133F, 0xC70F86DC, 0x07F9C9EE, 0x41041F0F, 0x404779A4, 0x5D886E17,
     0x325F51EB, 0xD59BC0D1, 0xF2BCC18F, 0x41113564, 0x257B7834, 0x602A9C60,
     0xDFF8E8A3, 0x1F636C1B, 0x0E12B4C2, 0x02E1329E, 0xAF664FD1, 0xCAD18115,
     0x6B2395E0, 0x333E92E1, 0x3B240B62, 0xEEBEB922, 0x85B2A20E, 0xE6BA0D99,
     0xDE720C8C, 0x2DA2F728, 0xD0127845, 0x95B794FD, 0x647D0862, 0xE7CCF5F0,
     0x5449A36F, 0x877D48FA, 0xC39DFD27, 0xF33E8D1E, 0x0A476341, 0x992EFF74,
     0x3A6F6EAB, 0xF4F8FD37, 0xA812DC60, 0xA1EBDDF8, 0x991BE14C, 0xDB6E6B0D,
     0xC67B5510, 0x6D672C37, 0x2765D43B, 0xDCD0E804, 0xF1290DC7, 0xCC00FFA3,
     0xB5390F92, 0x690FED0B, 0x667B9FFB, 0xCEDB7D9C, 0xA091CF0B, 0xD9155EA3,
     0xBB132F88, 0x515BAD24, 0x7B9479BF, 0x763BD6EB, 0x37392EB3, 0xCC115979,
     0x8026E297, 0xF42E312D, 0x6842ADA7, 0xC66A2B3B, 0x12754CCC, 0x782EF11C,
     0x6A124237, 0xB79251E7, 0x06A1BBE6, 0x4BFB6350, 0x1A6B1018, 0x11CAEDFA,
     0x3D25BDD8, 0xE2E1C3C9, 0x44421659, 0x0A121386, 0xD90CEC6E, 0xD5ABEA2A,
     0x64AF674E, 0xDA86A85F, 0xBEBFE988, 0x64E4C3FE, 0x9DBC8057, 0xF0F7C086,
     0x60787BF8, 0x6003604D, 0xD1FD8346, 0xF6381FB0, 0x7745AE04, 0xD736FCCC,
     0x83426B33, 0xF01EAB71, 0xB0804187, 0x3C005E5F, 0x77A057BE, 0xBDE8AE24,
     0x55464299, 0xBF582E61, 0x4E58F48F, 0xF2DDFDA2, 0xF474EF38, 0x8789BDC2,
     0x5366F9C3, 0xC8B38E74, 0xB475F255, 0x46FCD9B9, 0x7AEB2661, 0x8B1DDF84,
     0x846A0E79, 0x915F95E2, 0x466E598E, 0x20B45770, 0x8CD55591, 0xC902DE4C,
     0xB90BACE1, 0xBB8205D0, 0x11A86248, 0x7574A99E, 0xB77F19B6, 0xE0A9DC09,
     0x662D09A1, 0xC4324633, 0xE85A1F02, 0x09F0BE8C, 0x4A99A025, 0x1D6EFE10,
     0x1AB93D1D, 0x0BA5A4DF, 0xA186F20F, 0x2868F169, 0xDCB7DA83, 0x573906FE,
     0xA1E2CE9B, 0x4FCD7F52, 0x50115E01, 0xA70683FA, 0xA002B5C4, 0x0DE6D027,
     0x9AF88C27, 0x773F8641, 0xC3604C06, 0x61A806B5, 0xF0177A28, 0xC0F586E0,
     0x006058AA, 0x30DC7D62, 0x11E69ED7, 0x2338EA63, 0x53C2DD94, 0xC2C21634,
     0xBBCBEE56, 0x90BCB6DE, 0xEBFC7DA1, 0xCE591D76, 0x6F05E409, 0x4B7C0188,
     0x39720A3D, 0x7C927C24, 0x86E3725F, 0x724D9DB9, 0x1AC15BB4, 0xD39EB8FC,
     0xED545578, 0x08FCA5B5, 0xD83D7CD3, 0x4DAD0FC4, 0x1E50EF5E, 0xB161E6F8,
     0xA28514D9, 0x6C51133C, 0x6FD5C7E7, 0x56E14EC4, 0x362ABFCE, 0xDDC6C837,
     0xD79A3234, 0x92638212, 0x670EFA8E, 0x406000E0]"

definition bf_sbox3 :: "dword list" where
  "bf_sbox3 = [
     0x3A39CE37, 0xD3FAF5CF, 0xABC27737, 0x5AC52D1B, 0x5CB0679E, 0x4FA33742,
     0xD3822740, 0x99BC9BBE, 0xD5118E9D, 0xBF0F7315, 0xD62D1C7E, 0xC700C47B,
     0xB78C1B6B, 0x21A19045, 0xB26EB1BE, 0x6A366EB4, 0x5748AB2F, 0xBC946E79,
     0xC6A376D2, 0x6549C2C8, 0x530FF8EE, 0x468DDE7D, 0xD5730A1D, 0x4CD04DC6,
     0x2939BBDB, 0xA9BA4650, 0xAC9526E8, 0xBE5EE304, 0xA1FAD5F0, 0x6A2D519A,
     0x63EF8CE2, 0x9A86EE22, 0xC089C2B8, 0x43242EF6, 0xA51E03AA, 0x9CF2D0A4,
     0x83C061BA, 0x9BE96A4D, 0x8FE51550, 0xBA645BD6, 0x2826A2F9, 0xA73A3AE1,
     0x4BA99586, 0xEF5562E9, 0xC72FEFD3, 0xF752F7DA, 0x3F046F69, 0x77FA0A59,
     0x80E4A915, 0x87B08601, 0x9B09E6AD, 0x3B3EE593, 0xE990FD5A, 0x9E34D797,
     0x2CF0B7D9, 0x022B8B51, 0x96D5AC3A, 0x017DA67D, 0xD1CF3ED6, 0x7C7D2D28,
     0x1F9F25CF, 0xADF2B89B, 0x5AD6B472, 0x5A88F54C, 0xE029AC71, 0xE019A5E6,
     0x47B0ACFD, 0xED93FA9B, 0xE8D3C48D, 0x283B57CC, 0xF8D56629, 0x79132E28,
     0x785F0191, 0xED756055, 0xF7960E44, 0xE3D35E8C, 0x15056DD4, 0x88F46DBA,
     0x03A16125, 0x0564F0BD, 0xC3EB9E15, 0x3C9057A2, 0x97271AEC, 0xA93A072A,
     0x1B3F6D9B, 0x1E6321F5, 0xF59C66FB, 0x26DCF319, 0x7533D928, 0xB155FDF5,
     0x03563482, 0x8ABA3CBB, 0x28517711, 0xC20AD9F8, 0xABCC5167, 0xCCAD925F,
     0x4DE81751, 0x3830DC8E, 0x379D5862, 0x9320F991, 0xEA7A90C2, 0xFB3E7BCE,
     0x5121CE64, 0x774FBE32, 0xA8B6E37E, 0xC3293D46, 0x48DE5369, 0x6413E680,
     0xA2AE0810, 0xDD6DB224, 0x69852DFD, 0x09072166, 0xB39A460A, 0x6445C0DD,
     0x586CDECF, 0x1C20C8AE, 0x5BBEF7DD, 0x1B588D40, 0xCCD2017F, 0x6BB4E3BB,
     0xDDA26A7E, 0x3A59FF45, 0x3E350A44, 0xBCB4CDD5, 0x72EACEA8, 0xFA6484BB,
     0x8D6612AE, 0xBF3C6F47, 0xD29BE463, 0x542F5D9E, 0xAEC2771B, 0xF64E6370,
     0x740E0D8D, 0xE75B1357, 0xF8721671, 0xAF537D5D, 0x4040CB08, 0x4EB4E2CC,
     0x34D2466A, 0x0115AF84, 0xE1B00428, 0x95983A1D, 0x06B89FB4, 0xCE6EA048,
     0x6F3F3B82, 0x3520AB82, 0x011A1D4B, 0x277227F8, 0x611560B1, 0xE7933FDC,
     0xBB3A792B, 0x344525BD, 0xA08839E1, 0x51CE794B, 0x2F32C9B7, 0xA01FBAC9,
     0xE01CC87E, 0xBCC7D1F6, 0xCF0111C3, 0xA1E8AAC7, 0x1A908749, 0xD44FBD9A,
     0xD0DADECB, 0xD50ADA38, 0x0339C32A, 0xC6913667, 0x8DF9317C, 0xE0B12B4F,
     0xF79E59B7, 0x43F5BB3A, 0xF2D519FF, 0x27D9459C, 0xBF97222C, 0x15E6FC2A,
     0x0F91FC71, 0x9B941525, 0xFAE59361, 0xCEB69CEB, 0xC2A86459, 0x12BAA8D1,
     0xB6C1075E, 0xE3056A0C, 0x10D25065, 0xCB03A442, 0xE0EC6E0E, 0x1698DB3B,
     0x4C98A0BE, 0x3278E964, 0x9F1F9532, 0xE0D392DF, 0xD3A0342B, 0x8971F21E,
     0x1B0A7441, 0x4BA3348C, 0xC5BE7120, 0xC37632D8, 0xDF359F8D, 0x9B992F2E,
     0xE60B6F47, 0x0FE3F11D, 0xE54CDA54, 0x1EDAD891, 0xCE6279CF, 0xCD3E7E6F,
     0x1618B166, 0xFD2C1D05, 0x848FD2C5, 0xF6FB2299, 0xF523F357, 0xA6327623,
     0x93A83531, 0x56CCCD02, 0xACF08162, 0x5A75EBB5, 0x6E163697, 0x88D273CC,
     0xDE966292, 0x81B949D0, 0x4C50901B, 0x71C65614, 0xE6C6C7BD, 0x327A140A,
     0x45E1D006, 0xC3F27B9A, 0xC9AA53FD, 0x62A80F00, 0xBB25BFE2, 0x35BDD2F6,
     0x71126905, 0xB2040222, 0xB6CBCF7C, 0xCD769C2B, 0x53113EC0, 0x1640E3D3,
     0x38ABBD60, 0x2547ADF0, 0xBA38209C, 0xF746CE76, 0x77AFA1C5, 0x20756060,
     0x85CBFE4E, 0x8AE88DD8, 0x7AAAF9B0, 0x4CF9AA7E, 0x1948C25C, 0x02FB8A8C,
     0x01C36AE4, 0xD6EBE1F9, 0x90D4F869, 0xA65CDEA0, 0x3F09252D, 0xC208E69F,
     0xB74E6132, 0xCE77E25B, 0x578FDFE3, 0x3AC372E6]"

section \<open>The block cipher\<close>

record BlowfishContext =
  bf_S0 :: "dword list"
  bf_S1 :: "dword list"
  bf_S2 :: "dword list"
  bf_S3 :: "dword list"
  bf_P :: "dword list"
  bf_iv0 :: dword
  bf_iv1 :: dword

definition bf_Fprime :: "BlowfishContext \<Rightarrow> dword \<Rightarrow> dword \<Rightarrow> dword \<Rightarrow> dword \<Rightarrow> dword" where
  "bf_Fprime ctx a b c d =
     ((bf_S0 ctx ! unat a + bf_S1 ctx ! unat b) XOR bf_S2 ctx ! unat c) + bf_S3 ctx ! unat d"

definition bf_F :: "BlowfishContext \<Rightarrow> dword \<Rightarrow> dword" where
  "bf_F ctx x =
     bf_Fprime ctx (drop_bit 24 x AND 0xFF) (drop_bit 16 x AND 0xFF) (drop_bit 8 x AND 0xFF) (x AND 0xFF)"

definition bf_ROUND :: "BlowfishContext \<Rightarrow> dword \<times> dword \<Rightarrow> nat \<Rightarrow> dword \<times> dword" where
  "bf_ROUND ctx st n =
     (case st of (xL, xR) \<Rightarrow>
        let xL = xL XOR bf_P ctx ! n; t = xL; xL = bf_F ctx xL XOR xR; xR = t in (xL, xR))"

definition blowfish_encrypt :: "BlowfishContext \<Rightarrow> dword \<Rightarrow> dword \<Rightarrow> dword \<times> dword" where
  "blowfish_encrypt ctx xL xR =
     (case foldl (bf_ROUND ctx) (xL, xR) [0..<16] of
        (xL, xR) \<Rightarrow> let xL = xL XOR bf_P ctx ! 16; xR = xR XOR bf_P ctx ! 17 in (xR, xL))"

definition blowfish_decrypt :: "BlowfishContext \<Rightarrow> dword \<Rightarrow> dword \<Rightarrow> dword \<times> dword" where
  "blowfish_decrypt ctx xL xR =
     (case foldl (bf_ROUND ctx) (xL, xR) (rev [2..<18]) of
        (xL, xR) \<Rightarrow> let xL = xL XOR bf_P ctx ! 1; xR = xR XOR bf_P ctx ! 0 in (xR, xL))"

section \<open>Modes\<close>

definition lsb_encrypt_cbc_step :: "BlowfishContext \<Rightarrow> byte list \<Rightarrow> BlowfishContext \<times> byte list" where
  "lsb_encrypt_cbc_step ctx blk =
     (let xL = GET_32BIT_LSB_FIRST blk; xR = GET_32BIT_LSB_FIRST (drop 4 blk);
          iv0 = bf_iv0 ctx XOR xL; iv1 = bf_iv1 ctx XOR xR in
      case blowfish_encrypt ctx iv0 iv1 of (iv0, iv1) \<Rightarrow>
        (ctx\<lparr>bf_iv0 := iv0, bf_iv1 := iv1\<rparr>, PUT_32BIT_LSB_FIRST iv0 @ PUT_32BIT_LSB_FIRST iv1))"

definition lsb_encrypt_ecb_step :: "BlowfishContext \<Rightarrow> byte list \<Rightarrow> BlowfishContext \<times> byte list" where
  "lsb_encrypt_ecb_step ctx blk =
     (let xL = GET_32BIT_LSB_FIRST blk; xR = GET_32BIT_LSB_FIRST (drop 4 blk) in
      case blowfish_encrypt ctx xL xR of (out0, out1) \<Rightarrow>
        (ctx, PUT_32BIT_LSB_FIRST out0 @ PUT_32BIT_LSB_FIRST out1))"

definition lsb_decrypt_cbc_step :: "BlowfishContext \<Rightarrow> byte list \<Rightarrow> BlowfishContext \<times> byte list" where
  "lsb_decrypt_cbc_step ctx blk =
     (let xL = GET_32BIT_LSB_FIRST blk; xR = GET_32BIT_LSB_FIRST (drop 4 blk) in
      case blowfish_decrypt ctx xL xR of (out0, out1) \<Rightarrow>
        (let iv0 = bf_iv0 ctx XOR out0; iv1 = bf_iv1 ctx XOR out1 in
         (ctx\<lparr>bf_iv0 := xL, bf_iv1 := xR\<rparr>, PUT_32BIT_LSB_FIRST iv0 @ PUT_32BIT_LSB_FIRST iv1)))"

definition msb_encrypt_cbc_step :: "BlowfishContext \<Rightarrow> byte list \<Rightarrow> BlowfishContext \<times> byte list" where
  "msb_encrypt_cbc_step ctx blk =
     (let xL = GET_32BIT_MSB_FIRST blk; xR = GET_32BIT_MSB_FIRST (drop 4 blk);
          iv0 = bf_iv0 ctx XOR xL; iv1 = bf_iv1 ctx XOR xR in
      case blowfish_encrypt ctx iv0 iv1 of (iv0, iv1) \<Rightarrow>
        (ctx\<lparr>bf_iv0 := iv0, bf_iv1 := iv1\<rparr>, PUT_32BIT_MSB_FIRST iv0 @ PUT_32BIT_MSB_FIRST iv1))"

definition msb_decrypt_cbc_step :: "BlowfishContext \<Rightarrow> byte list \<Rightarrow> BlowfishContext \<times> byte list" where
  "msb_decrypt_cbc_step ctx blk =
     (let xL = GET_32BIT_MSB_FIRST blk; xR = GET_32BIT_MSB_FIRST (drop 4 blk) in
      case blowfish_decrypt ctx xL xR of (out0, out1) \<Rightarrow>
        (let iv0 = bf_iv0 ctx XOR out0; iv1 = bf_iv1 ctx XOR out1 in
         (ctx\<lparr>bf_iv0 := xL, bf_iv1 := xR\<rparr>, PUT_32BIT_MSB_FIRST iv0 @ PUT_32BIT_MSB_FIRST iv1)))"

definition msb_sdctr_step :: "BlowfishContext \<Rightarrow> byte list \<Rightarrow> BlowfishContext \<times> byte list" where
  "msb_sdctr_step ctx blk =
     (case blowfish_encrypt ctx (bf_iv0 ctx) (bf_iv1 ctx) of (b0, b1) \<Rightarrow>
        (let out0 = PUT_32BIT_MSB_FIRST (GET_32BIT_MSB_FIRST blk XOR b0);
             out1 = PUT_32BIT_MSB_FIRST (GET_32BIT_MSB_FIRST (drop 4 blk) XOR b1);
             iv1 = bf_iv1 ctx + 1;
             iv0 = (if iv1 = 0 then bf_iv0 ctx + 1 else bf_iv0 ctx) in
         (ctx\<lparr>bf_iv0 := iv0, bf_iv1 := iv1\<rparr>, out0 @ out1)))"

text \<open>\<^verbatim>\<open>assert((len & 7) == 0)\<close>, then the loop.\<close>

definition whole_blocks ::
    "(BlowfishContext \<Rightarrow> byte list \<Rightarrow> BlowfishContext \<times> byte list) \<Rightarrow>
     BlowfishContext \<Rightarrow> byte list \<Rightarrow> (BlowfishContext \<times> byte list) option" where
  "whole_blocks step ctx blk = (if length blk mod 8 = 0 then over_blocks step ctx blk else None)"

definition blowfish_lsb_encrypt_cbc where "blowfish_lsb_encrypt_cbc = whole_blocks lsb_encrypt_cbc_step"
definition blowfish_lsb_encrypt_ecb where "blowfish_lsb_encrypt_ecb = whole_blocks lsb_encrypt_ecb_step"
definition blowfish_lsb_decrypt_cbc where "blowfish_lsb_decrypt_cbc = whole_blocks lsb_decrypt_cbc_step"
definition blowfish_msb_encrypt_cbc where "blowfish_msb_encrypt_cbc = whole_blocks msb_encrypt_cbc_step"
definition blowfish_msb_decrypt_cbc where "blowfish_msb_decrypt_cbc = whole_blocks msb_decrypt_cbc_step"
definition blowfish_msb_sdctr where "blowfish_msb_sdctr = whole_blocks msb_sdctr_step"

section \<open>Key expansion\<close>

definition blowfish_initkey :: "BlowfishContext \<Rightarrow> BlowfishContext" where
  "blowfish_initkey ctx =
     ctx\<lparr>bf_P := bf_parray, bf_S0 := bf_sbox0, bf_S1 := bf_sbox1, bf_S2 := bf_sbox2, bf_S3 := bf_sbox3\<rparr>"

text \<open>The first loop: every word of \<^verbatim>\<open>P\<close> is combined with four key bytes, cyclically.\<close>

definition mix_key :: "byte list \<Rightarrow> dword list \<Rightarrow> dword list" where
  "mix_key key P = map (\<lambda>i.
     P ! i XOR push_bit 24 (ucast (key ! ((i * 4 + 0) mod length key)))
           XOR push_bit 16 (ucast (key ! ((i * 4 + 1) mod length key)))
           XOR push_bit 8 (ucast (key ! ((i * 4 + 2) mod length key)))
           XOR ucast (key ! ((i * 4 + 3) mod length key))) [0..<18]"

text \<open>The inner loop over \<open>j\<close>: eight salt bytes, cyclically, into the two words of \<^verbatim>\<open>str\<close>.\<close>

fun mix_salt :: "byte list \<Rightarrow> nat list \<Rightarrow> (dword \<times> dword) \<times> nat \<Rightarrow> (dword \<times> dword) \<times> nat" where
  "mix_salt salt [] st = st"
| "mix_salt salt (j # js) ((str0, str1), saltpos) =
     (let b = push_bit (24 - 8 * (j mod 4)) (ucast (salt ! (saltpos mod length salt))) in
      mix_salt salt js
        ((if j div 4 = 0 then (str0 XOR b, str1) else (str0, str1 XOR b)), saltpos + 1))"

text \<open>A filling loop: the encrypted \<^verbatim>\<open>str\<close> goes to positions \<open>i\<close> and \<open>i + 1\<close> of one array.\<close>

fun fill_array ::
    "byte list \<Rightarrow> (nat \<Rightarrow> dword \<Rightarrow> BlowfishContext \<Rightarrow> BlowfishContext) \<Rightarrow> nat list \<Rightarrow>
     ((dword \<times> dword) \<times> nat) \<times> BlowfishContext \<Rightarrow> ((dword \<times> dword) \<times> nat) \<times> BlowfishContext" where
  "fill_array salt upd [] st = st"
| "fill_array salt upd (i # is) (str, ctx) =
     (case mix_salt salt [0..<8] str of ((str0, str1), saltpos) \<Rightarrow>
        (let str = blowfish_encrypt ctx str0 str1;
             ctx = upd (i + 1) (snd str) (upd i (fst str) ctx) in
         fill_array salt upd is ((str, saltpos), ctx)))"

definition set_P where "set_P i v ctx = ctx\<lparr>bf_P := (bf_P ctx)[i := v]\<rparr>"
definition set_S0 where "set_S0 i v ctx = ctx\<lparr>bf_S0 := (bf_S0 ctx)[i := v]\<rparr>"
definition set_S1 where "set_S1 i v ctx = ctx\<lparr>bf_S1 := (bf_S1 ctx)[i := v]\<rparr>"
definition set_S2 where "set_S2 i v ctx = ctx\<lparr>bf_S2 := (bf_S2 ctx)[i := v]\<rparr>"
definition set_S3 where "set_S3 i v ctx = ctx\<lparr>bf_S3 := (bf_S3 ctx)[i := v]\<rparr>"

definition evens :: "nat \<Rightarrow> nat list" where
  "evens n = map (\<lambda>i. 2 * i) [0..<n div 2]"

text \<open>A missing salt is the one-byte dummy salt.\<close>

definition blowfish_expandkey :: "byte list \<Rightarrow> byte list option \<Rightarrow> BlowfishContext \<Rightarrow> BlowfishContext" where
  "blowfish_expandkey key salt ctx =
     (let salt = (case salt of None \<Rightarrow> [0] | Some s \<Rightarrow> s);
          ctx = ctx\<lparr>bf_P := mix_key key (bf_P ctx)\<rparr>;
          st = (((0, 0), 0), ctx);
          st = fill_array salt set_P (evens 18) st;
          st = fill_array salt set_S0 (evens 256) st;
          st = fill_array salt set_S1 (evens 256) st;
          st = fill_array salt set_S2 (evens 256) st;
          st = fill_array salt set_S3 (evens 256) st in
      snd st)"

definition blowfish_setkey :: "byte list \<Rightarrow> BlowfishContext \<Rightarrow> BlowfishContext" where
  "blowfish_setkey key ctx = blowfish_expandkey key None (blowfish_initkey ctx)"

definition blowfish_iv_be :: "byte list \<Rightarrow> BlowfishContext \<Rightarrow> BlowfishContext" where
  "blowfish_iv_be iv ctx = ctx\<lparr>bf_iv0 := GET_32BIT_MSB_FIRST iv, bf_iv1 := GET_32BIT_MSB_FIRST (drop 4 iv)\<rparr>"

definition blowfish_iv_le :: "byte list \<Rightarrow> BlowfishContext \<Rightarrow> BlowfishContext" where
  "blowfish_iv_le iv ctx = ctx\<lparr>bf_iv0 := GET_32BIT_LSB_FIRST iv, bf_iv1 := GET_32BIT_LSB_FIRST (drop 4 iv)\<rparr>"

section \<open>Decryption inverts encryption\<close>

lemma rounds_backwards:
  "foldl (bf_ROUND ctx) (xL, xR) [0..<k] = (l, r) \<Longrightarrow>
   foldl (bf_ROUND ctx) (r XOR bf_P ctx ! (k + 1), l XOR bf_P ctx ! k) (rev [2..<k + 2]) =
     (xR XOR bf_P ctx ! 1, xL XOR bf_P ctx ! 0)"
proof (induction k arbitrary: l r)
  case (Suc k)
  obtain l0 r0 where prev: "foldl (bf_ROUND ctx) (xL, xR) [0..<k] = (l0, r0)" by fastforce
  then have "bf_ROUND ctx (l0, r0) k = (l, r)" using Suc.prems by simp
  then have lr: "l = bf_F ctx (l0 XOR bf_P ctx ! k) XOR r0" "r = l0 XOR bf_P ctx ! k"
    by (auto simp: bf_ROUND_def Let_def)
  have "bf_ROUND ctx (r XOR bf_P ctx ! (k + 2), l XOR bf_P ctx ! (k + 1)) (k + 2) =
      (r0 XOR bf_P ctx ! (k + 1), l0 XOR bf_P ctx ! k)"
    by (simp add: bf_ROUND_def lr xor.assoc)
  moreover have "rev [2..<Suc k + 2] = (k + 2) # rev [2..<k + 2]" by simp
  ultimately show ?case using Suc.IH [OF prev] by simp
qed simp

lemma blowfish_decrypt_encrypt [simp]:
  "blowfish_encrypt ctx xL xR = (out0, out1) \<Longrightarrow> blowfish_decrypt ctx out0 out1 = (xL, xR)"
proof -
  assume enc: "blowfish_encrypt ctx xL xR = (out0, out1)"
  obtain l r where lr: "foldl (bf_ROUND ctx) (xL, xR) [0..<16] = (l, r)" by fastforce
  with enc have out: "out0 = r XOR bf_P ctx ! 17" "out1 = l XOR bf_P ctx ! 16"
    by (simp_all add: blowfish_encrypt_def Let_def)
  have "foldl (bf_ROUND ctx) (out0, out1) (rev [2..<18]) = (xR XOR bf_P ctx ! 1, xL XOR bf_P ctx ! 0)"
    using rounds_backwards [OF lr] by (simp add: out del: upt_conv_Cons upt_rec_numeral)
  then show ?thesis
    by (simp add: blowfish_decrypt_def xor.assoc Let_def del: upt_rec_numeral)
qed

lemma put_get_32_LSB:
  assumes "length p = 4"
  shows "PUT_32BIT_LSB_FIRST (GET_32BIT_LSB_FIRST p) = p"
proof -
  from assms obtain a b c d where p: "p = [a, b, c, d]"
    by (auto simp: length_Suc_conv eval_nat_numeral)
  show ?thesis
    using put_get_32 [of "[d, c, b, a]"]
    by (simp add: p PUT_32BIT_LSB_FIRST_def GET_32BIT_LSB_FIRST_def PUT_32BIT_MSB_FIRST_def
        GET_32BIT_MSB_FIRST_def)
qed

lemma get_take_LSB: "GET_32BIT_LSB_FIRST (take 4 p) = GET_32BIT_LSB_FIRST p"
  by (simp add: GET_32BIT_LSB_FIRST_def)

lemma put_get_block:
  assumes "length p = 8"
  shows "PUT_32BIT_LSB_FIRST (GET_32BIT_LSB_FIRST p) @ PUT_32BIT_LSB_FIRST (GET_32BIT_LSB_FIRST (drop 4 p)) = p"
    and "PUT_32BIT_MSB_FIRST (GET_32BIT_MSB_FIRST p) @ PUT_32BIT_MSB_FIRST (GET_32BIT_MSB_FIRST (drop 4 p)) = p"
  using assms put_get_32_LSB [of "take 4 p"] put_get_32_LSB [of "drop 4 p"]
    put_get_32 [of "take 4 p"] put_get_32 [of "drop 4 p"]
  by (simp_all add: get_take get_take_LSB)

lemma get_block [simp]:
  "GET_32BIT_LSB_FIRST (PUT_32BIT_LSB_FIRST v) = v" "GET_32BIT_MSB_FIRST (PUT_32BIT_MSB_FIRST v) = v"
  using get_put_32_LSB [of v "[]"] get_put_32_MSB [of v "[]"] by simp_all

lemmas mode_step_defs =
  lsb_encrypt_cbc_step_def lsb_decrypt_cbc_step_def msb_encrypt_cbc_step_def msb_decrypt_cbc_step_def
  msb_sdctr_step_def

interpretation bf_lsb: block_mode lsb_encrypt_cbc_step lsb_decrypt_cbc_step
  by unfold_locales
     (simp_all add: mode_step_defs Let_def split_beta put_get_block xor.assoc [symmetric])

interpretation bf_msb: block_mode msb_encrypt_cbc_step msb_decrypt_cbc_step
  by unfold_locales
     (simp_all add: mode_step_defs Let_def split_beta put_get_block xor.assoc [symmetric])

interpretation bf_sdctr: block_mode msb_sdctr_step msb_sdctr_step
  by unfold_locales
     (simp_all add: mode_step_defs Let_def split_beta put_get_block xor.assoc)

text \<open>
  C40. Decryption inverts encryption in every Blowfish mode (little-endian CBC of SSH-1,
  big-endian CBC and counter mode of SSH-2), for every context and every buffer of whole blocks,
  and both sides end with equal contexts; a buffer with a partial block is refused.
\<close>

theorem blowfish_roundtrip:
  "(if length buf mod 8 = 0
    then (\<exists>c out. blowfish_lsb_encrypt_cbc ctx buf = Some (c, out) \<and> length out = length buf \<and>
            blowfish_lsb_decrypt_cbc ctx out = Some (c, buf)) \<and>
         (\<exists>c out. blowfish_msb_encrypt_cbc ctx buf = Some (c, out) \<and> length out = length buf \<and>
            blowfish_msb_decrypt_cbc ctx out = Some (c, buf)) \<and>
         (\<exists>c out. blowfish_msb_sdctr ctx buf = Some (c, out) \<and> length out = length buf \<and>
            blowfish_msb_sdctr ctx out = Some (c, buf))
    else blowfish_lsb_encrypt_cbc ctx buf = None \<and> blowfish_msb_encrypt_cbc ctx buf = None \<and>
         blowfish_msb_sdctr ctx buf = None)"
proof -
  note defs = blowfish_lsb_encrypt_cbc_def blowfish_lsb_decrypt_cbc_def blowfish_msb_encrypt_cbc_def
    blowfish_msb_decrypt_cbc_def blowfish_msb_sdctr_def whole_blocks_def
  have "\<exists>c out. whole_blocks e ctx buf = Some (c, out) \<and> length out = length buf \<and>
      whole_blocks d ctx out = Some (c, buf)"
    if "length buf mod 8 = 0" "\<exists>c out. over_blocks e ctx buf = Some (c, out) \<and>
      length out = length buf \<and> over_blocks d ctx out = Some (c, buf)" for e d
  proof -
    from that(2) obtain c out where "over_blocks e ctx buf = Some (c, out)" "length out = length buf"
      "over_blocks d ctx out = Some (c, buf)" by blast
    with that(1) show ?thesis
      by (intro exI [of _ c] exI [of _ out] conjI) (simp_all only: whole_blocks_def if_True simp_thms)
  qed
  note lift = this
  show ?thesis
    using lift [OF _ bf_lsb.decrypt_encrypt] lift [OF _ bf_msb.decrypt_encrypt]
      lift [OF _ bf_sdctr.decrypt_encrypt]
    by (auto simp: defs)
qed

section \<open>bcrypt\<close>

definition bcrypt_setup :: "BlowfishContext \<Rightarrow> byte list \<Rightarrow> byte list \<Rightarrow> BlowfishContext" where
  "bcrypt_setup mem key salt =
     (let ctx = blowfish_expandkey key (Some salt) (blowfish_initkey mem) in
      ((\<lambda>ctx. blowfish_expandkey key None (blowfish_expandkey salt None ctx)) ^^ 64) ctx)"

text \<open>The bytes of \<^verbatim>\<open>"cyxOmorhcitawolBhsiftawSanyDetim"\<close>.\<close>

definition bcrypt_magic :: "byte list" where
  "bcrypt_magic =
    [0x63, 0x79, 0x78, 0x4F, 0x6D, 0x6F, 0x72, 0x68, 0x63, 0x69, 0x74, 0x61, 0x77, 0x6F, 0x6C, 0x42,
     0x68, 0x73, 0x69, 0x66, 0x74, 0x61, 0x77, 0x53, 0x61, 0x6E, 0x79, 0x44, 0x65, 0x74, 0x69, 0x6D]"

fun ecb_rounds :: "nat \<Rightarrow> BlowfishContext \<Rightarrow> byte list \<Rightarrow> byte list option" where
  "ecb_rounds 0 ctx out = Some out"
| "ecb_rounds (Suc n) ctx out =
     Option.bind (blowfish_lsb_encrypt_ecb ctx out) (\<lambda>(ctx, out). ecb_rounds n ctx out)"

definition bcrypt_hash :: "BlowfishContext \<Rightarrow> byte list \<Rightarrow> byte list \<Rightarrow> byte list option" where
  "bcrypt_hash mem key salt = ecb_rounds 64 (bcrypt_setup mem key salt) bcrypt_magic"

definition bcrypt_genblock ::
    "SHA512_State \<Rightarrow> BlowfishContext \<Rightarrow> dword \<Rightarrow> byte list \<Rightarrow> byte list \<Rightarrow> byte list option" where
  "bcrypt_genblock hmem mem counter hashed_passphrase salt =
     Option.bind (BinarySink_put_data SHA512_write (SHA512_Init hmem) salt) (\<lambda>h.
     Option.bind (if counter \<noteq> 0 then BinarySink_put_uint32 SHA512_write h counter else Some h) (\<lambda>h.
     Option.bind (SHA512_Final h) (\<lambda>hashed_salt.
     bcrypt_hash mem hashed_passphrase hashed_salt)))"

text \<open>The loop over the rounds of one residue: the accumulated block.\<close>

fun bcrypt_rounds ::
    "(dword \<Rightarrow> byte list \<Rightarrow> byte list option) \<Rightarrow> nat \<Rightarrow> nat list \<Rightarrow> byte list \<Rightarrow> byte list \<Rightarrow> byte list option" where
  "bcrypt_rounds genblock residue [] thissalt outblock = Some outblock"
| "bcrypt_rounds genblock residue (round # rs) thissalt outblock =
     Option.bind (genblock (if round = 0 then of_nat (residue + 1) else 0) thissalt) (\<lambda>block.
     bcrypt_rounds genblock residue rs block (map2 (XOR) outblock block))"

text \<open>\<^verbatim>\<open>for (i = residue, j = 0; i < outbytes; i += modulus, j++) out[i] = outblock[j]\<close>\<close>

function scatter :: "nat \<Rightarrow> nat \<Rightarrow> nat \<Rightarrow> nat \<Rightarrow> byte list \<Rightarrow> byte list \<Rightarrow> byte list option" where
  "scatter modulus outbytes i j outblock out =
     (if i < outbytes
      then
        (if modulus = 0 then None
         else if j < length outblock \<and> i < length out
         then scatter modulus outbytes (i + modulus) (j + 1) outblock (out[i := outblock ! j])
         else None)
      else Some out)"
  by pat_completeness auto
termination
  by (relation "measure (\<lambda>(modulus, outbytes, i, j, outblock, out). outbytes - i)") auto

declare scatter.simps [simp del]

fun bcrypt_residues ::
    "(nat \<Rightarrow> byte list option) \<Rightarrow> nat \<Rightarrow> nat \<Rightarrow> nat list \<Rightarrow> byte list \<Rightarrow> byte list option" where
  "bcrypt_residues outblock modulus outbytes [] out = Some out"
| "bcrypt_residues outblock modulus outbytes (residue # rs) out =
     Option.bind (outblock residue) (\<lambda>blk.
     Option.bind (scatter modulus outbytes residue 0 blk out) (\<lambda>out.
     bcrypt_residues outblock modulus outbytes rs out))"

text \<open>The block that one residue is written from: the rounds of \<^verbatim>\<open>bcrypt_genblock\<close>, combined.\<close>

definition residue_block ::
    "SHA512_State \<Rightarrow> BlowfishContext \<Rightarrow> byte list \<Rightarrow> byte list \<Rightarrow> nat \<Rightarrow> nat \<Rightarrow> byte list option" where
  "residue_block hmem mem hashed_passphrase salt rounds residue =
     bcrypt_rounds (\<lambda>counter salt. bcrypt_genblock hmem mem counter hashed_passphrase salt)
       residue [0..<rounds] salt (replicate 32 0)"

definition openssh_bcrypt ::
    "SHA512_State \<Rightarrow> BlowfishContext \<Rightarrow> byte list \<Rightarrow> byte list \<Rightarrow> nat \<Rightarrow> byte list \<Rightarrow> byte list option" where
  "openssh_bcrypt hmem mem passphrase salt rounds out =
     Option.bind (SHA512_Simple hmem passphrase) (\<lambda>hashed_passphrase.
     (let modulus = (length out + 31) div 32 in
      bcrypt_residues (residue_block hmem mem hashed_passphrase salt rounds)
        modulus (length out) [0..<modulus] out))"

subsection \<open>The scattered output\<close>

lemma scatter_spec:
  assumes "0 < modulus" and "length out = n" and "residue < modulus" and "n \<le> 32 * modulus"
    and "length blk = 32"
  shows "\<exists>out'. scatter modulus n residue 0 blk out = Some out' \<and> length out' = n \<and>
    (\<forall>k < n. out' ! k = (if k mod modulus = residue then blk ! (k div modulus) else out ! k))"
proof -
  have "\<exists>out'. scatter modulus n (residue + j * modulus) j blk out = Some out' \<and> length out' = n \<and>
    (\<forall>k < n. out' ! k = (if k mod modulus = residue \<and> j \<le> k div modulus then blk ! (k div modulus) else out ! k))"
    if "length out = n" for j out
    using that
  proof (induction "n - (residue + j * modulus)" arbitrary: j out rule: less_induct)
    case less
    let ?i = "residue + j * modulus"
    show ?case
    proof (cases "?i < n")
      case False
      have "\<not> (k mod modulus = residue \<and> j \<le> k div modulus)" if "k < n" for k
      proof
        assume "k mod modulus = residue \<and> j \<le> k div modulus"
        then have "?i \<le> k"
          using mult_le_mono1 [of j "k div modulus" modulus] div_mult_mod_eq [of k modulus] by linarith
        with False that show False by simp
      qed
      moreover have "scatter modulus n ?i j blk out = Some out"
        using False by (subst scatter.simps) simp
      ultimately show ?thesis using less.prems by (intro exI [of _ out]) auto
    next
      case True
      have "j * modulus < 32 * modulus" using True assms(4) by linarith
      then have "j < 32" by simp
      then have step: "scatter modulus n ?i j blk out =
          scatter modulus n (residue + (j + 1) * modulus) (j + 1) blk (out[?i := blk ! j])"
        using True assms(1,5) less.prems by (subst scatter.simps) (simp add: algebra_simps)
      have "n - (residue + (j + 1) * modulus) < n - ?i" using True assms(1) by simp
      from less.hyps [OF this, of "out[?i := blk ! j]"] less.prems obtain out' where
        out': "scatter modulus n (residue + (j + 1) * modulus) (j + 1) blk (out[?i := blk ! j]) = Some out'"
          "length out' = n"
          "\<And>k. k < n \<Longrightarrow> out' ! k = (if k mod modulus = residue \<and> j + 1 \<le> k div modulus
             then blk ! (k div modulus) else out[?i := blk ! j] ! k)" by auto
      have "out' ! k = (if k mod modulus = residue \<and> j \<le> k div modulus then blk ! (k div modulus) else out ! k)"
        if "k < n" for k
      proof (cases "k = ?i")
        case True
        then have "k mod modulus = residue" "k div modulus = j" using assms(1,3) by simp_all
        then show ?thesis using out'(3) [OF that] True less.prems that by simp
      next
        case False
        have "\<not> (k mod modulus = residue \<and> k div modulus = j)"
          using False div_mult_mod_eq [of k modulus] by auto
        then show ?thesis using out'(3) [OF that] False by (auto simp: Suc_le_eq le_less)
      qed
      with out' step show ?thesis by simp
    qed
  qed
  from this [OF assms(2), of 0] show ?thesis by simp
qed

lemma residues_spec:
  assumes "0 < modulus" and "n \<le> 32 * modulus" and "length out = n"
    and "\<And>r. r < modulus \<Longrightarrow> \<exists>b. outblock r = Some b \<and> length b = 32"
    and "distinct rs" and "set rs \<subseteq> {..<modulus}"
  shows "\<exists>out'. bcrypt_residues outblock modulus n rs out = Some out' \<and> length out' = n \<and>
    (\<forall>k < n. out' ! k = (if k mod modulus \<in> set rs then the (outblock (k mod modulus)) ! (k div modulus)
                        else out ! k))"
  using assms(3,5,6)
proof (induction rs arbitrary: out)
  case (Cons r rs)
  then have "r < modulus" by simp
  with assms(4) obtain b where b: "outblock r = Some b" "length b = 32" by blast
  from scatter_spec [OF assms(1) Cons.prems(1) \<open>r < modulus\<close> assms(2) b(2)] obtain out1 where
    out1: "scatter modulus n r 0 b out = Some out1" "length out1 = n"
      "\<And>k. k < n \<Longrightarrow> out1 ! k = (if k mod modulus = r then b ! (k div modulus) else out ! k)" by blast
  from Cons.IH [OF out1(2)] Cons.prems obtain out' where
    out': "bcrypt_residues outblock modulus n rs out1 = Some out'" "length out' = n"
      "\<And>k. k < n \<Longrightarrow> out' ! k = (if k mod modulus \<in> set rs
         then the (outblock (k mod modulus)) ! (k div modulus) else out1 ! k)" by auto
  show ?case
    using b out1 out' Cons.prems(2) by (intro exI [of _ out']) auto
qed simp

lemma length_ecb: "length blk mod 8 = 0 \<Longrightarrow>
  \<exists>c out. blowfish_lsb_encrypt_ecb ctx blk = Some (c, out) \<and> length out = length blk"
  using over_blocks_total [of blk lsb_encrypt_ecb_step ctx]
  by (simp add: blowfish_lsb_encrypt_ecb_def whole_blocks_def lsb_encrypt_ecb_step_def Let_def split_beta)

lemma ecb_rounds_total: "length blk = 32 \<Longrightarrow> \<exists>out. ecb_rounds n ctx blk = Some out \<and> length out = 32"
proof (induction n arbitrary: ctx blk)
  case (Suc n)
  from length_ecb [of blk ctx] Suc.prems obtain c out where
    "blowfish_lsb_encrypt_ecb ctx blk = Some (c, out)" "length out = 32" by auto
  with Suc.IH show ?case by simp
qed simp

lemma bcrypt_rounds_total:
  assumes "\<And>c s. length s < 2 ^ 28 \<Longrightarrow> \<exists>b. genblock c s = Some b \<and> length b = 32"
  shows "length salt < 2 ^ 28 \<Longrightarrow> length acc = 32 \<Longrightarrow>
    \<exists>b. bcrypt_rounds genblock residue rs salt acc = Some b \<and> length b = 32"
proof (induction rs arbitrary: salt acc)
  case (Cons r rs)
  from assms [OF Cons.prems(1)] obtain b where
    b: "genblock (if r = 0 then of_nat (residue + 1) else 0) salt = Some b" "length b = 32" by blast
  with Cons.IH [of b "map2 (XOR) acc b"] Cons.prems show ?case by simp
qed simp

lemma genblock_total:
  assumes "length (s512_block hmem) = 128" and "length salt < 2 ^ 28"
  shows "\<exists>b. bcrypt_genblock hmem mem counter pass salt = Some b \<and> length b = 32"
proof -
  have "sha512_holds SHA512_Core_Init (SHA512_Init hmem) []"
    using SHA512_Init_holds(1) [OF assms(1)] .
  then have "sha512_sink.appends SHA512_Core_Init (SHA512_write (SHA512_Init hmem) salt) ([] @ salt)"
    using assms(2) by (intro sha512_sink.write_appends) auto
  then obtain h where h: "SHA512_write (SHA512_Init hmem) salt = Some h"
      "sha512_holds SHA512_Core_Init h salt" by (auto simp: sha512_sink.appends_def)
  obtain h' m where h': "(if counter \<noteq> 0 then BinarySink_put_uint32 SHA512_write h counter else Some h) = Some h'"
      "sha512_holds SHA512_Core_Init h' m" "length m \<le> length salt + 4"
    using sha512_sink.put_small_appends(4) [OF h(2), of counter] h(2)
    by (cases "counter = 0") (auto simp: sha512_sink.appends_def)
  have "SHA512_Final h' = Some (sha512_digest SHA512_Core_Init m)"
    using h'(2,3) assms(2) by (intro SHA512_Final_holds) auto
  with h(1) h'(1) show ?thesis
    using ecb_rounds_total [of bcrypt_magic 64 "bcrypt_setup mem pass (sha512_digest SHA512_Core_Init m)"]
    by (simp add: bcrypt_genblock_def BinarySink_put_data_def bcrypt_hash_def bcrypt_magic_def)
qed

text \<open>
  The key derivation always returns and never reads past a 32-byte block or writes past the
  output: byte \<open>k\<close> of the key is byte \<open>k div modulus\<close> of the block of residue \<open>k mod modulus\<close>, so
  every output byte is written exactly once, whatever the buffer held before.
\<close>

theorem openssh_bcrypt_scatters:
  assumes "length (s512_block hmem) = 128" and "length passphrase < 2 ^ 28" and "length salt < 2 ^ 28"
    and "out \<noteq> []" and "modulus = (length out + 31) div 32"
  shows "\<exists>block.
    (\<forall>r. residue_block hmem mem (sha512_digest SHA512_Core_Init passphrase) salt rounds r = Some (block r) \<and>
         length (block r) = 32) \<and>
    openssh_bcrypt hmem mem passphrase salt rounds out =
      Some (map (\<lambda>k. block (k mod modulus) ! (k div modulus)) [0..<length out]) \<and>
    (\<forall>k < length out. k div modulus < 32)"
proof -
  define hp where "hp = sha512_digest SHA512_Core_Init passphrase"
  have m: "0 < modulus" "length out \<le> 32 * modulus"
    using assms(4,5) by (simp_all add: div_greater_zero_iff Suc_le_eq)
  have hp: "SHA512_Simple hmem passphrase = Some hp"
    using sha512.chunked_digest [OF SHA512_Init_holds(1) [OF assms(1)], of "[passphrase]"] assms(2)
    by (auto simp: SHA512_Simple_def BinarySink_put_data_def hp_def)
  define ob where "ob = residue_block hmem mem hp salt rounds"
  have ob: "\<exists>b. ob r = Some b \<and> length b = 32" for r
    unfolding ob_def residue_block_def
    by (rule bcrypt_rounds_total) (use genblock_total [OF assms(1)] assms(3) in auto)
  then obtain block where block: "\<forall>r. ob r = Some (block r) \<and> length (block r) = 32" by metis
  have "set [0..<modulus] \<subseteq> {..<modulus}" by auto
  from residues_spec [where outblock = ob, OF m refl ob distinct_upt this] obtain res where
    res: "bcrypt_residues ob modulus (length out) [0..<modulus] out = Some res" "length res = length out"
      "\<And>k. k < length out \<Longrightarrow> res ! k = (if k mod modulus \<in> set [0..<modulus]
         then the (ob (k mod modulus)) ! (k div modulus) else out ! k)" by blast
  have "res = map (\<lambda>k. block (k mod modulus) ! (k div modulus)) [0..<length out]"
    by (rule nth_equalityI) (use res(2,3) m(1) block in simp_all)
  moreover have "openssh_bcrypt hmem mem passphrase salt rounds out = Some res"
    using hp res(1) by (simp add: openssh_bcrypt_def Let_def ob_def flip: assms(5))
  moreover have "k div modulus < 32" if "k < length out" for k
    using that m by (simp add: div_less_iff_less_mult)
  ultimately show ?thesis using block by (auto simp: ob_def hp_def)
qed

lemma openssh_bcrypt_scatters_witness:
  "\<exists>block.
    (\<forall>r. residue_block sha512_sample
           \<lparr>bf_S0 = [], bf_S1 = [], bf_S2 = [], bf_S3 = [], bf_P = [], bf_iv0 = 0, bf_iv1 = 0\<rparr>
           (sha512_digest SHA512_Core_Init [1, 2]) [3] 2 r = Some (block r) \<and> length (block r) = 32) \<and>
    openssh_bcrypt sha512_sample
        \<lparr>bf_S0 = [], bf_S1 = [], bf_S2 = [], bf_S3 = [], bf_P = [], bf_iv0 = 0, bf_iv1 = 0\<rparr>
        [1, 2] [3] 2 (replicate 48 0) =
      Some (map (\<lambda>k. block (k mod 2) ! (k div 2)) [0..<length (replicate 48 (0 :: byte))]) \<and>
    (\<forall>k < length (replicate 48 (0 :: byte)). k div 2 < 32)"
  by (rule openssh_bcrypt_scatters) (simp_all add: sha512_sample_def)

end
