(* ===== verification/Arcfour.thy ===== *)
theory Arcfour
  imports PlinkBytes "HOL-Library.Multiset"
begin

text \<open>
  The Arcfour stream cipher (\<^verbatim>\<open>src/ext/TortoisePlink/ssharcf.c\<close>). The indices are bytes, so the
  reductions by \<^verbatim>\<open>& 0xff\<close> are the wrap-around of byte addition.
\<close>

record ArcfourContext =
  ac_i :: byte
  ac_j :: byte
  ac_s :: "byte list"

definition swap_at :: "nat \<Rightarrow> nat \<Rightarrow> byte list \<Rightarrow> byte list" where
  "swap_at a b s = (let tmp = s ! a; s' = s[a := s ! b] in s'[b := tmp])"

text \<open>One turn of the loop: the new context and the byte of key stream.\<close>

definition arcfour_next :: "ArcfourContext \<Rightarrow> ArcfourContext \<times> byte" where
  "arcfour_next ctx =
     (let i = ac_i ctx + 1;
          j = ac_j ctx + ac_s ctx ! unat i;
          s = swap_at (unat i) (unat j) (ac_s ctx) in
      (\<lparr>ac_i = i, ac_j = j, ac_s = s\<rparr>, s ! unat (s ! unat i + s ! unat j)))"

fun arcfour_block :: "ArcfourContext \<Rightarrow> byte list \<Rightarrow> ArcfourContext \<times> byte list" where
  "arcfour_block ctx [] = (ctx, [])"
| "arcfour_block ctx (b # blk) =
     (case arcfour_next ctx of (ctx, k) \<Rightarrow>
        (case arcfour_block ctx blk of (ctx, out) \<Rightarrow> (ctx, (b XOR k) # out)))"

text \<open>The key mixing loop of \<^verbatim>\<open>arcfour_setkey\<close>, on the pair of \<open>j\<close> and the state.\<close>

definition setkey_step :: "byte list \<Rightarrow> byte \<times> byte list \<Rightarrow> nat \<Rightarrow> byte \<times> byte list" where
  "setkey_step k st i =
     (case st of (j, s) \<Rightarrow> let j = j + s ! i + k ! i in (j, swap_at i (unat j) s))"

definition arcfour_setkey :: "byte list \<Rightarrow> ArcfourContext option" where
  "arcfour_setkey key =
     (if length key \<le> 256
      then
        (let s = map of_nat [0..<256];
             k = map (\<lambda>i. key ! (i mod length key)) [0..<256] in
         Some \<lparr>ac_i = 0, ac_j = 0, ac_s = snd (foldl (setkey_step k) (0, s) [0..<256])\<rparr>)
      else None)"

definition arcfour_stir :: "ArcfourContext \<Rightarrow> ArcfourContext" where
  "arcfour_stir ctx = fst (arcfour_block ctx (replicate 1536 0))"

definition arcfour_ssh2_setkey :: "byte list \<Rightarrow> ArcfourContext option" where
  "arcfour_ssh2_setkey key = map_option arcfour_stir (arcfour_setkey key)"

section \<open>The state stays a permutation of the bytes\<close>

definition arcfour_ok :: "ArcfourContext \<Rightarrow> bool" where
  "arcfour_ok ctx \<longleftrightarrow> length (ac_s ctx) = 256 \<and> mset (ac_s ctx) = mset (map of_nat [0..<256])"

lemma swap_at_mset:
  "a < length s \<Longrightarrow> b < length s \<Longrightarrow> mset (swap_at a b s) = mset s"
  by (simp add: swap_at_def Let_def mset_swap)

lemma swap_at_length [simp]: "length (swap_at a b s) = length s"
  by (simp add: swap_at_def Let_def)

lemma arcfour_next_ok: "arcfour_ok ctx \<Longrightarrow> arcfour_ok (fst (arcfour_next ctx))"
  by (simp add: arcfour_ok_def arcfour_next_def Let_def swap_at_mset)

lemma arcfour_block_ok: "arcfour_ok ctx \<Longrightarrow> arcfour_ok (fst (arcfour_block ctx blk))"
  using arcfour_next_ok by (induction blk arbitrary: ctx) (auto simp: split_beta)

lemma setkey_steps_ok:
  assumes "list_all (\<lambda>i. i < 256) is" and "length s = 256"
  shows "length (snd (foldl (setkey_step k) (j, s) is)) = 256 \<and>
    mset (snd (foldl (setkey_step k) (j, s) is)) = mset s"
  using assms
proof (induction "is" arbitrary: j s)
  case (Cons i "is")
  have "setkey_step k (j, s) i = (j + s ! i + k ! i, swap_at i (unat (j + s ! i + k ! i)) s)"
    by (simp add: setkey_step_def Let_def)
  with Cons show ?case by (simp add: swap_at_mset)
qed simp

text \<open>
  Every context the SSH key setup can produce, and every context after any amount of data,
  holds a permutation of the 256 bytes, so no table access is ever out of bounds; keys longer
  than the table are refused by the assertion.
\<close>

theorem arcfour_state_permutation:
  "(case arcfour_ssh2_setkey key of
      None \<Rightarrow> 256 < length key
    | Some ctx \<Rightarrow> arcfour_ok ctx \<and> arcfour_ok (fst (arcfour_block ctx blk)))"
proof -
  have "arcfour_ok ctx" if "arcfour_setkey key = Some ctx" for ctx
    using that setkey_steps_ok [of "[0..<256]" "map of_nat [0..<256]"]
    by (auto simp: arcfour_setkey_def arcfour_ok_def Let_def list_all_iff split: if_splits)
  then show ?thesis
    by (auto simp: arcfour_ssh2_setkey_def arcfour_stir_def arcfour_block_ok arcfour_setkey_def
        Let_def split: option.split)
qed

section \<open>Decryption is encryption\<close>

lemma arcfour_block_append:
  "arcfour_block ctx (a @ b) =
     (case arcfour_block ctx a of (c, x) \<Rightarrow> case arcfour_block c b of (c', y) \<Rightarrow> (c', x @ y))"
  by (induction a arbitrary: ctx) (simp_all add: split_beta)

text \<open>
  Arcfour decrypts what it encrypted, both ends stay in step, and the split of the data into
  packets does not matter.
\<close>

theorem arcfour_roundtrip:
  "arcfour_block ctx (snd (arcfour_block ctx (a @ b))) = (fst (arcfour_block ctx (a @ b)), a @ b) \<and>
   snd (arcfour_block ctx (a @ b)) =
     snd (arcfour_block ctx a) @ snd (arcfour_block (fst (arcfour_block ctx a)) b)"
proof -
  have "arcfour_block ctx (snd (arcfour_block ctx d)) = (fst (arcfour_block ctx d), d)" for ctx d
    by (induction d arbitrary: ctx) (simp_all add: split_beta xor.assoc)
  from this [of ctx "a @ b"] show ?thesis by (simp add: arcfour_block_append split_beta)
qed

end
