(* ===== verification/Telnet.thy ===== *)
theory Telnet
  imports TSVN_Prelude
begin

text \<open>
  The Telnet back end (\<^verbatim>\<open>src/ext/TortoisePlink/telnet.c\<close>): the state machine that splits the
  incoming bytes into data and commands, the option negotiation, the subnegotiations, and what
  is sent. The calls to the socket and to the seat are recorded in order in \<open>events\<close>; what the
  environment answers to the calls that return a backlog is given by two functions of the state,
  indexed by the number of calls made before. Calls that only log are not recorded.
\<close>

section \<open>Protocol constants\<close>

abbreviation IAC :: byte where "IAC \<equiv> 255"
abbreviation DONT :: byte where "DONT \<equiv> 254"
abbreviation DO :: byte where "DO \<equiv> 253"
abbreviation WONT :: byte where "WONT \<equiv> 252"
abbreviation WILL :: byte where "WILL \<equiv> 251"
abbreviation SB :: byte where "SB \<equiv> 250"
abbreviation GA :: byte where "GA \<equiv> 249"
abbreviation EL :: byte where "EL \<equiv> 248"
abbreviation EC :: byte where "EC \<equiv> 247"
abbreviation AYT :: byte where "AYT \<equiv> 246"
abbreviation AO :: byte where "AO \<equiv> 245"
abbreviation IP :: byte where "IP \<equiv> 244"
abbreviation BREAK :: byte where "BREAK \<equiv> 243"
abbreviation DM :: byte where "DM \<equiv> 242"
abbreviation NOP :: byte where "NOP \<equiv> 241"
abbreviation SE :: byte where "SE \<equiv> 240"
abbreviation EOR :: byte where "EOR \<equiv> 239"
abbreviation ABORT :: byte where "ABORT \<equiv> 238"
abbreviation SUSP :: byte where "SUSP \<equiv> 237"
abbreviation xEOF :: byte where "xEOF \<equiv> 236"

abbreviation TELOPT_BINARY :: byte where "TELOPT_BINARY \<equiv> 0"
abbreviation TELOPT_ECHO :: byte where "TELOPT_ECHO \<equiv> 1"
abbreviation TELOPT_SGA :: byte where "TELOPT_SGA \<equiv> 3"
abbreviation TELOPT_TTYPE :: byte where "TELOPT_TTYPE \<equiv> 24"
abbreviation TELOPT_NAWS :: byte where "TELOPT_NAWS \<equiv> 31"
abbreviation TELOPT_TSPEED :: byte where "TELOPT_TSPEED \<equiv> 32"
abbreviation TELOPT_OLD_ENVIRON :: byte where "TELOPT_OLD_ENVIRON \<equiv> 36"
abbreviation TELOPT_NEW_ENVIRON :: byte where "TELOPT_NEW_ENVIRON \<equiv> 39"

abbreviation TELQUAL_IS :: byte where "TELQUAL_IS \<equiv> 0"
abbreviation TELQUAL_SEND :: byte where "TELQUAL_SEND \<equiv> 1"
abbreviation BSD_VAR :: byte where "BSD_VAR \<equiv> 1"
abbreviation BSD_VALUE :: byte where "BSD_VALUE \<equiv> 0"
abbreviation RFC_VAR :: byte where "RFC_VAR \<equiv> 0"
abbreviation RFC_VALUE :: byte where "RFC_VALUE \<equiv> 1"

abbreviation CR :: byte where "CR \<equiv> 13"
abbreviation LF :: byte where "LF \<equiv> 10"
abbreviation NUL :: byte where "NUL \<equiv> 0"

section \<open>State\<close>

datatype opt_state = REQUESTED | ACTIVE | INACTIVE | REALLY_INACTIVE

datatype optindex =
  OPTINDEX_NAWS | OPTINDEX_TSPEED | OPTINDEX_TTYPE | OPTINDEX_OENV | OPTINDEX_NENV | OPTINDEX_ECHO
| OPTINDEX_WE_SGA | OPTINDEX_THEY_SGA | OPTINDEX_WE_BIN | OPTINDEX_THEY_BIN

record Opt =
  o_send :: byte
  o_nsend :: byte
  o_ack :: byte
  o_nak :: byte
  o_option :: byte
  o_index :: optindex
  o_initial :: opt_state

definition o_naws :: Opt where
  "o_naws = \<lparr>o_send = WILL, o_nsend = WONT, o_ack = DO, o_nak = DONT,
     o_option = TELOPT_NAWS, o_index = OPTINDEX_NAWS, o_initial = REQUESTED\<rparr>"
definition o_tspeed :: Opt where
  "o_tspeed = \<lparr>o_send = WILL, o_nsend = WONT, o_ack = DO, o_nak = DONT,
     o_option = TELOPT_TSPEED, o_index = OPTINDEX_TSPEED, o_initial = REQUESTED\<rparr>"
definition o_ttype :: Opt where
  "o_ttype = \<lparr>o_send = WILL, o_nsend = WONT, o_ack = DO, o_nak = DONT,
     o_option = TELOPT_TTYPE, o_index = OPTINDEX_TTYPE, o_initial = REQUESTED\<rparr>"
definition o_oenv :: Opt where
  "o_oenv = \<lparr>o_send = WILL, o_nsend = WONT, o_ack = DO, o_nak = DONT,
     o_option = TELOPT_OLD_ENVIRON, o_index = OPTINDEX_OENV, o_initial = INACTIVE\<rparr>"
definition o_nenv :: Opt where
  "o_nenv = \<lparr>o_send = WILL, o_nsend = WONT, o_ack = DO, o_nak = DONT,
     o_option = TELOPT_NEW_ENVIRON, o_index = OPTINDEX_NENV, o_initial = REQUESTED\<rparr>"
definition o_echo :: Opt where
  "o_echo = \<lparr>o_send = DO, o_nsend = DONT, o_ack = WILL, o_nak = WONT,
     o_option = TELOPT_ECHO, o_index = OPTINDEX_ECHO, o_initial = REQUESTED\<rparr>"
definition o_we_sga :: Opt where
  "o_we_sga = \<lparr>o_send = WILL, o_nsend = WONT, o_ack = DO, o_nak = DONT,
     o_option = TELOPT_SGA, o_index = OPTINDEX_WE_SGA, o_initial = REQUESTED\<rparr>"
definition o_they_sga :: Opt where
  "o_they_sga = \<lparr>o_send = DO, o_nsend = DONT, o_ack = WILL, o_nak = WONT,
     o_option = TELOPT_SGA, o_index = OPTINDEX_THEY_SGA, o_initial = REQUESTED\<rparr>"
definition o_we_bin :: Opt where
  "o_we_bin = \<lparr>o_send = WILL, o_nsend = WONT, o_ack = DO, o_nak = DONT,
     o_option = TELOPT_BINARY, o_index = OPTINDEX_WE_BIN, o_initial = INACTIVE\<rparr>"
definition o_they_bin :: Opt where
  "o_they_bin = \<lparr>o_send = DO, o_nsend = DONT, o_ack = WILL, o_nak = WONT,
     o_option = TELOPT_BINARY, o_index = OPTINDEX_THEY_BIN, o_initial = INACTIVE\<rparr>"

definition opts :: "Opt list" where
  "opts = [o_naws, o_tspeed, o_ttype, o_oenv, o_nenv, o_echo, o_we_sga, o_they_sga, o_we_bin, o_they_bin]"

datatype tn_state =
  TOP_LEVEL | SEENIAC | SEENWILL | SEENWONT | SEENDO | SEENDONT | SEENSB | SUBNEGOT | SUBNEG_IAC | SEENCR

datatype tn_event =
  Sk_Write "byte list" | Sk_Write_OOB "byte list" | Seat_Stdout "byte list" | Sk_Set_Frozen bool
| Ldisc_Update | Sk_Close | Seat_Notify_Exit | Seat_Fatal | Pinger_Reconfig

text \<open>What the back end reads of the configuration; strings are C strings without their terminator.\<close>

record telnet_conf =
  CONF_termspeed :: "byte list"
  CONF_termtype :: "byte list"
  CONF_rfc_environ :: bool
  CONF_environmt :: "(byte list \<times> byte list) list"
  CONF_passive_telnet :: bool
  CONF_width :: dword
  CONF_height :: dword
  remote_username :: "byte list option"

record Telnet =
  tn_socket :: bool
  closed_on_socket_error :: bool
  ldisc :: bool
  term_width :: dword
  term_height :: dword
  opt_states :: "optindex \<Rightarrow> opt_state"
  echoing :: bool
  editing :: bool
  activated :: bool
  bufsize :: nat
  in_synch :: bool
  sb_opt :: byte
  sb_buf :: "byte list"
  session_started :: bool
  tn_state :: tn_state
  tn_conf :: telnet_conf
  events :: "tn_event list"
  sk_backlog :: "nat \<Rightarrow> nat"
  seat_backlog :: "nat \<Rightarrow> nat"

section \<open>Calls to the environment\<close>

definition TELNET_MAX_BACKLOG :: nat where "TELNET_MAX_BACKLOG = 4096"

definition tn_emit :: "tn_event \<Rightarrow> Telnet \<Rightarrow> Telnet" where
  "tn_emit e t = t\<lparr>events := events t @ [e]\<rparr>"

definition sk_write :: "byte list \<Rightarrow> Telnet \<Rightarrow> Telnet" where
  "sk_write b t = (tn_emit (Sk_Write b) t)\<lparr>bufsize := sk_backlog t (length (events t))\<rparr>"

definition sk_write_oob :: "byte list \<Rightarrow> Telnet \<Rightarrow> Telnet" where
  "sk_write_oob b t = (tn_emit (Sk_Write_OOB b) t)\<lparr>bufsize := sk_backlog t (length (events t))\<rparr>"

definition c_write :: "byte list \<Rightarrow> Telnet \<Rightarrow> Telnet" where
  "c_write b t =
     (let backlog = seat_backlog t (length (events t)) in
      tn_emit (Sk_Set_Frozen (backlog > TELNET_MAX_BACKLOG)) (tn_emit (Seat_Stdout b) t))"

definition set_opt :: "optindex \<Rightarrow> opt_state \<Rightarrow> Telnet \<Rightarrow> Telnet" where
  "set_opt i s t = t\<lparr>opt_states := (opt_states t)(i := s)\<rparr>"

section \<open>Option negotiation\<close>

definition send_opt :: "byte \<Rightarrow> byte \<Rightarrow> Telnet \<Rightarrow> Telnet" where
  "send_opt cmd option t = sk_write [IAC, cmd, option] t"

definition deactivate_option :: "Opt \<Rightarrow> Telnet \<Rightarrow> Telnet" where
  "deactivate_option opt t =
     set_opt (o_index opt) REALLY_INACTIVE
       (if opt_states t (o_index opt) = REQUESTED \<or> opt_states t (o_index opt) = ACTIVE
        then send_opt (o_nsend opt) (o_option opt) t else t)"

text \<open>One of the three tests that make sure of the minimum options.\<close>

definition request_if_inactive :: "Opt \<Rightarrow> Telnet \<Rightarrow> Telnet" where
  "request_if_inactive opt t =
     (if opt_states t (o_index opt) = INACTIVE
      then send_opt (o_send opt) (o_option opt) (set_opt (o_index opt) REQUESTED t) else t)"

definition ensure_minimum_options :: "Telnet \<Rightarrow> Telnet" where
  "ensure_minimum_options t =
     (if \<not> activated t
      then (request_if_inactive o_they_sga (request_if_inactive o_we_sga (request_if_inactive o_echo t)))
             \<lparr>activated := True\<rparr>
      else t)"

definition set_echo_edit :: "Opt \<Rightarrow> bool \<Rightarrow> Telnet \<Rightarrow> Telnet" where
  "set_echo_edit opt enabled t =
     (if o_option opt = TELOPT_ECHO \<and> o_send opt = DO then t\<lparr>echoing := \<not> enabled\<rparr>
      else if o_option opt = TELOPT_SGA \<and> o_send opt = DO then t\<lparr>editing := \<not> enabled\<rparr>
      else t)"

definition ldisc_echoedit_update :: "Telnet \<Rightarrow> Telnet" where
  "ldisc_echoedit_update t = (if ldisc t then tn_emit Ldisc_Update t else t)"

definition option_side_effects :: "Opt \<Rightarrow> bool \<Rightarrow> Telnet \<Rightarrow> Telnet" where
  "option_side_effects opt enabled t =
     ensure_minimum_options (ldisc_echoedit_update (set_echo_edit opt enabled t))"

text \<open>A byte of the window size; an \<^verbatim>\<open>IAC\<close> byte is doubled.\<close>

definition naws_byte :: "dword \<Rightarrow> byte list" where
  "naws_byte w = (if (ucast w :: byte) = IAC then [IAC, IAC] else [ucast w])"

definition naws_message :: "dword \<Rightarrow> dword \<Rightarrow> byte list" where
  "naws_message width height =
     [IAC, SB, TELOPT_NAWS]
     @ naws_byte (drop_bit 8 width) @ naws_byte (width AND 0xFF)
     @ naws_byte (drop_bit 8 height) @ naws_byte (height AND 0xFF)
     @ [IAC, SE]"

definition telnet_size :: "dword \<Rightarrow> dword \<Rightarrow> Telnet \<Rightarrow> Telnet" where
  "telnet_size width height t =
     (let t = t\<lparr>term_width := width, term_height := height\<rparr> in
      if \<not> tn_socket t \<or> opt_states t (o_index o_naws) \<noteq> ACTIVE then t
      else sk_write (naws_message (term_width t) (term_height t)) t)"

definition activate_option :: "Opt \<Rightarrow> Telnet \<Rightarrow> Telnet" where
  "activate_option opt t =
     (let t = (if o_send opt = WILL \<and> o_option opt = TELOPT_NAWS
               then telnet_size (term_width t) (term_height t) t else t);
          t = (if o_send opt = WILL \<and> (o_option opt = TELOPT_NEW_ENVIRON \<or> o_option opt = TELOPT_OLD_ENVIRON)
               then deactivate_option (if o_option opt = TELOPT_NEW_ENVIRON then o_oenv else o_nenv) t
               else t) in
      option_side_effects opt True t)"

definition refused_option :: "Opt \<Rightarrow> Telnet \<Rightarrow> Telnet" where
  "refused_option opt t =
     (let t = (if o_send opt = WILL \<and> o_option opt = TELOPT_NEW_ENVIRON \<and>
                  opt_states t (o_index o_oenv) = INACTIVE
               then set_opt (o_index o_oenv) REQUESTED (send_opt WILL TELOPT_OLD_ENVIRON t) else t) in
      option_side_effects opt False t)"

text \<open>The two \<^verbatim>\<open>switch\<close> statements, for the option that the loop found.\<close>

definition opt_acked :: "Opt \<Rightarrow> byte \<Rightarrow> Telnet \<Rightarrow> Telnet" where
  "opt_acked opt option t =
     (case opt_states t (o_index opt) of
        REQUESTED \<Rightarrow> activate_option opt (set_opt (o_index opt) ACTIVE t)
      | ACTIVE \<Rightarrow> t
      | INACTIVE \<Rightarrow> activate_option opt (send_opt (o_send opt) option (set_opt (o_index opt) ACTIVE t))
      | REALLY_INACTIVE \<Rightarrow> send_opt (o_nsend opt) option t)"

definition opt_naked :: "Opt \<Rightarrow> byte \<Rightarrow> Telnet \<Rightarrow> Telnet" where
  "opt_naked opt option t =
     (case opt_states t (o_index opt) of
        REQUESTED \<Rightarrow> refused_option opt (set_opt (o_index opt) INACTIVE t)
      | ACTIVE \<Rightarrow>
          option_side_effects opt False (send_opt (o_nsend opt) option (set_opt (o_index opt) INACTIVE t))
      | INACTIVE \<Rightarrow> t
      | REALLY_INACTIVE \<Rightarrow> t)"

fun rec_opt_loop :: "Opt list \<Rightarrow> byte \<Rightarrow> byte \<Rightarrow> Telnet \<Rightarrow> Telnet" where
  "rec_opt_loop [] cmd option t =
     (if cmd = WILL \<or> cmd = DO then send_opt (if cmd = WILL then DONT else WONT) option t else t)"
| "rec_opt_loop (opt # os) cmd option t =
     (if o_option opt = option \<and> o_ack opt = cmd then opt_acked opt option t
      else if o_option opt = option \<and> o_nak opt = cmd then opt_naked opt option t
      else rec_opt_loop os cmd option t)"

definition proc_rec_opt :: "byte \<Rightarrow> byte \<Rightarrow> Telnet \<Rightarrow> Telnet" where
  "proc_rec_opt cmd option t = rec_opt_loop opts cmd option t"

section \<open>Subnegotiation\<close>

text \<open>A write from a buffer of \<open>cap\<close> bytes, of which the code has filled \<open>b\<close>; \<open>None\<close> is an overflow.\<close>

definition sk_write_from :: "nat \<Rightarrow> byte list \<Rightarrow> Telnet \<Rightarrow> Telnet option" where
  "sk_write_from cap b t = (if length b \<le> cap then Some (sk_write b t) else None)"

definition upcase :: "byte \<Rightarrow> byte" where
  "upcase c = (if 97 \<le> c \<and> c \<le> 122 then c + 65 - 97 else c)"

text \<open>The guess of the sense of \<^verbatim>\<open>VAR\<close> and \<^verbatim>\<open>VALUE\<close> (in this order in the pair).\<close>

fun guess_sense :: "byte list \<Rightarrow> byte \<times> byte \<Rightarrow> byte \<times> byte" where
  "guess_sense [] vv = vv"
| "guess_sense (c # p) vv =
     guess_sense p
       (if c = RFC_VAR then (RFC_VAR, RFC_VALUE) else if c = BSD_VAR then (BSD_VAR, BSD_VALUE) else vv)"

definition environ_sense :: "Telnet \<Rightarrow> byte list \<Rightarrow> byte \<times> byte" where
  "environ_sense t p =
     (if sb_opt t = TELOPT_OLD_ENVIRON
      then guess_sense p
        (if CONF_rfc_environ (tn_conf t) then (RFC_VAR, RFC_VALUE) else (BSD_VAR, BSD_VALUE))
      else (RFC_VAR, RFC_VALUE))"

definition environ_bsize :: "telnet_conf \<Rightarrow> nat" where
  "environ_bsize cf =
     20 + sum_list (map (\<lambda>(k, v). length k + length v + 2) (CONF_environmt cf))
        + (case remote_username cf of None \<Rightarrow> 0 | Some user \<Rightarrow> 6 + length user)"

definition USER_name :: "byte list" where
  "USER_name = [85, 83, 69, 82]"

definition environ_reply :: "Telnet \<Rightarrow> byte \<times> byte \<Rightarrow> byte list" where
  "environ_reply t vv =
     (case vv of (var, val) \<Rightarrow>
        [IAC, SB, sb_opt t, TELQUAL_IS]
        @ concat (map (\<lambda>(k, v). [var] @ k @ [val] @ v) (CONF_environmt (tn_conf t)))
        @ (case remote_username (tn_conf t) of None \<Rightarrow> [] | Some user \<Rightarrow> [var] @ USER_name @ [val] @ user)
        @ [IAC, SE])"

definition process_subneg :: "Telnet \<Rightarrow> Telnet option" where
  "process_subneg t =
     (if sb_opt t = TELOPT_TSPEED
      then
        (if sb_buf t = [TELQUAL_SEND]
         then
           (let termspeed = CONF_termspeed (tn_conf t) in
            sk_write_from (20 + length termspeed)
              ([IAC, SB, TELOPT_TSPEED, TELQUAL_IS] @ termspeed @ [IAC, SE]) t)
         else Some t)
      else if sb_opt t = TELOPT_TTYPE
      then
        (if sb_buf t = [TELQUAL_SEND]
         then
           (let termtype = CONF_termtype (tn_conf t) in
            sk_write_from (20 + length termtype)
              ([IAC, SB, TELOPT_TTYPE, TELQUAL_IS] @ map upcase termtype @ [IAC, SE]) t)
         else Some t)
      else if sb_opt t = TELOPT_OLD_ENVIRON \<or> sb_opt t = TELOPT_NEW_ENVIRON
      then
        (case sb_buf t of
           [] \<Rightarrow> Some t
         | c # p \<Rightarrow>
             (if c = TELQUAL_SEND
              then sk_write_from (environ_bsize (tn_conf t)) (environ_reply t (environ_sense t p)) t
              else Some t))
      else Some t)"

section \<open>Reading\<close>

text \<open>One turn of the loop of \<^verbatim>\<open>do_telnet_read\<close>: a byte, and the data collected so far in \<^verbatim>\<open>outbuf\<close>.\<close>

definition read_data :: "byte \<Rightarrow> Telnet \<times> byte list \<Rightarrow> Telnet \<times> byte list" where
  "read_data c st =
     (case st of (t, outbuf) \<Rightarrow>
        if c = NUL \<and> tn_state t = SEENCR then (t\<lparr>tn_state := TOP_LEVEL\<rparr>, outbuf)
        else if c = IAC then (t\<lparr>tn_state := SEENIAC\<rparr>, outbuf)
        else
          (let outbuf' = (if \<not> in_synch t then outbuf @ [c] else outbuf);
               t = (if in_synch t \<and> c = DM then t\<lparr>in_synch := False\<rparr> else t) in
           (t\<lparr>tn_state := (if c = CR \<and> opt_states t (o_index o_they_bin) \<noteq> ACTIVE then SEENCR else TOP_LEVEL)\<rparr>,
            outbuf')))"

definition read_iac :: "byte \<Rightarrow> Telnet \<times> byte list \<Rightarrow> Telnet \<times> byte list" where
  "read_iac c st =
     (case st of (t, outbuf) \<Rightarrow>
        if c = DO then (t\<lparr>tn_state := SEENDO\<rparr>, outbuf)
        else if c = DONT then (t\<lparr>tn_state := SEENDONT\<rparr>, outbuf)
        else if c = WILL then (t\<lparr>tn_state := SEENWILL\<rparr>, outbuf)
        else if c = WONT then (t\<lparr>tn_state := SEENWONT\<rparr>, outbuf)
        else if c = SB then (t\<lparr>tn_state := SEENSB\<rparr>, outbuf)
        else if c = DM then (t\<lparr>in_synch := False, tn_state := TOP_LEVEL\<rparr>, outbuf)
        else (t\<lparr>tn_state := TOP_LEVEL\<rparr>, if c = IAC then outbuf @ [c] else outbuf))"

definition subneg_addchar :: "byte \<Rightarrow> Telnet \<Rightarrow> Telnet" where
  "subneg_addchar c t = t\<lparr>sb_buf := sb_buf t @ [c], tn_state := SUBNEGOT\<rparr>"

definition read_byte :: "byte \<Rightarrow> Telnet \<times> byte list \<Rightarrow> (Telnet \<times> byte list) option" where
  "read_byte c st =
     (case st of (t, outbuf) \<Rightarrow>
       (case tn_state t of
          TOP_LEVEL \<Rightarrow> Some (read_data c st)
        | SEENCR \<Rightarrow> Some (read_data c st)
        | SEENIAC \<Rightarrow> Some (read_iac c st)
        | SEENWILL \<Rightarrow> Some ((proc_rec_opt WILL c t)\<lparr>tn_state := TOP_LEVEL\<rparr>, outbuf)
        | SEENWONT \<Rightarrow> Some ((proc_rec_opt WONT c t)\<lparr>tn_state := TOP_LEVEL\<rparr>, outbuf)
        | SEENDO \<Rightarrow> Some ((proc_rec_opt DO c t)\<lparr>tn_state := TOP_LEVEL\<rparr>, outbuf)
        | SEENDONT \<Rightarrow> Some ((proc_rec_opt DONT c t)\<lparr>tn_state := TOP_LEVEL\<rparr>, outbuf)
        | SEENSB \<Rightarrow> Some (t\<lparr>sb_opt := c, sb_buf := [], tn_state := SUBNEGOT\<rparr>, outbuf)
        | SUBNEGOT \<Rightarrow>
            Some (if c = IAC then t\<lparr>tn_state := SUBNEG_IAC\<rparr> else subneg_addchar c t, outbuf)
        | SUBNEG_IAC \<Rightarrow>
            (if c \<noteq> SE then Some (subneg_addchar c t, outbuf)
             else map_option (\<lambda>t. (t\<lparr>tn_state := TOP_LEVEL\<rparr>, outbuf)) (process_subneg t))))"

definition flush_full :: "Telnet \<times> byte list \<Rightarrow> Telnet \<times> byte list" where
  "flush_full st = (case st of (t, outbuf) \<Rightarrow> if length outbuf \<ge> 4096 then (c_write outbuf t, []) else (t, outbuf))"

fun read_loop :: "byte list \<Rightarrow> Telnet \<times> byte list \<Rightarrow> (Telnet \<times> byte list) option" where
  "read_loop [] st = Some st"
| "read_loop (c # buf) st = Option.bind (read_byte c st) (\<lambda>st. read_loop buf (flush_full st))"

definition do_telnet_read :: "byte list \<Rightarrow> Telnet \<Rightarrow> Telnet option" where
  "do_telnet_read buf t =
     map_option (\<lambda>(t, outbuf). if outbuf \<noteq> [] then c_write outbuf t else t) (read_loop buf (t, []))"

section \<open>The plug: calls from the socket\<close>

definition telnet_receive :: "bool \<Rightarrow> byte list \<Rightarrow> Telnet \<Rightarrow> Telnet option" where
  "telnet_receive urgent data t =
     (let t = (if urgent then t\<lparr>in_synch := True\<rparr> else t) in
      do_telnet_read data (t\<lparr>session_started := True\<rparr>))"

definition telnet_sent :: "nat \<Rightarrow> Telnet \<Rightarrow> Telnet" where
  "telnet_sent n t = t\<lparr>bufsize := n\<rparr>"

definition telnet_closing :: "bool \<Rightarrow> Telnet \<Rightarrow> Telnet" where
  "telnet_closing error_msg t =
     (let t = (if tn_socket t
               then
                 (let t = (tn_emit Sk_Close t)\<lparr>tn_socket := False\<rparr>;
                      t = (if error_msg then t\<lparr>closed_on_socket_error := True\<rparr> else t) in
                  tn_emit Seat_Notify_Exit t)
               else t) in
      if error_msg then tn_emit Seat_Fatal t else t)"

section \<open>The back end: calls from the front end\<close>

text \<open>
  \<^verbatim>\<open>telnet_init\<close> up to the state that the session starts in. The object comes from the allocator
  with any contents; the two arguments are the errors of the name lookup and of the connection.
\<close>

definition init_opt :: "Opt \<Rightarrow> Telnet \<Rightarrow> Telnet" where
  "init_opt opt t =
     (let t = set_opt (o_index opt) (o_initial opt) t in
      if opt_states t (o_index opt) = REQUESTED then send_opt (o_send opt) (o_option opt) t else t)"

definition telnet_init :: "Telnet \<Rightarrow> telnet_conf \<Rightarrow> string option \<Rightarrow> string option \<Rightarrow> (string, Telnet) result" where
  "telnet_init mem cf addr_err sock_err =
     (let t = mem\<lparr>tn_conf := cf, tn_socket := False, closed_on_socket_error := False, echoing := True,
                  editing := True, activated := False, sb_buf := [], term_width := CONF_width cf,
                  term_height := CONF_height cf, tn_state := TOP_LEVEL, ldisc := False,
                  session_started := True\<rparr> in
      case addr_err of
        Some e \<Rightarrow> Raise e
      | None \<Rightarrow>
          (let t = t\<lparr>tn_socket := True\<rparr> in
           case sock_err of
             Some e \<Rightarrow> Raise e
           | None \<Rightarrow>
               (let t = (if CONF_passive_telnet cf
                         then fold (\<lambda>opt. set_opt (o_index opt) INACTIVE) opts t
                         else (fold init_opt opts t)\<lparr>activated := True\<rparr>) in
                Return (t\<lparr>in_synch := False\<rparr>))))"

definition telnet_reconfig :: "telnet_conf \<Rightarrow> Telnet \<Rightarrow> Telnet" where
  "telnet_reconfig cf t = (tn_emit Pinger_Reconfig t)\<lparr>tn_conf := cf\<rparr>"

definition iswritable :: "Telnet \<Rightarrow> byte \<Rightarrow> bool" where
  "iswritable t x \<longleftrightarrow> x \<noteq> IAC \<and> (opt_states t (o_index o_we_bin) = ACTIVE \<or> x \<noteq> CR)"

definition escape_seq :: "byte \<Rightarrow> byte list" where
  "escape_seq c = (if c = IAC then [IAC, IAC] else [CR, NUL])"

fun write_escapes :: "byte list \<Rightarrow> Telnet \<Rightarrow> Telnet" where
  "write_escapes [] t = t"
| "write_escapes (c # cs) t = write_escapes cs (sk_write (escape_seq c) t)"

text \<open>The outer loop: a run of writable bytes (written even if it is empty), then a run of others.\<close>

function send_loop :: "byte list \<Rightarrow> Telnet \<Rightarrow> Telnet" where
  "send_loop buf t =
     (if buf = [] then t
      else
        (let w = takeWhile (iswritable t) buf; rest = dropWhile (iswritable t) buf;
             t = sk_write w t;
             u = takeWhile (\<lambda>c. \<not> iswritable t c) rest in
         send_loop (dropWhile (\<lambda>c. \<not> iswritable t c) rest) (write_escapes u t)))"
  by pat_completeness auto

lemma opt_states_sk_write [simp]: "opt_states (sk_write b t) = opt_states t"
  by (simp add: sk_write_def tn_emit_def)

lemma iswritable_sk_write [simp]: "iswritable (sk_write b t) = iswritable t"
  by (simp add: iswritable_def fun_eq_iff)

lemma send_loop_shrinks:
  "buf \<noteq> [] \<Longrightarrow>
   length (dropWhile (\<lambda>c. \<not> iswritable t c) (dropWhile (iswritable t) buf)) < length buf"
proof (cases buf)
  case (Cons c cs)
  show ?thesis
  proof (cases "iswritable t c")
    case True
    then have "length (dropWhile (iswritable t) buf) \<le> length cs"
      unfolding Cons by (simp add: length_dropWhile_le)
    then show ?thesis
      unfolding Cons using length_dropWhile_le [of "\<lambda>c. \<not> iswritable t c" "dropWhile (iswritable t) (c # cs)"]
      by (simp del: dropWhile.simps)
  next
    case False
    then show ?thesis
      unfolding Cons using length_dropWhile_le [of "\<lambda>c. \<not> iswritable t c" cs] by simp
  qed
qed simp

termination send_loop
  by (relation "measure (\<lambda>(buf, t). length buf)") (auto simp: send_loop_shrinks)

declare send_loop.simps [simp del]

definition telnet_send :: "byte list \<Rightarrow> Telnet \<Rightarrow> nat \<times> Telnet" where
  "telnet_send buf t =
     (if \<not> tn_socket t then (0, t) else (let t = send_loop buf t in (bufsize t, t)))"

definition telnet_sendbuffer :: "Telnet \<Rightarrow> nat" where
  "telnet_sendbuffer t = bufsize t"

datatype special =
  SS_BRK | SS_EOF | SS_NOP | SS_PING | SS_AYT | SS_SYNCH | SS_EC | SS_EL | SS_GA | SS_ABORT | SS_AO
| SS_IP | SS_SUSP | SS_EOR | SS_EOL | SS_REKEY | SS_XCERT | SS_SIG nat | SS_SEP | SS_SUBMENU | SS_EXITMENU

definition telnet_special :: "special \<Rightarrow> Telnet \<Rightarrow> Telnet" where
  "telnet_special code t =
     (if \<not> tn_socket t then t
      else
        (case code of
           SS_AYT \<Rightarrow> sk_write [IAC, AYT] t
         | SS_BRK \<Rightarrow> sk_write [IAC, BREAK] t
         | SS_EC \<Rightarrow> sk_write [IAC, EC] t
         | SS_EL \<Rightarrow> sk_write [IAC, EL] t
         | SS_GA \<Rightarrow> sk_write [IAC, GA] t
         | SS_NOP \<Rightarrow> sk_write [IAC, NOP] t
         | SS_ABORT \<Rightarrow> sk_write [IAC, ABORT] t
         | SS_AO \<Rightarrow> sk_write [IAC, AO] t
         | SS_IP \<Rightarrow> sk_write [IAC, IP] t
         | SS_SUSP \<Rightarrow> sk_write [IAC, SUSP] t
         | SS_EOR \<Rightarrow> sk_write [IAC, EOR] t
         | SS_EOF \<Rightarrow> sk_write [IAC, xEOF] t
         | SS_EOL \<Rightarrow> sk_write (if opt_states t (o_index o_we_bin) = ACTIVE then [CR] else [CR, LF]) t
         | SS_SYNCH \<Rightarrow> sk_write_oob [DM] (sk_write [IAC] t)
         | SS_PING \<Rightarrow> (if opt_states t (o_index o_they_sga) = ACTIVE then sk_write [IAC, NOP] t else t)
         | _ \<Rightarrow> t))"

definition telnet_connected :: "Telnet \<Rightarrow> bool" where
  "telnet_connected t = tn_socket t"

definition telnet_sendok :: "Telnet \<Rightarrow> bool" where
  "telnet_sendok t = True"

definition telnet_unthrottle :: "nat \<Rightarrow> Telnet \<Rightarrow> Telnet" where
  "telnet_unthrottle backlog t = tn_emit (Sk_Set_Frozen (backlog > TELNET_MAX_BACKLOG)) t"

datatype ld_option = LD_ECHO | LD_EDIT | LD_OTHER

definition telnet_ldisc :: "Telnet \<Rightarrow> ld_option \<Rightarrow> bool" where
  "telnet_ldisc t option =
     (if option = LD_ECHO then echoing t else if option = LD_EDIT then editing t else False)"

definition telnet_provide_ldisc :: "bool \<Rightarrow> Telnet \<Rightarrow> Telnet" where
  "telnet_provide_ldisc ld t = t\<lparr>ldisc := ld\<rparr>"

definition telnet_exitcode :: "Telnet \<Rightarrow> int" where
  "telnet_exitcode t = (if tn_socket t then -1 else if closed_on_socket_error t then 2147483647 else 0)"


section \<open>The view that does not depend on the grouping of data\<close>

text \<open>
  \<open>settled\<close> forgets what depends on how the incoming data is cut into calls: the calls that hand
  data to the seat, the backlogs the environment answered, and whether anything came at all.
  Every operation of the reader commutes with it.
\<close>

fun is_output :: "tn_event \<Rightarrow> bool" where
  "is_output (Seat_Stdout b) = True"
| "is_output (Sk_Set_Frozen f) = True"
| "is_output e = False"

definition settled :: "Telnet \<Rightarrow> Telnet" where
  "settled t = t\<lparr>events := filter (\<lambda>e. \<not> is_output e) (events t), bufsize := 0,
                 sk_backlog := (\<lambda>_. 0), seat_backlog := (\<lambda>_. 0), session_started := True\<rparr>"

fun stdout_of :: "tn_event list \<Rightarrow> byte list" where
  "stdout_of [] = []"
| "stdout_of (e # es) = (case e of Seat_Stdout b \<Rightarrow> b | _ \<Rightarrow> []) @ stdout_of es"

fun wire_of :: "tn_event list \<Rightarrow> byte list" where
  "wire_of [] = []"
| "wire_of (e # es) = (case e of Sk_Write b \<Rightarrow> b | _ \<Rightarrow> []) @ wire_of es"

lemma stdout_of_append [simp]: "stdout_of (es @ fs) = stdout_of es @ stdout_of fs"
  by (induction es) auto

lemma wire_of_append [simp]: "wire_of (es @ fs) = wire_of es @ wire_of fs"
  by (induction es) auto

lemma settled_fields [simp]:
  "tn_state (settled t) = tn_state t" "opt_states (settled t) = opt_states t" "in_synch (settled t) = in_synch t"
  "sb_opt (settled t) = sb_opt t" "sb_buf (settled t) = sb_buf t" "tn_conf (settled t) = tn_conf t"
  "tn_socket (settled t) = tn_socket t" "ldisc (settled t) = ldisc t" "activated (settled t) = activated t"
  "term_width (settled t) = term_width t" "term_height (settled t) = term_height t"
  by (simp_all add: settled_def)

lemma settled_updates:
  "settled (t\<lparr>tn_state := s\<rparr>) = (settled t)\<lparr>tn_state := s\<rparr>"
  "settled (t\<lparr>in_synch := y\<rparr>) = (settled t)\<lparr>in_synch := y\<rparr>"
  "settled (t\<lparr>sb_opt := c\<rparr>) = (settled t)\<lparr>sb_opt := c\<rparr>"
  "settled (t\<lparr>sb_buf := b\<rparr>) = (settled t)\<lparr>sb_buf := b\<rparr>"
  "settled (t\<lparr>echoing := e\<rparr>) = (settled t)\<lparr>echoing := e\<rparr>"
  "settled (t\<lparr>editing := e\<rparr>) = (settled t)\<lparr>editing := e\<rparr>"
  "settled (t\<lparr>activated := e\<rparr>) = (settled t)\<lparr>activated := e\<rparr>"
  "settled (t\<lparr>term_width := w\<rparr>) = (settled t)\<lparr>term_width := w\<rparr>"
  "settled (t\<lparr>term_height := w\<rparr>) = (settled t)\<lparr>term_height := w\<rparr>"
  by (simp_all add: settled_def)

lemma settled_set_opt: "settled (set_opt i s t) = set_opt i s (settled t)"
  by (simp add: settled_def set_opt_def)

lemma settled_sk_write: "settled (sk_write b t) = sk_write b (settled t)"
  by (simp add: settled_def sk_write_def tn_emit_def)

lemma settled_emit: "\<not> is_output e \<Longrightarrow> settled (tn_emit e t) = tn_emit e (settled t)"
  by (simp add: settled_def tn_emit_def)

lemma settled_c_write: "settled (c_write b t) = settled t"
  by (simp add: settled_def c_write_def tn_emit_def Let_def)

lemma settled_send_opt: "settled (send_opt cmd option t) = send_opt cmd option (settled t)"
  by (simp add: send_opt_def settled_sk_write)

lemmas settled_basic = settled_updates settled_set_opt settled_sk_write settled_emit settled_send_opt

lemma settled_deactivate: "settled (deactivate_option opt t) = deactivate_option opt (settled t)"
  by (simp add: deactivate_option_def settled_basic)

lemma settled_request: "settled (request_if_inactive opt t) = request_if_inactive opt (settled t)"
  by (simp add: request_if_inactive_def settled_basic)

lemma settled_minimum: "settled (ensure_minimum_options t) = ensure_minimum_options (settled t)"
  by (simp add: ensure_minimum_options_def settled_basic settled_request)

lemma settled_ldisc: "settled (ldisc_echoedit_update t) = ldisc_echoedit_update (settled t)"
  by (simp add: ldisc_echoedit_update_def settled_basic)

lemma settled_echo_edit: "settled (set_echo_edit opt e t) = set_echo_edit opt e (settled t)"
  by (simp add: set_echo_edit_def settled_basic)

lemma settled_side_effects: "settled (option_side_effects opt e t) = option_side_effects opt e (settled t)"
  by (simp add: option_side_effects_def settled_minimum settled_ldisc settled_echo_edit)

lemma settled_size: "settled (telnet_size w h t) = telnet_size w h (settled t)"
  by (simp add: telnet_size_def Let_def settled_basic)

lemma settled_activate: "settled (activate_option opt t) = activate_option opt (settled t)"
  unfolding activate_option_def Let_def settled_side_effects
  by (simp only: if_distrib [of settled] settled_deactivate settled_size settled_fields)

lemma settled_refused: "settled (refused_option opt t) = refused_option opt (settled t)"
  by (simp add: refused_option_def Let_def settled_side_effects settled_basic)

lemma settled_rec_opt: "settled (rec_opt_loop os cmd option t) = rec_opt_loop os cmd option (settled t)"
  by (induction os)
    (simp_all add: opt_acked_def opt_naked_def settled_basic settled_activate settled_refused
      settled_side_effects split: opt_state.split)

lemma settled_process_subneg: "map_option settled (process_subneg t) = process_subneg (settled t)"
  by (auto simp: process_subneg_def sk_write_from_def Let_def settled_basic environ_sense_def
      environ_reply_def split: list.split)

text \<open>No operation of the negotiation writes to the seat.\<close>

lemma stdout_basic [simp]:
  "stdout_of (events (sk_write b t)) = stdout_of (events t)"
  "stdout_of (events (set_opt i s t)) = stdout_of (events t)"
  "stdout_of (events (send_opt cmd option t)) = stdout_of (events t)"
  "stdout_of (events (tn_emit Ldisc_Update t)) = stdout_of (events t)"
  by (simp_all add: sk_write_def set_opt_def send_opt_def tn_emit_def)

lemma stdout_side_effects [simp]:
  "stdout_of (events (option_side_effects opt e t)) = stdout_of (events t)"
  by (simp add: option_side_effects_def ensure_minimum_options_def request_if_inactive_def
      ldisc_echoedit_update_def set_echo_edit_def)

lemma stdout_activate [simp]: "stdout_of (events (activate_option opt t)) = stdout_of (events t)"
  by (simp add: activate_option_def deactivate_option_def telnet_size_def Let_def)

lemma stdout_refused [simp]: "stdout_of (events (refused_option opt t)) = stdout_of (events t)"
  by (simp add: refused_option_def Let_def)

lemma stdout_rec_opt [simp]: "stdout_of (events (rec_opt_loop os cmd option t)) = stdout_of (events t)"
  by (induction os) (simp_all add: opt_acked_def opt_naked_def split: opt_state.split)

lemma stdout_process_subneg: "process_subneg t = Some t' \<Longrightarrow> stdout_of (events t') = stdout_of (events t)"
  by (auto simp: process_subneg_def sk_write_from_def Let_def split: if_splits list.splits)


section \<open>Reading does not depend on how the bytes arrive\<close>

definition view :: "Telnet \<times> byte list \<Rightarrow> Telnet \<times> byte list" where
  "view st = (case st of (t, outbuf) \<Rightarrow> (settled t, stdout_of (events t) @ outbuf))"

definition extend :: "byte list \<Rightarrow> Telnet \<times> byte list \<Rightarrow> Telnet \<times> byte list" where
  "extend out st = (case st of (t, new) \<Rightarrow> (t, out @ new))"

lemma settled_events_update [simp]: "events (t\<lparr>tn_state := x\<rparr>) = events t"
  by simp

lemma view_read_data:
  "view (read_data c (t, outbuf)) = extend (stdout_of (events t) @ outbuf) (read_data c (settled t, []))"
  by (simp add: view_def extend_def read_data_def Let_def settled_updates)

lemma view_read_iac:
  "view (read_iac c (t, outbuf)) = extend (stdout_of (events t) @ outbuf) (read_iac c (settled t, []))"
  by (simp add: view_def extend_def read_iac_def settled_updates)

lemma view_rec_opt:
  "view ((proc_rec_opt cmd c t)\<lparr>tn_state := TOP_LEVEL\<rparr>, outbuf) =
   extend (stdout_of (events t) @ outbuf) ((proc_rec_opt cmd c (settled t))\<lparr>tn_state := TOP_LEVEL\<rparr>, [])"
  by (simp add: view_def extend_def proc_rec_opt_def settled_updates settled_rec_opt)

lemma view_subneg:
  "map_option view (map_option (\<lambda>t. (t\<lparr>tn_state := TOP_LEVEL\<rparr>, outbuf)) (process_subneg t)) =
   map_option (extend (stdout_of (events t) @ outbuf))
     (map_option (\<lambda>t. (t\<lparr>tn_state := TOP_LEVEL\<rparr>, [])) (process_subneg (settled t)))"
  by (cases "process_subneg t")
    (auto simp: view_def extend_def settled_updates stdout_process_subneg
      settled_process_subneg [symmetric])

lemma view_addchar:
  "view (subneg_addchar c t, outbuf) = extend (stdout_of (events t) @ outbuf) (subneg_addchar c (settled t), [])"
  by (simp add: view_def extend_def subneg_addchar_def settled_updates)

lemma view_simple:
  "view (t\<lparr>tn_state := SUBNEG_IAC\<rparr>, outbuf) =
     extend (stdout_of (events t) @ outbuf) ((settled t)\<lparr>tn_state := SUBNEG_IAC\<rparr>, [])"
  "view (t\<lparr>sb_opt := c, sb_buf := [], tn_state := SUBNEGOT\<rparr>, outbuf) =
     extend (stdout_of (events t) @ outbuf) ((settled t)\<lparr>sb_opt := c, sb_buf := [], tn_state := SUBNEGOT\<rparr>, [])"
  by (simp_all add: view_def extend_def settled_updates)

lemma view_read_byte:
  "map_option view (read_byte c (t, outbuf)) =
   map_option (extend (stdout_of (events t) @ outbuf)) (read_byte c (settled t, []))"
  by (cases "tn_state t")
    (simp_all add: read_byte_def view_read_data view_read_iac view_rec_opt view_subneg
       view_addchar view_simple)

lemma stdout_c_write [simp]: "stdout_of (events (c_write b t)) = stdout_of (events t) @ b"
  by (simp add: c_write_def tn_emit_def Let_def)

lemma view_flush [simp]: "view (flush_full st) = view st"
  by (cases st) (simp add: flush_full_def view_def settled_c_write)

lemma read_byte_cong:
  assumes "view st1 = view st2"
  shows "map_option view (read_byte c st1) = map_option view (read_byte c st2)"
proof -
  obtain t1 o1 t2 o2 where st: "st1 = (t1, o1)" "st2 = (t2, o2)" by fastforce
  with assms have "settled t1 = settled t2" "stdout_of (events t1) @ o1 = stdout_of (events t2) @ o2"
    by (simp_all add: view_def)
  then show ?thesis unfolding st view_read_byte by (simp only:)
qed

lemma read_loop_cong:
  "view st1 = view st2 \<Longrightarrow> map_option view (read_loop buf st1) = map_option view (read_loop buf st2)"
proof (induction buf arbitrary: st1 st2)
  case (Cons c buf)
  have cong: "map_option view (read_byte c st1) = map_option view (read_byte c st2)"
    by (rule read_byte_cong [OF Cons.prems])
  show ?case
  proof (cases "read_byte c st1")
    case None
    with cong show ?thesis by simp
  next
    case (Some r1)
    with cong obtain r2 where "read_byte c st2 = Some r2" "view r1 = view r2"
      by (cases "read_byte c st2") auto
    with Some Cons.IH [of "flush_full r1" "flush_full r2"] show ?thesis by simp
  qed
qed simp

lemma read_loop_append:
  "read_loop (a @ b) st = Option.bind (read_loop a st) (read_loop b)"
  by (induction a arbitrary: st) (auto simp: bind_assoc intro!: arg_cong [of _ _ "Option.bind _"])

lemma do_telnet_read_view:
  "map_option (\<lambda>t. view (t, [])) (do_telnet_read buf t) = map_option view (read_loop buf (t, []))"
  by (cases "read_loop buf (t, [])")
    (auto simp: do_telnet_read_def view_def settled_c_write)

text \<open>No buffer overflows, so reading always succeeds.\<close>

lemma environ_reply_fits: "length (environ_reply t vv) \<le> environ_bsize (tn_conf t)"
proof -
  have "length (concat (map (\<lambda>(k, v). [var] @ k @ [val] @ v) es)) =
      sum_list (map (\<lambda>(k, v). length k + length v + 2) es)" for var val :: byte and es
    by (induction es) auto
  then show ?thesis
    by (cases vv) (simp add: environ_reply_def environ_bsize_def USER_name_def split: option.split)
qed

lemma process_subneg_total: "\<exists>t'. process_subneg t = Some t'"
  by (auto simp: process_subneg_def sk_write_from_def Let_def environ_reply_fits split: list.split)

lemma read_byte_total: "\<exists>st'. read_byte c st = Some st'"
  using process_subneg_total [of "fst st"]
  by (cases st) (auto simp: read_byte_def split: tn_state.split)

lemma read_loop_total: "\<exists>st'. read_loop buf st = Some st'"
proof (induction buf arbitrary: st)
  case (Cons c buf)
  obtain st1 where "read_byte c st = Some st1" using read_byte_total by blast
  with Cons.IH [of "flush_full st1"] show ?case by simp
qed simp

lemma do_telnet_read_total: "\<exists>t'. do_telnet_read buf t = Some t'"
  using read_loop_total [of buf "(t, [])"] by (auto simp: do_telnet_read_def)


text \<open>Several deliveries in a row.\<close>

fun receive_all :: "byte list list \<Rightarrow> Telnet \<Rightarrow> Telnet option" where
  "receive_all [] t = Some t"
| "receive_all (d # ds) t = Option.bind (telnet_receive False d t) (receive_all ds)"

lemma view_session_started: "view (t\<lparr>session_started := True\<rparr>, outbuf) = view (t, outbuf)"
  by (simp add: view_def settled_def)

lemma telnet_receive_view:
  "map_option (\<lambda>t. view (t, [])) (telnet_receive False d t) = map_option view (read_loop d (t, []))"
  using read_loop_cong [OF view_session_started [of t "[]"], of d]
  by (simp add: telnet_receive_def do_telnet_read_view)

lemma receive_all_view:
  "map_option (\<lambda>t. view (t, [])) (receive_all ds t) = map_option view (read_loop (concat ds) (t, []))"
proof (induction ds arbitrary: t)
  case (Cons d ds)
  obtain t1 where t1: "telnet_receive False d t = Some t1"
    using do_telnet_read_total [of d "t\<lparr>session_started := True\<rparr>"] by (auto simp: telnet_receive_def)
  obtain st where st: "read_loop d (t, []) = Some st" using read_loop_total by blast
  have "view (t1, []) = view st" using telnet_receive_view [of d t] t1 st by simp
  from read_loop_cong [OF this, of "concat ds"] Cons.IH [of t1] t1 st show ?case
    by (simp add: read_loop_append)
qed simp

section \<open>Data transparency\<close>

definition nvt_char :: "bool \<Rightarrow> byte \<Rightarrow> byte list" where
  "nvt_char bin c = (if c = IAC then [IAC, IAC] else if c = CR \<and> \<not> bin then [CR, NUL] else [c])"

definition nvt_escape :: "bool \<Rightarrow> byte list \<Rightarrow> byte list" where
  "nvt_escape bin buf = concat (map (nvt_char bin) buf)"

lemma nvt_escape_simps [simp]:
  "nvt_escape bin [] = []" "nvt_escape bin (c # b) = nvt_char bin c @ nvt_escape bin b"
  "nvt_escape bin (a @ b) = nvt_escape bin a @ nvt_escape bin b"
  by (simp_all add: nvt_escape_def)

lemma nvt_escape_writable:
  "\<forall>c \<in> set buf. iswritable t c \<Longrightarrow> nvt_escape (opt_states t OPTINDEX_WE_BIN = ACTIVE) buf = buf"
  by (induction buf) (auto simp: nvt_char_def iswritable_def o_we_bin_def)

lemma wire_sk_write [simp]: "wire_of (events (sk_write b t)) = wire_of (events t) @ b"
  by (simp add: sk_write_def tn_emit_def)

lemma write_escapes_frame [simp]: "opt_states (write_escapes u t) = opt_states t"
  by (induction u arbitrary: t) auto

lemma wire_write_escapes:
  "\<forall>c \<in> set u. \<not> iswritable t c \<Longrightarrow>
   wire_of (events (write_escapes u t)) =
     wire_of (events t) @ nvt_escape (opt_states t OPTINDEX_WE_BIN = ACTIVE) u"
proof (induction u arbitrary: t)
  case (Cons c u)
  then have "escape_seq c = nvt_char (opt_states t OPTINDEX_WE_BIN = ACTIVE) c"
    by (auto simp: nvt_char_def iswritable_def escape_seq_def o_we_bin_def)
  with Cons show ?case by simp
qed simp

lemma wire_send_loop:
  "wire_of (events (send_loop buf t)) =
   wire_of (events t) @ nvt_escape (opt_states t OPTINDEX_WE_BIN = ACTIVE) buf"
proof (induction buf t rule: send_loop.induct)
  case (1 buf t)
  show ?case
  proof (cases "buf = []")
    case False
    let ?w = "takeWhile (iswritable t) buf" and ?rest = "dropWhile (iswritable t) buf"
    let ?u = "takeWhile (\<lambda>c. \<not> iswritable t c) ?rest" and ?v = "dropWhile (\<lambda>c. \<not> iswritable t c) ?rest"
    have w: "nvt_escape (opt_states t OPTINDEX_WE_BIN = ACTIVE) ?w = ?w"
      by (rule nvt_escape_writable) (auto dest: set_takeWhileD)
    have u: "wire_of (events (write_escapes ?u (sk_write ?w t))) =
        wire_of (events t) @ ?w @ nvt_escape (opt_states t OPTINDEX_WE_BIN = ACTIVE) ?u"
    proof -
      have "\<forall>c \<in> set ?u. \<not> iswritable (sk_write ?w t) c"
        unfolding iswritable_sk_write by (rule ballI) (drule set_takeWhileD, rule conjunct2)
      from wire_write_escapes [OF this] show ?thesis
        by (simp only: wire_sk_write opt_states_sk_write append_assoc)
    qed
    have step: "send_loop buf t = send_loop ?v (write_escapes ?u (sk_write ?w t))"
      by (subst send_loop.simps) (simp only: Let_def False if_False iswritable_sk_write)
    have "nvt_escape (opt_states t OPTINDEX_WE_BIN = ACTIVE) (?w @ ?u @ ?v) =
        ?w @ nvt_escape (opt_states t OPTINDEX_WE_BIN = ACTIVE) ?u @ nvt_escape (opt_states t OPTINDEX_WE_BIN = ACTIVE) ?v"
      by (simp only: nvt_escape_simps w)
    then have "nvt_escape (opt_states t OPTINDEX_WE_BIN = ACTIVE) buf =
        ?w @ nvt_escape (opt_states t OPTINDEX_WE_BIN = ACTIVE) ?u @ nvt_escape (opt_states t OPTINDEX_WE_BIN = ACTIVE) ?v"
      by simp
    moreover have "wire_of (events (send_loop ?v (write_escapes ?u (sk_write ?w t)))) =
        wire_of (events (write_escapes ?u (sk_write ?w t))) @ nvt_escape (opt_states t OPTINDEX_WE_BIN = ACTIVE) ?v"
      using "1.IH" [OF False refl refl refl refl]
      by (simp only: iswritable_sk_write write_escapes_frame opt_states_sk_write)
    ultimately show ?thesis unfolding step u by (simp only: append_assoc)
  qed (simp add: send_loop.simps)
qed

lemma read_loop_unflushed:
  "map_option view (read_loop (c # buf) st) = map_option view (Option.bind (read_byte c st) (read_loop buf))"
proof -
  obtain st1 where st1: "read_byte c st = Some st1" using read_byte_total by blast
  have "map_option view (read_loop buf (flush_full st1)) = map_option view (read_loop buf st1)"
    by (rule read_loop_cong) simp
  with st1 show ?thesis by simp
qed

lemma same_state: "tn_state t = s \<Longrightarrow> t\<lparr>tn_state := s\<rparr> = t"
  by (cases t) simp

lemma read_escaped_char:
  assumes "tn_state t = TOP_LEVEL" and "\<not> in_synch t" and "bin = (opt_states t OPTINDEX_THEY_BIN = ACTIVE)"
  shows "\<exists>st. read_loop (nvt_char bin c) (t, outbuf) = Some st \<and> view st = view (t, outbuf @ [c])"
proof -
  let ?r = "\<lambda>t buf. map_option view (read_loop buf (t, outbuf))"
  note step = read_byte_def read_data_def read_iac_def Let_def o_they_bin_def same_state [OF assms(1)]
  consider (iac) "c = IAC" | (cr) "c = CR" "\<not> bin" | (plain) "c \<noteq> IAC" "c \<noteq> CR \<or> bin" by blast
  then have "map_option view (read_loop (nvt_char bin c) (t, outbuf)) = Some (view (t, outbuf @ [c]))"
  proof cases
    case iac
    then have "nvt_char bin c = [IAC, IAC]" by (simp add: nvt_char_def)
    then show ?thesis
      using assms iac by (simp add: read_loop_unflushed step del: read_loop.simps(2))
  next
    case cr
    then have "nvt_char bin c = [CR, NUL]" by (simp add: nvt_char_def)
    then show ?thesis
      using assms cr by (simp add: read_loop_unflushed step del: read_loop.simps(2))
  next
    case plain
    then have "nvt_char bin c = [c]" by (auto simp: nvt_char_def)
    then show ?thesis
      using assms plain by (auto simp: read_loop_unflushed step simp del: read_loop.simps(2))
  qed
  then show ?thesis by auto
qed


lemma read_loop_nvt_escape:
  assumes "tn_state t = TOP_LEVEL" and "\<not> in_synch t" and "bin = (opt_states t OPTINDEX_THEY_BIN = ACTIVE)"
  shows "map_option view (read_loop (nvt_escape bin buf) (t, outbuf)) = Some (view (t, outbuf @ buf))"
proof (induction buf arbitrary: outbuf)
  case (Cons c buf)
  obtain st where st: "read_loop (nvt_char bin c) (t, outbuf) = Some st" "view st = view (t, outbuf @ [c])"
    using read_escaped_char [OF assms] by blast
  with read_loop_cong [OF st(2), of "nvt_escape bin buf"] Cons.IH [of "outbuf @ [c]"] show ?case
    by (simp add: read_loop_append)
qed simp

section \<open>Consistency of the negotiated options\<close>

text \<open>
  At most one of the two \<^verbatim>\<open>ENVIRON\<close> options is in effect (once one has been, the other can not be
  any more); the terminal echoes and edits locally exactly while the server has not taken that
  over; and no other option is ever ruled out for good.
\<close>

definition opts_ok :: "(optindex \<Rightarrow> opt_state) \<Rightarrow> bool \<Rightarrow> bool \<Rightarrow> bool" where
  "opts_ok f echo edit \<longleftrightarrow>
     (f OPTINDEX_OENV = ACTIVE \<longrightarrow> f OPTINDEX_NENV = REALLY_INACTIVE) \<and>
     (f OPTINDEX_NENV = ACTIVE \<longrightarrow> f OPTINDEX_OENV = REALLY_INACTIVE) \<and>
     (echo \<longleftrightarrow> f OPTINDEX_ECHO \<noteq> ACTIVE) \<and>
     (edit \<longleftrightarrow> f OPTINDEX_THEY_SGA \<noteq> ACTIVE) \<and>
     (\<forall>i. f i = REALLY_INACTIVE \<longrightarrow> i = OPTINDEX_OENV \<or> i = OPTINDEX_NENV)"

definition options_inv :: "Telnet \<Rightarrow> bool" where
  "options_inv t = opts_ok (opt_states t) (echoing t) (editing t)"

inductive telnet_reachable :: "Telnet \<Rightarrow> bool" where
  init: "telnet_init mem cf None None = Return t \<Longrightarrow> telnet_reachable t"
| receive: "telnet_reachable t \<Longrightarrow> telnet_receive urgent data t = Some t' \<Longrightarrow> telnet_reachable t'"
| sent: "telnet_reachable t \<Longrightarrow> telnet_reachable (telnet_sent n t)"
| closing: "telnet_reachable t \<Longrightarrow> telnet_reachable (telnet_closing error_msg t)"
| send: "telnet_reachable t \<Longrightarrow> telnet_reachable (snd (telnet_send buf t))"
| size: "telnet_reachable t \<Longrightarrow> telnet_reachable (telnet_size w h t)"
| special: "telnet_reachable t \<Longrightarrow> telnet_reachable (telnet_special code t)"
| reconfig: "telnet_reachable t \<Longrightarrow> telnet_reachable (telnet_reconfig cf t)"
| unthrottle: "telnet_reachable t \<Longrightarrow> telnet_reachable (telnet_unthrottle backlog t)"
| provide_ldisc: "telnet_reachable t \<Longrightarrow> telnet_reachable (telnet_provide_ldisc ld t)"

lemma options_inv_cong:
  "opt_states t' = opt_states t \<Longrightarrow> echoing t' = echoing t \<Longrightarrow> editing t' = editing t \<Longrightarrow>
   options_inv t' = options_inv t"
  by (simp add: options_inv_def)

lemma frame_sk_write [simp]: "echoing (sk_write b t) = echoing t" "editing (sk_write b t) = editing t"
  by (simp_all add: sk_write_def tn_emit_def)

lemma frame_emit [simp]:
  "opt_states (tn_emit e t) = opt_states t" "echoing (tn_emit e t) = echoing t" "editing (tn_emit e t) = editing t"
  by (simp_all add: tn_emit_def)

lemma frame_set_opt [simp]:
  "opt_states (set_opt i s t) = (opt_states t)(i := s)" "echoing (set_opt i s t) = echoing t"
  "editing (set_opt i s t) = editing t"
  by (simp_all add: set_opt_def)

lemma frame_send_opt [simp]:
  "opt_states (send_opt cmd option t) = opt_states t" "echoing (send_opt cmd option t) = echoing t"
  "editing (send_opt cmd option t) = editing t"
  by (simp_all add: send_opt_def)

lemma frame_size [simp]:
  "opt_states (telnet_size w h t) = opt_states t" "echoing (telnet_size w h t) = echoing t"
  "editing (telnet_size w h t) = editing t"
  by (simp_all add: telnet_size_def Let_def)

text \<open>The option states that an operation leaves, as a function of those it found.\<close>

definition request_fun :: "optindex \<Rightarrow> (optindex \<Rightarrow> opt_state) \<Rightarrow> optindex \<Rightarrow> opt_state" where
  "request_fun i f = (if f i = INACTIVE then f(i := REQUESTED) else f)"

lemma opt_states_request:
  "opt_states (request_if_inactive opt t) = request_fun (o_index opt) (opt_states t)"
  "echoing (request_if_inactive opt t) = echoing t" "editing (request_if_inactive opt t) = editing t"
  by (simp_all add: request_if_inactive_def request_fun_def)

lemma opts_ok_request: "opts_ok (request_fun i f) echo edit = opts_ok f echo edit"
proof -
  have iff: "request_fun i f j = ACTIVE \<longleftrightarrow> f j = ACTIVE"
    "request_fun i f j = REALLY_INACTIVE \<longleftrightarrow> f j = REALLY_INACTIVE" for j
    by (auto simp: request_fun_def)
  show ?thesis by (simp only: opts_ok_def iff)
qed

lemma options_inv_request: "options_inv (request_if_inactive opt t) = options_inv t"
  by (simp only: options_inv_def opt_states_request opts_ok_request)

lemma options_inv_activated: "options_inv (t\<lparr>activated := e\<rparr>) = options_inv t"
  by (simp add: options_inv_def)

lemma options_inv_minimum: "options_inv (ensure_minimum_options t) \<longleftrightarrow> options_inv t"
  unfolding ensure_minimum_options_def
  by (simp only: if_distrib [of options_inv] options_inv_activated options_inv_request if_cancel)

lemma options_inv_side_effects:
  "options_inv (option_side_effects opt e t) \<longleftrightarrow> options_inv (set_echo_edit opt e t)"
  unfolding option_side_effects_def options_inv_minimum
  by (rule options_inv_cong) (simp_all add: ldisc_echoedit_update_def)

lemmas opt_table = opts_def o_naws_def o_tspeed_def o_ttype_def o_oenv_def o_nenv_def o_echo_def
  o_we_sga_def o_they_sga_def o_we_bin_def o_they_bin_def

lemma frame_deactivate [simp]:
  "opt_states (deactivate_option opt t) = (opt_states t)(o_index opt := REALLY_INACTIVE)"
  "echoing (deactivate_option opt t) = echoing t" "editing (deactivate_option opt t) = editing t"
  by (simp_all add: deactivate_option_def)

lemma set_echo_edit_fields:
  "opt_states (set_echo_edit opt e t) = opt_states t"
  "echoing (set_echo_edit opt e t) = (if o_index opt = OPTINDEX_ECHO then \<not> e else echoing t)"
  "editing (set_echo_edit opt e t) = (if o_index opt = OPTINDEX_THEY_SGA then \<not> e else editing t)"
  if "opt \<in> set opts"
  using that by (auto simp: set_echo_edit_def opt_table)

lemma options_inv_effects:
  assumes "opt \<in> set opts"
  shows "options_inv (option_side_effects opt e t) \<longleftrightarrow>
    opts_ok (opt_states t) (if o_index opt = OPTINDEX_ECHO then \<not> e else echoing t)
      (if o_index opt = OPTINDEX_THEY_SGA then \<not> e else editing t)"
  unfolding options_inv_side_effects unfolding options_inv_def set_echo_edit_fields [OF assms] ..

text \<open>Which options \<^verbatim>\<open>activate_option\<close> and \<^verbatim>\<open>refused_option\<close> treat specially.\<close>

lemma opt_kinds:
  assumes "opt \<in> set opts"
  shows "o_send opt = WILL \<and> o_option opt = TELOPT_NEW_ENVIRON \<longleftrightarrow> o_index opt = OPTINDEX_NENV"
    and "o_send opt = WILL \<and> o_option opt = TELOPT_OLD_ENVIRON \<longleftrightarrow> o_index opt = OPTINDEX_OENV"
    and "o_index opt = OPTINDEX_OENV \<Longrightarrow> o_option opt \<noteq> TELOPT_NEW_ENVIRON"
  using assms by (auto simp: opt_table)

definition exclude :: "optindex \<Rightarrow> (optindex \<Rightarrow> opt_state) \<Rightarrow> optindex \<Rightarrow> opt_state" where
  "exclude i f =
     (if i = OPTINDEX_NENV then f(OPTINDEX_OENV := REALLY_INACTIVE)
      else if i = OPTINDEX_OENV then f(OPTINDEX_NENV := REALLY_INACTIVE) else f)"

lemma opts_ok_activate:
  assumes "opts_ok f echo edit" and "f i \<noteq> REALLY_INACTIVE"
  shows "opts_ok (exclude i (f(i := ACTIVE))) (if i = OPTINDEX_ECHO then \<not> True else echo)
    (if i = OPTINDEX_THEY_SGA then \<not> True else edit)"
  using assms by (cases i) (auto simp: opts_ok_def exclude_def)

lemma opts_ok_deactivate:
  assumes "opts_ok f echo edit" and "f i \<noteq> REALLY_INACTIVE"
  shows "opts_ok (f(i := INACTIVE)) (if i = OPTINDEX_ECHO then \<not> False else echo)
    (if i = OPTINDEX_THEY_SGA then \<not> False else edit)"
  using assms by (cases i) (auto simp: opts_ok_def)

lemma environ_index [simp]: "o_index o_oenv = OPTINDEX_OENV" "o_index o_nenv = OPTINDEX_NENV"
  by (simp_all add: opt_table)

text \<open>The state in which \<^verbatim>\<open>activate_option\<close> reaches the side effects.\<close>

lemma activate_split:
  assumes "opt \<in> set opts"
  shows "\<exists>t1. activate_option opt t = option_side_effects opt True t1 \<and>
    opt_states t1 = exclude (o_index opt) (opt_states t) \<and> echoing t1 = echoing t \<and> editing t1 = editing t"
proof -
  define t0 where "t0 = (if o_send opt = WILL \<and> o_option opt = TELOPT_NAWS
    then telnet_size (term_width t) (term_height t) t else t)"
  have t0: "opt_states t0 = opt_states t" "echoing t0 = echoing t" "editing t0 = editing t"
    by (simp_all add: t0_def)
  note kinds = opt_kinds [OF assms]
  have unf: "activate_option opt t = option_side_effects opt True
      (if o_send opt = WILL \<and> (o_option opt = TELOPT_NEW_ENVIRON \<or> o_option opt = TELOPT_OLD_ENVIRON)
       then deactivate_option (if o_option opt = TELOPT_NEW_ENVIRON then o_oenv else o_nenv) t0 else t0)"
    by (simp only: activate_option_def Let_def t0_def)
  consider (nenv) "o_index opt = OPTINDEX_NENV" | (oenv) "o_index opt = OPTINDEX_OENV"
    | (other) "o_index opt \<noteq> OPTINDEX_NENV" "o_index opt \<noteq> OPTINDEX_OENV" by blast
  then show ?thesis
  proof cases
    case nenv
    with kinds t0 show ?thesis
      by (intro exI [of _ "deactivate_option o_oenv t0"]) (simp add: unf exclude_def)
  next
    case oenv
    with kinds t0 show ?thesis
      by (intro exI [of _ "deactivate_option o_nenv t0"]) (simp add: unf exclude_def)
  next
    case other
    with kinds t0 show ?thesis
      by (intro exI [of _ t0]) (auto simp: unf exclude_def)
  qed
qed

lemma options_inv_acked:
  assumes "opt \<in> set opts" and "options_inv t"
  shows "options_inv (opt_acked opt option t)"
proof (cases "opt_states t (o_index opt) \<in> {REQUESTED, INACTIVE}")
  case True
  then obtain t' where t': "opt_acked opt option t = activate_option opt t'"
    "opt_states t' = (opt_states t)(o_index opt := ACTIVE)" "echoing t' = echoing t" "editing t' = editing t"
    by (auto simp: opt_acked_def)
  obtain t1 where "activate_option opt t' = option_side_effects opt True t1"
    "opt_states t1 = exclude (o_index opt) (opt_states t')" "echoing t1 = echoing t'" "editing t1 = editing t'"
    using activate_split [OF assms(1)] by blast
  moreover have "opt_states t (o_index opt) \<noteq> REALLY_INACTIVE" using True by auto
  ultimately show ?thesis
    using t' opts_ok_activate [OF assms(2) [unfolded options_inv_def]]
    by (simp only: options_inv_effects [OF assms(1)])
next
  case False
  then have "opt_acked opt option t \<in> {t, send_opt (o_nsend opt) option t}"
    by (cases "opt_states t (o_index opt)") (auto simp: opt_acked_def)
  with assms(2) show ?thesis by (auto simp: options_inv_def)
qed

text \<open>The state in which a refusal reaches the side effects.\<close>

lemma refused_split:
  "\<exists>t1. refused_option opt t = option_side_effects opt False t1 \<and>
    opt_states t1 \<in> {opt_states t, request_fun OPTINDEX_OENV (opt_states t)} \<and>
    echoing t1 = echoing t \<and> editing t1 = editing t"
  unfolding refused_option_def Let_def by (rule exI, rule conjI, rule refl) (auto simp: request_fun_def)

lemma options_inv_naked:
  assumes "opt \<in> set opts" and "options_inv t"
  shows "options_inv (opt_naked opt option t)"
proof (cases "opt_states t (o_index opt)")
  case REQUESTED
  let ?t = "set_opt (o_index opt) INACTIVE t"
  obtain t1 where t1: "refused_option opt ?t = option_side_effects opt False t1"
    "opt_states t1 \<in> {opt_states ?t, request_fun OPTINDEX_OENV (opt_states ?t)}"
    "echoing t1 = echoing t" "editing t1 = editing t"
    using refused_split [of opt ?t] by auto
  have ok: "opts_ok (opt_states ?t) (if o_index opt = OPTINDEX_ECHO then \<not> False else echoing t)
      (if o_index opt = OPTINDEX_THEY_SGA then \<not> False else editing t)"
    using REQUESTED opts_ok_deactivate [OF assms(2) [unfolded options_inv_def], of "o_index opt"] by simp
  have "opt_naked opt option t = refused_option opt ?t"
    using REQUESTED by (simp add: opt_naked_def)
  then show ?thesis
    unfolding t1(1) using ok t1(2)
    by (auto simp only: options_inv_effects [OF assms(1)] t1(3,4) opts_ok_request insert_iff empty_iff)
next
  case ACTIVE
  then show ?thesis
    using opts_ok_deactivate [OF assms(2) [unfolded options_inv_def], of "o_index opt"]
    by (simp add: opt_naked_def options_inv_effects [OF assms(1)] split: if_splits del: fun_upd_apply)
qed (use assms(2) in \<open>simp_all add: opt_naked_def\<close>)

lemma options_inv_rec_opt: "set os \<subseteq> set opts \<Longrightarrow> options_inv t \<Longrightarrow> options_inv (rec_opt_loop os cmd option t)"
  by (induction os) (auto simp: options_inv_acked options_inv_naked options_inv_def
      intro: options_inv_acked [unfolded options_inv_def] options_inv_naked [unfolded options_inv_def])

lemma frame_process_subneg:
  "process_subneg t = Some t' \<Longrightarrow>
   opt_states t' = opt_states t \<and> echoing t' = echoing t \<and> editing t' = editing t"
  by (auto simp: process_subneg_def sk_write_from_def Let_def split: if_splits list.splits)

lemma options_inv_updates [simp]:
  "options_inv (t\<lparr>tn_state := x\<rparr>) = options_inv t" "options_inv (t\<lparr>in_synch := y\<rparr>) = options_inv t"
  "options_inv (t\<lparr>sb_opt := c\<rparr>) = options_inv t" "options_inv (t\<lparr>sb_buf := b\<rparr>) = options_inv t"
  "options_inv (t\<lparr>session_started := y\<rparr>) = options_inv t" "options_inv (tn_emit e t) = options_inv t"
  "options_inv (sk_write b t) = options_inv t"
  by (simp_all add: options_inv_def)

lemma options_inv_read_byte:
  assumes "options_inv t" and "read_byte c (t, outbuf) = Some (t', out')"
  shows "options_inv t'"
proof -
  have rec: "options_inv (proc_rec_opt cmd c t)" for cmd
    unfolding proc_rec_opt_def by (rule options_inv_rec_opt [OF subset_refl assms(1)])
  have sub: "options_inv t1" if "process_subneg t = Some t1" for t1
    using frame_process_subneg [OF that] assms(1) by (simp add: options_inv_def)
  show ?thesis
    using assms rec sub
    by (cases "tn_state t")
      (auto simp: read_byte_def read_data_def read_iac_def subneg_addchar_def Let_def split: if_splits)
qed

lemma options_inv_c_write [simp]: "options_inv (c_write b t) = options_inv t"
  by (simp add: c_write_def Let_def)

lemma options_inv_read_loop:
  "read_loop buf (t, outbuf) = Some (t', out') \<Longrightarrow> options_inv t \<Longrightarrow> options_inv t'"
proof (induction buf arbitrary: t outbuf)
  case (Cons c buf)
  then obtain t1 o1 where 1: "read_byte c (t, outbuf) = Some (t1, o1)"
    "read_loop buf (flush_full (t1, o1)) = Some (t', out')"
    by (auto simp: bind_eq_Some_conv)
  from options_inv_read_byte [OF Cons.prems(2) 1(1)] have "options_inv t1" .
  then have "options_inv (fst (flush_full (t1, o1)))" by (simp add: flush_full_def)
  with 1(2) show ?case using Cons.IH by (metis prod.collapse)
qed simp

lemma options_inv_receive:
  "telnet_receive urgent data t = Some t' \<Longrightarrow> options_inv t \<Longrightarrow> options_inv t'"
  by (auto simp: telnet_receive_def do_telnet_read_def Let_def split: if_splits
      dest!: options_inv_read_loop)

lemma options_inv_write_escapes [simp]: "options_inv (write_escapes u t) = options_inv t"
  by (induction u arbitrary: t) auto

lemma options_inv_send_loop: "options_inv (send_loop buf t) = options_inv t"
  by (induction buf t rule: send_loop.induct)
    (subst send_loop.simps, simp add: Let_def)

lemma opt_states_effects:
  "opt_states t i = ACTIVE \<Longrightarrow> opt_states (option_side_effects opt e t) i = ACTIVE"
  by (auto simp: option_side_effects_def ensure_minimum_options_def opt_states_request request_fun_def
      ldisc_echoedit_update_def set_echo_edit_def)

lemma tn_state_init_opt [simp]: "tn_state (init_opt opt t) = tn_state t"
  by (simp add: init_opt_def set_opt_def send_opt_def sk_write_def tn_emit_def Let_def)

lemma frame_init_opt:
  "opt_states (init_opt opt t) = (opt_states t)(o_index opt := o_initial opt)"
  "echoing (init_opt opt t) = echoing t" "editing (init_opt opt t) = editing t"
  by (simp_all add: init_opt_def Let_def)

lemma options_inv_init:
  assumes "telnet_init mem cf None None = Return t"
  shows "options_inv t"
proof -
  have all: "(\<forall>i. P i) \<longleftrightarrow> P OPTINDEX_NAWS \<and> P OPTINDEX_TSPEED \<and> P OPTINDEX_TTYPE \<and> P OPTINDEX_OENV \<and>
      P OPTINDEX_NENV \<and> P OPTINDEX_ECHO \<and> P OPTINDEX_WE_SGA \<and> P OPTINDEX_THEY_SGA \<and> P OPTINDEX_WE_BIN \<and>
      P OPTINDEX_THEY_BIN" for P
    by (metis optindex.exhaust)
  show ?thesis
    using assms
    by (auto simp: telnet_init_def Let_def options_inv_def opts_ok_def opt_table frame_init_opt all
        split: if_splits)
qed

section \<open>Replies to subnegotiations\<close>

text \<open>What the other end's parser makes of a subnegotiation whose payload has no \<^verbatim>\<open>IAC\<close> byte.\<close>

lemma read_loop_payload:
  assumes "IAC \<notin> set p" and "tn_state t = SUBNEGOT"
  shows "map_option view (read_loop p (t, outbuf)) = Some (view (t\<lparr>sb_buf := sb_buf t @ p\<rparr>, outbuf))"
  using assms
proof (induction p arbitrary: t)
  case (Cons c p)
  have "read_byte c (t, outbuf) = Some (t\<lparr>sb_buf := sb_buf t @ [c]\<rparr>, outbuf)"
    using Cons.prems by (simp add: read_byte_def subneg_addchar_def same_state)
  with Cons.IH [of "t\<lparr>sb_buf := sb_buf t @ [c]\<rparr>"] Cons.prems show ?case
    by (simp add: read_loop_unflushed del: read_loop.simps(2))
qed simp

lemma reply_ignored: "sb_buf t = TELQUAL_IS # b \<Longrightarrow> process_subneg t = Some t"
  by (simp add: process_subneg_def)

lemma read_loop_subneg:
  assumes "tn_state t = TOP_LEVEL" and "IAC \<notin> set b"
  shows "map_option view (read_loop ([IAC, SB, q] @ (TELQUAL_IS # b) @ [IAC, SE]) (t, out)) =
    Some (view (t\<lparr>sb_opt := q, sb_buf := TELQUAL_IS # b\<rparr>, out))"
proof -
  let ?t1 = "t\<lparr>sb_opt := q, sb_buf := [], tn_state := SUBNEGOT\<rparr>"
  let ?t2 = "?t1\<lparr>sb_buf := TELQUAL_IS # b\<rparr>"
  have "map_option view (read_loop [IAC, SB, q] (t, out)) = Some (view (?t1, out))"
    using assms(1)
    by (simp add: read_loop_unflushed read_byte_def read_data_def read_iac_def Let_def del: read_loop.simps(2))
  then obtain st1 where st1: "read_loop [IAC, SB, q] (t, out) = Some st1" "view st1 = view (?t1, out)"
    by auto
  have "map_option view (read_loop (TELQUAL_IS # b) (?t1, out)) = Some (view (?t2, out))"
    using read_loop_payload [of "TELQUAL_IS # b" ?t1 out] assms(2) by simp
  then obtain st2 where st2: "read_loop (TELQUAL_IS # b) st1 = Some st2" "view st2 = view (?t2, out)"
    using read_loop_cong [OF st1(2), of "TELQUAL_IS # b"] by auto
  have "map_option view (read_loop [IAC, SE] (?t2, out)) =
      Some (view (t\<lparr>sb_opt := q, sb_buf := TELQUAL_IS # b\<rparr>, out))"
    using assms(1)
    by (simp add: read_loop_unflushed read_byte_def reply_ignored same_state del: read_loop.simps(2))
  with read_loop_cong [OF st2(2), of "[IAC, SE]"] st1(1) st2(1) show ?thesis
    by (simp only: read_loop_append bind.bind_lunit)
qed

section \<open>The properties\<close>

text \<open>A configuration and a session over a connected socket, for the examples.\<close>

definition example_conf :: telnet_conf where
  "example_conf = \<lparr>CONF_termspeed = [51, 56, 44, 51, 56], CONF_termtype = [120, 116], CONF_rfc_environ = False,
     CONF_environmt = [], CONF_passive_telnet = False, CONF_width = 80, CONF_height = 24,
     remote_username = None\<rparr>"

definition example_session :: Telnet where
  "example_session = \<lparr>tn_socket = True, closed_on_socket_error = False, ldisc = True, term_width = 80,
     term_height = 24, opt_states = (\<lambda>_. INACTIVE), echoing = True, editing = True, activated = True,
     bufsize = 0, in_synch = False, sb_opt = TELOPT_TTYPE, sb_buf = [TELQUAL_SEND], session_started = True,
     tn_state = TOP_LEVEL, tn_conf = example_conf, events = [], sk_backlog = (\<lambda>_. 0),
     seat_backlog = (\<lambda>_. 0)\<rparr>"

text \<open>
  C32. The telnet channel is transparent: whatever bytes the user sends, and however the network cuts
  the bytes on the wire into deliveries, a receiver that agrees with the sender on binary mode hands
  exactly these bytes to its terminal, and its parser and options are as they were. The only thing
  that changes is the bookkeeping of backlogs.
\<close>

theorem telnet_data_transparent:
  assumes "tn_socket s"
    and "wire_of (events (snd (telnet_send buf s))) = wire_of (events s) @ concat ds"
    and "tn_state r = TOP_LEVEL" and "\<not> in_synch r"
    and "opt_states r OPTINDEX_THEY_BIN = ACTIVE \<longleftrightarrow> opt_states s OPTINDEX_WE_BIN = ACTIVE"
  shows "\<exists>r'. receive_all ds r = Some r' \<and> stdout_of (events r') = stdout_of (events r) @ buf \<and>
    settled r' = settled r"
proof -
  have wire: "concat ds = nvt_escape (opt_states r OPTINDEX_THEY_BIN = ACTIVE) buf"
    using assms(1,2,5) by (simp add: telnet_send_def Let_def wire_send_loop)
  have "map_option (\<lambda>t. view (t, [])) (receive_all ds r) = Some (view (r, buf))"
    unfolding receive_all_view wire using read_loop_nvt_escape [OF assms(3,4) refl, of buf "[]"] by simp
  then show ?thesis by (auto simp: view_def)
qed

theorem telnet_data_transparent_witness:
  "\<exists>r'. receive_all [[65, 13], [0, 255], [255, 10]] example_session = Some r' \<and>
     stdout_of (events r') = stdout_of (events example_session) @ [65, 13, 255, 10] \<and>
     settled r' = settled example_session"
  by (rule telnet_data_transparent [of example_session])
    (simp_all add: example_session_def telnet_send_def Let_def wire_send_loop nvt_char_def)

text \<open>
  C34. How the incoming bytes are cut into calls does not matter, for any bytes and in any state of the
  parser, commands and subnegotiations included: one call with all of them and a call for each piece
  both succeed, write the same bytes to the terminal, send the same replies and leave the same state.
\<close>

theorem telnet_fragmentation:
  "\<exists>t1 t2. receive_all (d # ds) t = Some t1 \<and> telnet_receive False (concat (d # ds)) t = Some t2 \<and>
     settled t1 = settled t2 \<and> stdout_of (events t1) = stdout_of (events t2)"
proof -
  obtain st where st: "read_loop (concat (d # ds)) (t, []) = Some st" using read_loop_total by blast
  obtain t1 where "receive_all (d # ds) t = Some t1" "view (t1, []) = view st"
    using receive_all_view [of "d # ds" t] st by fastforce
  moreover obtain t2 where "telnet_receive False (concat (d # ds)) t = Some t2" "view (t2, []) = view st"
    using telnet_receive_view [of "concat (d # ds)" t] st by fastforce
  ultimately show ?thesis by (cases st) (auto simp: view_def)
qed

text \<open>
  C33. In every state the session can reach, by any sequence of deliveries, sends, resizes, special
  commands and reconfigurations, the options are consistent: at most one of the two environment
  options is in effect and then the other is ruled out for good, and the flags for local echo and
  local editing are set exactly while the server has not taken these over.
\<close>

theorem telnet_options_consistent:
  assumes "telnet_reachable t"
  shows "\<not> (opt_states t OPTINDEX_OENV = ACTIVE \<and> opt_states t OPTINDEX_NENV = ACTIVE) \<and>
    (telnet_ldisc t LD_ECHO \<longleftrightarrow> opt_states t OPTINDEX_ECHO \<noteq> ACTIVE) \<and>
    (telnet_ldisc t LD_EDIT \<longleftrightarrow> opt_states t OPTINDEX_THEY_SGA \<noteq> ACTIVE) \<and>
    (\<forall>i. opt_states t i \<noteq> REALLY_INACTIVE \<or> i = OPTINDEX_OENV \<or> i = OPTINDEX_NENV)"
proof -
  from assms have "options_inv t"
  proof induction
    case (special t code)
    then show ?case
      by (cases code) (simp_all add: telnet_special_def sk_write_oob_def options_inv_def)
  next
    case (closing t error_msg)
    then show ?case by (simp add: telnet_closing_def Let_def options_inv_def)
  next
    case (send t buf)
    then show ?case by (simp add: telnet_send_def Let_def options_inv_send_loop)
  next
    case (init mem cf t)
    then show ?case by (rule options_inv_init)
  next
    case (receive t urgent data t')
    then show ?case by (blast intro: options_inv_receive)
  qed (simp_all add: telnet_sent_def telnet_reconfig_def telnet_unthrottle_def telnet_provide_ldisc_def
      options_inv_def)
  then show ?thesis by (auto simp: options_inv_def opts_ok_def telnet_ldisc_def)
qed

text \<open>A session in which the server has asked for the new environment option.\<close>

theorem telnet_options_consistent_witness:
  "\<exists>t t'. telnet_init example_session example_conf None None = Return t \<and>
     telnet_receive False [IAC, DO, TELOPT_NEW_ENVIRON] t = Some t' \<and>
     opt_states t' OPTINDEX_NENV = ACTIVE \<and> opt_states t' OPTINDEX_OENV \<noteq> ACTIVE"
proof -
  obtain t where t: "telnet_init example_session example_conf None None = Return t"
    by (simp add: telnet_init_def Let_def)
  obtain t' where t': "telnet_receive False [IAC, DO, TELOPT_NEW_ENVIRON] t = Some t'"
    using do_telnet_read_total by (auto simp: telnet_receive_def)
  have start: "tn_state t = TOP_LEVEL" "opt_states t OPTINDEX_NENV = REQUESTED"
    using t by (auto simp: telnet_init_def Let_def example_conf_def opt_table frame_init_opt)
  obtain t1 where t1: "activate_option o_nenv (set_opt OPTINDEX_NENV ACTIVE (t\<lparr>session_started := True,
      tn_state := SEENDO\<rparr>)) = option_side_effects o_nenv True t1" "opt_states t1 OPTINDEX_NENV = ACTIVE"
    using activate_split [of o_nenv "set_opt OPTINDEX_NENV ACTIVE (t\<lparr>session_started := True, tn_state := SEENDO\<rparr>)"]
    by (auto simp: opt_table exclude_def)
  have "t' = (option_side_effects o_nenv True t1)\<lparr>tn_state := TOP_LEVEL\<rparr>"
    using t' start t1(1)
    by (auto simp: telnet_receive_def do_telnet_read_def read_byte_def read_data_def read_iac_def flush_full_def
        proc_rec_opt_def opt_acked_def opt_table Let_def)
  then have "opt_states t' OPTINDEX_NENV = ACTIVE"
    using t1(2) by (simp add: opt_states_effects)
  moreover have "telnet_reachable t'" by (rule telnet_reachable.receive [OF telnet_reachable.init [OF t] t'])
  ultimately show ?thesis using t t' telnet_options_consistent [of t'] by auto
qed

text \<open>
  C35. Reading always finishes and never overflows a buffer: every delivery, urgent or not, in every
  state gives a new state, so the replies to subnegotiations fit the buffers that are allocated for
  them; and the window size message fits its 24 bytes.
\<close>

theorem telnet_receive_total:
  "(\<exists>t'. telnet_receive urgent data t = Some t') \<and> length (naws_message w h) \<le> 24"
  using do_telnet_read_total by (simp add: telnet_receive_def naws_message_def naws_byte_def)

text \<open>
  The answer to a request for the terminal type or the terminal speed reaches the server: if the
  configured string has no byte 255, the bytes that a request makes the client send, delivered to a
  parser of the same protocol, leave there exactly the string (the type in upper case) as the
  subnegotiation's contents, with nothing written to the terminal. (The code does not double bytes
  255 in these strings, as the protocol requires.)
\<close>

theorem telnet_reply_received:
  assumes "sb_opt s = TELOPT_TTYPE \<or> sb_opt s = TELOPT_TSPEED" and "sb_buf s = [TELQUAL_SEND]"
    and "str = (if sb_opt s = TELOPT_TTYPE then map upcase (CONF_termtype (tn_conf s)) else CONF_termspeed (tn_conf s))"
    and "IAC \<notin> set str" and "tn_state r = TOP_LEVEL"
    and "process_subneg s = Some s'" and "wire_of (events s') = wire_of (events s) @ concat ds"
  shows "\<exists>r'. receive_all ds r = Some r' \<and> stdout_of (events r') = stdout_of (events r) \<and>
    settled r' = settled (r\<lparr>sb_opt := sb_opt s, sb_buf := TELQUAL_IS # str\<rparr>)"
proof -
  have wire: "concat ds = [IAC, SB, sb_opt s] @ (TELQUAL_IS # str) @ [IAC, SE]"
    using assms(1-3,6,7) by (auto simp: process_subneg_def sk_write_from_def Let_def)
  have "map_option (\<lambda>t. view (t, [])) (receive_all ds r) =
      Some (view (r\<lparr>sb_opt := sb_opt s, sb_buf := TELQUAL_IS # str\<rparr>, []))"
    unfolding receive_all_view wire by (rule read_loop_subneg [OF assms(5,4)])
  then show ?thesis by (auto simp: view_def)
qed

theorem telnet_reply_received_witness:
  "\<exists>r'. receive_all [[IAC, SB, TELOPT_TTYPE, TELQUAL_IS, 88], [84, IAC], [SE]] example_session = Some r' \<and>
     stdout_of (events r') = stdout_of (events example_session) \<and>
     settled r' = settled (example_session\<lparr>sb_opt := sb_opt example_session, sb_buf := TELQUAL_IS # [88, 84]\<rparr>)"
  by (rule telnet_reply_received [where s' = "the (process_subneg example_session)"])
    (simp_all add: example_session_def example_conf_def process_subneg_def sk_write_from_def upcase_def Let_def)

end
