(* ===== verification/WcWidth.thy ===== *)
theory WcWidth
  imports Main
begin

text \<open>
  Column widths of Unicode characters (\<^verbatim>\<open>src/ext/TortoisePlink/wcwidth.c\<close>): binary search in
  sorted interval tables, proved to be membership, and the width of a string. Code points are
  natural numbers. Reading an array element that does not exist is \<open>None\<close>.
\<close>

type_synonym interval = "nat \<times> nat"

section \<open>Binary search\<close>

text \<open>The loop on \<open>min\<close> and \<open>max\<close>, which are signed in the source.\<close>

function bisearch_loop :: "nat \<Rightarrow> interval list \<Rightarrow> int \<Rightarrow> int \<Rightarrow> bool" where
  "bisearch_loop ucs table lo hi =
     (if hi \<ge> lo
      then
        (let mid = (lo + hi) div 2 in
         if ucs > snd (table ! nat mid) then bisearch_loop ucs table (mid + 1) hi
         else if ucs < fst (table ! nat mid) then bisearch_loop ucs table lo (mid - 1)
         else True)
      else False)"
  by pat_completeness auto
termination
  by (relation "measure (\<lambda>(ucs, table, lo, hi). nat (hi + 1 - lo))") auto

declare bisearch_loop.simps [simp del]

definition bisearch :: "nat \<Rightarrow> interval list \<Rightarrow> int \<Rightarrow> bool" where
  "bisearch ucs table hi =
     (if ucs < fst (table ! 0) \<or> ucs > snd (table ! nat hi) then False
      else bisearch_loop ucs table 0 hi)"

section \<open>The tables\<close>

definition combining :: "interval list" where
  "combining = [
     (0x0300, 0x036F), (0x0483, 0x0486), (0x0488, 0x0489), (0x0591, 0x05BD), (0x05BF, 0x05BF),
     (0x05C1, 0x05C2), (0x05C4, 0x05C5), (0x05C7, 0x05C7), (0x0600, 0x0603), (0x0610, 0x0615),
     (0x064B, 0x065E), (0x0670, 0x0670), (0x06D6, 0x06E4), (0x06E7, 0x06E8), (0x06EA, 0x06ED),
     (0x070F, 0x070F), (0x0711, 0x0711), (0x0730, 0x074A), (0x07A6, 0x07B0), (0x07EB, 0x07F3),
     (0x0901, 0x0902), (0x093C, 0x093C), (0x0941, 0x0948), (0x094D, 0x094D), (0x0951, 0x0954),
     (0x0962, 0x0963), (0x0981, 0x0981), (0x09BC, 0x09BC), (0x09C1, 0x09C4), (0x09CD, 0x09CD),
     (0x09E2, 0x09E3), (0x0A01, 0x0A02), (0x0A3C, 0x0A3C), (0x0A41, 0x0A42), (0x0A47, 0x0A48),
     (0x0A4B, 0x0A4D), (0x0A70, 0x0A71), (0x0A81, 0x0A82), (0x0ABC, 0x0ABC), (0x0AC1, 0x0AC5),
     (0x0AC7, 0x0AC8), (0x0ACD, 0x0ACD), (0x0AE2, 0x0AE3), (0x0B01, 0x0B01), (0x0B3C, 0x0B3C),
     (0x0B3F, 0x0B3F), (0x0B41, 0x0B43), (0x0B4D, 0x0B4D), (0x0B56, 0x0B56), (0x0B82, 0x0B82),
     (0x0BC0, 0x0BC0), (0x0BCD, 0x0BCD), (0x0C3E, 0x0C40), (0x0C46, 0x0C48), (0x0C4A, 0x0C4D),
     (0x0C55, 0x0C56), (0x0CBC, 0x0CBC), (0x0CBF, 0x0CBF), (0x0CC6, 0x0CC6), (0x0CCC, 0x0CCD),
     (0x0CE2, 0x0CE3), (0x0D41, 0x0D43), (0x0D4D, 0x0D4D), (0x0DCA, 0x0DCA), (0x0DD2, 0x0DD4),
     (0x0DD6, 0x0DD6), (0x0E31, 0x0E31), (0x0E34, 0x0E3A), (0x0E47, 0x0E4E), (0x0EB1, 0x0EB1),
     (0x0EB4, 0x0EB9), (0x0EBB, 0x0EBC), (0x0EC8, 0x0ECD), (0x0F18, 0x0F19), (0x0F35, 0x0F35),
     (0x0F37, 0x0F37), (0x0F39, 0x0F39), (0x0F71, 0x0F7E), (0x0F80, 0x0F84), (0x0F86, 0x0F87),
     (0x0F90, 0x0F97), (0x0F99, 0x0FBC), (0x0FC6, 0x0FC6), (0x102D, 0x1030), (0x1032, 0x1032),
     (0x1036, 0x1037), (0x1039, 0x1039), (0x1058, 0x1059), (0x1160, 0x11FF), (0x135F, 0x135F),
     (0x1712, 0x1714), (0x1732, 0x1734), (0x1752, 0x1753), (0x1772, 0x1773), (0x17B4, 0x17B5),
     (0x17B7, 0x17BD), (0x17C6, 0x17C6), (0x17C9, 0x17D3), (0x17DD, 0x17DD), (0x180B, 0x180D),
     (0x18A9, 0x18A9), (0x1920, 0x1922), (0x1927, 0x1928), (0x1932, 0x1932), (0x1939, 0x193B),
     (0x1A17, 0x1A18), (0x1B00, 0x1B03), (0x1B34, 0x1B34), (0x1B36, 0x1B3A), (0x1B3C, 0x1B3C),
     (0x1B42, 0x1B42), (0x1B6B, 0x1B73), (0x1DC0, 0x1DCA), (0x1DFE, 0x1DFF), (0x200B, 0x200F),
     (0x202A, 0x202E), (0x2060, 0x2063), (0x206A, 0x206F), (0x20D0, 0x20EF), (0x302A, 0x302F),
     (0x3099, 0x309A), (0xA806, 0xA806), (0xA80B, 0xA80B), (0xA825, 0xA826), (0xFB1E, 0xFB1E),
     (0xFE00, 0xFE0F), (0xFE20, 0xFE23), (0xFEFF, 0xFEFF), (0xFFF9, 0xFFFB), (0x10A01, 0x10A03),
     (0x10A05, 0x10A06), (0x10A0C, 0x10A0F), (0x10A38, 0x10A3A), (0x10A3F, 0x10A3F), (0x1D167, 0x1D169),
     (0x1D173, 0x1D182), (0x1D185, 0x1D18B), (0x1D1AA, 0x1D1AD), (0x1D242, 0x1D244), (0xE0001, 0xE0001),
     (0xE0020, 0xE007F), (0xE0100, 0xE01EF)]"

definition wide :: "interval list" where
  "wide = [
     (0x1100, 0x115F), (0x231A, 0x231B), (0x2329, 0x232A), (0x23E9, 0x23EC), (0x23F0, 0x23F0),
     (0x23F3, 0x23F3), (0x25FD, 0x25FE), (0x2614, 0x2615), (0x2648, 0x2653), (0x267F, 0x267F),
     (0x2693, 0x2693), (0x26A1, 0x26A1), (0x26AA, 0x26AB), (0x26BD, 0x26BE), (0x26C4, 0x26C5),
     (0x26CE, 0x26CE), (0x26D4, 0x26D4), (0x26EA, 0x26EA), (0x26F2, 0x26F3), (0x26F5, 0x26F5),
     (0x26FA, 0x26FA), (0x26FD, 0x26FD), (0x2705, 0x2705), (0x270A, 0x270B), (0x2728, 0x2728),
     (0x274C, 0x274C), (0x274E, 0x274E), (0x2753, 0x2755), (0x2757, 0x2757), (0x2795, 0x2797),
     (0x27B0, 0x27B0), (0x27BF, 0x27BF), (0x2B1B, 0x2B1C), (0x2B50, 0x2B50), (0x2B55, 0x2B55),
     (0x2E80, 0x2E99), (0x2E9B, 0x2EF3), (0x2F00, 0x2FD5), (0x2FF0, 0x2FFB), (0x3000, 0x303E),
     (0x3041, 0x3096), (0x3099, 0x30FF), (0x3105, 0x312D), (0x3131, 0x318E), (0x3190, 0x31BA),
     (0x31C0, 0x31E3), (0x31F0, 0x321E), (0x3220, 0x3247), (0x3250, 0x32FE), (0x3300, 0x4DBF),
     (0x4E00, 0xA48C), (0xA490, 0xA4C6), (0xA960, 0xA97C), (0xAC00, 0xD7A3), (0xF900, 0xFAFF),
     (0xFE10, 0xFE19), (0xFE30, 0xFE52), (0xFE54, 0xFE66), (0xFE68, 0xFE6B), (0xFF01, 0xFF60),
     (0xFFE0, 0xFFE6), (0x16FE0, 0x16FE0), (0x17000, 0x187EC), (0x18800, 0x18AF2), (0x1B000, 0x1B001),
     (0x1F004, 0x1F004), (0x1F0CF, 0x1F0CF), (0x1F18E, 0x1F18E), (0x1F191, 0x1F19A), (0x1F200, 0x1F202),
     (0x1F210, 0x1F23B), (0x1F240, 0x1F248), (0x1F250, 0x1F251), (0x1F300, 0x1F320), (0x1F32D, 0x1F335),
     (0x1F337, 0x1F37C), (0x1F37E, 0x1F393), (0x1F3A0, 0x1F3CA), (0x1F3CF, 0x1F3D3), (0x1F3E0, 0x1F3F0),
     (0x1F3F4, 0x1F3F4), (0x1F3F8, 0x1F43E), (0x1F440, 0x1F440), (0x1F442, 0x1F4FC), (0x1F4FF, 0x1F53D),
     (0x1F54B, 0x1F54E), (0x1F550, 0x1F567), (0x1F57A, 0x1F57A), (0x1F595, 0x1F596), (0x1F5A4, 0x1F5A4),
     (0x1F5FB, 0x1F64F), (0x1F680, 0x1F6C5), (0x1F6CC, 0x1F6CC), (0x1F6D0, 0x1F6D2), (0x1F6EB, 0x1F6EC),
     (0x1F6F4, 0x1F6F6), (0x1F910, 0x1F91E), (0x1F920, 0x1F927), (0x1F930, 0x1F930), (0x1F933, 0x1F93E),
     (0x1F940, 0x1F94B), (0x1F950, 0x1F95E), (0x1F980, 0x1F991), (0x1F9C0, 0x1F9C0), (0x20000, 0x2FFFD),
     (0x30000, 0x3FFFD)]"

definition ambiguous :: "interval list" where
  "ambiguous = [
     (0x00A1, 0x00A1), (0x00A4, 0x00A4), (0x00A7, 0x00A8), (0x00AA, 0x00AA), (0x00AD, 0x00AE),
     (0x00B0, 0x00B4), (0x00B6, 0x00BA), (0x00BC, 0x00BF), (0x00C6, 0x00C6), (0x00D0, 0x00D0),
     (0x00D7, 0x00D8), (0x00DE, 0x00E1), (0x00E6, 0x00E6), (0x00E8, 0x00EA), (0x00EC, 0x00ED),
     (0x00F0, 0x00F0), (0x00F2, 0x00F3), (0x00F7, 0x00FA), (0x00FC, 0x00FC), (0x00FE, 0x00FE),
     (0x0101, 0x0101), (0x0111, 0x0111), (0x0113, 0x0113), (0x011B, 0x011B), (0x0126, 0x0127),
     (0x012B, 0x012B), (0x0131, 0x0133), (0x0138, 0x0138), (0x013F, 0x0142), (0x0144, 0x0144),
     (0x0148, 0x014B), (0x014D, 0x014D), (0x0152, 0x0153), (0x0166, 0x0167), (0x016B, 0x016B),
     (0x01CE, 0x01CE), (0x01D0, 0x01D0), (0x01D2, 0x01D2), (0x01D4, 0x01D4), (0x01D6, 0x01D6),
     (0x01D8, 0x01D8), (0x01DA, 0x01DA), (0x01DC, 0x01DC), (0x0251, 0x0251), (0x0261, 0x0261),
     (0x02C4, 0x02C4), (0x02C7, 0x02C7), (0x02C9, 0x02CB), (0x02CD, 0x02CD), (0x02D0, 0x02D0),
     (0x02D8, 0x02DB), (0x02DD, 0x02DD), (0x02DF, 0x02DF), (0x0300, 0x036F), (0x0391, 0x03A1),
     (0x03A3, 0x03A9), (0x03B1, 0x03C1), (0x03C3, 0x03C9), (0x0401, 0x0401), (0x0410, 0x044F),
     (0x0451, 0x0451), (0x2010, 0x2010), (0x2013, 0x2016), (0x2018, 0x2019), (0x201C, 0x201D),
     (0x2020, 0x2022), (0x2024, 0x2027), (0x2030, 0x2030), (0x2032, 0x2033), (0x2035, 0x2035),
     (0x203B, 0x203B), (0x203E, 0x203E), (0x2074, 0x2074), (0x207F, 0x207F), (0x2081, 0x2084),
     (0x20AC, 0x20AC), (0x2103, 0x2103), (0x2105, 0x2105), (0x2109, 0x2109), (0x2113, 0x2113),
     (0x2116, 0x2116), (0x2121, 0x2122), (0x2126, 0x2126), (0x212B, 0x212B), (0x2153, 0x2154),
     (0x215B, 0x215E), (0x2160, 0x216B), (0x2170, 0x2179), (0x2189, 0x2189), (0x2190, 0x2199),
     (0x21B8, 0x21B9), (0x21D2, 0x21D2), (0x21D4, 0x21D4), (0x21E7, 0x21E7), (0x2200, 0x2200),
     (0x2202, 0x2203), (0x2207, 0x2208), (0x220B, 0x220B), (0x220F, 0x220F), (0x2211, 0x2211),
     (0x2215, 0x2215), (0x221A, 0x221A), (0x221D, 0x2220), (0x2223, 0x2223), (0x2225, 0x2225),
     (0x2227, 0x222C), (0x222E, 0x222E), (0x2234, 0x2237), (0x223C, 0x223D), (0x2248, 0x2248),
     (0x224C, 0x224C), (0x2252, 0x2252), (0x2260, 0x2261), (0x2264, 0x2267), (0x226A, 0x226B),
     (0x226E, 0x226F), (0x2282, 0x2283), (0x2286, 0x2287), (0x2295, 0x2295), (0x2299, 0x2299),
     (0x22A5, 0x22A5), (0x22BF, 0x22BF), (0x2312, 0x2312), (0x2460, 0x24E9), (0x24EB, 0x254B),
     (0x2550, 0x2573), (0x2580, 0x258F), (0x2592, 0x2595), (0x25A0, 0x25A1), (0x25A3, 0x25A9),
     (0x25B2, 0x25B3), (0x25B6, 0x25B7), (0x25BC, 0x25BD), (0x25C0, 0x25C1), (0x25C6, 0x25C8),
     (0x25CB, 0x25CB), (0x25CE, 0x25D1), (0x25E2, 0x25E5), (0x25EF, 0x25EF), (0x2605, 0x2606),
     (0x2609, 0x2609), (0x260E, 0x260F), (0x261C, 0x261C), (0x261E, 0x261E), (0x2640, 0x2640),
     (0x2642, 0x2642), (0x2660, 0x2661), (0x2663, 0x2665), (0x2667, 0x266A), (0x266C, 0x266D),
     (0x266F, 0x266F), (0x269E, 0x269F), (0x26BF, 0x26BF), (0x26C6, 0x26CD), (0x26CF, 0x26D3),
     (0x26D5, 0x26E1), (0x26E3, 0x26E3), (0x26E8, 0x26E9), (0x26EB, 0x26F1), (0x26F4, 0x26F4),
     (0x26F6, 0x26F9), (0x26FB, 0x26FC), (0x26FE, 0x26FF), (0x273D, 0x273D), (0x2776, 0x277F),
     (0x2B56, 0x2B59), (0x3248, 0x324F), (0xE000, 0xF8FF), (0xFE00, 0xFE0F), (0xFFFD, 0xFFFD),
     (0x1F100, 0x1F10A), (0x1F110, 0x1F12D), (0x1F130, 0x1F169), (0x1F170, 0x1F18D), (0x1F18F, 0x1F190),
     (0x1F19B, 0x1F1AC), (0xE0100, 0xE01EF), (0xF0000, 0xFFFFD), (0x100000, 0x10FFFD)]"

section \<open>Widths\<close>

definition mk_wcwidth :: "nat \<Rightarrow> int" where
  "mk_wcwidth ucs =
     (if ucs = 0 then 0
      else if ucs < 32 \<or> (ucs \<ge> 0x7f \<and> ucs < 0xa0) then -1
      else if bisearch ucs combining (int (length combining) - 1) then 0
      else if bisearch ucs wide (int (length wide) - 1) then 2
      else 1)"

definition mk_wcwidth_cjk :: "nat \<Rightarrow> int" where
  "mk_wcwidth_cjk ucs =
     (if bisearch ucs ambiguous (int (length ambiguous) - 1) then 2 else mk_wcwidth ucs)"

text \<open>
  \<^verbatim>\<open>for (;*pwcs && n-- > 0; pwcs++)\<close>: the character is read before the count is tested.
\<close>

fun wcswidth_loop :: "(nat \<Rightarrow> int) \<Rightarrow> nat list \<Rightarrow> nat \<Rightarrow> int \<Rightarrow> int option" where
  "wcswidth_loop f [] n width = None"
| "wcswidth_loop f (c # pwcs) n width =
     (if c = 0 \<or> n = 0 then Some width
      else (let w = f c in if w < 0 then Some (-1) else wcswidth_loop f pwcs (n - 1) (width + w)))"

definition mk_wcswidth :: "nat list \<Rightarrow> nat \<Rightarrow> int option" where
  "mk_wcswidth pwcs n = wcswidth_loop mk_wcwidth pwcs n 0"

definition mk_wcswidth_cjk :: "nat list \<Rightarrow> nat \<Rightarrow> int option" where
  "mk_wcswidth_cjk pwcs n = wcswidth_loop mk_wcwidth_cjk pwcs n 0"

section \<open>The search decides membership\<close>

definition in_table :: "nat \<Rightarrow> interval list \<Rightarrow> bool" where
  "in_table ucs table \<longleftrightarrow> (\<exists>(a, b) \<in> set table. a \<le> ucs \<and> ucs \<le> b)"

text \<open>Sorted and non-overlapping, as the comments say of the tables.\<close>

fun well_sorted :: "interval list \<Rightarrow> bool" where
  "well_sorted [] \<longleftrightarrow> True"
| "well_sorted [p] \<longleftrightarrow> fst p \<le> snd p"
| "well_sorted (p # q # ps) \<longleftrightarrow> fst p \<le> snd p \<and> snd p < fst q \<and> well_sorted (q # ps)"

lemma tables_sorted: "well_sorted combining" "well_sorted wide" "well_sorted ambiguous"
  by (simp_all add: combining_def wide_def ambiguous_def)

lemma well_sorted_Cons: "well_sorted (p # ps) \<Longrightarrow> well_sorted ps"
  by (cases ps) auto

lemma well_sorted_after: "well_sorted (p # ps) \<Longrightarrow> q \<in> set ps \<Longrightarrow> snd p < fst q"
proof (induction ps arbitrary: p)
  case (Cons r ps)
  then have "fst r \<le> snd r" by (cases ps) auto
  with Cons show ?case by (cases "q = r") fastforce+
qed simp

lemma well_sorted_nth:
  "well_sorted ps \<Longrightarrow> j < length ps \<Longrightarrow> i < j \<Longrightarrow> snd (ps ! i) < fst (ps ! j)"
proof (induction ps arbitrary: i j)
  case (Cons p ps)
  then obtain j' where j: "j = Suc j'" by (cases j) auto
  show ?case
  proof (cases i)
    case 0
    with Cons.prems j show ?thesis using well_sorted_after [of p ps "ps ! j'"] by simp
  next
    case (Suc i')
    with Cons.prems j show ?thesis using Cons.IH [of j' i'] well_sorted_Cons by auto
  qed
qed simp

lemma well_sorted_interval: "well_sorted ps \<Longrightarrow> i < length ps \<Longrightarrow> fst (ps ! i) \<le> snd (ps ! i)"
proof (induction ps arbitrary: i)
  case (Cons p ps)
  then show ?case using well_sorted_Cons [OF Cons.prems(1)]
    by (cases i) (cases ps; auto)+
qed simp

lemma bisearch_loop_iff:
  assumes "well_sorted table"
  shows "0 \<le> lo \<Longrightarrow> hi < int (length table) \<Longrightarrow>
    bisearch_loop ucs table lo hi \<longleftrightarrow>
      (\<exists>i. lo \<le> int i \<and> int i \<le> hi \<and> fst (table ! i) \<le> ucs \<and> ucs \<le> snd (table ! i))"
proof (induction "nat (hi + 1 - lo)" arbitrary: lo hi rule: less_induct)
  case less
  show ?case
  proof (cases "lo \<le> hi")
    case False
    then show ?thesis by (subst bisearch_loop.simps) auto
  next
    case True
    define k where "k = nat ((lo + hi) div 2)"
    have mid: "(lo + hi) div 2 = int k" "lo \<le> int k" "int k \<le> hi" "k < length table"
      using True less.prems by (auto simp: k_def)
    note step = bisearch_loop.simps [of ucs table lo hi]
    have "fst (table ! k) \<le> snd (table ! k)" by (rule well_sorted_interval [OF assms mid(4)])
    moreover have "snd (table ! i) < fst (table ! k)" if "i < k" for i
      by (rule well_sorted_nth [OF assms mid(4) that])
    moreover have "snd (table ! k) < fst (table ! i)" if "k < i" "int i \<le> hi" for i
      using well_sorted_nth [OF assms _ that(1)] that(2) less.prems(2) by simp
    ultimately have order: "fst (table ! k) \<le> snd (table ! k)"
      "\<And>i. i < k \<Longrightarrow> snd (table ! i) < fst (table ! k)"
      "\<And>i. k < i \<Longrightarrow> int i \<le> hi \<Longrightarrow> snd (table ! k) < fst (table ! i)" by blast+
    consider (right) "snd (table ! k) < ucs" | (left) "ucs < fst (table ! k)"
      | (hit) "fst (table ! k) \<le> ucs" "ucs \<le> snd (table ! k)" by linarith
    then show ?thesis
    proof cases
      case right
      have "bisearch_loop ucs table lo hi = bisearch_loop ucs table (int k + 1) hi"
        using True right mid(1) step by (simp add: Let_def)
      also have "\<dots> \<longleftrightarrow> (\<exists>i. int k + 1 \<le> int i \<and> int i \<le> hi \<and> fst (table ! i) \<le> ucs \<and> ucs \<le> snd (table ! i))"
        using mid less.prems by (intro less.hyps) auto
      also have "\<dots> \<longleftrightarrow> (\<exists>i. lo \<le> int i \<and> int i \<le> hi \<and> fst (table ! i) \<le> ucs \<and> ucs \<le> snd (table ! i))"
        (is "?A \<longleftrightarrow> ?B")
      proof
        assume ?A then show ?B using mid(2) by (meson order_trans zle_add1_eq_le less_imp_le not_le add_increasing2 zero_le_one)
      next
        assume ?B
        then obtain i where i: "int i \<le> hi" "fst (table ! i) \<le> ucs" "ucs \<le> snd (table ! i)" by blast
        have "k < i"
        proof (rule ccontr)
          assume "\<not> k < i"
          then have "snd (table ! i) \<le> snd (table ! k)"
            using order(1) order(2) [of i] by (cases "i = k") auto
          with right i show False by simp
        qed
        with i show ?A by (intro exI [of _ i]) simp
      qed
      finally show ?thesis .
    next
      case left
      then have no: "\<not> snd (table ! k) < ucs" using order(1) by simp
      have "bisearch_loop ucs table lo hi = bisearch_loop ucs table lo (int k - 1)"
        using True left no mid(1) step by (simp add: Let_def)
      also have "\<dots> \<longleftrightarrow> (\<exists>i. lo \<le> int i \<and> int i \<le> int k - 1 \<and> fst (table ! i) \<le> ucs \<and> ucs \<le> snd (table ! i))"
        using mid less.prems by (intro less.hyps) auto
      also have "\<dots> \<longleftrightarrow> (\<exists>i. lo \<le> int i \<and> int i \<le> hi \<and> fst (table ! i) \<le> ucs \<and> ucs \<le> snd (table ! i))"
        (is "?A \<longleftrightarrow> ?B")
      proof
        assume ?A then show ?B using mid(3) by fastforce
      next
        assume ?B
        then obtain i where i: "lo \<le> int i" "int i \<le> hi" "fst (table ! i) \<le> ucs" "ucs \<le> snd (table ! i)" by blast
        have "i < k"
        proof (rule ccontr)
          assume "\<not> i < k"
          then have "fst (table ! k) \<le> fst (table ! i)"
            using order(1) order(3) [of i] i(2) by (cases "i = k") auto
          with left i show False by simp
        qed
        with i show ?A by auto
      qed
      finally show ?thesis .
    next
      case hit
      then have "bisearch_loop ucs table lo hi" using True mid(1) step by (simp add: Let_def)
      with hit mid show ?thesis by blast
    qed
  qed
qed

lemma in_table_nth:
  "in_table ucs table \<longleftrightarrow> (\<exists>i < length table. fst (table ! i) \<le> ucs \<and> ucs \<le> snd (table ! i))"
proof -
  have "in_table ucs table \<longleftrightarrow> (\<exists>p \<in> set table. fst p \<le> ucs \<and> ucs \<le> snd p)"
    by (simp add: in_table_def split_beta)
  then show ?thesis by (metis in_set_conv_nth)
qed

lemma bisearch_iff:
  assumes "well_sorted table" and "table \<noteq> []"
  shows "bisearch ucs table (int (length table) - 1) \<longleftrightarrow> in_table ucs table"
proof -
  have loop: "bisearch_loop ucs table 0 (int (length table) - 1) \<longleftrightarrow> in_table ucs table"
    using bisearch_loop_iff [OF assms(1), of 0 "int (length table) - 1" ucs]
    by (simp add: in_table_nth zle_diff1_eq conj_ac)
  have len: "0 < length table" "nat (int (length table) - 1) = length table - 1" using assms(2) by auto
  have "\<not> in_table ucs table" if "ucs < fst (table ! 0)"
    using that well_sorted_nth [OF assms(1), of _ 0] well_sorted_interval [OF assms(1) len(1)]
    by (fastforce simp: in_table_def in_set_conv_nth split_beta dest: less_le_trans)
  moreover have "\<not> in_table ucs table" if "snd (table ! (length table - 1)) < ucs"
  proof
    assume "in_table ucs table"
    then obtain i where i: "i < length table" "ucs \<le> snd (table ! i)"
      by (auto simp: in_table_def in_set_conv_nth split_beta)
    have "snd (table ! i) \<le> snd (table ! (length table - 1))"
    proof (cases "i = length table - 1")
      case False
      with i(1) have last: "length table - 1 < length table" "i < length table - 1" by linarith+
      from well_sorted_nth [OF assms(1) last] well_sorted_interval [OF assms(1) last(1)]
      show ?thesis by linarith
    qed simp
    with i that show False by simp
  qed
  ultimately show ?thesis using loop len by (auto simp: bisearch_def)
qed

text \<open>
  The binary searches of the width functions decide membership in their tables, which are
  sorted and free of overlaps as the comments claim: the width of a character is -1 for a control
  character, 0 for NUL and the combining intervals, 2 for the wide ones (for the CJK variant also
  the ambiguous ones), and 1 otherwise.
\<close>

theorem wcwidth_spec:
  "mk_wcwidth ucs =
     (if ucs = 0 then 0
      else if ucs < 32 \<or> (0x7f \<le> ucs \<and> ucs < 0xa0) then -1
      else if in_table ucs combining then 0
      else if in_table ucs wide then 2 else 1) \<and>
   mk_wcwidth_cjk ucs = (if in_table ucs ambiguous then 2 else mk_wcwidth ucs)"
proof -
  have "combining \<noteq> []" "wide \<noteq> []" "ambiguous \<noteq> []"
    by (simp_all add: combining_def wide_def ambiguous_def)
  with tables_sorted show ?thesis
    by (simp add: mk_wcwidth_def mk_wcwidth_cjk_def bisearch_iff)
qed

text \<open>The string width is the sum of the character widths, while the terminator is in reach.\<close>

lemma wcswidth_loop_terminated:
  "0 \<notin> set cs \<Longrightarrow> n \<le> length cs \<Longrightarrow>
   wcswidth_loop f (cs @ 0 # rest) n w =
     Some (if list_all (\<lambda>c. 0 \<le> f c) (take n cs) then w + sum_list (map f (take n cs)) else -1)"
proof (induction cs arbitrary: n w)
  case (Cons c cs)
  show ?case
  proof (cases n)
    case (Suc m)
    with Cons show ?thesis by (simp add: Let_def)
  qed (use Cons in simp)
qed simp

lemma wcswidth_loop_overrun:
  "0 \<notin> set cs \<Longrightarrow> list_all (\<lambda>c. 0 \<le> f c) cs \<Longrightarrow> length cs \<le> n \<Longrightarrow> wcswidth_loop f cs n w = None"
  by (induction cs arbitrary: n w) (auto simp: Let_def)

text \<open>
  \<^verbatim>\<open>mk_wcswidth\<close> adds up the widths of the first \<open>n\<close> characters of a terminated string (-1 if
  one is a control character); but it reads the character before it tests the count, so on an
  unterminated array of exactly \<open>n\<close> printable characters it reads one element past the end.
\<close>

theorem wcswidth_spec:
  assumes "0 \<notin> set cs"
  shows "mk_wcswidth (cs @ [0]) (length cs) =
      Some (if list_all (\<lambda>c. 0 \<le> mk_wcwidth c) cs then sum_list (map mk_wcwidth cs) else -1) \<and>
    (list_all (\<lambda>c. 0 \<le> mk_wcwidth c) cs \<longrightarrow> mk_wcswidth cs (length cs) = None)"
  using wcswidth_loop_terminated [OF assms, of "length cs" mk_wcwidth "[]" 0]
    wcswidth_loop_overrun [OF assms, of mk_wcwidth "length cs" 0]
  by (simp add: mk_wcswidth_def)

lemma wcswidth_spec_witness:
  "mk_wcswidth [97, 98] 2 = None"
proof -
  have "\<not> in_table 97 combining" "\<not> in_table 98 combining"
    by (simp_all add: in_table_def combining_def)
  moreover have "\<not> in_table 97 wide" "\<not> in_table 98 wide"
    by (simp_all add: in_table_def wide_def)
  moreover have "combining \<noteq> []" "wide \<noteq> []" by (simp_all add: combining_def wide_def)
  ultimately have "0 \<le> mk_wcwidth 97" "0 \<le> mk_wcwidth 98"
    using tables_sorted by (simp_all add: mk_wcwidth_def bisearch_iff)
  then show ?thesis using wcswidth_spec [of "[97, 98]"] by (simp add: numeral_2_eq_2)
qed

end
