(* ===== verification/Wildcard.thy ===== *)
theory Wildcard
  imports TSVN_Prelude
begin

text \<open>
  Wildcard matching (\<^verbatim>\<open>src/ext/TortoisePlink/wildcard.c\<close>). The wildcard is a C string, modelled
  by the list of the bytes that are left of it: reading at its end gives the terminator 0. The
  target is a memory (the bytes from the target's start on), a position and an end; reading
  beyond the memory is \<open>None\<close>.
\<close>

section \<open>C strings\<close>

definition cstr :: "byte list \<Rightarrow> nat \<Rightarrow> byte" where
  "cstr f k = (if k < length f then f ! k else 0)"

abbreviation STAR :: byte where "STAR \<equiv> 42"
abbreviation MINUS :: byte where "MINUS \<equiv> 45"
abbreviation QUERY :: byte where "QUERY \<equiv> 63"
abbreviation LBRACK :: byte where "LBRACK \<equiv> 91"
abbreviation BSLASH :: byte where "BSLASH \<equiv> 92"
abbreviation RBRACK :: byte where "RBRACK \<equiv> 93"
abbreviation CARET :: byte where "CARET \<equiv> 94"

datatype wc_err = WC_TRAILINGBACKSLASH | WC_UNCLOSEDCLASS | WC_INVALIDRANGE

fun wc_code :: "wc_err \<Rightarrow> int" where
  "wc_code WC_TRAILINGBACKSLASH = 1"
| "wc_code WC_UNCLOSEDCLASS = 2"
| "wc_code WC_INVALIDRANGE = 3"

lemma cstr_nonzero: "cstr f k \<noteq> 0 \<Longrightarrow> k < length f"
  by (auto simp: cstr_def split: if_splits)

lemma cstr_simps [simp]:
  "cstr [] k = 0" "cstr (b # f) 0 = b" "cstr (b # f) (Suc k) = cstr f k"
  by (simp_all add: cstr_def)

section \<open>Matching one fragment\<close>

text \<open>A backslash in a class protects the character after it.\<close>

definition unbackslash :: "byte list \<Rightarrow> byte list" where
  "unbackslash f = (if cstr f 0 = BSLASH then drop 1 f else f)"

text \<open>
  One turn of the loop over a character class: the bounds it tests the character against (in
  order; a single character is a range of one) and the rest of the wildcard.
\<close>

definition wc_class_item :: "byte list \<Rightarrow> (wc_err, (byte \<times> byte) \<times> byte list) result" where
  "wc_class_item f =
     (let f = unbackslash f in
      if cstr f 0 = 0 then Raise WC_UNCLOSEDCLASS
      else if cstr f 1 = MINUS
      then
        (let lower = cstr f 0; f = drop 2 f in
         if cstr f 0 = RBRACK then Raise WC_INVALIDRANGE
         else
           (let f = unbackslash f in
            if cstr f 0 = 0 then Raise WC_UNCLOSEDCLASS
            else
              (let upper = cstr f 0 in
               Return (if lower > upper then (upper, lower) else (lower, upper), drop 1 f))))
      else Return ((cstr f 0, cstr f 0), drop 1 f))"

lemma wc_class_item_length: "wc_class_item f = Return (r, f') \<Longrightarrow> length f' < length f"
  by (auto simp: wc_class_item_def unbackslash_def Let_def dest!: cstr_nonzero split: if_splits)

function wc_class :: "byte \<Rightarrow> bool \<Rightarrow> byte list \<Rightarrow> (wc_err, bool \<times> byte list) result" where
  "wc_class c matched f =
     (if cstr f 0 = RBRACK then Return (matched, f)
      else
        (case wc_class_item f of
           Inl e \<Rightarrow> Raise e
         | Inr ((lower, upper), f) \<Rightarrow> wc_class c (matched \<or> (lower \<le> c \<and> c \<le> upper)) f))"
  by pat_completeness auto
termination
  by (relation "measure (\<lambda>(c, matched, f). length f)") (auto dest: wc_class_item_length)

declare wc_class.simps [simp del]

datatype frag = Frag_Error wc_err | Frag_Fail | Frag_Match "byte list" nat

text \<open>The \<^verbatim>\<open>while\<close> loop of \<^verbatim>\<open>wc_match_fragment\<close>; \<open>mem ! t\<close> is read only for \<open>t\<close> below the end.\<close>

function wc_fragment :: "byte list \<Rightarrow> byte list \<Rightarrow> nat \<Rightarrow> nat \<Rightarrow> frag" where
  "wc_fragment mem f t tend =
     (if cstr f 0 \<noteq> 0 \<and> cstr f 0 \<noteq> STAR \<and> t < tend
      then
        (if cstr f 0 = BSLASH
         then
           (if cstr f 1 = 0 then Frag_Error WC_TRAILINGBACKSLASH
            else if cstr f 1 \<noteq> mem ! t then Frag_Fail
            else wc_fragment mem (drop 2 f) (t + 1) tend)
         else if cstr f 0 = QUERY then wc_fragment mem (drop 1 f) (t + 1) tend
         else if cstr f 0 = LBRACK
         then
           (let f = drop 1 f;
                invert = (cstr f 0 = CARET);
                f = (if invert then drop 1 f else f) in
            case wc_class (mem ! t) False f of
              Inl e \<Rightarrow> Frag_Error e
            | Inr (matched, f) \<Rightarrow>
                (if invert = matched then Frag_Fail else wc_fragment mem (drop 1 f) (t + 1) tend))
         else if cstr f 0 \<noteq> mem ! t then Frag_Fail
         else wc_fragment mem (drop 1 f) (t + 1) tend)
      else if cstr f 0 = 0 \<or> cstr f 0 = STAR then Frag_Match f t
      else Frag_Fail)"
  by pat_completeness auto
termination
  by (relation "measure (\<lambda>(mem, f, t, tend). tend - t)") auto

declare wc_fragment.simps [simp del]

section \<open>Matching the whole target\<close>

datatype wc_search = Search_Result int | Search_Next "byte list" nat

text \<open>
  The \<^verbatim>\<open>while (*target)\<close> loop: a result of the whole match, or the wildcard and target behind the
  fragment found. The loop tests the byte at the target, not its end.
\<close>

function wc_search_loop :: "byte list \<Rightarrow> byte list \<Rightarrow> nat \<Rightarrow> nat \<Rightarrow> wc_search option" where
  "wc_search_loop mem w t tend =
     (if t \<ge> length mem then None
      else if mem ! t = 0 then Some (Search_Result 0)
      else
        (case wc_fragment mem w t tend of
          Frag_Error e \<Rightarrow> Some (Search_Result (- wc_code e))
        | Frag_Fail \<Rightarrow> wc_search_loop mem w (t + 1) tend
        | Frag_Match w' t' \<Rightarrow>
            (if cstr w' 0 = 0 \<and> t' \<noteq> tend
             then
               (case wc_fragment mem w (tend - (t' - t)) tend of
                  Frag_Error e \<Rightarrow> Some (Search_Result (- wc_code e))
                | Frag_Fail \<Rightarrow> Some (Search_Result 0)
                | Frag_Match _ _ \<Rightarrow> Some (Search_Result 1))
             else Some (Search_Next w' t'))))"
  by pat_completeness auto
termination
  by (relation "measure (\<lambda>(mem, w, t, tend). length mem - t)") auto

declare wc_search_loop.simps [simp del]

fun skip_stars :: "byte list \<Rightarrow> byte list" where
  "skip_stars [] = []"
| "skip_stars (b # f) = (if b = STAR then skip_stars f else b # f)"

lemma wc_class_length: "wc_class c m f = Inr (b, g) \<Longrightarrow> length g \<le> length f"
proof (induction c m f rule: wc_class.induct)
  case (1 c m f)
  then show ?case
    by (fastforce simp: wc_class.simps [of c m f] dest!: wc_class_item_length
        split: if_splits sum.splits prod.splits)
qed

lemma wc_fragment_length: "wc_fragment mem f t tend = Frag_Match f' t' \<Longrightarrow> length f' \<le> length f"
proof (induction "tend - t" arbitrary: f t rule: less_induct)
  case less
  have ih: "length f' \<le> length g" if "t < tend" "wc_fragment mem g (Suc t) tend = Frag_Match f' t'" for g
    using less.hyps [of "Suc t" g] that by simp
  show ?case
    using less.prems
    by (auto simp: wc_fragment.simps [of mem f t tend] Let_def split: if_splits sum.splits prod.splits
        dest!: ih wc_class_length)
qed

lemma wc_search_loop_length:
  "wc_search_loop mem w t tend = Some (Search_Next w' t') \<Longrightarrow> length w' \<le> length w"
proof (induction mem w t tend rule: wc_search_loop.induct)
  case (1 mem w t tend)
  then show ?case
    by (auto simp: wc_search_loop.simps [of mem w t tend] split: if_splits frag.splits
        dest: wc_fragment_length)
qed

lemma skip_stars_length: "cstr w 0 = STAR \<Longrightarrow> length (skip_stars w) < length w"
proof -
  have "length (skip_stars w) \<le> length w" for w by (induction w) auto
  then show "cstr w 0 = STAR \<Longrightarrow> ?thesis" by (cases w) (auto simp: less_Suc_eq_le)
qed

text \<open>The outer loop; every turn starts at a \<^verbatim>\<open>*\<close> (\<open>None\<close> if the assertion fails) and consumes it.\<close>

function wc_outer :: "byte list \<Rightarrow> byte list \<Rightarrow> nat \<Rightarrow> nat \<Rightarrow> int option" where
  "wc_outer mem w t tend =
     (if cstr w 0 = 0 then Some (if t = tend then 1 else 0)
      else if cstr w 0 \<noteq> STAR then None
      else
        (let w = skip_stars w in
         if cstr w 0 = 0 then Some 1
         else
           (case wc_search_loop mem w t tend of
              None \<Rightarrow> None
            | Some (Search_Result r) \<Rightarrow> Some r
            | Some (Search_Next w' t') \<Rightarrow> wc_outer mem w' t' tend)))"
  by pat_completeness auto
termination
  by (relation "measure (\<lambda>(mem, w, t, tend). length w)")
     (auto dest!: wc_search_loop_length skip_stars_length)

declare wc_outer.simps [simp del]

definition wc_match_inner :: "byte list \<Rightarrow> byte list \<Rightarrow> nat \<Rightarrow> int option" where
  "wc_match_inner wildcard mem target_len =
     (if cstr wildcard 0 \<noteq> STAR
      then
        (case wc_fragment mem wildcard 0 target_len of
           Frag_Error e \<Rightarrow> Some (- wc_code e)
         | Frag_Fail \<Rightarrow> Some 0
         | Frag_Match w t \<Rightarrow> wc_outer mem w t target_len)
      else wc_outer mem wildcard 0 target_len)"

definition wc_match :: "byte list \<Rightarrow> byte list \<Rightarrow> int option" where
  "wc_match wildcard target = wc_match_inner wildcard (target @ [0]) (length target)"

text \<open>A \<^verbatim>\<open>ptrlen\<close> need not be followed by anything that may be read.\<close>

definition wc_match_pl :: "byte list \<Rightarrow> byte list \<Rightarrow> int option" where
  "wc_match_pl wildcard target = wc_match_inner wildcard target (length target)"

fun wc_unescape :: "byte list \<Rightarrow> byte list option" where
  "wc_unescape [] = Some []"
| "wc_unescape (b # w) =
     (if b = 0 then Some []
      else if b = BSLASH
      then (case w of [] \<Rightarrow> Some [] | c # w' \<Rightarrow> if c = 0 then Some [] else map_option ((#) c) (wc_unescape w'))
      else if b = STAR \<or> b = QUERY \<or> b = LBRACK \<or> b = RBRACK then None
      else map_option ((#) b) (wc_unescape w))"

section \<open>What a wildcard means\<close>

datatype wtok = Any_Run | Any_Char | Literal byte | Class bool "(byte \<times> byte) list"

fun tok_matches :: "wtok \<Rightarrow> byte \<Rightarrow> bool" where
  "tok_matches Any_Run c \<longleftrightarrow> False"
| "tok_matches Any_Char c \<longleftrightarrow> True"
| "tok_matches (Literal b) c \<longleftrightarrow> b = c"
| "tok_matches (Class invert rs) c \<longleftrightarrow> invert \<noteq> (\<exists>(lo, hi) \<in> set rs. lo \<le> c \<and> c \<le> hi)"

fun glob :: "wtok list \<Rightarrow> byte list \<Rightarrow> bool" where
  "glob [] s \<longleftrightarrow> s = []"
| "glob (Any_Run # ts) s \<longleftrightarrow> (\<exists>k \<le> length s. glob ts (drop k s))"
| "glob (t # ts) s \<longleftrightarrow> (case s of [] \<Rightarrow> False | c # s' \<Rightarrow> tok_matches t c \<and> glob ts s')"

text \<open>Parsing a well-formed wildcard; \<open>None\<close> if it has a syntax error anywhere.\<close>

fun class_char :: "byte list \<Rightarrow> (byte \<times> byte list) option" where
  "class_char [] = None"
| "class_char (b # w) =
     (if b = 0 then None
      else if b = BSLASH then (case w of [] \<Rightarrow> None | c # w' \<Rightarrow> if c = 0 then None else Some (c, w'))
      else Some (b, w))"

text \<open>\<^verbatim>\<open>c\<close>, or \<^verbatim>\<open>c-d\<close> with the bounds in either order.\<close>

definition class_item :: "byte list \<Rightarrow> ((byte \<times> byte) \<times> byte list) option" where
  "class_item f =
     (case class_char f of
        None \<Rightarrow> None
      | Some (c, w) \<Rightarrow>
          (if w \<noteq> [] \<and> hd w = MINUS
           then
             (if tl w \<noteq> [] \<and> hd (tl w) = RBRACK then None
              else map_option (\<lambda>(d, w'). ((min c d, max c d), w')) (class_char (tl w)))
           else Some ((c, c), w)))"

lemma class_char_iff:
  "class_char f =
     (if cstr (unbackslash f) 0 = 0 then None else Some (cstr (unbackslash f) 0, drop 1 (unbackslash f)))"
  by (cases f) (auto simp: unbackslash_def split: list.splits)

lemma class_item_code:
  "class_item f = (case wc_class_item f of Inl e \<Rightarrow> None | Inr res \<Rightarrow> Some res)"
proof (cases "cstr (unbackslash f) 0 = 0")
  case True
  then show ?thesis by (simp add: class_item_def class_char_iff wc_class_item_def Let_def)
next
  case nz: False
  then obtain c w where w: "unbackslash f = c # w" "c \<noteq> 0"
    by (cases "unbackslash f") auto
  show ?thesis
  proof (cases w)
    case Nil
    with w show ?thesis by (simp add: class_item_def class_char_iff wc_class_item_def Let_def)
  next
    case (Cons b v)
    with w show ?thesis
      by (cases v) (auto simp: class_item_def class_char_iff wc_class_item_def
          Let_def min_def max_def unbackslash_def [of "[]"] simp del: class_char.simps)
  qed
qed

lemma class_item_length: "class_item f = Some (r, g) \<Longrightarrow> length g < length f"
  using wc_class_item_length [of f] by (auto simp: class_item_code split: sum.splits)

function class_parse :: "byte list \<Rightarrow> ((byte \<times> byte) list \<times> byte list) option" where
  "class_parse f =
     (if cstr f 0 = RBRACK then Some ([], f)
      else
        (case class_item f of
           None \<Rightarrow> None
         | Some (r, f) \<Rightarrow> map_option (\<lambda>(rs, f). (r # rs, f)) (class_parse f)))"
  by pat_completeness auto
termination
  by (relation "measure length") (auto dest: class_item_length)

declare class_parse.simps [simp del]

lemma class_parse_length: "class_parse f = Some (rs, g) \<Longrightarrow> length g \<le> length f \<and> cstr g 0 = RBRACK"
proof (induction f arbitrary: rs g rule: class_parse.induct)
  case (1 f)
  then show ?case
    by (fastforce simp: class_parse.simps [of f] dest!: class_item_length
        split: if_splits option.splits prod.splits)
qed

function wild_parse :: "byte list \<Rightarrow> wtok list option" where
  "wild_parse f =
     (if cstr f 0 = 0 then Some []
      else if cstr f 0 = STAR then map_option ((#) Any_Run) (wild_parse (drop 1 f))
      else if cstr f 0 = BSLASH
      then (if cstr f 1 = 0 then None
            else map_option ((#) (Literal (cstr f 1))) (wild_parse (drop 2 f)))
      else if cstr f 0 = QUERY then map_option ((#) Any_Char) (wild_parse (drop 1 f))
      else if cstr f 0 = LBRACK
      then
        (let f' = drop 1 f; invert = (cstr f' 0 = CARET); f'' = (if invert then drop 1 f' else f') in
         case class_parse f'' of
           None \<Rightarrow> None
         | Some (rs, g) \<Rightarrow> map_option ((#) (Class invert rs)) (wild_parse (drop 1 g)))
      else map_option ((#) (Literal (cstr f 0))) (wild_parse (drop 1 f)))"
  by pat_completeness auto
termination
  by (relation "measure length") (auto dest!: cstr_nonzero class_parse_length simp: cstr_def split: if_splits)

declare wild_parse.simps [simp del]

section \<open>The matcher decides the meaning\<close>

fun prefix_match :: "wtok list \<Rightarrow> byte list \<Rightarrow> bool" where
  "prefix_match [] s \<longleftrightarrow> True"
| "prefix_match (t # ts) [] \<longleftrightarrow> False"
| "prefix_match (t # ts) (c # s) \<longleftrightarrow> tok_matches t c \<and> prefix_match ts s"

abbreviation is_frag :: "wtok list \<Rightarrow> bool" where
  "is_frag fr \<equiv> Any_Run \<notin> set fr"

lemma prefix_match_length: "prefix_match fr s \<Longrightarrow> length fr \<le> length s"
  by (induction fr s rule: prefix_match.induct) auto

lemma glob_frag:
  "is_frag fr \<Longrightarrow> glob (fr @ rest) s \<longleftrightarrow> prefix_match fr s \<and> glob rest (drop (length fr) s)"
proof (induction fr s rule: prefix_match.induct)
  case (2 t ts)
  then show ?case by (cases t) auto
next
  case (3 t ts c s)
  then show ?case by (cases t) auto
qed simp

lemma wc_class_parse:
  "class_parse f = Some (rs, g) \<Longrightarrow>
   wc_class c m f = Return (m \<or> (\<exists>(lo, hi) \<in> set rs. lo \<le> c \<and> c \<le> hi), g)"
proof (induction f arbitrary: m rs g rule: class_parse.induct)
  case (1 f)
  show ?case
  proof (cases "cstr f 0 = RBRACK")
    case True
    with "1.prems" show ?thesis
      by (auto simp: class_parse.simps [of f] wc_class.simps [of c m g])
  next
    case False
    with "1.prems" obtain lo hi f1 rs1 where
      item: "class_item f = Some ((lo, hi), f1)" "class_parse f1 = Some (rs1, g)" "rs = (lo, hi) # rs1"
      by (auto simp: class_parse.simps [of f] split: option.splits)
    then have code: "wc_class_item f = Return ((lo, hi), f1)"
      by (auto simp: class_item_code split: sum.splits)
    have "wc_class c (m \<or> (lo \<le> c \<and> c \<le> hi)) f1 =
        Return ((m \<or> (lo \<le> c \<and> c \<le> hi)) \<or> (\<exists>(lo, hi) \<in> set rs1. lo \<le> c \<and> c \<le> hi), g)"
      using "1.IH" [OF False item(1) refl item(2)] .
    with False item(3) code show ?thesis by (simp add: wc_class.simps [of c m f])
  qed
qed

lemma wild_parse_Nil: "wild_parse f = Some [] \<longleftrightarrow> cstr f 0 = 0"
  by (auto simp: wild_parse.simps [of f] Let_def split: option.splits if_splits)

lemma wild_parse_star:
  "wild_parse f = Some (Any_Run # ts) \<longleftrightarrow> cstr f 0 = STAR \<and> wild_parse (drop 1 f) = Some ts"
  by (auto simp: wild_parse.simps [of f] Let_def split: option.splits if_splits)

lemma wc_fragment_tok:
  assumes "wild_parse f = Some (tok # ts)" and "tok \<noteq> Any_Run" and "t < tend"
  shows "\<exists>f1. wild_parse f1 = Some ts \<and>
    wc_fragment mem f t tend =
      (if tok_matches tok (mem ! t) then wc_fragment mem f1 (Suc t) tend else Frag_Fail)"
proof -
  have nz: "cstr f 0 \<noteq> 0" "cstr f 0 \<noteq> STAR"
    using assms(1,2) by (auto simp: wild_parse.simps [of f])
  note unf = wc_fragment.simps [of mem f t tend] and pf = wild_parse.simps [of f]
  consider (bs) "cstr f 0 = BSLASH" | (query) "cstr f 0 = QUERY" | (br) "cstr f 0 = LBRACK"
    | (lit) "cstr f 0 \<noteq> BSLASH" "cstr f 0 \<noteq> QUERY" "cstr f 0 \<noteq> LBRACK" by blast
  then show ?thesis
  proof cases
    case bs
    with assms nz show ?thesis
      by (intro exI [of _ "drop 2 f"]) (auto simp: unf pf split: if_splits)
  next
    case query
    with assms nz show ?thesis
      by (intro exI [of _ "drop 1 f"]) (auto simp: unf pf split: if_splits)
  next
    case lit
    with assms nz show ?thesis
      by (intro exI [of _ "drop 1 f"]) (auto simp: unf pf split: if_splits)
  next
    case br
    define invert where "invert \<longleftrightarrow> cstr (drop 1 f) 0 = CARET"
    define g where "g = (if invert then drop 1 (drop 1 f) else drop 1 f)"
    from assms(1) br obtain rs h where
      p: "class_parse g = Some (rs, h)" "tok = Class invert rs" "wild_parse (drop 1 h) = Some ts"
      by (auto simp: pf Let_def g_def invert_def split: option.splits simp del: One_nat_def)
    have "wc_class (mem ! t) False g =
        Return (False \<or> (\<exists>(lo, hi) \<in> set rs. lo \<le> mem ! t \<and> mem ! t \<le> hi), h)"
      by (rule wc_class_parse [OF p(1)])
    moreover have "wc_fragment mem f t tend =
        (case wc_class (mem ! t) False g of
           Inl e \<Rightarrow> Frag_Error e
         | Inr (matched, f) \<Rightarrow>
             (if invert = matched then Frag_Fail else wc_fragment mem (drop 1 f) (t + 1) tend))"
      using br assms(3) unfolding g_def invert_def by (simp add: unf Let_def cong: sum.case_cong del: One_nat_def)
    ultimately show ?thesis using p by (intro exI [of _ "drop 1 h"]) auto
  qed
qed

lemma wc_fragment_spec:
  "wild_parse f = Some (fr @ rest) \<Longrightarrow> is_frag fr \<Longrightarrow> rest = [] \<or> hd rest = Any_Run \<Longrightarrow>
   t \<le> tend \<Longrightarrow> tend \<le> length mem \<Longrightarrow>
   (if prefix_match fr (drop t (take tend mem))
    then \<exists>f'. wc_fragment mem f t tend = Frag_Match f' (t + length fr) \<and> wild_parse f' = Some rest
    else wc_fragment mem f t tend = Frag_Fail)"
proof (induction fr arbitrary: f t)
  case Nil
  then have "cstr f 0 = 0 \<or> cstr f 0 = STAR"
    by (cases rest) (auto simp: wild_parse_Nil wild_parse_star)
  with Nil show ?case by (auto simp: wc_fragment.simps [of mem f t tend])
next
  case (Cons tok fr)
  then have tok: "tok \<noteq> Any_Run" by auto
  show ?case
  proof (cases "t < tend")
    case False
    with Cons.prems have "drop t (take tend mem) = []" by simp
    moreover have "cstr f 0 \<noteq> 0 \<and> cstr f 0 \<noteq> STAR"
      using Cons.prems(1) tok by (auto simp: wild_parse.simps [of f])
    ultimately show ?thesis using False by (simp add: wc_fragment.simps [of mem f t tend])
  next
    case True
    with Cons.prems have sub: "drop t (take tend mem) = mem ! t # drop (Suc t) (take tend mem)"
      by (simp add: Cons_nth_drop_Suc [symmetric])
    from Cons.prems(1) obtain f1 where f1: "wild_parse f1 = Some (fr @ rest)"
      "wc_fragment mem f t tend =
        (if tok_matches tok (mem ! t) then wc_fragment mem f1 (Suc t) tend else Frag_Fail)"
      using wc_fragment_tok [of f tok "fr @ rest" t tend mem] tok True by auto
    show ?thesis
      using Cons.IH [OF f1(1), of "Suc t"] Cons.prems True f1(2) by (auto simp: sub split: if_splits)
  qed
qed

lemma glob_any_step: "glob (Any_Run # ts) (c # s) \<longleftrightarrow> glob ts (c # s) \<or> glob (Any_Run # ts) s"
proof
  assume "glob (Any_Run # ts) (c # s)"
  then obtain k where k: "k \<le> Suc (length s)" "glob ts (drop k (c # s))" by auto
  then show "glob ts (c # s) \<or> glob (Any_Run # ts) s" by (cases k) auto
next
  assume "glob ts (c # s) \<or> glob (Any_Run # ts) s"
  then show "glob (Any_Run # ts) (c # s)"
  proof
    assume "glob ts (c # s)"
    then show ?thesis by (auto intro!: exI [of _ 0])
  next
    assume "glob (Any_Run # ts) s"
    then obtain k where "k \<le> length s" "glob ts (drop k s)" by auto
    then show ?thesis by (auto intro!: exI [of _ "Suc k"])
  qed
qed

lemma glob_any_mono: "glob (Any_Run # ts) (drop j s) \<Longrightarrow> glob (Any_Run # ts) s"
proof -
  assume "glob (Any_Run # ts) (drop j s)"
  then obtain k where "k \<le> length s - j" "glob ts (drop (k + j) s)" by auto
  then show ?thesis
  proof (cases "j \<le> length s")
    case True
    with \<open>k \<le> length s - j\<close> \<open>glob ts (drop (k + j) s)\<close> show ?thesis
      by (auto intro!: exI [of _ "k + j"])
  next
    case False
    with \<open>glob ts (drop (k + j) s)\<close> show ?thesis by (auto intro!: exI [of _ "length s"])
  qed
qed

lemma glob_any_any: "glob (Any_Run # Any_Run # ts) s \<longleftrightarrow> glob (Any_Run # ts) s"
  using glob_any_mono by (subst glob.simps(2)) (metis drop_0 le0)

lemma glob_stars: "glob (Any_Run # dropWhile ((=) Any_Run) ts) s \<longleftrightarrow> glob (Any_Run # ts) s"
  by (induction ts) (auto simp: glob_any_any simp del: glob.simps(2))

lemma skip_stars_parse:
  "wild_parse w = Some ts \<Longrightarrow> wild_parse (skip_stars w) = Some (dropWhile ((=) Any_Run) ts)"
proof (induction w arbitrary: ts)
  case Nil
  then show ?case by (simp add: wild_parse.simps [of "[]"])
next
  case (Cons b w)
  show ?case
  proof (cases "b = STAR")
    case True
    with Cons.prems obtain ts1 where "ts = Any_Run # ts1" "wild_parse w = Some ts1"
      by (auto simp: wild_parse.simps [of "STAR # w"])
    with Cons.IH True show ?thesis by simp
  next
    case False
    with Cons.prems have "ts = [] \<or> hd ts \<noteq> Any_Run"
      by (cases ts) (auto simp: wild_parse_star)
    with Cons.prems False show ?thesis by (cases ts) auto
  qed
qed

text \<open>The search for a fragment behind a star, against the meaning of star, fragment and rest.\<close>

lemma wc_search_spec:
  assumes parse: "wild_parse w = Some (fr @ rest)" and fr: "fr \<noteq> []" "is_frag fr"
    and rest: "rest = [] \<or> hd rest = Any_Run" and nz: "0 \<notin> set T"
  shows "t \<le> length T \<Longrightarrow> \<exists>r. wc_search_loop (T @ [0]) w t (length T) = Some r \<and>
    (case r of
       Search_Result n \<Rightarrow> n = (if glob (Any_Run # fr @ rest) (drop t T) then 1 else 0)
     | Search_Next w' t' \<Rightarrow> t' \<le> length T \<and> wild_parse w' = Some rest \<and>
         (glob (Any_Run # fr @ rest) (drop t T) \<longleftrightarrow> glob rest (drop t' T)))"
proof (induction "length T - t" arbitrary: t rule: less_induct)
  case less
  let ?mem = "T @ [0]"
  have frag: "if prefix_match fr (drop u T)
      then \<exists>f'. wc_fragment ?mem w u (length T) = Frag_Match f' (u + length fr) \<and> wild_parse f' = Some rest
      else wc_fragment ?mem w u (length T) = Frag_Fail" if "u \<le> length T" for u
    using wc_fragment_spec [OF parse fr(2) rest that, of ?mem] by simp
  note glob_fr = glob_frag [OF fr(2), of rest] glob_frag [OF fr(2), of "[]", simplified]
  show ?case
  proof (cases "t < length T")
    case False
    with less.prems have t: "t = length T" by simp
    have "\<not> prefix_match fr []" using fr(1) by (cases fr) auto
    then have "\<not> glob (Any_Run # fr @ rest) []" by (simp add: glob_fr)
    then show ?thesis by (simp add: t wc_search_loop.simps [of ?mem w "length T"])
  next
    case True
    then have head: "drop t T = T ! t # drop (Suc t) T" by (simp add: Cons_nth_drop_Suc)
    have "T ! t \<noteq> 0" using nz True by (metis nth_mem)
    then have here: "\<not> length ?mem \<le> t" "?mem ! t \<noteq> 0" using True by (auto simp: nth_append)
    note unf = wc_search_loop.simps [of ?mem w t "length T"]
    show ?thesis
    proof (cases "prefix_match fr (drop t T)")
      case False
      then have "wc_search_loop ?mem w t (length T) = wc_search_loop ?mem w (Suc t) (length T)"
        using frag [of t] here True by (simp add: unf)
      moreover have "glob (Any_Run # fr @ rest) (drop t T) = glob (Any_Run # fr @ rest) (drop (Suc t) T)"
        using False unfolding head glob_any_step by (simp add: glob_fr del: glob.simps(2))
      moreover have "length T - Suc t < length T - t" "Suc t \<le> length T" using True by simp_all
      ultimately show ?thesis using less.hyps [of "Suc t"] by (simp only:)
    next
      case match: True
      then obtain w' where w': "wc_fragment ?mem w t (length T) = Frag_Match w' (t + length fr)"
        "wild_parse w' = Some rest" using frag [of t] True by auto
      have end_t: "t + length fr \<le> length T" using prefix_match_length [OF match] True by simp
      have zero: "cstr w' 0 = 0 \<longleftrightarrow> rest = []" using w'(2) wild_parse_Nil [of w'] by auto
      have now: "glob rest (drop (t + length fr) T) \<Longrightarrow> glob (Any_Run # fr @ rest) (drop t T)"
        using match by (auto simp: glob_fr add.commute intro!: exI [of _ 0])
      show ?thesis
      proof (cases "rest = [] \<and> t + length fr \<noteq> length T")
        case False
        then have res: "wc_search_loop ?mem w t (length T) = Some (Search_Next w' (t + length fr))"
          using w' here zero by (auto simp: unf)
        have "glob rest (drop (t + length fr) T)" if "glob (Any_Run # fr @ rest) (drop t T)"
        proof (cases rest)
          case Nil
          with False show ?thesis by simp
        next
          case (Cons a ts)
          then have a: "rest = Any_Run # ts" using rest by simp
          from that obtain k where "glob rest (drop (length fr) (drop k (drop t T)))"
            by (auto simp: glob_fr)
          then have "glob rest (drop k (drop (t + length fr) T))"
            by (simp add: add.commute add.left_commute)
          then show ?thesis unfolding a by (rule glob_any_mono)
        qed
        with now res end_t w'(2) show ?thesis by auto
      next
        case True
        let ?u = "length T - length fr"
        have u: "?u \<le> length T" "length T - (t + length fr - t) = ?u" by simp_all
        have "glob (Any_Run # fr @ rest) (drop t T) \<longleftrightarrow> prefix_match fr (drop ?u T)"
        proof
          assume "glob (Any_Run # fr @ rest) (drop t T)"
          then obtain k where k: "prefix_match fr (drop (k + t) T)" "length T \<le> length fr + (k + t)"
            using True by (auto simp: glob_fr)
          have "length fr \<le> length T - (k + t)" using prefix_match_length [OF k(1)] by simp
          then have "k + t = ?u" using k(2) fr(1) end_t by (cases "k + t \<le> length T") auto
          with k(1) show "prefix_match fr (drop ?u T)" by simp
        next
          assume "prefix_match fr (drop ?u T)"
          then have "prefix_match fr (drop (?u - t) (drop t T))" using end_t by simp
          then show "glob (Any_Run # fr @ rest) (drop t T)"
            using True end_t by (auto simp: glob_fr intro!: exI [of _ "?u - t"])
        qed
        then show ?thesis
          using True w' here zero frag [OF u(1)] u(2) by (auto simp: unf)
      qed
    qed
  qed
qed

lemma wc_outer_spec:
  assumes nz: "0 \<notin> set T"
  shows "wild_parse w = Some ts \<Longrightarrow> ts = [] \<or> hd ts = Any_Run \<Longrightarrow> t \<le> length T \<Longrightarrow>
    wc_outer (T @ [0]) w t (length T) = Some (if glob ts (drop t T) then 1 else 0)"
proof (induction "length w" arbitrary: w ts t rule: less_induct)
  case less
  let ?mem = "T @ [0]"
  show ?case
  proof (cases ts)
    case Nil
    with less.prems have "cstr w 0 = 0" by (simp add: wild_parse_Nil)
    with Nil less.prems show ?thesis by (simp add: wc_outer.simps [of ?mem w])
  next
    case (Cons a ts1)
    with less.prems have a: "ts = Any_Run # ts1" and star: "cstr w 0 = STAR"
      by (auto simp: wild_parse_star)
    define w1 ts2 where "w1 = skip_stars w" and "ts2 = dropWhile ((=) Any_Run) ts1"
    have w1: "wild_parse w1 = Some ts2" "length w1 < length w"
      using skip_stars_parse [OF less.prems(1)] skip_stars_length [OF star]
      by (simp_all add: w1_def ts2_def a)
    have meaning: "glob ts (drop t T) = glob (Any_Run # ts2) (drop t T)"
      by (simp only: a ts2_def glob_stars)
    note unf = wc_outer.simps [of ?mem w t "length T"]
    show ?thesis
    proof (cases "ts2 = []")
      case True
      then have "cstr w1 0 = 0" using w1(1) by (simp add: wild_parse_Nil)
      moreover have "glob (Any_Run # ts2) (drop t T)" using True by auto
      ultimately show ?thesis using star meaning by (simp add: unf w1_def [symmetric] del: glob.simps(2))
    next
      case False
      define fr rest where "fr = takeWhile (\<lambda>x. x \<noteq> Any_Run) ts2" and "rest = dropWhile (\<lambda>x. x \<noteq> Any_Run) ts2"
      have parts: "ts2 = fr @ rest" by (simp add: fr_def rest_def)
      have "hd ts2 \<noteq> Any_Run"
        using hd_dropWhile [of "(=) Any_Run" ts1] False by (simp add: ts2_def)
      then have fr: "fr \<noteq> []" "is_frag fr"
        using False by (cases ts2; auto simp: fr_def dest: set_takeWhileD)+
      have rest: "rest = [] \<or> hd rest = Any_Run"
        using hd_dropWhile [of "\<lambda>x. x \<noteq> Any_Run" ts2] by (auto simp: rest_def)
      have nonzero: "cstr w1 0 \<noteq> 0" using w1(1) False wild_parse_Nil [of w1] by auto
      from wc_search_spec [OF w1(1) [unfolded parts] fr rest nz less.prems(3)] obtain r where
        r: "wc_search_loop ?mem w1 t (length T) = Some r"
          "case r of
             Search_Result n \<Rightarrow> n = (if glob (Any_Run # fr @ rest) (drop t T) then 1 else 0)
           | Search_Next w' t' \<Rightarrow> t' \<le> length T \<and> wild_parse w' = Some rest \<and>
               (glob (Any_Run # fr @ rest) (drop t T) \<longleftrightarrow> glob rest (drop t' T))" by blast
      show ?thesis
      proof (cases r)
        case (Search_Result n)
        with r star nonzero show ?thesis
          by (simp add: unf w1_def [symmetric] meaning parts del: glob.simps(2))
      next
        case (Search_Next w' t')
        with r w1(2) wc_search_loop_length have "length w' < length w" by fastforce
        with less.hyps [OF this _ rest] Search_Next r have
          "wc_outer ?mem w' t' (length T) = Some (if glob ts (drop t T) then 1 else 0)"
          by (simp add: meaning parts del: glob.simps(2))
        with Search_Next r(1) star nonzero show ?thesis
          by (simp add: unf w1_def [symmetric])
      qed
    qed
  qed
qed

text \<open>
  C36. Wildcard matching is correct: for every well-formed wildcard and every string, the greedy
  fragment search with its special case for the last fragment returns 1 when the string is in the
  language of the wildcard and 0 when it is not; it never reads past the terminator.
\<close>

theorem wc_match_decides:
  assumes "wild_parse wildcard = Some ts" and "0 \<notin> set target"
  shows "wc_match wildcard target = Some (if glob ts target then 1 else 0)"
proof (cases "cstr wildcard 0 = STAR")
  case True
  then have "ts = [] \<or> hd ts = Any_Run"
    using assms(1) by (auto simp: wild_parse.simps [of wildcard])
  with True wc_outer_spec [OF assms(2,1), of 0] show ?thesis
    by (simp add: wc_match_def wc_match_inner_def)
next
  case False
  define fr rest where "fr = takeWhile (\<lambda>x. x \<noteq> Any_Run) ts" and "rest = dropWhile (\<lambda>x. x \<noteq> Any_Run) ts"
  have parts: "ts = fr @ rest" by (simp add: fr_def rest_def)
  have fr: "is_frag fr" by (auto simp: fr_def dest: set_takeWhileD)
  have rest: "rest = [] \<or> hd rest = Any_Run"
    using hd_dropWhile [of "\<lambda>x. x \<noteq> Any_Run" ts] by (auto simp: rest_def)
  have frag: "if prefix_match fr target
      then \<exists>f'. wc_fragment (target @ [0]) wildcard 0 (length target) = Frag_Match f' (0 + length fr) \<and>
             wild_parse f' = Some rest
      else wc_fragment (target @ [0]) wildcard 0 (length target) = Frag_Fail"
    using wc_fragment_spec [OF assms(1) [unfolded parts] fr rest, of 0 "length target" "target @ [0]"] by simp
  show ?thesis
  proof (cases "prefix_match fr target")
    case True
    with frag obtain f' where f': "wc_fragment (target @ [0]) wildcard 0 (length target) = Frag_Match f' (length fr)"
      "wild_parse f' = Some rest" by auto
    from wc_outer_spec [OF assms(2) f'(2) rest, of "length fr"] prefix_match_length [OF True]
    have "wc_outer (target @ [0]) f' (length fr) (length target) =
        Some (if glob rest (drop (length fr) target) then 1 else 0)" by simp
    with False f' True show ?thesis
      by (simp add: wc_match_def wc_match_inner_def parts glob_frag [OF fr])
  next
    case no: False
    with False frag show ?thesis
      by (simp add: wc_match_def wc_match_inner_def parts glob_frag [OF fr])
  qed
qed

text \<open>\<^verbatim>\<open>"*a"\<close> against \<^verbatim>\<open>"parka"\<close>, the example of the comment on the special case.\<close>

lemma wc_match_decides_witness:
  "wc_match [42, 97] [112, 97, 114, 107, 97] = Some 1"
proof -
  have "wild_parse [42, 97] = Some [Any_Run, Literal 97]"
    by (simp add: wild_parse.simps)
  from wc_match_decides [OF this, of "[112, 97, 114, 107, 97]"] show ?thesis
    by (auto intro!: exI [of _ 4])
qed

text \<open>
  The variant for strings with an explicit length is not safe: searching for a fragment in a
  \<^verbatim>\<open>ptrlen\<close> that is not followed by a zero byte reads past its end whenever the fragment does not
  occur, as \<^verbatim>\<open>wc_match_inner\<close> tests the byte at the target instead of the target's end.
\<close>

theorem wc_match_pl_overreads:
  "list_all (\<lambda>c. c \<noteq> 0 \<and> c \<noteq> 97) target \<Longrightarrow> wc_match_pl [42, 97] target = None"
proof -
  assume no: "list_all (\<lambda>c. c \<noteq> 0 \<and> c \<noteq> 97) target"
  have "wc_search_loop target [97] t (length target) = None" for t
  proof (induction "length target - t" arbitrary: t rule: less_induct)
    case less
    show ?case
    proof (cases "t < length target")
      case True
      then have "target ! t \<noteq> 0" "target ! t \<noteq> 97" using no by (auto simp: list_all_length)
      then have "wc_fragment target [97] t (length target) = Frag_Fail"
        using True by (simp add: wc_fragment.simps)
      with True \<open>target ! t \<noteq> 0\<close> less.hyps [of "t + 1"] show ?thesis
        by (simp add: wc_search_loop.simps [of target "[97]" t])
    qed (simp add: wc_search_loop.simps [of target "[97]" t])
  qed
  then show ?thesis by (simp add: wc_match_pl_def wc_match_inner_def wc_outer.simps)
qed

lemma wc_match_pl_overreads_witness: "wc_match_pl [42, 97] [98, 99] = None"
  by (rule wc_match_pl_overreads) simp

end
